(* ===== verification/Prelude.thy ===== *)
theory Prelude
  imports Main "HOL-Library.Word"
begin

text \<open>
  Shared vocabulary of the development: the byte and word types the C++ code computes with,
  the collections of simplification facts that component proofs use, and generic lemmas on
  words, lists and options.

  A \<open>Slice\<close> or a \<open>std::string\<close> is the list of the bytes it refers to. A pointer pair
  \<open>[p, limit)\<close> is the list of bytes in that range, and advancing \<open>p\<close> is dropping a
  prefix. A read past the end of such a range is undefined behaviour in the source; in the
  model it is an unspecified value (\<open>xs ! i\<close> with \<open>i\<close> out of range), so no theorem
  can rest on it.
\<close>

unbundle bit_operations_syntax

type_synonym byte = "8 word"
type_synonym bytes = "byte list"
type_synonym uint32 = "32 word"
type_synonym uint64 = "64 word"

text \<open>Facts about the bits of words, used to compare encoders with decoders.\<close>
named_theorems word_bits
text \<open>Equations that evaluate a decoder on the output of an encoder.\<close>
named_theorems roundtrip
text \<open>Lengths of encodings.\<close>
named_theorems enc_length
text \<open>The invariant of a component is kept by its operations.\<close>
named_theorems preserves

lemma unat_of_nat_small32 [simp]: "n < 2 ^ 32 \<Longrightarrow> unat (of_nat n :: uint32) = n"
  by (simp add: unat_of_nat take_bit_nat_eq_self)

lemma unat_of_nat_small64 [simp]: "n < 2 ^ 64 \<Longrightarrow> unat (of_nat n :: uint64) = n"
  by (simp add: unat_of_nat take_bit_nat_eq_self)

lemma unat_lt: "unat (v :: 'a::len word) < 2 ^ LENGTH('a)"
  by (rule unsigned_less)

text \<open>The byte at bit position \<open>k\<close> of a word; what a C++ cast to \<open>unsigned char\<close> keeps.\<close>

abbreviation byte_at :: "nat \<Rightarrow> 'a::len word \<Rightarrow> byte" where
  "byte_at k w \<equiv> ucast (drop_bit k w)"

text \<open>Masks and flags of the code as operations on bits, the form the bit-level proofs use.\<close>

lemma and_127 [word_bits]: "v AND 127 = take_bit 7 (v :: 'a::len word)"
  by (simp add: take_bit_eq_mask mask_eq_exp_minus_1)

lemma and_255 [word_bits]: "v AND 255 = take_bit 8 (v :: 'a::len word)"
  by (simp add: take_bit_eq_mask mask_eq_exp_minus_1)

lemma or_128 [word_bits]: "v OR 128 = set_bit 7 (v :: 'a::len word)"
  by (simp add: set_bit_eq_or push_bit_eq_mult)

lemma and_128_eq_0 [word_bits]: "v AND 128 = 0 \<longleftrightarrow> \<not> bit (v :: 'a::len word) 7"
  using and_exp_eq_0_iff_not_bit [of v 7] by simp

lemma word_less_pow_bit:
  assumes "unat (v :: 'a::len word) < 2 ^ k" and "k \<le> n"
  shows "\<not> bit v n"
proof
  assume "bit v n"
  then have "bit (unat v) n" by (simp add: bit_unsigned_iff)
  moreover have "unat v < 2 ^ n"
    using assms by (meson less_le_trans one_le_numeral power_increasing)
  ultimately show False by (simp add: bit_iff_odd)
qed

text \<open>Joining the bytes of a word, lowest first.\<close>

lemma join_byte:
  "take_bit k w OR push_bit k (take_bit 8 (drop_bit k w)) = (take_bit (k + 8) w :: 'a::len word)"
proof (rule bit_word_eqI)
  fix n assume "n < LENGTH('a)"
  then show "bit (take_bit k w OR push_bit k (take_bit 8 (drop_bit k w))) n =
      bit (take_bit (k + 8) w) n"
    by (cases "n < k") (auto simp: bit_simps)
qed

lemma join_byte_tail:
  "take_bit k w OR (push_bit k (take_bit 8 (drop_bit k w)) OR x) =
    (take_bit (k + 8) w OR x :: 'a::len word)"
  by (simp only: join_byte flip: or.assoc)

lemma first_byte: "ucast (ucast w :: byte) = (take_bit 8 w :: 'a::len word)"
  by (rule bit_word_eqI) (auto simp: bit_simps)

text \<open>The decimal digits that \<open>printf\<close> writes for an unsigned number.\<close>

definition digit_char :: "nat \<Rightarrow> char" where
  "digit_char d = char_of (48 + d)"

fun decimal :: "nat \<Rightarrow> string" where
  "decimal n = (if n < 10 then [digit_char n] else decimal (n div 10) @ [digit_char (n mod 10)])"

declare decimal.simps [simp del]

text \<open>Lists.\<close>

lemma take_append_exact [simp]: "n = length xs \<Longrightarrow> take n (xs @ ys) = xs"
  by simp

lemma drop_append_exact [simp]: "n = length xs \<Longrightarrow> drop n (xs @ ys) = ys"
  by simp

lemma nth_update_if: "xs[i := v] ! j = (if i = j \<and> i < length xs then v else xs ! j)"
  by (cases "i < length xs") (auto simp: nth_list_update list_update_beyond)

end
