(* ===== verification/Coding.thy ===== *)
theory Coding
  imports Prelude
begin

text \<open>
  The byte-level encodings of \<open>util/coding.h\<close> and \<open>util/coding.cc\<close>: little-endian
  fixed-width integers, variable-length integers of seven bits per byte, and strings
  prefixed by their length. The \<open>Encode\<close> functions give the bytes they store at the
  destination pointer; the \<open>Put\<close> functions append them to a string. A parser takes the
  bytes of its input range and returns the value with the rest of the range, or \<open>None\<close>
  where the source returns \<open>NULL\<close> or \<open>false\<close>.
\<close>

subsection \<open>Fixed-width integers\<close>

definition EncodeFixed32 :: "uint32 \<Rightarrow> bytes" where
  "EncodeFixed32 v = [byte_at 0 v, byte_at 8 v, byte_at 16 v, byte_at 24 v]"

definition EncodeFixed64 :: "uint64 \<Rightarrow> bytes" where
  "EncodeFixed64 v = [byte_at 0 v, byte_at 8 v, byte_at 16 v, byte_at 24 v,
     byte_at 32 v, byte_at 40 v, byte_at 48 v, byte_at 56 v]"

definition PutFixed32 :: "bytes \<Rightarrow> uint32 \<Rightarrow> bytes" where
  "PutFixed32 dst v = dst @ EncodeFixed32 v"

definition PutFixed64 :: "bytes \<Rightarrow> uint64 \<Rightarrow> bytes" where
  "PutFixed64 dst v = dst @ EncodeFixed64 v"

text \<open>
  The little-endian branch loads the raw bytes. The other branch converts each \<open>char\<close> to
  \<open>uint32_t\<close>; whether \<open>char\<close> is signed, so that the conversion extends its sign, is up to the compiler
  and a parameter here.
\<close>

definition DecodeFixed32 :: "bytes \<Rightarrow> uint32" where
  "DecodeFixed32 p = ucast (p ! 0) OR push_bit 8 (ucast (p ! 1))
     OR push_bit 16 (ucast (p ! 2)) OR push_bit 24 (ucast (p ! 3))"

definition char_to_uint32 :: "bool \<Rightarrow> byte \<Rightarrow> uint32" where
  "char_to_uint32 char_signed c = (if char_signed then scast c else ucast c)"

definition DecodeFixed32_portable :: "bool \<Rightarrow> bytes \<Rightarrow> uint32" where
  "DecodeFixed32_portable char_signed p =
     char_to_uint32 char_signed (p ! 0) OR push_bit 8 (char_to_uint32 char_signed (p ! 1))
     OR push_bit 16 (char_to_uint32 char_signed (p ! 2)) OR push_bit 24 (char_to_uint32 char_signed (p ! 3))"

definition DecodeFixed64 :: "bytes \<Rightarrow> uint64" where
  "DecodeFixed64 p = ucast (p ! 0) OR push_bit 8 (ucast (p ! 1))
     OR push_bit 16 (ucast (p ! 2)) OR push_bit 24 (ucast (p ! 3))
     OR push_bit 32 (ucast (p ! 4)) OR push_bit 40 (ucast (p ! 5))
     OR push_bit 48 (ucast (p ! 6)) OR push_bit 56 (ucast (p ! 7))"

subsection \<open>Variable-length integers\<close>

definition EncodeVarint32 :: "uint32 \<Rightarrow> bytes" where
  "EncodeVarint32 v =
     (if v < 2 ^ 7 then [ucast v]
      else if v < 2 ^ 14 then [ucast (v OR 128), byte_at 7 v]
      else if v < 2 ^ 21 then
        [ucast (v OR 128), ucast (drop_bit 7 v OR 128), byte_at 14 v]
      else if v < 2 ^ 28 then
        [ucast (v OR 128), ucast (drop_bit 7 v OR 128), ucast (drop_bit 14 v OR 128),
         byte_at 21 v]
      else
        [ucast (v OR 128), ucast (drop_bit 7 v OR 128), ucast (drop_bit 14 v OR 128),
         ucast (drop_bit 21 v OR 128), byte_at 28 v])"

definition PutVarint32 :: "bytes \<Rightarrow> uint32 \<Rightarrow> bytes" where
  "PutVarint32 dst v = dst @ EncodeVarint32 v"

lemma drop_bit_7_less: "128 \<le> v \<Longrightarrow> unat (drop_bit 7 v) < unat (v :: uint64)"
proof -
  assume "128 \<le> v"
  then have "128 \<le> unat v" by (simp add: word_le_nat_alt)
  moreover have "unat (drop_bit 7 v) = unat v div 128"
    by (simp only: unat_drop_bit_eq) (simp add: drop_bit_eq_div)
  ultimately show ?thesis by simp
qed

function EncodeVarint64 :: "uint64 \<Rightarrow> bytes" where
  "EncodeVarint64 v =
     (if 128 \<le> v then ucast ((v AND 127) OR 128) # EncodeVarint64 (drop_bit 7 v)
      else [ucast v])"
  by pat_completeness auto
termination
  by (relation "measure unat") (auto simp: drop_bit_7_less)

definition PutVarint64 :: "bytes \<Rightarrow> uint64 \<Rightarrow> bytes" where
  "PutVarint64 dst v = dst @ EncodeVarint64 v"

definition PutLengthPrefixedSlice :: "bytes \<Rightarrow> bytes \<Rightarrow> bytes" where
  "PutLengthPrefixedSlice dst value =
     PutVarint32 dst (of_nat (length value)) @ value"

function VarintLength_loop :: "uint64 \<Rightarrow> nat \<Rightarrow> nat" where
  "VarintLength_loop v len =
     (if 128 \<le> v then VarintLength_loop (drop_bit 7 v) (Suc len) else len)"
  by pat_completeness auto
termination
  by (relation "measure (\<lambda>(v, len). unat v)") (auto simp: drop_bit_7_less)

definition VarintLength :: "uint64 \<Rightarrow> nat" where
  "VarintLength v = VarintLength_loop v 1"

declare EncodeVarint64.simps [simp del] VarintLength_loop.simps [simp del]

function GetVarint32_loop :: "nat \<Rightarrow> uint32 \<Rightarrow> bytes \<Rightarrow> (uint32 \<times> bytes) option" where
  "GetVarint32_loop shift result p =
     (if shift \<le> 28 \<and> p \<noteq> [] then
        (let byte = ucast (hd p) :: uint32; p' = tl p in
         if byte AND 128 \<noteq> 0
         then GetVarint32_loop (shift + 7) (result OR push_bit shift (byte AND 127)) p'
         else Some (result OR push_bit shift byte, p'))
      else None)"
  by pat_completeness auto
termination
  by (relation "measure (\<lambda>(shift, result, p). length p)") auto

definition GetVarint32PtrFallback :: "bytes \<Rightarrow> (uint32 \<times> bytes) option" where
  "GetVarint32PtrFallback p = GetVarint32_loop 0 0 p"

definition GetVarint32Ptr :: "bytes \<Rightarrow> (uint32 \<times> bytes) option" where
  "GetVarint32Ptr p =
     (case p of
        b # p' \<Rightarrow> (if ucast b AND (128 :: uint32) = 0 then Some (ucast b, p')
                  else GetVarint32PtrFallback p)
      | [] \<Rightarrow> GetVarint32PtrFallback p)"

definition GetVarint32 :: "bytes \<Rightarrow> (uint32 \<times> bytes) option" where
  "GetVarint32 input = (case GetVarint32Ptr input of None \<Rightarrow> None | Some (v, q) \<Rightarrow> Some (v, q))"

function GetVarint64_loop :: "nat \<Rightarrow> uint64 \<Rightarrow> bytes \<Rightarrow> (uint64 \<times> bytes) option" where
  "GetVarint64_loop shift result p =
     (if shift \<le> 63 \<and> p \<noteq> [] then
        (let byte = ucast (hd p) :: uint64; p' = tl p in
         if byte AND 128 \<noteq> 0
         then GetVarint64_loop (shift + 7) (result OR push_bit shift (byte AND 127)) p'
         else Some (result OR push_bit shift byte, p'))
      else None)"
  by pat_completeness auto
termination
  by (relation "measure (\<lambda>(shift, result, p). length p)") auto

declare GetVarint32_loop.simps [simp del] GetVarint64_loop.simps [simp del]

definition GetVarint64Ptr :: "bytes \<Rightarrow> (uint64 \<times> bytes) option" where
  "GetVarint64Ptr p = GetVarint64_loop 0 0 p"

definition GetVarint64 :: "bytes \<Rightarrow> (uint64 \<times> bytes) option" where
  "GetVarint64 input = (case GetVarint64Ptr input of None \<Rightarrow> None | Some (v, q) \<Rightarrow> Some (v, q))"

subsection \<open>Length-prefixed strings\<close>

text \<open>
  The pointer variant compares \<open>p + len\<close> with the limit, the slice variant compares the
  size; both give the string and the rest of the input.
\<close>

definition GetLengthPrefixedSlicePtr :: "bytes \<Rightarrow> (bytes \<times> bytes) option" where
  "GetLengthPrefixedSlicePtr p =
     (case GetVarint32Ptr p of
        None \<Rightarrow> None
      | Some (len, p') \<Rightarrow>
          (if unat len > length p' then None
           else Some (take (unat len) p', drop (unat len) p')))"

definition GetLengthPrefixedSlice :: "bytes \<Rightarrow> (bytes \<times> bytes) option" where
  "GetLengthPrefixedSlice input =
     (case GetVarint32 input of
        None \<Rightarrow> None
      | Some (len, input') \<Rightarrow>
          (if unat len \<le> length input'
           then Some (take (unat len) input', drop (unat len) input')
           else None))"

subsection \<open>Round trips of fixed-width integers\<close>

lemma EncodeFixed32_length [enc_length, simp]: "length (EncodeFixed32 v) = 4"
  by (simp add: EncodeFixed32_def)

lemma EncodeFixed64_length [enc_length, simp]: "length (EncodeFixed64 v) = 8"
  by (simp add: EncodeFixed64_def)

lemma DecodeFixed32_EncodeFixed32 [roundtrip, simp]:
  "DecodeFixed32 (EncodeFixed32 v @ rest) = v"
  by (simp add: DecodeFixed32_def EncodeFixed32_def first_byte join_byte join_byte_tail
      take_bit_word_eq_self)

lemma DecodeFixed64_EncodeFixed64 [roundtrip, simp]:
  "DecodeFixed64 (EncodeFixed64 v @ rest) = v"
  by (simp add: DecodeFixed64_def EncodeFixed64_def first_byte join_byte join_byte_tail
      take_bit_word_eq_self)

lemma DecodeFixed32_EncodeFixed32_all [roundtrip, simp]: "DecodeFixed32 (EncodeFixed32 v) = v"
  using DecodeFixed32_EncodeFixed32 [of v "[]"] by simp

lemma DecodeFixed64_EncodeFixed64_all [roundtrip, simp]: "DecodeFixed64 (EncodeFixed64 v) = v"
  using DecodeFixed64_EncodeFixed64 [of v "[]"] by simp

lemma EncodeFixed32_DecodeFixed32:
  assumes "length p = 4"
  shows "EncodeFixed32 (DecodeFixed32 p) = p"
proof -
  obtain a b c d where "p = [a, b, c, d]"
    using assms by (auto simp: numeral_eq_Suc length_Suc_conv)
  then show ?thesis
    by (auto simp: EncodeFixed32_def DecodeFixed32_def intro!: bit_word_eqI)
      (auto simp: bit_simps dest: bit_imp_le_length)
qed

lemma DecodeFixed32_append [simp]:
  "4 \<le> length p \<Longrightarrow> DecodeFixed32 (p @ q) = DecodeFixed32 p"
  by (simp add: DecodeFixed32_def nth_append) auto

lemma DecodeFixed64_append [simp]:
  "8 \<le> length p \<Longrightarrow> DecodeFixed64 (p @ q) = DecodeFixed64 p"
  by (simp add: DecodeFixed64_def nth_append) auto

text \<open>Decoding loses nothing: eight bytes are determined by the word they give.\<close>

primrec le_word :: "bytes \<Rightarrow> uint64" where
  "le_word [] = 0"
| "le_word (b # bs) = ucast b OR push_bit 8 (le_word bs)"

lemma le_word_bits: "bit (le_word bs) n \<Longrightarrow> n < 8 * length bs"
proof (induction bs arbitrary: n)
  case (Cons b bs)
  then have "bit b n \<or> 8 \<le> n \<and> bit (le_word bs) (n - 8)"
    by (auto simp: bit_simps)
  then show ?case
    by (auto dest: bit_imp_le_length dest!: Cons.IH)
qed simp

lemma le_word_inj:
  "le_word xs = le_word ys \<Longrightarrow> length xs = length ys \<Longrightarrow> length xs \<le> 8 \<Longrightarrow> xs = ys"
proof (induction xs arbitrary: ys)
  case (Cons x xs)
  then obtain y ys' where ys: "ys = y # ys'" and len: "length xs = length ys'" "length xs \<le> 7"
    by (cases ys) auto
  have hd: "ucast (le_word (b # bs)) = b" for b bs
    by (rule bit_word_eqI) (auto simp: bit_simps dest: bit_imp_le_length)
  have tl: "drop_bit 8 (le_word (b # bs)) = le_word bs" if "length bs \<le> 7" for b bs
    using that by (intro bit_word_eqI)
      (auto simp: bit_simps dest: bit_imp_le_length le_word_bits)
  from Cons.prems(1) ys have "x = y" by (metis hd)
  moreover from Cons.prems(1) ys len have "le_word xs = le_word ys'" by (metis tl)
  ultimately show ?case using Cons.IH [of ys'] ys len by simp
qed simp

lemma DecodeFixed64_inj:
  assumes "DecodeFixed64 p = DecodeFixed64 q" "length p = 8" "length q = 8"
  shows "p = q"
proof -
  have "DecodeFixed64 r = le_word r" if r: "length r = 8" for r
  proof -
    obtain a b c d e f g h where "r = [a, b, c, d, e, f, g, h]"
      using r by (auto simp: numeral_eq_Suc length_Suc_conv)
    then show ?thesis by (simp add: DecodeFixed64_def push_bit_or)
  qed
  with assms show ?thesis by (simp add: le_word_inj)
qed

subsection \<open>Round trips of variable-length integers\<close>

lemma varint_byte64: "ucast (ucast ((v AND 127) OR 128 :: uint64) :: byte) = ((v AND 127) OR 128)"
  by (rule bit_word_eqI) (auto simp: bit_simps word_bits)

lemma varint_byte32: "ucast (ucast ((v AND 127) OR 128 :: uint64) :: byte) = ((ucast v AND 127) OR 128 :: uint32)"
  by (rule bit_word_eqI) (auto simp: bit_simps word_bits)

lemma varint_more: "((x AND 127) OR 128) AND 128 = 0 \<longleftrightarrow> LENGTH('a) \<le> 7" for x :: "'a::len word"
  by (auto simp: bit_simps word_bits)

lemma varint_low7: "((x AND 127) OR 128) AND 127 = (x AND 127 :: 'a::len word)"
  by (rule bit_word_eqI) (auto simp: bit_simps word_bits)

lemma varint_split64:
  "push_bit s (v AND 127) OR push_bit (s + 7) (drop_bit 7 v) = push_bit s (v :: uint64)"
proof (rule bit_word_eqI)
  fix n assume "n < LENGTH(64)"
  then show "bit (push_bit s (v AND 127) OR push_bit (s + 7) (drop_bit 7 v)) n =
      bit (push_bit s v) n"
    by (cases "n < s + 7") (auto simp: bit_simps word_bits simp del: push_bit_and)
qed

lemma varint_split32:
  "push_bit s (ucast v AND 127) OR push_bit (s + 7) (ucast (drop_bit 7 v)) =
    push_bit s (ucast (v :: uint64) :: uint32)"
proof (rule bit_word_eqI)
  fix n assume "n < LENGTH(32)"
  then show "bit (push_bit s (ucast v AND 127 :: uint32) OR push_bit (s + 7) (ucast (drop_bit 7 v))) n =
      bit (push_bit s (ucast v :: uint32)) n"
    by (cases "n < s + 7") (auto simp: bit_simps word_bits simp del: push_bit_and)
qed

lemma small_bits: "(v :: uint64) < 128 \<Longrightarrow> bit v n \<Longrightarrow> n < 7"
  using word_less_pow_bit [of v 7 n] by (force simp: word_less_nat_alt)

lemma small_ucast:
  assumes "(v :: uint64) < 128"
  shows "(ucast (ucast v :: byte) :: 'a::len word) = ucast v"
  by (rule bit_word_eqI) (auto simp: bit_simps dest: small_bits [OF assms])

lemma small_no_more:
  assumes "(v :: uint64) < 128"
  shows "(ucast v :: 'a::len word) AND 128 = 0"
  by (auto simp: bit_simps word_bits dest: small_bits [OF assms])

lemma small_ucast64: "(v :: uint64) < 128 \<Longrightarrow> ucast (ucast v :: byte) = v"
  using small_ucast [of v, where ?'a = 64] by simp

lemma small_no_more64: "(v :: uint64) < 128 \<Longrightarrow> v AND 128 = 0"
  using small_no_more [of v, where ?'a = 64] by simp

lemma unat_drop_bit_7: "unat (drop_bit 7 (v :: uint64)) = unat v div 128"
  by (simp only: unat_drop_bit_eq) (simp add: drop_bit_eq_div)

text \<open>Seven bits fewer in the value leave room for seven more in the shift.\<close>

lemma varint_room:
  assumes "128 \<le> v" and "unat v < 2 ^ (w - shift)"
  shows "shift + 7 < w" and "unat (drop_bit 7 (v :: uint64)) < 2 ^ (w - (shift + 7))"
proof -
  have big: "128 \<le> unat v" using assms(1) by (simp add: word_le_nat_alt)
  show room: "shift + 7 < w"
  proof (rule ccontr)
    assume "\<not> ?thesis"
    then have "(2::nat) ^ (w - shift) \<le> 2 ^ 7" by (intro power_increasing) auto
    with big assms(2) show False by simp
  qed
  have "w - shift = (w - (shift + 7)) + 7" using room by simp
  then have "(2::nat) ^ (w - shift) = 2 ^ (w - (shift + 7)) * 128" by (simp only: power_add) simp
  with assms(2) show "unat (drop_bit 7 v) < 2 ^ (w - (shift + 7))"
    by (simp only: unat_drop_bit_7 less_mult_imp_div_less)
qed

lemma GetVarint64_loop_step:
  "s \<le> 63 \<Longrightarrow> GetVarint64_loop s r (ucast ((v AND 127) OR 128 :: uint64) # p) =
    GetVarint64_loop (s + 7) (r OR push_bit s (v AND 127)) p"
  by (subst GetVarint64_loop.simps)
    (simp add: Let_def varint_byte64 varint_more varint_low7 del: push_bit_and)

lemma GetVarint32_loop_step:
  "s \<le> 28 \<Longrightarrow> GetVarint32_loop s r (ucast ((v AND 127) OR 128 :: uint64) # p) =
    GetVarint32_loop (s + 7) (r OR push_bit s (ucast v AND 127)) p"
  by (subst GetVarint32_loop.simps)
    (simp add: Let_def varint_byte32 varint_more varint_low7 del: push_bit_and)

lemma GetVarint64_loop_EncodeVarint64:
  "unat v < 2 ^ (64 - shift) \<Longrightarrow> shift \<le> 63 \<Longrightarrow>
    GetVarint64_loop shift r (EncodeVarint64 v @ rest) = Some (r OR push_bit shift v, rest)"
proof (induction v arbitrary: shift r rule: EncodeVarint64.induct)
  case (1 v)
  show ?case
  proof (cases "128 \<le> v")
    case True
    note room = varint_room [OF True "1.prems"(1)]
    from room(1) have "shift + 7 \<le> 63" by simp
    with "1.IH" [OF True room(2)] True "1.prems"(2) show ?thesis
      by (simp add: EncodeVarint64.simps [of v] GetVarint64_loop_step or.assoc varint_split64
          del: push_bit_and)
  next
    case False
    then show ?thesis using "1.prems"(2)
      by (subst EncodeVarint64.simps, subst GetVarint64_loop.simps)
        (simp add: small_ucast64 small_no_more64 Let_def)
  qed
qed

lemma GetVarint32_loop_EncodeVarint64:
  "unat v < 2 ^ (32 - shift) \<Longrightarrow> shift \<le> 28 \<Longrightarrow> shift mod 7 = 0 \<Longrightarrow>
    GetVarint32_loop shift r (EncodeVarint64 v @ rest) = Some (r OR push_bit shift (ucast v), rest)"
proof (induction v arbitrary: shift r rule: EncodeVarint64.induct)
  case (1 v)
  show ?case
  proof (cases "128 \<le> v")
    case True
    note room = varint_room [OF True "1.prems"(1)]
    from room(1) "1.prems"(3) have "shift + 7 \<le> 28" "(shift + 7) mod 7 = 0" by presburger+
    with "1.IH" [OF True room(2)] True "1.prems"(2) show ?thesis
      by (simp add: EncodeVarint64.simps [of v] GetVarint32_loop_step or.assoc varint_split32
          del: push_bit_and)
  next
    case False
    then show ?thesis using "1.prems"(2)
      by (subst EncodeVarint64.simps, subst GetVarint32_loop.simps)
        (simp add: small_ucast small_no_more Let_def)
  qed
qed


subsection \<open>The unrolled encoder agrees with the loop\<close>

lemma ucast_or_128: "(ucast (w OR 128 :: uint32) :: byte) = ucast ((ucast w AND 127) OR 128 :: uint64)"
  by (rule bit_word_eqI) (auto simp: bit_simps word_bits)

lemma ucast_drop: "ucast (drop_bit k (v :: uint32)) = drop_bit k (ucast v :: uint64)"
  by (rule bit_word_eqI) (auto simp: bit_simps dest: bit_imp_le_length)

lemma unat_drop_bit_pow: "unat (drop_bit k (v :: 'a::len word)) = unat v div 2 ^ k"
  by (simp only: unat_drop_bit_eq) (simp add: drop_bit_eq_div)

lemma unat_ucast_32_64 [simp]: "unat (ucast (v :: uint32) :: uint64) = unat v"
  by (simp add: unsigned_ucast_eq take_bit_nat_eq_self_iff)
   (use unat_lt [of v] in simp)

lemma le_128_drop: "128 \<le> drop_bit k (ucast (v :: uint32) :: uint64) \<longleftrightarrow> 2 ^ (k + 7) \<le> unat v"
proof -
  have "128 \<le> unat v div 2 ^ k \<longleftrightarrow> 2 ^ (k + 7) \<le> unat v"
    by (auto simp: power_add less_eq_div_iff_mult_less_eq mult.commute)
  then show ?thesis by (simp only: word_le_nat_alt unat_drop_bit_pow unat_ucast_32_64) simp
qed

lemma byte_at_ucast: "byte_at k (ucast (v :: uint32) :: uint64) = byte_at k v"
  by (rule bit_word_eqI) (auto simp: bit_simps dest: bit_imp_le_length)

lemma EncodeVarint64_step32:
  "EncodeVarint64 (drop_bit k (ucast (v :: uint32))) =
      (if 2 ^ (k + 7) \<le> unat v
       then ucast (drop_bit k v OR 128) # EncodeVarint64 (drop_bit (k + 7) (ucast v))
       else [byte_at k v])"
  by (subst EncodeVarint64.simps)
    (simp add: le_128_drop ucast_or_128 ucast_drop byte_at_ucast add.commute [of 7])

lemma EncodeVarint32_eq_EncodeVarint64: "EncodeVarint32 v = EncodeVarint64 (ucast v)"
proof -
  have "EncodeVarint64 (ucast v) = EncodeVarint64 (drop_bit 0 (ucast v))" by simp
  also have "\<dots> = EncodeVarint32 v"
    using unat_lt [of v]
    by (simp add: EncodeVarint64_step32 [of 0, simplified] EncodeVarint64_step32 [of 7] EncodeVarint64_step32 [of 14]
       EncodeVarint64_step32 [of 21] EncodeVarint64_step32 [of 28]
       EncodeVarint32_def word_less_nat_alt not_le)
  finally show ?thesis by simp
qed

lemma GetVarint64_EncodeVarint64 [roundtrip, simp]:
  "GetVarint64 (EncodeVarint64 v @ rest) = Some (v, rest)"
  using GetVarint64_loop_EncodeVarint64 [of v 0 0 rest] unat_lt [of v]
  by (simp add: GetVarint64_def GetVarint64Ptr_def)

text \<open>The one-byte fast path of \<^const>\<open>GetVarint32Ptr\<close> agrees with the loop.\<close>

lemma GetVarint32Ptr_eq_Fallback: "GetVarint32Ptr p = GetVarint32PtrFallback p"
  by (auto simp: GetVarint32Ptr_def GetVarint32PtrFallback_def GetVarint32_loop.simps [of 0]
      Let_def split: list.splits)

lemma GetVarint32_eq_Ptr [simp]: "GetVarint32 p = GetVarint32Ptr p"
  by (simp add: GetVarint32_def split: option.splits)

lemma ucast_64_32 [simp]: "ucast (ucast (v :: uint32) :: uint64) = v"
  by (rule bit_word_eqI) (auto simp: bit_simps)

lemma GetVarint32Ptr_EncodeVarint32 [roundtrip, simp]:
  "GetVarint32Ptr (EncodeVarint32 v @ rest) = Some (v, rest)"
  using GetVarint32_loop_EncodeVarint64 [of "ucast v" 0 0 rest] unat_lt [of v]
  by (simp add: GetVarint32Ptr_eq_Fallback GetVarint32PtrFallback_def
      EncodeVarint32_eq_EncodeVarint64)

subsection \<open>Lengths\<close>

lemma VarintLength_loop_eq: "VarintLength_loop v len + 1 = len + length (EncodeVarint64 v)"
proof (induction v len rule: VarintLength_loop.induct)
  case (1 v len)
  then show ?case
    by (cases "128 \<le> v")
      (simp_all add: VarintLength_loop.simps [of v] EncodeVarint64.simps [of v])
qed

lemma VarintLength_eq [enc_length]: "VarintLength v = length (EncodeVarint64 v)"
  using VarintLength_loop_eq [of v 1] by (simp add: VarintLength_def)

lemma EncodeVarint64_length_bound:
  "unat v < 2 ^ (7 * n) \<Longrightarrow> 0 < n \<Longrightarrow> length (EncodeVarint64 v) \<le> n"
proof (induction v arbitrary: n rule: EncodeVarint64.induct)
  case (1 v)
  show ?case
  proof (cases "128 \<le> v")
    case True
    then have "128 \<le> unat v" by (simp add: word_le_nat_alt)
    with "1.prems" obtain m where n: "n = Suc m" and "0 < m"
      by (cases n; cases "n - 1") auto
    have "unat v < 2 ^ (7 * m) * 128" using "1.prems"(1) n by (simp add: power_add)
    then have "unat (drop_bit 7 v) < 2 ^ (7 * m)"
      by (simp only: unat_drop_bit_7 less_mult_imp_div_less)
    with "1.IH" [OF True _ \<open>0 < m\<close>] n True show ?thesis
      by (simp add: EncodeVarint64.simps [of v])
  next
    case False
    with "1.prems" show ?thesis by (simp add: EncodeVarint64.simps [of v])
  qed
qed

lemma EncodeVarint64_length: "length (EncodeVarint64 v) \<le> 10"
  using EncodeVarint64_length_bound [of v 10] unat_lt [of v] by simp

lemma EncodeVarint32_length: "length (EncodeVarint32 v) \<le> 5"
  using EncodeVarint64_length_bound [of "ucast v" 5] unat_lt [of v]
  by (simp add: EncodeVarint32_eq_EncodeVarint64)

lemma EncodeVarint64_nonempty [simp]: "EncodeVarint64 v \<noteq> []"
  by (simp add: EncodeVarint64.simps [of v])

lemma EncodeVarint32_nonempty [simp]: "EncodeVarint32 v \<noteq> []"
  by (simp add: EncodeVarint32_eq_EncodeVarint64)

subsection \<open>Parsers consume a prefix of their input\<close>

lemma GetVarint32_loop_suffix:
  "GetVarint32_loop s r p = Some (v, q) \<Longrightarrow> \<exists>u. u \<noteq> [] \<and> p = u @ q"
proof (induction s r p rule: GetVarint32_loop.induct)
  case (1 s r p)
  from "1.prems" obtain b p' where p: "p = b # p'" and "s \<le> 28"
    by (auto simp: GetVarint32_loop.simps [of s] neq_Nil_conv split: if_splits)
  show ?case
  proof (cases "ucast b AND (128 :: uint32) = 0")
    case True
    with "1.prems" p have "p = [b] @ q"
      by (simp add: GetVarint32_loop.simps [of s] Let_def split: if_splits)
    then show ?thesis by blast
  next
    case False
    with "1.prems" p \<open>s \<le> 28\<close> "1.IH" obtain u where "u \<noteq> []" "p' = u @ q"
      by (auto simp: GetVarint32_loop.simps [of s] Let_def)
    with p have "p = (b # u) @ q" by simp
    then show ?thesis by blast
  qed
qed

lemma GetVarint32Ptr_suffix: "GetVarint32Ptr p = Some (v, q) \<Longrightarrow> \<exists>u. u \<noteq> [] \<and> p = u @ q"
  by (simp add: GetVarint32Ptr_eq_Fallback GetVarint32PtrFallback_def GetVarint32_loop_suffix)

lemma GetVarint64_loop_suffix:
  "GetVarint64_loop s r p = Some (v, q) \<Longrightarrow> \<exists>u. u \<noteq> [] \<and> p = u @ q"
proof (induction s r p rule: GetVarint64_loop.induct)
  case (1 s r p)
  from "1.prems" obtain b p' where p: "p = b # p'" and "s \<le> 63"
    by (auto simp: GetVarint64_loop.simps [of s] neq_Nil_conv split: if_splits)
  show ?case
  proof (cases "ucast b AND (128 :: uint64) = 0")
    case True
    with "1.prems" p have "p = [b] @ q"
      by (simp add: GetVarint64_loop.simps [of s] Let_def split: if_splits)
    then show ?thesis by blast
  next
    case False
    with "1.prems" p \<open>s \<le> 63\<close> "1.IH" obtain u where "u \<noteq> []" "p' = u @ q"
      by (auto simp: GetVarint64_loop.simps [of s] Let_def)
    with p have "p = (b # u) @ q" by simp
    then show ?thesis by blast
  qed
qed

lemma GetVarint64_suffix: "GetVarint64 p = Some (v, q) \<Longrightarrow> \<exists>u. u \<noteq> [] \<and> p = u @ q"
  by (auto simp: GetVarint64_def GetVarint64Ptr_def split: option.splits
      dest!: GetVarint64_loop_suffix)

lemma GetLengthPrefixedSlice_eq_Ptr: "GetLengthPrefixedSlice p = GetLengthPrefixedSlicePtr p"
  by (auto simp: GetLengthPrefixedSlice_def GetLengthPrefixedSlicePtr_def split: option.splits)

lemma GetLengthPrefixedSlice_suffix:
  "GetLengthPrefixedSlice p = Some (v, q) \<Longrightarrow> \<exists>u. u \<noteq> [] \<and> p = u @ v @ q"
  by (fastforce simp: GetLengthPrefixedSlice_def split: option.splits if_splits
      dest!: GetVarint32Ptr_suffix)

lemma GetLengthPrefixedSlice_length:
  "GetLengthPrefixedSlice p = Some (v, q) \<Longrightarrow> length q < length p"
  by (auto dest!: GetLengthPrefixedSlice_suffix)

abbreviation length_prefixed :: "bytes \<Rightarrow> bytes" where
  "length_prefixed s \<equiv> EncodeVarint32 (of_nat (length s)) @ s"

lemma PutLengthPrefixedSlice_eq: "PutLengthPrefixedSlice dst s = dst @ length_prefixed s"
  by (simp add: PutLengthPrefixedSlice_def PutVarint32_def)

lemma GetLengthPrefixedSlice_roundtrip [roundtrip, simp]:
  assumes "length s < 2 ^ 32"
  shows "GetLengthPrefixedSlice (EncodeVarint32 (of_nat (length s)) @ s @ rest) = Some (s, rest)"
  using assms by (simp add: GetLengthPrefixedSlice_def del: append_assoc)

subsection \<open>Round trips\<close>

text \<open>C24: Every 32-bit and every 64-bit number is read back from its variable-length encoding,
  whatever follows it, and the encoding is as long as \<open>VarintLength\<close> says: at most five bytes
  and at most ten.\<close>

theorem varint_roundtrip:
  "GetVarint32 (PutVarint32 [] v @ rest) = Some (v, rest) \<and>
   GetVarint64 (PutVarint64 [] w @ rest) = Some (w, rest) \<and>
   length (PutVarint64 [] w) = VarintLength w \<and> length (PutVarint32 [] v) \<le> 5 \<and> VarintLength w \<le> 10"
  using EncodeVarint32_length [of v] EncodeVarint64_length [of w]
  by (simp add: PutVarint32_def PutVarint64_def VarintLength_eq)

text \<open>The five unrolled cases of \<open>EncodeVarint32\<close> write what the loop of \<open>EncodeVarint64\<close>
  writes, and the fast path of \<open>GetVarint32Ptr\<close> reads what its fallback reads.\<close>

theorem varint32_eq_loop:
  "EncodeVarint32 v = EncodeVarint64 (ucast v) \<and> GetVarint32Ptr p = GetVarint32PtrFallback p"
  by (simp add: EncodeVarint32_eq_EncodeVarint64 GetVarint32Ptr_eq_Fallback)

lemma bit_scast_byte: "bit (scast (c :: byte) :: uint32) n \<longleftrightarrow> n < 32 \<and> bit c (if n < 8 then n else 7)"
proof (cases "n < 8")
  case True
  then have "n = 7 \<or> n < 7" by linarith
  then show ?thesis by (auto simp: bit_signed_iff min_def)
next
  case False
  then have "min (LENGTH(8) - 1) n = 7" by simp
  then show ?thesis using False by (auto simp: bit_signed_iff simp del: One_nat_def diff_Suc_1)
qed

lemma bit_byte_at: "bit (byte_at k (v :: uint32)) m \<longleftrightarrow> m < 8 \<and> bit v (k + m)"
  by (auto simp: bit_simps)

lemma nat_split8: "(n :: nat) < 32 \<Longrightarrow> n < 8 \<or> (\<exists>m < 8. n = 8 + m) \<or> (\<exists>m < 8. n = 16 + m) \<or> (\<exists>m < 8. n = 24 + m)"
  by presburger

lemma portable_signed_bit:
  "bit (DecodeFixed32_portable True (EncodeFixed32 v @ rest)) n \<longleftrightarrow> n < 32 \<and>
     (bit v n \<or> 8 \<le> n \<and> bit v 7 \<or> 16 \<le> n \<and> bit v 15 \<or> 24 \<le> n \<and> bit v 23)"
proof (cases "n < 32")
  case True
  then consider "n < 8" | m where "m < 8" "n = 8 + m" | m where "m < 8" "n = 16 + m" | m where "m < 8" "n = 24 + m"
    using nat_split8 by blast
  then show ?thesis
    by cases (auto simp: DecodeFixed32_portable_def char_to_uint32_def EncodeFixed32_def bit_or_iff bit_push_bit_iff bit_scast_byte bit_byte_at [of 0, simplified] bit_byte_at bit_drop_bit_eq)
qed (auto dest: bit_imp_le_length)

lemma drop_bit_full:
  assumes "k \<le> 32"
  shows "drop_bit k (v :: uint32) = mask (32 - k) \<longleftrightarrow> (\<forall>n. k \<le> n \<longrightarrow> n < 32 \<longrightarrow> bit v n)"
proof
  assume eq: "drop_bit k v = mask (32 - k)"
  show "\<forall>n. k \<le> n \<longrightarrow> n < 32 \<longrightarrow> bit v n"
  proof (intro allI impI)
    fix n assume n: "k \<le> n" "n < 32"
    then have "bit (drop_bit k v) (n - k)" unfolding eq by (auto simp: bit_mask_iff)
    then show "bit v n" using n(1) by (simp add: bit_drop_bit_eq)
  qed
next
  assume all: "\<forall>n. k \<le> n \<longrightarrow> n < 32 \<longrightarrow> bit v n"
  show "drop_bit k v = mask (32 - k)"
  proof (rule bit_word_eqI)
    fix m assume "m < LENGTH(32)"
    have "bit v (k + m) \<longleftrightarrow> k + m < 32" using all bit_imp_le_length [of v "k + m"] by auto
    then show "bit (drop_bit k v) m \<longleftrightarrow> bit (mask (32 - k) :: uint32) m"
      using assms \<open>m < LENGTH(32)\<close> by (auto simp: bit_drop_bit_eq bit_mask_iff)
  qed
qed

text \<open>C34: On a machine that is not little-endian \<open>DecodeFixed32\<close> reads every number back when \<open>char\<close> is unsigned. When it
  is signed, a number is read back exactly if, for each of its three lower bytes, the top bit is clear or all
  higher bytes are 255; any other number, such as 128, is misread, since the sign of the byte spreads over the
  bytes above it.\<close>

theorem DecodeFixed32_portable_sign:
  "DecodeFixed32_portable False (EncodeFixed32 v @ rest) = v \<and>
   (DecodeFixed32_portable True (EncodeFixed32 v @ rest) = v \<longleftrightarrow>
      (bit v 7 \<longrightarrow> drop_bit 8 v = mask 24) \<and> (bit v 15 \<longrightarrow> drop_bit 16 v = mask 16) \<and> (bit v 23 \<longrightarrow> drop_bit 24 v = mask 8))"
proof
  show "DecodeFixed32_portable False (EncodeFixed32 v @ rest) = v"
    using DecodeFixed32_EncodeFixed32 [of v rest] by (simp add: DecodeFixed32_portable_def char_to_uint32_def DecodeFixed32_def)
  have "DecodeFixed32_portable True (EncodeFixed32 v @ rest) = v \<longleftrightarrow>
      (\<forall>n < 32. (8 \<le> n \<and> bit v 7 \<longrightarrow> bit v n) \<and> (16 \<le> n \<and> bit v 15 \<longrightarrow> bit v n) \<and> (24 \<le> n \<and> bit v 23 \<longrightarrow> bit v n))"
    by (auto simp: bit_eq_iff portable_signed_bit)
  also have "\<dots> \<longleftrightarrow> (bit v 7 \<longrightarrow> drop_bit 8 v = mask 24) \<and> (bit v 15 \<longrightarrow> drop_bit 16 v = mask 16) \<and> (bit v 23 \<longrightarrow> drop_bit 24 v = mask 8)"
    using drop_bit_full [of 8 v] drop_bit_full [of 16 v] drop_bit_full [of 24 v] by auto
  finally show "DecodeFixed32_portable True (EncodeFixed32 v @ rest) = v \<longleftrightarrow>
      (bit v 7 \<longrightarrow> drop_bit 8 v = mask 24) \<and> (bit v 15 \<longrightarrow> drop_bit 16 v = mask 16) \<and> (bit v 23 \<longrightarrow> drop_bit 24 v = mask 8)" .
qed

theorem DecodeFixed32_portable_sign_witness:
  "DecodeFixed32_portable True (EncodeFixed32 128 @ []) \<noteq> 128 \<and> DecodeFixed32_portable True (EncodeFixed32 0xffffff80 @ []) = 0xffffff80"
proof -
  have "bit (128 :: uint32) 7" "drop_bit 8 (128 :: uint32) \<noteq> mask 24" "drop_bit 8 (0xffffff80 :: uint32) = mask 24"
    "drop_bit 16 (0xffffff80 :: uint32) = mask 16" "drop_bit 24 (0xffffff80 :: uint32) = mask 8" by code_simp+
  then show ?thesis using DecodeFixed32_portable_sign [where v = 128 and rest = "[]"] DecodeFixed32_portable_sign [where v = "0xffffff80" and rest = "[]"] by blast
qed

end
