(* ===== verification/Util.thy ===== *)
theory Util
  imports Coding
begin

text \<open>
  Small utilities: \<open>util/status.cc\<close> and \<open>include/leveldb/status.h\<close> (result codes with a
  message), \<open>util/hash.cc\<close> (the hash of cache keys) and \<open>util/random.h\<close> (the generator
  that picks skip-list heights).
\<close>

subsection \<open>Status\<close>

datatype Code = kOk | kNotFound | kCorruption | kNotSupported | kInvalidArgument | kIOError

text \<open>
  The source packs a status into one array: the length of the message in four bytes, the code
  in one byte, then the message; an OK status is the null pointer. Messages are texts, so the
  model keeps them as \<open>string\<close> and keeps code and message apart.
\<close>

datatype Status = OK | Err Code string

definition mk_status :: "Code \<Rightarrow> string \<Rightarrow> string \<Rightarrow> Status" where
  "mk_status c msg msg2 = Err c (msg @ (if msg2 \<noteq> [] then '': '' @ msg2 else []))"

definition NotFound :: "string \<Rightarrow> string \<Rightarrow> Status" where
  "NotFound msg msg2 = mk_status kNotFound msg msg2"

definition Corruption :: "string \<Rightarrow> string \<Rightarrow> Status" where
  "Corruption msg msg2 = mk_status kCorruption msg msg2"

definition NotSupported :: "string \<Rightarrow> string \<Rightarrow> Status" where
  "NotSupported msg msg2 = mk_status kNotSupported msg msg2"

definition InvalidArgument :: "string \<Rightarrow> string \<Rightarrow> Status" where
  "InvalidArgument msg msg2 = mk_status kInvalidArgument msg msg2"

definition IOError :: "string \<Rightarrow> string \<Rightarrow> Status" where
  "IOError msg msg2 = mk_status kIOError msg msg2"

fun code :: "Status \<Rightarrow> Code" where
  "code OK = kOk"
| "code (Err c m) = c"

definition ok :: "Status \<Rightarrow> bool" where
  "ok s \<longleftrightarrow> s = OK"

definition IsNotFound :: "Status \<Rightarrow> bool" where
  "IsNotFound s \<longleftrightarrow> code s = kNotFound"

fun Status_ToString :: "Status \<Rightarrow> string" where
  "Status_ToString OK = ''OK''"
| "Status_ToString (Err c m) =
     (case c of
        kOk \<Rightarrow> ''OK''
      | kNotFound \<Rightarrow> ''NotFound: ''
      | kCorruption \<Rightarrow> ''Corruption: ''
      | kNotSupported \<Rightarrow> ''Not implemented: ''
      | kInvalidArgument \<Rightarrow> ''Invalid argument: ''
      | kIOError \<Rightarrow> ''IO error: '') @ m"

lemmas status_defs = NotFound_def Corruption_def NotSupported_def InvalidArgument_def IOError_def
  mk_status_def ok_def IsNotFound_def

lemma status_not_OK [simp]:
  "NotFound m n \<noteq> OK" "Corruption m n \<noteq> OK" "NotSupported m n \<noteq> OK"
  "InvalidArgument m n \<noteq> OK" "IOError m n \<noteq> OK"
  by (simp_all add: status_defs)

lemma ok_OK [simp]: "ok OK"
  by (simp add: ok_def)

lemma not_ok_error [simp]:
  "\<not> ok (NotFound m n)" "\<not> ok (Corruption m n)" "\<not> ok (NotSupported m n)"
  "\<not> ok (InvalidArgument m n)" "\<not> ok (IOError m n)"
  by (simp_all add: status_defs)

lemma okD [dest]: "ok s \<Longrightarrow> s = OK"
  by (simp add: ok_def)

subsection \<open>Hash\<close>

text \<open>The trailing bytes are read through a signed \<open>char\<close> and so extend their sign.\<close>

function Hash_loop :: "uint32 \<Rightarrow> bytes \<Rightarrow> uint32 \<times> bytes" where
  "Hash_loop h data =
     (if 4 \<le> length data then
        (let w = DecodeFixed32 data;
             h1 = h + w;
             h2 = h1 * 0xc6a4a793;
             h3 = h2 XOR drop_bit 16 h2
         in Hash_loop h3 (drop 4 data))
      else (h, data))"
  by pat_completeness auto
termination
  by (relation "measure (\<lambda>(h, data). length data)") auto

declare Hash_loop.simps [simp del]

definition Hash :: "bytes \<Rightarrow> uint32 \<Rightarrow> uint32" where
  "Hash data seed =
     (let m = 0xc6a4a793; r = 24;
          h = seed XOR (of_nat (length data) * m);
          (h, rest) = Hash_loop h data;
          h = (if length rest = 3 then h + push_bit 16 (scast (rest ! 2)) else h);
          h = (if length rest \<ge> 2 then h + push_bit 8 (scast (rest ! 1)) else h)
      in if length rest \<ge> 1 then
           (let h = (h + scast (rest ! 0)) * m in h XOR drop_bit r h)
         else h)"

lemma Hash_loop_rest: "length (snd (Hash_loop h data)) = length data mod 4"
proof (induction h data rule: Hash_loop.induct)
  case (1 h data)
  then show ?case
    by (cases "4 \<le> length data") (auto simp: Hash_loop.simps [of h data] Let_def le_mod_geq)
qed

subsection \<open>Random numbers\<close>

record Random =
  seed :: uint32

definition Random_new :: "uint32 \<Rightarrow> Random" where
  "Random_new s = \<lparr>seed = s AND 0x7fffffff\<rparr>"

definition Random_Next :: "Random \<Rightarrow> uint32 \<times> Random" where
  "Random_Next r =
     (let M = 2147483647 :: uint32; A = 16807 :: uint64;
          product = ucast (seed r) * A;
          s = ucast (drop_bit 31 product + (product AND ucast M)) :: uint32;
          s' = (if s > M then s - M else s)
      in (s', r\<lparr>seed := s'\<rparr>))"

definition Uniform :: "Random \<Rightarrow> uint32 \<Rightarrow> uint32 \<times> Random" where
  "Uniform r n = (let (v, r') = Random_Next r in (v mod n, r'))"

definition OneIn :: "Random \<Rightarrow> uint32 \<Rightarrow> bool \<times> Random" where
  "OneIn r n = (let (v, r') = Random_Next r in (v mod n = 0, r'))"

definition Skewed :: "Random \<Rightarrow> nat \<Rightarrow> uint32 \<times> Random" where
  "Skewed r max_log =
     (let (k, r') = Uniform r (of_nat (max_log + 1)) in Uniform r' (push_bit (unat k) 1))"

text \<open>
  \<^const>\<open>Random_Next\<close> computes the product modulo \<open>2\<^sup>31 - 1\<close> by folding the high bits
  onto the low ones; for a seed between 1 and \<open>M - 1\<close> the fold is the remainder.
\<close>

lemma fold_mod_mersenne:
  fixes p M s :: nat
  assumes M: "M = 2 ^ 31 - 1" and s: "s = p div 2 ^ 31 + p mod 2 ^ 31"
    and pos: "0 < p mod M" and bound: "p < M * 2 ^ 31"
  shows "(if s > M then s - M else s) = p mod M" and "s < 2 * M"
proof -
  have "p = (p div 2 ^ 31) * M + s"
    using div_mult_mod_eq [of p "2 ^ 31"] M s by simp
  then have eq: "p mod M = s mod M"
    by (metis mod_mult_self3)
  have "p div 2 ^ 31 < M" using bound by (rule less_mult_imp_div_less)
  moreover have "p mod 2 ^ 31 < 2 ^ 31" by simp
  then have "p mod 2 ^ 31 \<le> M" using M by linarith
  ultimately show small: "s < 2 * M" using s by linarith
  have "s \<noteq> M" using pos eq by auto
  show "(if s > M then s - M else s) = p mod M"
  proof (cases "s > M")
    case True
    then have "s mod M = (s - M) mod M" by (simp add: le_mod_geq)
    also have "\<dots> = s - M" using True small by (intro mod_less) linarith
    finally show ?thesis using True eq by simp
  next
    case False
    with \<open>s \<noteq> M\<close> eq show ?thesis by simp
  qed
qed

lemma Random_Next_seed: "seed (snd (Random_Next r)) = fst (Random_Next r)"
  by (simp add: Random_Next_def Let_def)

lemma multiplier_coprime: "coprime (2147483647 :: nat) 16807"
  by (simp add: coprime_iff_gcd_eq_1 gcd_non_0_nat)

lemma next_seed_positive:
  assumes "0 < k" and "k < 2147483647"
  shows "0 < k * 16807 mod (2147483647 :: nat)"
proof (rule ccontr)
  assume "\<not> ?thesis"
  then have "2147483647 dvd k * 16807" by (simp add: dvd_eq_mod_eq_0)
  then have "2147483647 dvd k" using multiplier_coprime by (simp add: coprime_dvd_mult_left_iff)
  with assms show False by (auto dest: dvd_imp_le)
qed

lemma Random_Next_eq:
  assumes lo: "0 < unat (seed r)" and hi: "unat (seed r) < 2147483647"
  shows "unat (fst (Random_Next r)) = unat (seed r) * 16807 mod 2147483647"
proof -
  note pos = next_seed_positive [OF lo hi]
  define p :: uint64 where "p = ucast (seed r) * 16807"
  define n where "n = unat (seed r) * 16807"
  have "n < 2147483647 * 16807" using hi by (simp add: n_def)
  then have p: "unat p = n"
    by (simp add: unat_word_ariths p_def n_def)
  define s where "s = n div 2 ^ 31 + n mod 2 ^ 31"
  have fm: "(if s > 2147483647 then s - 2147483647 else s) = n mod 2147483647" "s < 2 * 2147483647"
    using fold_mod_mersenne [of 2147483647 s n] pos \<open>n < 2147483647 * 16807\<close>
    by (simp_all only: s_def n_def) auto
  have "unat (drop_bit 31 p) = n div 2 ^ 31"
    by (simp only: unat_drop_bit_pow p)
  moreover have "p AND ucast (2147483647 :: uint32) = take_bit 31 p"
    by (simp add: take_bit_eq_mask mask_eq_exp_minus_1)
  then have "unat (p AND ucast (2147483647 :: uint32)) = n mod 2 ^ 31"
    by (simp only: unsigned_take_bit_eq p) (simp only: take_bit_eq_mod)
  ultimately have sum: "unat (drop_bit 31 p + (p AND ucast (2147483647 :: uint32))) = s"
    using fm(2) by (simp add: unat_word_ariths s_def)
  define w :: uint32 where "w = ucast (drop_bit 31 p + (p AND ucast (2147483647 :: uint32)))"
  have w: "unat w = s"
    using fm(2) unfolding w_def unsigned_ucast_eq sum by (simp add: take_bit_nat_eq_self)
  have "fst (Random_Next r) = (if w > 2147483647 then w - 2147483647 else w)"
    by (simp only: Random_Next_def Let_def fst_conv p_def w_def)
  also have "unat \<dots> = (if s > 2147483647 then s - 2147483647 else s)"
    using w by (simp add: word_less_nat_alt unat_sub word_le_nat_alt)
  finally show ?thesis using fm(1) by (simp add: n_def)
qed

text \<open>C26: For a seed between 1 and \<open>M - 1\<close> the generator, which avoids the division, yields the
  seed times 16807 modulo \<open>M = 2^31 - 1\<close>, again between 1 and \<open>M - 1\<close>, and makes it the next seed.\<close>

theorem Random_Next_lehmer:
  assumes "0 < unat (seed r)" "unat (seed r) < 2147483647" "Random_Next r = (v, r')"
  shows "unat v = unat (seed r) * 16807 mod 2147483647 \<and> seed r' = v \<and> 0 < unat v \<and> unat v < 2147483647"
  using Random_Next_eq [OF assms(1,2)] next_seed_positive [OF assms(1,2)] Random_Next_seed [of r] assms(3) by simp

theorem Random_Next_lehmer_witness:
  "unat (fst (Random_Next \<lparr>seed = 301\<rparr>)) = 301 * 16807 mod 2147483647"
  using Random_Next_lehmer [of "\<lparr>seed = 301\<rparr>" "fst (Random_Next \<lparr>seed = 301\<rparr>)" "snd (Random_Next \<lparr>seed = 301\<rparr>)"]
  by simp

end
