(* ===== verification/Comparators.thy ===== *)
theory Comparators
  imports Util "HOL-Library.List_Lexorder"
begin

text \<open>
  Key orders: \<open>Slice::compare\<close> of \<open>include/leveldb/slice.h\<close> and the bytewise comparator
  of \<open>util/comparator.cc\<close>. The virtual class \<open>Comparator\<close> is a record of its methods;
  what its clients rely on is the locale \<open>comparator\<close>, which extends the locale
  \<open>key_order\<close> of three-way comparisons.
\<close>

subsection \<open>The contract\<close>

locale key_order =
  fixes compare :: "'k \<Rightarrow> 'k \<Rightarrow> int" and valid :: "'k \<Rightarrow> bool"
  assumes compare_refl: "valid a \<Longrightarrow> compare a a = 0"
    and compare_flip: "valid a \<Longrightarrow> valid b \<Longrightarrow> compare b a < 0 \<longleftrightarrow> compare a b > 0"
    and compare_trans: "valid a \<Longrightarrow> valid b \<Longrightarrow> valid c \<Longrightarrow>
      compare a b \<le> 0 \<Longrightarrow> compare b c \<le> 0 \<Longrightarrow> compare a c \<le> 0"
begin

lemma compare_eq_flip: "valid a \<Longrightarrow> valid b \<Longrightarrow> compare b a = 0 \<longleftrightarrow> compare a b = 0"
  using compare_flip [of a b] compare_flip [of b a] by linarith

lemma compare_le_flip: "valid a \<Longrightarrow> valid b \<Longrightarrow> compare b a \<le> 0 \<longleftrightarrow> 0 \<le> compare a b"
  using compare_flip [of a b] compare_flip [of b a] compare_eq_flip [of a b] by linarith

lemma compare_less_le_trans:
  assumes "valid a" "valid b" "valid c" "compare a b < 0" "compare b c \<le> 0"
  shows "compare a c < 0"
proof (rule ccontr)
  assume "\<not> ?thesis"
  then have "compare c a \<le> 0" using compare_le_flip [of a c] assms by simp
  then have "compare b a \<le> 0" using compare_trans [of b c a] assms by simp
  then show False using compare_le_flip [of a b] assms by simp
qed

lemma compare_le_less_trans:
  assumes "valid a" "valid b" "valid c" "compare a b \<le> 0" "compare b c < 0"
  shows "compare a c < 0"
proof (rule ccontr)
  assume "\<not> ?thesis"
  then have "compare c a \<le> 0" using compare_le_flip [of a c] assms by simp
  then have "compare c b \<le> 0" using compare_trans [of c a b] assms by simp
  then show False using compare_le_flip [of b c] assms by simp
qed

lemma compare_less_trans:
  "valid a \<Longrightarrow> valid b \<Longrightarrow> valid c \<Longrightarrow> compare a b < 0 \<Longrightarrow> compare b c < 0 \<Longrightarrow> compare a c < 0"
  by (rule compare_less_le_trans) auto

lemmas compare_rules = compare_trans compare_less_le_trans compare_le_less_trans compare_less_trans

end

record Comparator =
  Name :: string
  Compare :: "bytes \<Rightarrow> bytes \<Rightarrow> int"
  FindShortestSeparator :: "bytes \<Rightarrow> bytes \<Rightarrow> bytes"
  FindShortSuccessor :: "bytes \<Rightarrow> bytes"

locale comparator = key_order "Compare cmp" valid
  for cmp :: Comparator and valid :: "bytes \<Rightarrow> bool" +
  assumes separator_valid:
      "valid a \<Longrightarrow> valid b \<Longrightarrow> valid (FindShortestSeparator cmp a b)"
    and separator_ge: "valid a \<Longrightarrow> valid b \<Longrightarrow> Compare cmp a b < 0 \<Longrightarrow>
      Compare cmp a (FindShortestSeparator cmp a b) \<le> 0"
    and separator_less: "valid a \<Longrightarrow> valid b \<Longrightarrow> Compare cmp a b < 0 \<Longrightarrow>
      Compare cmp (FindShortestSeparator cmp a b) b < 0"
    and successor_valid: "valid a \<Longrightarrow> valid (FindShortSuccessor cmp a)"
    and successor_ge: "valid a \<Longrightarrow> Compare cmp a (FindShortSuccessor cmp a) \<le> 0"
begin

text \<open>A separator divides the keys at or below \<open>a\<close> from those at or above \<open>b\<close>.\<close>

lemma separator_divides:
  assumes "valid a" "valid b" "Compare cmp a b < 0" "valid x"
  shows "Compare cmp x a \<le> 0 \<Longrightarrow> Compare cmp x (FindShortestSeparator cmp a b) \<le> 0"
    and "Compare cmp b x \<le> 0 \<Longrightarrow> Compare cmp (FindShortestSeparator cmp a b) x < 0"
  using assms separator_valid [of a b] separator_ge [of a b] separator_less [of a b]
  by (blast intro: compare_rules)+

end

subsection \<open>Slices\<close>

fun memcmp :: "bytes \<Rightarrow> bytes \<Rightarrow> nat \<Rightarrow> int" where
  "memcmp (x # xs) (y # ys) (Suc n) = (if x < y then -1 else if y < x then 1 else memcmp xs ys n)"
| "memcmp _ _ _ = 0"

text \<open>The source keeps the common length in an \<open>int\<close>, which is exact for keys shorter than 2 GB.\<close>

definition Slice_compare :: "bytes \<Rightarrow> bytes \<Rightarrow> int" where
  "Slice_compare a b =
     (let min_len = (if length a < length b then length a else length b);
          r = memcmp a b min_len
      in if r = 0 then (if length a < length b then -1 else if length a > length b then 1 else r)
         else r)"

definition starts_with :: "bytes \<Rightarrow> bytes \<Rightarrow> bool" where
  "starts_with s x \<longleftrightarrow> length s \<ge> length x \<and> memcmp s x (length x) = 0"

definition Slice_eq :: "bytes \<Rightarrow> bytes \<Rightarrow> bool" where
  "Slice_eq x y \<longleftrightarrow> length x = length y \<and> memcmp x y (length x) = 0"

definition remove_prefix :: "bytes \<Rightarrow> nat \<Rightarrow> bytes" where
  "remove_prefix s n = drop n s"

lemma memcmp_0: "n \<le> length a \<Longrightarrow> n \<le> length b \<Longrightarrow> memcmp a b n = 0 \<longleftrightarrow> take n a = take n b"
  by (induction a b n rule: memcmp.induct) auto

lemma Slice_eq_iff: "Slice_eq x y \<longleftrightarrow> x = y"
  by (auto simp: Slice_eq_def memcmp_0)

lemma starts_with_iff: "starts_with s x \<longleftrightarrow> (\<exists>t. s = x @ t)"
  by (auto simp: starts_with_def memcmp_0) (metis append_take_drop_id)

text \<open>Comparison of slices is the lexicographic order of their bytes.\<close>

lemma Slice_compare_Cons:
  "Slice_compare (x # xs) (y # ys) =
    (if x < y then -1 else if y < x then 1 else Slice_compare xs ys)"
  by (simp add: Slice_compare_def Let_def)

lemma Slice_compare_eq: "Slice_compare a b = (if a < b then -1 else if a = b then 0 else 1)"
proof (induction a arbitrary: b)
  case Nil
  show ?case by (cases b) (simp_all add: Slice_compare_def)
next
  case (Cons x xs)
  show ?case
  proof (cases b)
    case Nil
    then show ?thesis by (simp add: Slice_compare_def)
  next
    case (Cons y ys)
    then show ?thesis using Cons.IH [of ys] by (auto simp: Slice_compare_Cons)
  qed
qed

lemma Slice_compare_less [simp]: "Slice_compare a b < 0 \<longleftrightarrow> a < b"
  by (simp add: Slice_compare_eq)

lemma Slice_compare_le [simp]: "Slice_compare a b \<le> 0 \<longleftrightarrow> a \<le> b"
  by (auto simp: Slice_compare_eq)

lemma Slice_compare_greater [simp]: "0 < Slice_compare a b \<longleftrightarrow> b < a"
  by (auto simp: Slice_compare_eq)

lemma Slice_compare_0 [simp]: "Slice_compare a b = 0 \<longleftrightarrow> a = b"
  by (auto simp: Slice_compare_eq)

lemma prefix_less: "x < y \<Longrightarrow> pre @ x # xs < pre @ y # (ys :: 'a::linorder list)"
  by (induction pre) auto

lemma append_greater: "t \<noteq> [] \<Longrightarrow> s < s @ (t :: 'a::linorder list)"
  by (induction s) (auto simp: neq_Nil_conv)

subsection \<open>The bytewise comparator\<close>

fun common_prefix_length :: "bytes \<Rightarrow> bytes \<Rightarrow> nat" where
  "common_prefix_length (x # xs) (y # ys) =
     (if x = y then Suc (common_prefix_length xs ys) else 0)"
| "common_prefix_length _ _ = 0"

definition Bytewise_FindShortestSeparator :: "bytes \<Rightarrow> bytes \<Rightarrow> bytes" where
  "Bytewise_FindShortestSeparator start limit =
     (let min_length = min (length start) (length limit);
          diff_index = common_prefix_length start limit
      in if diff_index \<ge> min_length then start
         else (let diff_byte = start ! diff_index in
               if diff_byte < 0xff \<and> unat diff_byte + 1 < unat (limit ! diff_index)
               then take (diff_index + 1) (start[diff_index := diff_byte + 1])
               else start))"

fun Bytewise_FindShortSuccessor :: "bytes \<Rightarrow> bytes" where
  "Bytewise_FindShortSuccessor [] = []"
| "Bytewise_FindShortSuccessor (b # key) =
     (if b \<noteq> 0xff then [b + 1] else b # Bytewise_FindShortSuccessor key)"

definition BytewiseComparator :: Comparator where
  "BytewiseComparator =
     \<lparr>Name = ''leveldb.BytewiseComparator'', Compare = Slice_compare,
      FindShortestSeparator = Bytewise_FindShortestSeparator,
      FindShortSuccessor = Bytewise_FindShortSuccessor\<rparr>"

lemma common_prefix_take:
  "take (common_prefix_length a b) a = take (common_prefix_length a b) b"
  by (induction a b rule: common_prefix_length.induct) auto

lemma common_prefix_le:
  "common_prefix_length a b \<le> length a" "common_prefix_length a b \<le> length b"
  by (induction a b rule: common_prefix_length.induct) auto

lemma common_prefix_differ:
  "common_prefix_length a b < min (length a) (length b) \<Longrightarrow>
    a ! common_prefix_length a b \<noteq> b ! common_prefix_length a b"
  by (induction a b rule: common_prefix_length.induct) auto

lemma byte_succ: "b \<noteq> 0xff \<Longrightarrow> unat (b + 1 :: byte) = unat b + 1"
proof -
  assume "b \<noteq> 0xff"
  then have "unat b \<noteq> unat (0xff :: byte)" by (simp only: word_eq_iff_unsigned [where ?'a = nat] not_False_eq_True)
  then have "unat b \<noteq> 255" by simp
  moreover have "unat b < 256" using unat_lt [of b] by simp
  ultimately show ?thesis by (simp add: unat_word_ariths)
qed

text \<open>What the separator is when it differs from its first argument.\<close>

lemma Bytewise_separator_cases:
  obtains "Bytewise_FindShortestSeparator s l = s"
  | pre x y xs ys where "s = pre @ x # xs" "l = pre @ y # ys" "x < x + 1" "x + 1 < y"
      "Bytewise_FindShortestSeparator s l = pre @ [x + 1]"
proof (cases "Bytewise_FindShortestSeparator s l = s")
  case False
  let ?d = "common_prefix_length s l"
  have d: "?d < length s" "?d < length l" and lt: "s ! ?d < 0xff"
    "unat (s ! ?d) + 1 < unat (l ! ?d)"
    and r: "Bytewise_FindShortestSeparator s l = take (?d + 1) (s[?d := s ! ?d + 1])"
    using False by (auto simp: Bytewise_FindShortestSeparator_def Let_def split: if_splits)
  have succ: "unat (s ! ?d + 1) = unat (s ! ?d) + 1" 
    using lt(1) byte_succ [of "s ! ?d"] by auto
  show ?thesis
  proof (rule that(2))
    show "s = take ?d s @ s ! ?d # drop (Suc ?d) s" by (rule id_take_nth_drop [OF d(1)])
    show "l = take ?d s @ l ! ?d # drop (Suc ?d) l"
      using id_take_nth_drop [OF d(2)] by (simp add: common_prefix_take)
    show "s ! ?d < s ! ?d + 1" "s ! ?d + 1 < l ! ?d"
      using succ lt(2) by (simp_all add: word_less_nat_alt)
    show "Bytewise_FindShortestSeparator s l = take ?d s @ [s ! ?d + 1]"
      using r d by (simp add: take_Suc_conv_app_nth)
  qed
qed (rule that(1))

lemma Bytewise_separator_ge: "s \<le> Bytewise_FindShortestSeparator s l"
  by (rule Bytewise_separator_cases [of s l]) (auto intro!: less_imp_le prefix_less)

lemma Bytewise_separator_less:
  assumes "s < l"
  shows "Bytewise_FindShortestSeparator s l < l"
  by (rule Bytewise_separator_cases [of s l]) (use assms in \<open>auto intro!: prefix_less\<close>)

lemma Bytewise_successor_ge: "k \<le> Bytewise_FindShortSuccessor k"
  by (induction k rule: Bytewise_FindShortSuccessor.induct)
    (auto simp: word_less_nat_alt byte_succ)

lemma Bytewise_separator_length: "length (Bytewise_FindShortestSeparator s l) \<le> length s"
  by (rule Bytewise_separator_cases [of s l]) auto

lemma BytewiseComparator_simps [simp]:
  "Compare BytewiseComparator = Slice_compare"
  "FindShortestSeparator BytewiseComparator = Bytewise_FindShortestSeparator"
  "FindShortSuccessor BytewiseComparator = Bytewise_FindShortSuccessor"
  by (simp_all add: BytewiseComparator_def)

interpretation bytewise: comparator BytewiseComparator "\<lambda>_. True"
  by unfold_locales
    (auto simp: Bytewise_separator_less Bytewise_separator_ge Bytewise_successor_ge)

end
