(* ===== verification/Dbformat.thy ===== *)
theory Dbformat
  imports Comparators
begin

text \<open>
  Internal keys, \<open>db/dbformat.h\<close> and \<open>db/dbformat.cc\<close>: a user key followed by eight
  bytes that pack the sequence number and the value type, their order (user keys ascending,
  sequence numbers descending), and the keys used for lookups.
\<close>

subsection \<open>Constants and types\<close>

definition kNumLevels :: nat where "kNumLevels = 7"
definition kL0_CompactionTrigger :: nat where "kL0_CompactionTrigger = 4"
definition kL0_SlowdownWritesTrigger :: nat where "kL0_SlowdownWritesTrigger = 8"
definition kL0_StopWritesTrigger :: nat where "kL0_StopWritesTrigger = 12"
definition kMaxMemCompactLevel :: nat where "kMaxMemCompactLevel = 2"

datatype ValueType = kTypeDeletion | kTypeValue

fun type_code :: "ValueType \<Rightarrow> byte" where
  "type_code kTypeDeletion = 0"
| "type_code kTypeValue = 1"

definition kValueTypeForSeek :: ValueType where
  "kValueTypeForSeek = kTypeValue"

type_synonym SequenceNumber = uint64

definition kMaxSequenceNumber :: SequenceNumber where
  "kMaxSequenceNumber = 2 ^ 56 - 1"

record ParsedInternalKey =
  user_key :: bytes
  sequence :: SequenceNumber
  vtype :: ValueType

subsection \<open>Encoding and parsing\<close>

definition InternalKeyEncodingLength :: "ParsedInternalKey \<Rightarrow> nat" where
  "InternalKeyEncodingLength key = length (user_key key) + 8"

definition PackSequenceAndType :: "uint64 \<Rightarrow> ValueType \<Rightarrow> uint64" where
  "PackSequenceAndType seq t = push_bit 8 seq OR ucast (type_code t)"

definition AppendInternalKey :: "bytes \<Rightarrow> ParsedInternalKey \<Rightarrow> bytes" where
  "AppendInternalKey result key =
     PutFixed64 (result @ user_key key) (PackSequenceAndType (sequence key) (vtype key))"

definition InternalKey :: "bytes \<Rightarrow> SequenceNumber \<Rightarrow> ValueType \<Rightarrow> bytes" where
  "InternalKey k s t = AppendInternalKey [] \<lparr>user_key = k, sequence = s, vtype = t\<rparr>"

definition ExtractUserKey :: "bytes \<Rightarrow> bytes" where
  "ExtractUserKey internal_key = take (length internal_key - 8) internal_key"

definition ExtractTag :: "bytes \<Rightarrow> uint64" where
  "ExtractTag internal_key = DecodeFixed64 (drop (length internal_key - 8) internal_key)"

definition ExtractValueType :: "bytes \<Rightarrow> byte" where
  "ExtractValueType internal_key = ucast (ExtractTag internal_key AND 0xff)"

text \<open>The value type of a byte; bytes above \<open>kTypeValue\<close> are no member of the enumeration.\<close>

definition to_ValueType :: "byte \<Rightarrow> ValueType option" where
  "to_ValueType c = (if c = 0 then Some kTypeDeletion else if c = 1 then Some kTypeValue else None)"

definition ParseInternalKey :: "bytes \<Rightarrow> ParsedInternalKey option" where
  "ParseInternalKey internal_key =
     (let n = length internal_key in
      if n < 8 then None
      else (let num = ExtractTag internal_key; c = ucast (num AND 0xff) :: byte in
            case to_ValueType c of
              None \<Rightarrow> None
            | Some t \<Rightarrow> Some \<lparr>user_key = take (n - 8) internal_key,
                              sequence = drop_bit 8 num, vtype = t\<rparr>))"

subsection \<open>The order of internal keys\<close>

definition InternalKey_Compare :: "Comparator \<Rightarrow> bytes \<Rightarrow> bytes \<Rightarrow> int" where
  "InternalKey_Compare user akey bkey =
     (let r = Compare user (ExtractUserKey akey) (ExtractUserKey bkey) in
      if r = 0 then
        (let anum = ExtractTag akey; bnum = ExtractTag bkey in
         if anum > bnum then -1 else if anum < bnum then 1 else r)
      else r)"

text \<open>The test compares the whole internal key, not its user key, with the new user key.\<close>

definition InternalKey_FindShortestSeparator :: "Comparator \<Rightarrow> bytes \<Rightarrow> bytes \<Rightarrow> bytes" where
  "InternalKey_FindShortestSeparator user start limit =
     (let user_start = ExtractUserKey start; user_limit = ExtractUserKey limit;
          tmp = FindShortestSeparator user user_start user_limit
      in if Compare user start tmp < 0
         then PutFixed64 tmp (PackSequenceAndType kMaxSequenceNumber kValueTypeForSeek)
         else start)"

definition InternalKey_FindShortSuccessor :: "Comparator \<Rightarrow> bytes \<Rightarrow> bytes" where
  "InternalKey_FindShortSuccessor user key =
     (let ukey = ExtractUserKey key; tmp = FindShortSuccessor user ukey
      in if Compare user ukey tmp < 0
         then PutFixed64 tmp (PackSequenceAndType kMaxSequenceNumber kValueTypeForSeek)
         else key)"

definition InternalKeyComparator :: "Comparator \<Rightarrow> Comparator" where
  "InternalKeyComparator user =
     \<lparr>Name = ''leveldb.InternalKeyComparator'',
      Compare = InternalKey_Compare user,
      FindShortestSeparator = InternalKey_FindShortestSeparator user,
      FindShortSuccessor = InternalKey_FindShortSuccessor user\<rparr>"

subsection \<open>Lookup keys\<close>

text \<open>
  The array of a \<open>LookupKey\<close>; where it lives, in the object or on the heap, does not show.
  \<open>kstart_\<close> is the offset of the internal key in it.
\<close>

record LookupKey =
  start :: bytes
  kstart :: nat

definition LookupKey_new :: "bytes \<Rightarrow> SequenceNumber \<Rightarrow> LookupKey" where
  "LookupKey_new ukey s =
     (let usize = length ukey;
          pre = EncodeVarint32 (of_nat (usize + 8))
      in \<lparr>start = pre @ ukey @ EncodeFixed64 (PackSequenceAndType s kValueTypeForSeek),
          kstart = length pre\<rparr>)"

definition memtable_key :: "LookupKey \<Rightarrow> bytes" where
  "memtable_key k = start k"

definition internal_key :: "LookupKey \<Rightarrow> bytes" where
  "internal_key k = drop (kstart k) (start k)"

definition LookupKey_user_key :: "LookupKey \<Rightarrow> bytes" where
  "LookupKey_user_key k = take (length (start k) - kstart k - 8) (drop (kstart k) (start k))"

subsection \<open>Properties of tags\<close>

lemma seq_bits: "seq \<le> kMaxSequenceNumber \<Longrightarrow> bit seq n \<Longrightarrow> n < 56"
proof (rule ccontr)
  assume "seq \<le> kMaxSequenceNumber" "bit seq n" "\<not> n < 56"
  moreover from this(1) have "unat seq < 2 ^ 56"
    by (simp add: kMaxSequenceNumber_def word_le_nat_alt)
  ultimately show False using word_less_pow_bit [of seq 56 n] by simp
qed

lemma drop_bit_Pack:
  assumes "seq \<le> kMaxSequenceNumber"
  shows "drop_bit 8 (PackSequenceAndType seq t) = seq"
  by (rule bit_word_eqI)
    (auto simp: PackSequenceAndType_def bit_simps dest: seq_bits [OF assms] bit_imp_le_length)

lemma ucast_Pack: "ucast (PackSequenceAndType seq t AND 0xff) = type_code t"
  by (rule bit_word_eqI)
    (auto simp: PackSequenceAndType_def bit_simps word_bits dest: bit_imp_le_length)

lemma Pack_less:
  assumes "s \<le> kMaxSequenceNumber" "s' \<le> kMaxSequenceNumber" "s' < s"
  shows "PackSequenceAndType s' t' < PackSequenceAndType s t"
proof (rule ccontr)
  assume "\<not> ?thesis"
  then have "unat (PackSequenceAndType s t) div 2 ^ 8 \<le> unat (PackSequenceAndType s' t') div 2 ^ 8"
    by (intro div_le_mono) (simp add: word_less_nat_alt)
  then have "drop_bit 8 (PackSequenceAndType s t) \<le> drop_bit 8 (PackSequenceAndType s' t')"
    by (simp only: word_le_nat_alt unat_drop_bit_pow)
  with assms show False by (simp add: drop_bit_Pack)
qed

lemma Pack_le_seek: "PackSequenceAndType s t \<le> PackSequenceAndType s kTypeValue"
proof (cases t)
  case kTypeDeletion
  then show ?thesis using le_word_or2 [of "push_bit 8 s" "ucast (type_code kTypeValue)"]
    by (simp add: PackSequenceAndType_def)
qed simp

lemma Pack_le_iff:
  assumes "s \<le> kMaxSequenceNumber" "s' \<le> kMaxSequenceNumber"
  shows "PackSequenceAndType s' t \<le> PackSequenceAndType s kTypeValue \<longleftrightarrow> s' \<le> s"
proof (cases "s' = s")
  case False
  then show ?thesis
    using Pack_less [OF assms, of t kTypeValue] Pack_less [OF assms(2,1), of kTypeValue t]
    by (cases "s' < s") (auto simp: not_less order_le_less)
qed (simp add: Pack_le_seek)

lemma to_ValueType_code [simp]: "to_ValueType (type_code t) = Some t"
  by (cases t) (simp_all add: to_ValueType_def)

lemma InternalKey_eq: "InternalKey k s t = k @ EncodeFixed64 (PackSequenceAndType s t)"
  by (simp add: InternalKey_def AppendInternalKey_def PutFixed64_def)

lemma InternalKey_length [simp]: "length (InternalKey k s t) = length k + 8"
  by (simp add: InternalKey_eq)

lemma ExtractUserKey_append [simp]: "length tag = 8 \<Longrightarrow> ExtractUserKey (k @ tag) = k"
  by (simp add: ExtractUserKey_def)

lemma ExtractTag_append [simp]: "length tag = 8 \<Longrightarrow> ExtractTag (k @ tag) = DecodeFixed64 tag"
  by (simp add: ExtractTag_def)

lemma ExtractUserKey_InternalKey [simp]: "ExtractUserKey (InternalKey k s t) = k"
  by (simp add: InternalKey_eq)

lemma ExtractTag_InternalKey [simp]: "ExtractTag (InternalKey k s t) = PackSequenceAndType s t"
  by (simp add: InternalKey_eq)

lemma ParseInternalKey_InternalKey [roundtrip]:
  assumes "s \<le> kMaxSequenceNumber"
  shows "ParseInternalKey (InternalKey k s t) = Some \<lparr>user_key = k, sequence = s, vtype = t\<rparr>"
  using assms ExtractUserKey_InternalKey [of k s t]
  by (simp add: ParseInternalKey_def Let_def ucast_Pack drop_bit_Pack ExtractUserKey_def)

subsection \<open>The order is total, and equal keys are the same key\<close>

text \<open>Internal keys have at least the eight bytes of the tag.\<close>

definition valid_ikey :: "bytes \<Rightarrow> bool" where
  "valid_ikey k \<longleftrightarrow> 8 \<le> length k"

lemma valid_ikey_InternalKey [simp]: "valid_ikey (InternalKey k s t)"
  by (simp add: valid_ikey_def)

lemma ikey_eqI:
  assumes "valid_ikey a" "valid_ikey b" "ExtractUserKey a = ExtractUserKey b"
    "ExtractTag a = ExtractTag b"
  shows "a = b"
proof -
  have len: "length a = length b"
    using arg_cong [OF assms(3), of length] assms(1,2) by (simp add: ExtractUserKey_def valid_ikey_def)
  have "drop (length a - 8) a = drop (length b - 8) b"
    using assms by (intro DecodeFixed64_inj) (simp_all add: ExtractTag_def valid_ikey_def)
  with assms(3) len show ?thesis
    by (metis ExtractUserKey_def append_take_drop_id)
qed

locale ikey_order = user: comparator user "\<lambda>_. True" for user :: Comparator
begin

lemma ikey_key_order: "key_order (InternalKey_Compare user) valid_ikey"
proof unfold_locales
  fix a b c
  let ?u = "\<lambda>x y. Compare user (ExtractUserKey x) (ExtractUserKey y)"
  show "InternalKey_Compare user a a = 0"
    by (simp add: InternalKey_Compare_def user.compare_refl)
  show "InternalKey_Compare user b a < 0 \<longleftrightarrow> InternalKey_Compare user a b > 0"
    using user.compare_flip [of "ExtractUserKey a" "ExtractUserKey b"]
      user.compare_eq_flip [of "ExtractUserKey a" "ExtractUserKey b"]
    by (auto simp: InternalKey_Compare_def Let_def)
  assume le: "InternalKey_Compare user a b \<le> 0" "InternalKey_Compare user b c \<le> 0"
  then have u: "?u a b \<le> 0" "?u b c \<le> 0"
    by (auto simp: InternalKey_Compare_def Let_def split: if_splits)
  show "InternalKey_Compare user a c \<le> 0"
  proof (cases "?u a b < 0 \<or> ?u b c < 0")
    case True
    with u have "?u a c < 0"
      by (auto intro: user.compare_less_le_trans user.compare_le_less_trans)
    then show ?thesis by (simp add: InternalKey_Compare_def)
  next
    case False
    with u have eq: "?u a b = 0" "?u b c = 0" by auto
    then have "?u c b = 0" "?u b a = 0" using user.compare_eq_flip by simp_all
    with eq have "?u a c = 0"
      using user.compare_trans [of "ExtractUserKey a" "ExtractUserKey b" "ExtractUserKey c"]
        user.compare_trans [of "ExtractUserKey c" "ExtractUserKey b" "ExtractUserKey a"]
        user.compare_le_flip [where a = "ExtractUserKey a" and b = "ExtractUserKey c"] by simp
    with le eq show ?thesis
      by (auto simp: InternalKey_Compare_def Let_def split: if_splits)
  qed
qed

sublocale ikey: key_order "InternalKey_Compare user" valid_ikey
  by (rule ikey_key_order)

text \<open>Of two entries for one user key the newer one sorts first.\<close>

lemma newer_first:
  assumes "s \<le> kMaxSequenceNumber" "s' \<le> kMaxSequenceNumber" "s' < s"
  shows "InternalKey_Compare user (InternalKey k s t) (InternalKey k s' t') < 0"
  using Pack_less [OF assms] by (simp add: InternalKey_Compare_def Let_def user.compare_refl)

end

interpretation bytewise_ikey: ikey_order BytewiseComparator
  by unfold_locales

lemma InternalKey_Compare_user_less:
  "Compare user (ExtractUserKey a) (ExtractUserKey b) < 0 \<Longrightarrow> InternalKey_Compare user a b < 0"
  by (simp add: InternalKey_Compare_def)

lemma ikey_Compare_user_le:
  "InternalKey_Compare user a b \<le> 0 \<Longrightarrow> Compare user (ExtractUserKey a) (ExtractUserKey b) \<le> 0"
  by (auto simp: InternalKey_Compare_def Let_def split: if_splits)

lemma InternalKeyComparator_simps [simp]:
  "Compare (InternalKeyComparator user) = InternalKey_Compare user"
  "FindShortestSeparator (InternalKeyComparator user) = InternalKey_FindShortestSeparator user"
  "FindShortSuccessor (InternalKeyComparator user) = InternalKey_FindShortSuccessor user"
  by (simp_all add: InternalKeyComparator_def)

text \<open>
  What the separators of internal keys need of the user comparator beyond its own contract: a key does not sort
  after its extensions, since the test compares the whole internal key with the new user key, and a separator of
  equal keys is not larger than they are.
\<close>

locale prefix_comparator = ikey_order +
  assumes extension_ge: "Compare user k (k @ t) \<le> 0"
    and separator_equal: "Compare user a b = 0 \<Longrightarrow> Compare user (FindShortestSeparator user a b) a \<le> 0"
begin

lemma separator_cases:
  obtains "InternalKey_FindShortestSeparator user a b = a"
  | u where "Compare user (ExtractUserKey a) u < 0" "u = FindShortestSeparator user (ExtractUserKey a) (ExtractUserKey b)"
      "InternalKey_FindShortestSeparator user a b = InternalKey u kMaxSequenceNumber kTypeValue"
proof (cases "Compare user a (FindShortestSeparator user (ExtractUserKey a) (ExtractUserKey b)) < 0")
  case True
  have "a = ExtractUserKey a @ drop (length a - 8) a" by (simp add: ExtractUserKey_def)
  then have "Compare user (ExtractUserKey a) a \<le> 0" by (metis extension_ge)
  then have "Compare user (ExtractUserKey a) (FindShortestSeparator user (ExtractUserKey a) (ExtractUserKey b)) < 0"
    using True by (blast intro: user.compare_le_less_trans)
  with True show ?thesis
    by (intro that(2)) (auto simp: InternalKey_FindShortestSeparator_def Let_def PutFixed64_def InternalKey_eq kValueTypeForSeek_def)
next
  case False
  then show ?thesis by (intro that(1)) (simp add: InternalKey_FindShortestSeparator_def)
qed

lemma internal_comparator: "comparator (InternalKeyComparator user) valid_ikey"
proof (unfold_locales, goal_cases)
  case (1 a)
  then show ?case by (simp add: ikey.compare_refl)
next
  case (2 a b)
  then show ?case by (simp add: ikey.compare_flip)
next
  case (3 a b c)
  then show ?case using ikey.compare_trans [of a b c] by simp
next
  case (4 a b)
  then show ?case by (auto intro: separator_cases [of a b])
next
  case (5 a b)
  show ?case
    by (rule separator_cases [of a b])
      (use 5 in \<open>auto simp: ikey.compare_refl intro!: less_imp_le InternalKey_Compare_user_less\<close>)
next
  case (6 a b)
  note ab = 6
  show ?case
  proof (rule separator_cases [of a b])
    fix u assume u: "Compare user (ExtractUserKey a) u < 0" "u = FindShortestSeparator user (ExtractUserKey a) (ExtractUserKey b)"
      "InternalKey_FindShortestSeparator user a b = InternalKey u kMaxSequenceNumber kTypeValue"
    have le: "Compare user (ExtractUserKey a) (ExtractUserKey b) \<le> 0" using ab(3) ikey_Compare_user_le [of user a b] by simp
    have "Compare user (ExtractUserKey a) (ExtractUserKey b) \<noteq> 0"
      using separator_equal [of "ExtractUserKey a" "ExtractUserKey b"] u(1,2) user.compare_flip [of "ExtractUserKey a" u] by auto
    with le have "Compare user u (ExtractUserKey b) < 0" using user.separator_less u(2) by auto
    then show ?thesis using u(3) by (simp add: InternalKey_Compare_user_less)
  qed (use ab in simp)
next
  case (7 a)
  then show ?case by (auto simp: InternalKey_FindShortSuccessor_def Let_def PutFixed64_def valid_ikey_def)
next
  case (8 a)
  then show ?case
    by (auto simp: InternalKey_FindShortSuccessor_def Let_def PutFixed64_def ikey.compare_refl
        intro!: less_imp_le InternalKey_Compare_user_less)
qed

end

interpretation bytewise_prefix: prefix_comparator BytewiseComparator
proof
  show "Compare BytewiseComparator k (k @ t) \<le> 0" for k t
    by (cases t) (simp_all add: append_greater less_imp_le)
  show "Compare BytewiseComparator (FindShortestSeparator BytewiseComparator a b) a \<le> 0" if "Compare BytewiseComparator a b = 0" for a b
    using that by (auto simp: Bytewise_FindShortestSeparator_def Let_def split: if_splits dest: common_prefix_differ)
qed

interpretation bytewise_internal: comparator "InternalKeyComparator BytewiseComparator" valid_ikey
  by (rule bytewise_prefix.internal_comparator)

subsection \<open>Lookup keys\<close>

lemma internal_key_LookupKey: "internal_key (LookupKey_new k s) = InternalKey k s kTypeValue"
  by (simp add: internal_key_def LookupKey_new_def Let_def InternalKey_eq kValueTypeForSeek_def)

lemma user_key_LookupKey: "LookupKey_user_key (LookupKey_new k s) = k"
  by (simp add: LookupKey_user_key_def LookupKey_new_def Let_def)

lemma memtable_key_LookupKey:
  "memtable_key (LookupKey_new k s) = length_prefixed (InternalKey k s kTypeValue)"
  by (simp add: memtable_key_def LookupKey_new_def Let_def InternalKey_eq kValueTypeForSeek_def)

subsection \<open>Properties\<close>

text \<open>C27: An internal key is read back as the user key, sequence number and type it was made of; of two
  internal keys for the same user key the one with the larger sequence number sorts first.\<close>

theorem internal_key_order:
  assumes "s \<le> kMaxSequenceNumber" "s' \<le> kMaxSequenceNumber" "s' < s"
  shows "ParseInternalKey (InternalKey k s t) = Some \<lparr>user_key = k, sequence = s, vtype = t\<rparr> \<and>
    InternalKey_Compare BytewiseComparator (InternalKey k s t) (InternalKey k s' t') < 0"
  using bytewise_ikey.newer_first [OF assms] ParseInternalKey_InternalKey [OF assms(1)] by blast

theorem internal_key_order_witness:
  "InternalKey_Compare BytewiseComparator (InternalKey [1, 2] 7 kTypeDeletion) (InternalKey [1, 2] 6 kTypeValue) < 0"
  using internal_key_order [of 7 6] by (simp add: kMaxSequenceNumber_def)

text \<open>C28: The separator of two internal keys in increasing order is an internal key that divides the
  keys up to the first from the keys from the second on, so that an index of separators leads to
  the block that holds a key; the short successor is not below its key. This holds for user comparators that meet
  their contract, that do not sort a key after its extensions, and whose separator of equal keys is not
  larger than they are, such as the bytewise one; for a comparator that sorts a key after its extensions, such as
  one that compares backwards, the test of the whole internal key against the new user key does not protect the order.\<close>

theorem internal_separator_divides:
  assumes "prefix_comparator user" "valid_ikey a" "valid_ikey b" "InternalKey_Compare user a b < 0" "valid_ikey x"
  shows "valid_ikey (InternalKey_FindShortestSeparator user a b) \<and>
    (InternalKey_Compare user x a \<le> 0 \<longrightarrow> InternalKey_Compare user x (InternalKey_FindShortestSeparator user a b) \<le> 0) \<and>
    (InternalKey_Compare user b x \<le> 0 \<longrightarrow> InternalKey_Compare user (InternalKey_FindShortestSeparator user a b) x < 0) \<and>
    InternalKey_Compare user x (InternalKey_FindShortSuccessor user x) \<le> 0"
  using comparator.separator_divides [OF prefix_comparator.internal_comparator [OF assms(1)], of a b x]
    comparator.separator_valid [OF prefix_comparator.internal_comparator [OF assms(1)], of a b]
    comparator.successor_ge [OF prefix_comparator.internal_comparator [OF assms(1)], of x] assms(2-5) by simp

theorem internal_separator_divides_witness:
  "InternalKey_Compare BytewiseComparator (InternalKey_FindShortestSeparator BytewiseComparator
     (InternalKey [1, 7] 3 kTypeValue) (InternalKey [4] 2 kTypeValue)) (InternalKey [4] 2 kTypeValue) < 0"
  using internal_separator_divides [OF bytewise_prefix.prefix_comparator_axioms, of "InternalKey [1, 7] 3 kTypeValue" "InternalKey [4] 2 kTypeValue" "InternalKey [4] 2 kTypeValue"]
    InternalKey_Compare_user_less [of BytewiseComparator "InternalKey [1, 7] 3 kTypeValue" "InternalKey [4] 2 kTypeValue"]
    bytewise_ikey.ikey.compare_refl [of "InternalKey [4] 2 kTypeValue"]
  by simp

end
