(* ===== verification/Skiplist.thy ===== *)
theory Skiplist
  imports Comparators Util "HOL-Library.Multiset"
begin

text \<open>
  The skip list of \<open>db/skiplist.h\<close>. Nodes live in a heap, the list \<open>nodes\<close>, an address being
  an index into it and \<open>None\<close> being \<open>NULL\<close>; the head node has address 0. The loops follow
  pointers, so their models are partial functions: that they return is part of what is proved.
\<close>

subsection \<open>Nodes\<close>

definition kMaxHeight :: nat where "kMaxHeight = 12"

record 'k Node =
  nkey :: 'k
  next_links :: "nat option list"

definition Node_Next :: "'k Node list \<Rightarrow> nat \<Rightarrow> nat \<Rightarrow> nat option" where
  "Node_Next ns x n = next_links (ns ! x) ! n"

definition Node_SetNext :: "'k Node list \<Rightarrow> nat \<Rightarrow> nat \<Rightarrow> nat option \<Rightarrow> 'k Node list" where
  "Node_SetNext ns x n y = ns[x := (ns ! x)\<lparr>next_links := (next_links (ns ! x))[n := y]\<rparr>]"

text \<open>The links of a new node are set before anyone reads them.\<close>

definition NewNode :: "'k Node list \<Rightarrow> 'k \<Rightarrow> nat \<Rightarrow> nat \<times> 'k Node list" where
  "NewNode ns key height = (length ns, ns @ [\<lparr>nkey = key, next_links = replicate height None\<rparr>])"

subsection \<open>The list\<close>

record 'k SkipList =
  nodes :: "'k Node list"
  max_height :: nat
  rnd :: Random

definition head :: nat where "head = 0"

definition SkipList_new :: "'k \<Rightarrow> 'k SkipList" where
  "SkipList_new k0 =
     (let ns = snd (NewNode [] k0 kMaxHeight);
          ns = fold (\<lambda>i ns. Node_SetNext ns head i None) [0..<kMaxHeight] ns
      in \<lparr>nodes = ns, max_height = 1, rnd = Random_new 0xdeadbeef\<rparr>)"

function RandomHeight_loop :: "nat \<Rightarrow> Random \<Rightarrow> nat \<times> Random" where
  "RandomHeight_loop height r =
     (if height < kMaxHeight then
        (let (v, r) = Random_Next r in
         if v mod 4 = 0 then RandomHeight_loop (height + 1) r else (height, r))
      else (height, r))"
  by pat_completeness auto
termination by (relation "measure (\<lambda>(height, r). kMaxHeight - height)") auto

declare RandomHeight_loop.simps [simp del]

definition RandomHeight :: "Random \<Rightarrow> nat \<times> Random" where
  "RandomHeight r = RandomHeight_loop 1 r"

definition KeyIsAfterNode :: "('k \<Rightarrow> 'k \<Rightarrow> int) \<Rightarrow> 'k Node list \<Rightarrow> 'k \<Rightarrow> nat option \<Rightarrow> bool" where
  "KeyIsAfterNode compare ns key n =
     (case n of None \<Rightarrow> False | Some x \<Rightarrow> compare (nkey (ns ! x)) key < 0)"

text \<open>
  \<open>prev\<close> is an array of \<open>kMaxHeight\<close> pointers, \<open>None\<close> where nothing has been stored yet. It is
  filled in any case; callers that pass \<open>NULL\<close> in the source ignore it here.
\<close>

partial_function (option) FindGreaterOrEqual_loop ::
  "('k \<Rightarrow> 'k \<Rightarrow> int) \<Rightarrow> 'k Node list \<Rightarrow> 'k \<Rightarrow> nat \<Rightarrow> nat \<Rightarrow> nat option list \<Rightarrow>
    (nat option \<times> nat option list) option" where
  "FindGreaterOrEqual_loop compare ns key x level prev =
     (let next = Node_Next ns x level in
      if KeyIsAfterNode compare ns key next
      then FindGreaterOrEqual_loop compare ns key (the next) level prev
      else
        (let prev = prev[level := Some x] in
         if level = 0 then Some (next, prev)
         else FindGreaterOrEqual_loop compare ns key x (level - 1) prev))"

definition FindGreaterOrEqual ::
  "('k \<Rightarrow> 'k \<Rightarrow> int) \<Rightarrow> 'k SkipList \<Rightarrow> 'k \<Rightarrow> (nat option \<times> nat option list) option" where
  "FindGreaterOrEqual compare sl key =
     FindGreaterOrEqual_loop compare (nodes sl) key head (max_height sl - 1)
       (replicate kMaxHeight None)"

partial_function (option) FindLessThan_loop ::
  "('k \<Rightarrow> 'k \<Rightarrow> int) \<Rightarrow> 'k Node list \<Rightarrow> 'k \<Rightarrow> nat \<Rightarrow> nat \<Rightarrow> nat option" where
  "FindLessThan_loop compare ns key x level =
     (let next = Node_Next ns x level in
      if next = None \<or> compare (nkey (ns ! the next)) key \<ge> 0
      then (if level = 0 then Some x else FindLessThan_loop compare ns key x (level - 1))
      else FindLessThan_loop compare ns key (the next) level)"

definition FindLessThan :: "('k \<Rightarrow> 'k \<Rightarrow> int) \<Rightarrow> 'k SkipList \<Rightarrow> 'k \<Rightarrow> nat option" where
  "FindLessThan compare sl key = FindLessThan_loop compare (nodes sl) key head (max_height sl - 1)"

partial_function (option) FindLast_loop :: "'k Node list \<Rightarrow> nat \<Rightarrow> nat \<Rightarrow> nat option" where
  "FindLast_loop ns x level =
     (case Node_Next ns x level of
        None \<Rightarrow> if level = 0 then Some x else FindLast_loop ns x (level - 1)
      | Some next \<Rightarrow> FindLast_loop ns next level)"

definition FindLast :: "'k SkipList \<Rightarrow> nat option" where
  "FindLast sl = FindLast_loop (nodes sl) head (max_height sl - 1)"

text \<open>Linking the new node \<open>x\<close> in at level \<open>i\<close>.\<close>

definition Insert_link :: "nat option list \<Rightarrow> nat \<Rightarrow> nat \<Rightarrow> 'k Node list \<Rightarrow> 'k Node list" where
  "Insert_link prev x i ns =
     (let p = the (prev ! i);
          ns = Node_SetNext ns x i (Node_Next ns p i)
      in Node_SetNext ns p i (Some x))"

definition Insert :: "('k \<Rightarrow> 'k \<Rightarrow> int) \<Rightarrow> 'k SkipList \<Rightarrow> 'k \<Rightarrow> 'k SkipList option" where
  "Insert compare sl key =
     (case FindGreaterOrEqual compare sl key of
        None \<Rightarrow> None
      | Some (_, prev) \<Rightarrow>
          (let (height, r) = RandomHeight (rnd sl);
               (prev, mh) =
                 (if height > max_height sl
                  then (fold (\<lambda>i prev. prev[i := Some head]) [max_height sl..<height] prev, height)
                  else (prev, max_height sl));
               (x, ns) = NewNode (nodes sl) key height;
               ns = fold (Insert_link prev x) [0..<height] ns
           in Some \<lparr>nodes = ns, max_height = mh, rnd = r\<rparr>))"

definition Contains :: "('k \<Rightarrow> 'k \<Rightarrow> int) \<Rightarrow> 'k SkipList \<Rightarrow> 'k \<Rightarrow> bool option" where
  "Contains compare sl key =
     map_option (\<lambda>(x, _). case x of None \<Rightarrow> False | Some n \<Rightarrow> compare key (nkey (nodes sl ! n)) = 0)
       (FindGreaterOrEqual compare sl key)"

text \<open>The iterator is the address it stands at.\<close>

type_synonym Iter = "nat option"

definition Iter_Valid :: "Iter \<Rightarrow> bool" where "Iter_Valid it \<longleftrightarrow> it \<noteq> None"

definition Iter_key :: "'k SkipList \<Rightarrow> Iter \<Rightarrow> 'k" where
  "Iter_key sl it = nkey (nodes sl ! the it)"

definition Iter_Next :: "'k SkipList \<Rightarrow> Iter \<Rightarrow> Iter" where
  "Iter_Next sl it = Node_Next (nodes sl) (the it) 0"

definition Iter_Prev :: "('k \<Rightarrow> 'k \<Rightarrow> int) \<Rightarrow> 'k SkipList \<Rightarrow> Iter \<Rightarrow> Iter option" where
  "Iter_Prev compare sl it =
     map_option (\<lambda>n. if n = head then None else Some n) (FindLessThan compare sl (Iter_key sl it))"

definition Iter_Seek :: "('k \<Rightarrow> 'k \<Rightarrow> int) \<Rightarrow> 'k SkipList \<Rightarrow> 'k \<Rightarrow> Iter option" where
  "Iter_Seek compare sl target = map_option fst (FindGreaterOrEqual compare sl target)"

definition Iter_SeekToFirst :: "'k SkipList \<Rightarrow> Iter" where
  "Iter_SeekToFirst sl = Node_Next (nodes sl) head 0"

definition Iter_SeekToLast :: "'k SkipList \<Rightarrow> Iter option" where
  "Iter_SeekToLast sl = map_option (\<lambda>n. if n = head then None else Some n) (FindLast sl)"

subsection \<open>Positions in a list of nodes\<close>

definition after :: "nat \<Rightarrow> nat list \<Rightarrow> nat list" where
  "after x L = (if x = head then L else tl (dropWhile (\<lambda>a. a \<noteq> x) L))"

lemma after_head [simp]: "after head L = L"
  by (simp add: after_def)

lemma after_split: "x \<noteq> head \<Longrightarrow> x \<notin> set A \<Longrightarrow> after x (A @ x # B) = B"
  by (induction A) (auto simp: after_def)

lemma after_append: "x = head \<or> x \<in> set A \<Longrightarrow> after x (A @ B) = after x A @ B"
  by (induction A) (auto simp: after_def)

lemma after_append_right: "x \<noteq> head \<Longrightarrow> x \<notin> set A \<Longrightarrow> after x (A @ B) = after x B"
  by (induction A) (auto simp: after_def)

lemma find_append: "find P (xs @ ys) = (case find P xs of None \<Rightarrow> find P ys | Some x \<Rightarrow> Some x)"
  by (induction xs) auto

lemma find_None_filter: "find P xs = None \<longleftrightarrow> filter P xs = []"
  by (induction xs) auto

lemma find_SomeD: "find P xs = Some x \<Longrightarrow> x \<in> set xs \<and> P x"
  by (auto simp: find_Some_iff)

lemma after_subset: "x = head \<or> x \<in> set A \<Longrightarrow> set (after x A) \<subseteq> set A"
  by (metis after_append append.right_neutral after_def dropWhile_eq_Cons_conv list.set_sel(2) set_dropWhileD subsetI tl_Nil)

lemma after_shorter:
  assumes "distinct A" "head \<notin> set A" "x = head \<or> x \<in> set A" "p \<in> set (after x A)"
  shows "length (after p A) < length (after x A)"
proof -
  obtain C where C: "A = C @ after x A"
  proof (cases "x = head")
    case False
    then obtain A1 A2 where "A = A1 @ x # A2" using assms(3) by (metis split_list)
    then show ?thesis using that [of "A1 @ [x]"] False assms(1) by (simp add: after_split)
  qed (use that [of "[]"] in simp)
  obtain D E where DE: "after x A = D @ p # E" using assms(4) by (metis split_list)
  have p: "p \<noteq> head" using assms(2,4) C by (metis Un_iff set_append)
  have A: "A = (C @ D) @ p # E" using C DE by simp
  then have "p \<notin> set (C @ D)" using assms(1) by (metis distinct_append disjoint_iff list.set_intros(1))
  then have "after p A = E" using A p after_split [of p "C @ D" E] by simp
  then show ?thesis using DE by simp
qed

text \<open>The last node of \<open>A\<close> that reaches level \<open>i\<close>, or the head.\<close>

definition pred_at :: "(nat \<Rightarrow> nat) \<Rightarrow> nat \<Rightarrow> nat list \<Rightarrow> nat" where
  "pred_at ht i A = last (head # filter (\<lambda>a. i < ht a) A)"

lemma pred_at_iff:
  assumes "distinct A" "head \<notin> set A" "x = head \<or> x \<in> set A \<and> i < ht x"
  shows "find (\<lambda>a. i < ht a) (after x A) = None \<longleftrightarrow> x = pred_at ht i A"
proof (cases "x = head")
  case True
  show ?thesis
  proof (cases "filter (\<lambda>a. i < ht a) A = []")
    case False
    then have "pred_at ht i A \<in> set A" unfolding pred_at_def
      by (metis filter_is_subset last.simps last_in_set subsetD)
    then show ?thesis using False True assms(2) by (metis after_head find_None_filter)
  qed (simp add: True pred_at_def find_None_filter)
next
  case False
  then obtain A1 A2 where A: "A = A1 @ x # A2" using assms(3) by (metis split_list)
  have x: "x \<notin> set A1" "x \<notin> set A2" using assms(1) A by auto
  have "pred_at ht i A = last (x # filter (\<lambda>a. i < ht a) A2)"
    using assms(3) False by (simp add: pred_at_def A)
  moreover have "x = last (x # filter (\<lambda>a. i < ht a) A2) \<longleftrightarrow> filter (\<lambda>a. i < ht a) A2 = []"
    using x(2) by (metis filter_is_subset last.simps last_in_set subsetD)
  ultimately show ?thesis using False x(1) by (simp add: A after_split find_None_filter)
qed

subsection \<open>The levels\<close>

text \<open>
  \<open>L\<close> lists the nodes in key order and \<open>ht\<close> says at how many levels a node has been linked in:
  at every level the successor of a node is the next one in \<open>L\<close> that reaches this level. While a
  node is being inserted its height grows from 0 to its final height.
\<close>

definition linked :: "'k Node list \<Rightarrow> (nat \<Rightarrow> nat) \<Rightarrow> nat list \<Rightarrow> bool" where
  "linked ns ht L \<longleftrightarrow> distinct L \<and> head \<notin> set L \<and>
     (\<forall>i<kMaxHeight. \<forall>x. x = head \<or> x \<in> set L \<and> i < ht x \<longrightarrow>
        Node_Next ns x i = find (\<lambda>a. i < ht a) (after x L))"

lemma linkedD:
  "linked ns ht L \<Longrightarrow> i < kMaxHeight \<Longrightarrow> x = head \<or> x \<in> set L \<and> i < ht x \<Longrightarrow>
    Node_Next ns x i = find (\<lambda>a. i < ht a) (after x L)"
  by (auto simp: linked_def)

text \<open>A search steps forward among the nodes before the key or stops at the last of them.\<close>

lemma search_step:
  assumes "linked ns ht (A @ B)" "i < kMaxHeight" "x = head \<or> x \<in> set A \<and> i < ht x"
  obtains (forward) p where "Node_Next ns x i = Some p" "p \<in> set A" "i < ht p"
      "length (after p A) < length (after x A)"
    | (stop) "Node_Next ns x i = find (\<lambda>a. i < ht a) B" "pred_at ht i A = x"
proof -
  have dist: "distinct A" "head \<notin> set A" using assms(1) by (auto simp: linked_def)
  have x: "x = head \<or> x \<in> set A" "x = head \<or> x \<in> set (A @ B) \<and> i < ht x" using assms(3) by auto
  have nx: "Node_Next ns x i = (case find (\<lambda>a. i < ht a) (after x A) of
      None \<Rightarrow> find (\<lambda>a. i < ht a) B | Some p \<Rightarrow> Some p)"
    using linkedD [OF assms(1,2) x(2)] by (simp add: after_append [OF x(1)] find_append)
  show ?thesis
  proof (cases "find (\<lambda>a. i < ht a) (after x A)")
    case (Some p)
    then have p: "p \<in> set (after x A)" "i < ht p" using find_SomeD [OF Some] by auto
    show ?thesis
      by (rule forward [of p]) (use p Some nx after_subset [OF x(1)] after_shorter [OF dist x(1) p(1)] in auto)
  next
    case None
    then show ?thesis by (intro stop) (use nx pred_at_iff [of A x i ht] dist assms(3) in simp_all)
  qed
qed

lemmas search_induct = wf_induct_rule [OF wf_lex_prod [OF wf_less wf_less]]

definition splits_at :: "('k \<Rightarrow> 'k \<Rightarrow> int) \<Rightarrow> 'k Node list \<Rightarrow> 'k \<Rightarrow> nat list \<Rightarrow> nat list \<Rightarrow> bool" where
  "splits_at compare ns key A B \<longleftrightarrow>
     (\<forall>a\<in>set A. compare (nkey (ns ! a)) key < 0) \<and> (\<forall>b\<in>set B. 0 \<le> compare (nkey (ns ! b)) key)"

lemma FindGreaterOrEqual_loop_ok:
  assumes "linked ns ht (A @ B)" "splits_at compare ns key A B"
    "level < kMaxHeight" "x = head \<or> x \<in> set A \<and> level < ht x" "length prev = kMaxHeight"
  shows "\<exists>prev'. FindGreaterOrEqual_loop compare ns key x level prev =
      Some (find (\<lambda>a. 0 < ht a) B, prev') \<and> length prev' = kMaxHeight \<and>
      (\<forall>j\<le>level. prev' ! j = Some (pred_at ht j A)) \<and>
      (\<forall>j>level. j < kMaxHeight \<longrightarrow> prev' ! j = prev ! j)"
  using assms(3-5)
proof (induction "(level, length (after x A))" arbitrary: x level prev rule: search_induct)
  case (1 x level prev)
  show ?case
    using assms(1) 1(2,3)
  proof (cases rule: search_step)
    case (forward p)
    then show ?thesis
      using 1(1) [of level p prev] 1(2,4) assms(2)
      by (subst FindGreaterOrEqual_loop.simps) (simp add: KeyIsAfterNode_def splits_at_def)
  next
    case stop
    have no: "\<not> KeyIsAfterNode compare ns key (Node_Next ns x level)"
      using assms(2) by (auto simp: stop(1) KeyIsAfterNode_def splits_at_def dest!: find_SomeD split: option.splits)
    show ?thesis
    proof (cases level)
      case 0
      then show ?thesis using no stop 1(2,4) by (subst FindGreaterOrEqual_loop.simps) simp
    next
      case (Suc l)
      have "x = head \<or> x \<in> set A \<and> l < ht x" using 1(3) Suc by auto
      then obtain prev' where prev': "FindGreaterOrEqual_loop compare ns key x l (prev[level := Some x]) =
          Some (find (\<lambda>a. 0 < ht a) B, prev')" "length prev' = kMaxHeight"
        "\<forall>j\<le>l. prev' ! j = Some (pred_at ht j A)"
        "\<forall>j>l. j < kMaxHeight \<longrightarrow> prev' ! j = prev[level := Some x] ! j"
        using 1(1) [of l x "prev[level := Some x]"] 1(2,4) Suc by auto
      have "FindGreaterOrEqual_loop compare ns key x level prev = Some (find (\<lambda>a. 0 < ht a) B, prev')"
        using no Suc prev'(1) by (subst FindGreaterOrEqual_loop.simps) simp
      moreover have "prev' ! j = Some (pred_at ht j A)" if "j \<le> level" for j
        using prev'(3,4) that stop(2) 1(2,4) Suc by (cases "j = level") auto
      moreover have "prev' ! j = prev ! j" if "level < j" "j < kMaxHeight" for j
        using prev'(4) that Suc by auto
      ultimately show ?thesis using prev'(2) by blast
    qed
  qed
qed

lemma FindLessThan_loop_ok:
  assumes "linked ns ht (A @ B)" "splits_at compare ns key A B"
    "level < kMaxHeight" "x = head \<or> x \<in> set A \<and> level < ht x"
  shows "FindLessThan_loop compare ns key x level = Some (pred_at ht 0 A)"
  using assms(3,4)
proof (induction "(level, length (after x A))" arbitrary: x level rule: search_induct)
  case (1 x level)
  show ?case
    using assms(1) 1(2,3)
  proof (cases rule: search_step)
    case (forward p)
    then show ?thesis
      using 1(1) [of level p] 1(2) assms(2)
      by (subst FindLessThan_loop.simps) (auto simp: splits_at_def not_le [symmetric])
  next
    case stop
    then have "Node_Next ns x level = None \<or> 0 \<le> compare (nkey (ns ! the (Node_Next ns x level))) key"
      using assms(2) by (cases "find (\<lambda>a. level < ht a) B") (auto simp: splits_at_def dest!: find_SomeD)
    then show ?thesis
      using 1(1) [of "level - 1" x] 1(2,3) stop(2)
      by (subst FindLessThan_loop.simps) (cases level, auto simp: Let_def)
  qed
qed

lemma FindLast_loop_ok:
  assumes "linked ns ht L" "level < kMaxHeight" "x = head \<or> x \<in> set L \<and> level < ht x"
  shows "FindLast_loop ns x level = Some (pred_at ht 0 L)"
  using assms(2,3)
proof (induction "(level, length (after x L))" arbitrary: x level rule: search_induct)
  case (1 x level)
  have "linked ns ht (L @ [])" using assms(1) by simp
  from this 1(2,3) show ?case
  proof (cases rule: search_step)
    case (forward p)
    then show ?thesis using 1(1) [of level p] 1(2) by (subst FindLast_loop.simps) simp
  next
    case stop
    then show ?thesis
      using 1(1) [of "level - 1" x] 1(2,3) by (subst FindLast_loop.simps) (cases level, auto)
  qed
qed

subsection \<open>Linking a node in\<close>

definition height_of :: "'k Node list \<Rightarrow> nat \<Rightarrow> nat" where
  "height_of ns x = length (next_links (ns ! x))"

lemma SetNext_simps [simp]:
  "length (Node_SetNext ns x n v) = length ns" "nkey (Node_SetNext ns x n v ! y) = nkey (ns ! y)"
  "height_of (Node_SetNext ns x n v) y = height_of ns y"
  by (simp_all add: Node_SetNext_def height_of_def nth_update_if)

lemma Next_SetNext: "x < length ns \<Longrightarrow> n < height_of ns x \<Longrightarrow>
    Node_Next (Node_SetNext ns x n v) y m = (if y = x \<and> m = n then v else Node_Next ns y m)"
  by (auto simp: Node_SetNext_def Node_Next_def height_of_def nth_list_update)

lemma link_simps [simp]:
  "length (Insert_link prev x i ns) = length ns" "nkey (Insert_link prev x i ns ! y) = nkey (ns ! y)"
  "height_of (Insert_link prev x i ns) y = height_of ns y"
  by (simp_all add: Insert_link_def Let_def)

lemma links_simps [simp]:
  "length (fold (Insert_link prev x) is ns) = length ns"
  "nkey (fold (Insert_link prev x) is ns ! y) = nkey (ns ! y)"
  "height_of (fold (Insert_link prev x) is ns) y = height_of ns y"
  by (induction "is" arbitrary: ns) auto

lemma pred_at_cases: "pred_at ht i A = head \<or> pred_at ht i A \<in> set A \<and> i < ht (pred_at ht i A)"
proof (cases "filter (\<lambda>a. i < ht a) A = []")
  case False
  then have "pred_at ht i A \<in> set (filter (\<lambda>a. i < ht a) A)"
    unfolding pred_at_def by (metis last.simps last_in_set)
  then show ?thesis by simp
qed (simp add: pred_at_def)

lemma find_other: "x \<notin> set ys \<Longrightarrow> ht' = ht(x := h) \<Longrightarrow> find (\<lambda>a. i < ht' a) ys = find (\<lambda>a. i < ht a) ys"
  by (rule find_cong) auto

text \<open>One step of the loop of \<open>Insert\<close> makes the node visible at one more level.\<close>

lemma link_step:
  assumes "linked ns ht (A @ x # B)" "ht x = i" "i < kMaxHeight" "prev ! i = Some (pred_at ht i A)"
    and room: "x < length ns" "i < height_of ns x" "pred_at ht i A < length ns" "i < height_of ns (pred_at ht i A)"
  shows "linked (Insert_link prev x i ns) (ht(x := Suc i)) (A @ x # B)"
proof -
  let ?p = "pred_at ht i A" and ?L = "A @ x # B"
  obtain ht' where ht': "ht' = ht(x := Suc i)" by simp
  have [simp]: "ht' x = Suc i" by (simp add: ht')
  have d: "distinct ?L" "head \<notin> set ?L" and dA: "distinct A" "head \<notin> set A"
    using assms(1) by (auto simp: linked_def)
  have px: "?p \<noteq> x" using pred_at_cases [of ht i A] d by auto
  have pc: "?p = head \<or> ?p \<in> set A \<and> i < ht ?p" by (rule pred_at_cases)
  have nx: "Node_Next (Insert_link prev x i ns) y j = (if y = ?p \<and> j = i then Some x
      else if y = x \<and> j = i then Node_Next ns ?p i else Node_Next ns y j)" for y j
    using room px by (simp add: Insert_link_def Let_def assms(4) Next_SetNext)
  have old: "y = head \<or> y \<in> set ?L \<and> j < ht y \<Longrightarrow> j < kMaxHeight \<Longrightarrow>
      Node_Next ns y j = find (\<lambda>a. j < ht a) (after y ?L)" for y j
    using linkedD [OF assms(1)] by blast
  have p_end: "find (\<lambda>a. i < ht a) (after ?p A) = None" using pred_at_iff [of A ?p i ht] dA pc by simp
  have notin: "x \<notin> set (after y A)" if "y = head \<or> y \<in> set A" for y
    using after_subset [OF that] d by auto
  have aft: "after y ?L = after y A @ x # B" if "y = head \<or> y \<in> set A" for y
    using after_append [OF that] by simp
  have "Node_Next (Insert_link prev x i ns) y j = find (\<lambda>a. j < ht' a) (after y ?L)"
    if j: "j < kMaxHeight" and y: "y = head \<or> y \<in> set ?L \<and> j < ht' y" for y j
  proof (cases "j = i")
    case False
    then have "(\<lambda>a. j < ht' a) = (\<lambda>a. j < ht a)" using assms(2) by (auto simp: fun_eq_iff ht')
    moreover have "y = head \<or> y \<in> set ?L \<and> j < ht y" using y False assms(2) by (auto simp: ht' split: if_splits)
    ultimately show ?thesis using old [OF _ j] False nx by simp
  next
    case True
    consider "y = ?p" | "y = x" | "y \<noteq> ?p" "y = head \<or> y \<in> set A \<and> i < ht y"
      | "y \<in> set B" "i < ht y" "y \<notin> set A" "y \<noteq> x" "y \<noteq> head"
      using y True d by (auto simp: ht' split: if_splits)
    then show ?thesis
    proof cases
      case 1
      then show ?thesis
        using True pc p_end notin [of ?p] by (auto simp: nx aft find_append find_other [OF _ ht'])
    next
      case 2
      have "Node_Next ns ?p i = find (\<lambda>a. i < ht a) B"
        using old [of ?p i] pc assms(2,3) p_end by (auto simp: aft find_append)
      moreover have "after x ?L = B" using after_split [of x A B] d by auto
      ultimately show ?thesis using 2 True px d by (simp add: nx find_other [OF _ ht'])
    next
      case 3
      have "y = head \<or> y \<in> set A" using 3 by auto
      moreover obtain q where "find (\<lambda>a. i < ht a) (after y A) = Some q"
        using pred_at_iff [of A y i ht] dA 3 by fastforce
      ultimately show ?thesis
        using 3 True old [of y i] assms(3) notin [of y] d by (auto simp: nx aft find_append find_other [OF _ ht'])
    next
      case 4
      then have "y \<noteq> ?p" using pc by auto
      moreover have "after y ?L = after y (x # B)" using 4 after_append_right [of y A "x # B"] by simp
      moreover have "after y (x # B) = after y B" using 4 after_append_right [of y "[x]" B] by simp
      moreover have "x \<notin> set (after y B)" using 4 after_subset [of y B] d by auto
      ultimately show ?thesis using 4 True old [of y i] assms(3) by (simp add: nx find_other [OF _ ht'])
    qed
  qed
  then show ?thesis using d unfolding linked_def ht' by blast
qed

text \<open>All the steps: after \<open>j\<close> of them the node is linked in at the lowest \<open>j\<close> levels.\<close>

lemma links_ok:
  assumes "linked ns (ht(x := 0)) (A @ x # B)" "h \<le> kMaxHeight" "x < length ns" "h \<le> height_of ns x"
    and "\<And>i. i < h \<Longrightarrow> prev ! i = Some (pred_at ht i A)"
    and "\<And>i. i < h \<Longrightarrow> pred_at ht i A < length ns \<and> i < height_of ns (pred_at ht i A)"
    and "j \<le> h"
  shows "linked (fold (Insert_link prev x) [0..<j] ns) (ht(x := j)) (A @ x # B)"
  using assms(7)
proof (induction j)
  case (Suc j)
  have x: "x \<notin> set A" using assms(1) by (auto simp: linked_def)
  have pred: "pred_at (ht(x := j)) j A = pred_at ht j A"
  proof -
    have "filter (\<lambda>a. j < (ht(x := j)) a) A = filter (\<lambda>a. j < ht a) A" using x by (intro filter_cong) auto
    then show ?thesis by (simp add: pred_at_def)
  qed
  have "linked (Insert_link prev x j (fold (Insert_link prev x) [0..<j] ns)) ((ht(x := j))(x := Suc j)) (A @ x # B)"
  proof (rule link_step)
    show "linked (fold (Insert_link prev x) [0..<j] ns) (ht(x := j)) (A @ x # B)"
      by (rule Suc.IH) (use Suc.prems in simp)
  qed (use Suc(2) assms(2-6) in \<open>simp_all add: pred\<close>)
  then show ?case unfolding fun_upd_upd by (simp add: fun_upd_def)
qed (use assms(1) in simp)

subsection \<open>The invariant and the operations\<close>

primrec walk :: "nat \<Rightarrow> 'k Node list \<Rightarrow> nat option \<Rightarrow> nat list" where
  "walk 0 ns p = []"
| "walk (Suc n) ns p = (case p of None \<Rightarrow> [] | Some x \<Rightarrow> x # walk n ns (Node_Next ns x 0))"

definition addresses :: "'k SkipList \<Rightarrow> nat list" where
  "addresses sl = walk (length (nodes sl)) (nodes sl) (Node_Next (nodes sl) head 0)"

definition keys_of :: "'k SkipList \<Rightarrow> 'k list" where
  "keys_of sl = map (\<lambda>x. nkey (nodes sl ! x)) (addresses sl)"

definition sl_shape :: "'k SkipList \<Rightarrow> nat list \<Rightarrow> bool" where
  "sl_shape sl L \<longleftrightarrow> linked (nodes sl) (height_of (nodes sl)) L \<and>
     set L = {1..<length (nodes sl)} \<and> nodes sl \<noteq> [] \<and> height_of (nodes sl) head = kMaxHeight \<and>
     0 < max_height sl \<and> max_height sl \<le> kMaxHeight \<and>
     (\<forall>x\<in>set L. 0 < height_of (nodes sl) x \<and> height_of (nodes sl) x \<le> max_height sl)"

definition skiplist_inv :: "('k \<Rightarrow> 'k \<Rightarrow> int) \<Rightarrow> ('k \<Rightarrow> bool) \<Rightarrow> 'k SkipList \<Rightarrow> bool" where
  "skiplist_inv compare valid sl \<longleftrightarrow> sl_shape sl (addresses sl) \<and>
     sorted_wrt (\<lambda>a b. compare a b < 0) (keys_of sl) \<and> (\<forall>k\<in>set (keys_of sl). valid k)"

lemma walk_suffix:
  assumes "linked ns ht (A @ B)" "\<And>x. x \<in> set (A @ B) \<Longrightarrow> 0 < ht x"
  shows "walk n ns (case B of [] \<Rightarrow> None | x # _ \<Rightarrow> Some x) = take n B"
  using assms(1,2)
proof (induction n arbitrary: A B)
  case (Suc n)
  show ?case
  proof (cases B)
    case (Cons x B')
    have hd: "find (\<lambda>a. 0 < ht a) B' = (case B' of [] \<Rightarrow> None | x # _ \<Rightarrow> Some x)"
      using Suc(3) Cons by (auto split: list.split)
    have "x \<noteq> head" "x \<notin> set A" using Suc(2) Cons by (auto simp: linked_def)
    then have "after x (A @ B) = B'" using Cons after_split by simp
    then have "Node_Next ns x 0 = (case B' of [] \<Rightarrow> None | x # _ \<Rightarrow> Some x)"
      using linkedD [OF Suc(2), of 0 x] Suc(3) [of x] Cons hd by (simp add: kMaxHeight_def)
    then show ?thesis using Suc(1) [of "A @ [x]" B'] Suc(2,3) Cons by simp
  qed simp
qed simp

lemma shape_next_head: "sl_shape sl L \<Longrightarrow>
    Node_Next (nodes sl) head 0 = (case L of [] \<Rightarrow> None | x # _ \<Rightarrow> Some x)"
  using linkedD [of "nodes sl" "height_of (nodes sl)" L 0 head]
  by (auto simp: sl_shape_def kMaxHeight_def split: list.split)

lemma shape_length: "sl_shape sl L \<Longrightarrow> length L < length (nodes sl)"
  using distinct_card [of L] by (cases "nodes sl") (auto simp: sl_shape_def linked_def)

lemma shape_node: "sl_shape sl L \<Longrightarrow> a \<in> set L \<Longrightarrow>
    0 < height_of (nodes sl) a \<and> height_of (nodes sl) a \<le> max_height sl \<and> 0 < a \<and> a < length (nodes sl)"
  unfolding sl_shape_def by (elim conjE, intro conjI, blast, blast, simp_all)

lemma shape_addresses: "sl_shape sl L \<Longrightarrow> addresses sl = L"
  using walk_suffix [of "nodes sl" "height_of (nodes sl)" "[]" L "length (nodes sl)"]
    shape_next_head [of sl L] shape_length [of sl L]
  by (simp add: addresses_def sl_shape_def)

lemma shape_inv: "skiplist_inv compare valid sl \<Longrightarrow> sl_shape sl (addresses sl)"
  by (simp add: skiplist_inv_def)

lemma SkipList_new_nodes: "nodes (SkipList_new k) = [\<lparr>nkey = k, next_links = replicate kMaxHeight None\<rparr>]"
proof -
  have same: "(replicate n None)[i := None] = replicate n None" for n i
    by (intro nth_equalityI) (auto simp: nth_update_if)
  have "fold (\<lambda>i ns. Node_SetNext ns head i None) is
      [\<lparr>nkey = k, next_links = replicate kMaxHeight None\<rparr>] = [\<lparr>nkey = k, next_links = replicate kMaxHeight None\<rparr>]" for "is"
    by (induction "is") (simp_all add: Node_SetNext_def head_def same)
  then show ?thesis by (simp add: SkipList_new_def NewNode_def Let_def)
qed

lemma SkipList_new_shape: "sl_shape (SkipList_new k) []"
proof -
  have "max_height (SkipList_new k) = 1" by (simp add: SkipList_new_def Let_def)
  then show ?thesis
    using SkipList_new_nodes [of k]
    by (auto simp: sl_shape_def linked_def height_of_def Node_Next_def after_def head_def kMaxHeight_def)
qed

lemma RandomHeight_bounds: "RandomHeight r = (h, r') \<Longrightarrow> 1 \<le> h \<and> h \<le> kMaxHeight"
proof -
  have "RandomHeight_loop n r = (h, r') \<Longrightarrow> n \<le> kMaxHeight \<Longrightarrow> n \<le> h \<and> h \<le> kMaxHeight" for n
  proof (induction n r rule: RandomHeight_loop.induct)
    case (1 n r)
    show ?case
      using 1(1) [OF _ refl] 1(2,3)
      by (subst (asm) RandomHeight_loop.simps) (auto simp: Let_def split: prod.splits if_splits)
  qed
  then show "RandomHeight r = (h, r') \<Longrightarrow> ?thesis" by (simp add: RandomHeight_def kMaxHeight_def)
qed

context key_order begin

text \<open>In a sorted list the nodes before a key form a prefix.\<close>

lemma sorted_splits:
  assumes "sorted_wrt (\<lambda>a b. compare a b < 0) (map f L)" "\<forall>k\<in>set (map f L). valid k" "valid key"
  obtains A B where "L = A @ B" "\<forall>a\<in>set A. compare (f a) key < 0" "\<forall>b\<in>set B. 0 \<le> compare (f b) key"
    "A = takeWhile (\<lambda>a. compare (f a) key < 0) L" "B = dropWhile (\<lambda>a. compare (f a) key < 0) L"
proof
  let ?P = "\<lambda>a. compare (f a) key < 0"
  show "L = takeWhile ?P L @ dropWhile ?P L" by simp
  show "\<forall>a\<in>set (takeWhile ?P L). compare (f a) key < 0" by (auto dest: set_takeWhileD)
  show "\<forall>b\<in>set (dropWhile ?P L). 0 \<le> compare (f b) key"
    using assms(1,2)
  proof (induction L)
    case (Cons a L)
    show ?case
    proof (cases "compare (f a) key < 0")
      case False
      have "0 \<le> compare (f b) key" if "b \<in> set L" for b
        using Cons(2,3) that False assms(3) compare_less_trans [of "f a" "f b" key] by fastforce
      then show ?thesis using False by auto
    qed (use Cons in simp)
  qed simp
qed auto

definition inv_at :: "'k SkipList \<Rightarrow> nat list \<Rightarrow> bool" where
  "inv_at sl L \<longleftrightarrow> sl_shape sl L \<and>
     sorted_wrt (\<lambda>a b. compare a b < 0) (map (\<lambda>x. nkey (nodes sl ! x)) L) \<and>
     (\<forall>k\<in>set (map (\<lambda>x. nkey (nodes sl ! x)) L). valid k)"

lemma inv_at_iff: "skiplist_inv compare valid sl \<longleftrightarrow> inv_at sl (addresses sl)"
  by (simp add: skiplist_inv_def inv_at_def keys_of_def)

lemma inv_atD: "inv_at sl L \<Longrightarrow> addresses sl = L \<and> skiplist_inv compare valid sl \<and>
    keys_of sl = map (\<lambda>x. nkey (nodes sl ! x)) L"
  using shape_addresses [of sl L] by (simp add: inv_at_iff inv_at_def keys_of_def)

lemma find_split:
  assumes "inv_at sl (A @ B)" "splits_at compare (nodes sl) key A B"
  shows "\<exists>prev. FindGreaterOrEqual compare sl key =
      Some (case B of [] \<Rightarrow> None | x # _ \<Rightarrow> Some x, prev) \<and> length prev = kMaxHeight \<and>
      (\<forall>j<max_height sl. prev ! j = Some (pred_at (height_of (nodes sl)) j A))"
    and "FindLessThan compare sl key = Some (last (head # A))"
proof -
  have sh: "sl_shape sl (A @ B)" using assms(1) by (simp add: inv_at_def)
  then have l: "linked (nodes sl) (height_of (nodes sl)) (A @ B)" and mh: "max_height sl - 1 < kMaxHeight"
    and pos: "\<And>x. x \<in> set (A @ B) \<Longrightarrow> 0 < height_of (nodes sl) x" and m0: "0 < max_height sl"
    by (auto simp: sl_shape_def)
  have B: "find (\<lambda>a. 0 < height_of (nodes sl) a) B = (case B of [] \<Rightarrow> None | x # _ \<Rightarrow> Some x)"
    using pos by (auto split: list.split)
  have A: "pred_at (height_of (nodes sl)) 0 A = last (head # A)"
  proof -
    have "filter (\<lambda>a. 0 < height_of (nodes sl) a) A = A" using pos by (simp add: filter_id_conv)
    then show ?thesis by (simp add: pred_at_def)
  qed
  have le: "j \<le> max_height sl - 1 \<longleftrightarrow> j < max_height sl" for j using m0 by linarith
  show "\<exists>prev. FindGreaterOrEqual compare sl key =
      Some (case B of [] \<Rightarrow> None | x # _ \<Rightarrow> Some x, prev) \<and> length prev = kMaxHeight \<and>
      (\<forall>j<max_height sl. prev ! j = Some (pred_at (height_of (nodes sl)) j A))"
    using FindGreaterOrEqual_loop_ok [OF l assms(2) mh, of head "replicate kMaxHeight None"]
    unfolding FindGreaterOrEqual_def B le by simp blast
  show "FindLessThan compare sl key = Some (last (head # A))"
    using FindLessThan_loop_ok [OF l assms(2) mh, of head] by (simp add: FindLessThan_def A)
qed

lemma find_ok:
  assumes "inv_at sl L" "valid key"
  obtains A B prev where "L = A @ B" "splits_at compare (nodes sl) key A B"
    "A = takeWhile (\<lambda>a. compare (nkey (nodes sl ! a)) key < 0) L"
    "B = dropWhile (\<lambda>a. compare (nkey (nodes sl ! a)) key < 0) L"
    "FindGreaterOrEqual compare sl key = Some (case B of [] \<Rightarrow> None | x # _ \<Rightarrow> Some x, prev)"
    "length prev = kMaxHeight"
    "\<forall>j<max_height sl. prev ! j = Some (pred_at (height_of (nodes sl)) j A)"
proof -
  obtain A B where AB: "L = A @ B" "\<forall>a\<in>set A. compare (nkey (nodes sl ! a)) key < 0"
    "\<forall>b\<in>set B. 0 \<le> compare (nkey (nodes sl ! b)) key"
    "A = takeWhile (\<lambda>a. compare (nkey (nodes sl ! a)) key < 0) L"
    "B = dropWhile (\<lambda>a. compare (nkey (nodes sl ! a)) key < 0) L"
    using sorted_splits [of "\<lambda>x. nkey (nodes sl ! x)" L key] assms unfolding inv_at_def by blast
  then have s: "splits_at compare (nodes sl) key A B" by (simp add: splits_at_def)
  show ?thesis using find_split(1) [of sl A B key] assms(1) AB s that by blast
qed

text \<open>Raising the list's height.\<close>

lemma fold_prev: "length prev = n \<Longrightarrow> k \<le> n \<Longrightarrow>
    length (fold (\<lambda>i prev. prev[i := v]) [m..<k] prev) = n \<and>
    (\<forall>j<n. fold (\<lambda>i prev. prev[i := v]) [m..<k] prev ! j = (if m \<le> j \<and> j < k then v else prev ! j))"
  by (induction k) (auto simp: nth_update_if less_Suc_eq)

lemma pred_at_low: "(\<And>a. a \<in> set A \<Longrightarrow> ht a \<le> i) \<Longrightarrow> pred_at ht i A = head"
proof -
  assume "\<And>a. a \<in> set A \<Longrightarrow> ht a \<le> i"
  then have "filter (\<lambda>a. i < ht a) A = []" by (auto simp: filter_empty_conv not_less)
  then show ?thesis by (simp add: pred_at_def)
qed

text \<open>A node that no level shows yet changes nothing.\<close>

lemma linked_invisible:
  assumes "linked ns ht (A @ B)" "x \<noteq> head" "x \<notin> set (A @ B)"
    and "\<And>y i. y = head \<or> y \<in> set (A @ B) \<Longrightarrow> Node_Next ns' y i = Node_Next ns y i"
  shows "linked ns' (ht(x := 0)) (A @ x # B)"
proof -
  obtain ht' where ht': "ht' = ht(x := 0)" by simp
  have [simp]: "ht' x = 0" by (simp add: ht')
  have "Node_Next ns' y i = find (\<lambda>a. i < ht' a) (after y (A @ x # B))"
    if i: "i < kMaxHeight" and y: "y = head \<or> y \<in> set (A @ x # B) \<and> i < ht' y" for y i
  proof -
    have y': "y = head \<or> y \<in> set (A @ B) \<and> i < ht y" using y by (auto simp: ht' split: if_splits)
    have "find (\<lambda>a. i < ht' a) (after y (A @ x # B)) = find (\<lambda>a. i < ht a) (after y (A @ B))"
    proof (cases "y = head \<or> y \<in> set A")
      case True
      then have "x \<notin> set (after y A)" using after_subset [OF True] assms(3) by auto
      moreover have "find (\<lambda>a. i < ht' a) (x # B) = find (\<lambda>a. i < ht a) B"
        using assms(3) by (simp add: find_other [OF _ ht'])
      ultimately show ?thesis by (simp add: after_append [OF True] find_append find_other [OF _ ht'] split: option.split)
    next
      case False
      then have "y \<in> set B" "y \<noteq> x" using y' assms(3) by auto
      then have "x \<notin> set (after y B)" using after_subset [of y B] assms(3) by auto
      then show ?thesis
        using False \<open>y \<noteq> x\<close> after_append_right [of y A] after_append_right [of y "[x]" B]
        by (simp add: find_other [OF _ ht'])
    qed
    then show ?thesis using linkedD [OF assms(1) i y'] assms(4) y' by auto
  qed
  then show ?thesis using assms(1-3) unfolding linked_def ht' by auto
qed

lemma pred_in_heap:
  assumes "sl_shape sl (A @ B)" "i < kMaxHeight"
  shows "pred_at (height_of (nodes sl)) i A < length (nodes sl) \<and>
    i < height_of (nodes sl) (pred_at (height_of (nodes sl)) i A)"
  using pred_at_cases [of "height_of (nodes sl)" i A] assms
  by (cases "pred_at (height_of (nodes sl)) i A = head")
    (auto simp: sl_shape_def head_def)

text \<open>
  The state of the heap when \<open>j\<close> levels of the new node are linked in, for every \<open>j\<close> up to its
  height: at every moment of the insertion the levels are those of one sorted list.
\<close>

lemma insert_linked:
  assumes "sl_shape sl (A @ B)" "h \<le> kMaxHeight" "NewNode (nodes sl) key h = (x, ns)" "j \<le> h"
    and "\<And>i. i < h \<Longrightarrow> prev ! i = Some (pred_at (height_of (nodes sl)) i A)"
  shows "linked (fold (Insert_link prev x) [0..<j] ns) ((height_of (nodes sl))(x := j)) (A @ x # B)"
proof -
  have ns: "ns = nodes sl @ [\<lparr>nkey = key, next_links = replicate h None\<rparr>]" "x = length (nodes sl)"
    using assms(3) by (simp_all add: NewNode_def)
  have l: "linked (nodes sl) (height_of (nodes sl)) (A @ B)" and ne: "nodes sl \<noteq> []"
    and sub: "set (A @ B) = {1..<length (nodes sl)}" using assms(1) by (simp_all add: sl_shape_def)
  have same: "Node_Next ns y i = Node_Next (nodes sl) y i \<and> height_of ns y = height_of (nodes sl) y"
    if "y < length (nodes sl)" for y i
    using that by (simp add: Node_Next_def height_of_def ns(1) nth_append)
  have lt: "y < length (nodes sl)" if "y = head \<or> y \<in> set (A @ B)" for y
    using that ne sub by (auto simp: head_def)
  have "linked ns ((height_of (nodes sl))(x := 0)) (A @ x # B)"
  proof (rule linked_invisible [OF l])
    show "x \<noteq> head" "x \<notin> set (A @ B)" using ne sub by (auto simp: ns(2) head_def)
  qed (use same lt in blast)
  moreover have "height_of ns x = h" "x < length ns" by (simp_all add: ns height_of_def)
  ultimately show ?thesis
    using assms(2,4,5) pred_in_heap [OF assms(1)] same
    by (intro links_ok [where h = h]) (auto simp: ns(1) less_SucI)
qed

lemma linked_cong:
  assumes "linked ns ht L" "\<And>a. a \<in> set L \<Longrightarrow> ht' a = ht a"
  shows "linked ns ht' L"
proof -
  have "find (\<lambda>a. i < ht' a) (after x L) = find (\<lambda>a. i < ht a) (after x L)" if "x = head \<or> x \<in> set L" for x i
    using assms(2) after_subset [OF that] by (intro find_cong) auto
  then show ?thesis using assms unfolding linked_def by metis
qed

lemma insert_shape:
  assumes "sl_shape sl (A @ B)" "1 \<le> h" "h \<le> kMaxHeight" "NewNode (nodes sl) key h = (x, ns)"
    and "\<And>i. i < h \<Longrightarrow> prev ! i = Some (pred_at (height_of (nodes sl)) i A)"
    and "nodes sl' = fold (Insert_link prev x) [0..<h] ns" "max_height sl' = max h (max_height sl)"
  shows "sl_shape sl' (A @ x # B)"
proof -
  have ns: "ns = nodes sl @ [\<lparr>nkey = key, next_links = replicate h None\<rparr>]" "x = length (nodes sl)"
    using assms(4) by (simp_all add: NewNode_def)
  have sh: "set (A @ B) = {1..<length (nodes sl)}" "nodes sl \<noteq> []" "height_of (nodes sl) head = kMaxHeight"
    "0 < max_height sl" "max_height sl \<le> kMaxHeight"
    "\<And>y. y \<in> set (A @ B) \<Longrightarrow> 0 < height_of (nodes sl) y \<and> height_of (nodes sl) y \<le> max_height sl"
    using assms(1) by (auto simp: sl_shape_def)
  have ht: "height_of (nodes sl') y = (if y = x then h else height_of (nodes sl) y)" if "y \<le> x" for y
    using that unfolding assms(6) links_simps by (auto simp: height_of_def ns nth_append)
  have set: "set (A @ x # B) = {1..<length (nodes sl')}"
  proof -
    have "set (A @ x # B) = insert (length (nodes sl)) (set (A @ B))" by (simp add: ns(2))
    also have "\<dots> = {1..<Suc (length (nodes sl))}"
      unfolding sh(1) using sh(2) by (simp add: atLeastLessThanSuc Suc_le_eq)
    finally show ?thesis by (simp add: assms(6) ns(1))
  qed
  have "linked (nodes sl') ((height_of (nodes sl))(x := h)) (A @ x # B)"
    unfolding assms(6) by (rule insert_linked [OF assms(1,3,4) order_refl assms(5)])
  then have "linked (nodes sl') (height_of (nodes sl')) (A @ x # B)"
  proof (rule linked_cong)
    fix a assume "a \<in> set (A @ x # B)"
    then have "a \<le> x" using shape_node [OF assms(1), of a] by (auto simp: ns(2))
    then show "height_of (nodes sl') a = ((height_of (nodes sl))(x := h)) a" by (simp add: ht)
  qed
  moreover have "height_of (nodes sl') head = kMaxHeight"
    using ht [of head] sh(2,3) by (auto simp: head_def ns(2))
  moreover have "0 < height_of (nodes sl') y \<and> height_of (nodes sl') y \<le> max_height sl'"
    if "y \<in> set (A @ x # B)" for y
    using ht [of y] sh(1) sh(6) [of y] that assms(2) by (auto simp: assms(7) ns(2))
  moreover have "length (nodes sl') = Suc (length (nodes sl))" by (simp add: assms(6) ns(1))
  ultimately show ?thesis
    using set sh(4,5) assms(3) by (auto simp: sl_shape_def assms(7))
qed

lemma sorted_insert:
  assumes "sorted_wrt (\<lambda>a b. compare a b < 0) (A @ B)" "\<forall>k\<in>set (A @ B). valid k" "valid key"
    and "\<forall>a\<in>set A. compare a key < 0" "\<forall>b\<in>set B. 0 < compare b key"
  shows "sorted_wrt (\<lambda>a b. compare a b < 0) (A @ key # B)"
  using assms compare_flip [where b = key] by (auto simp: sorted_wrt_append)

text \<open>What an insertion knows after its search.\<close>

lemma insert_setup:
  assumes "skiplist_inv compare valid sl" "valid key" "\<forall>k\<in>set (keys_of sl). compare k key \<noteq> 0"
    "FindGreaterOrEqual compare sl key = Some (n, prev)" "h \<le> kMaxHeight"
  obtains A B where "sl_shape sl (A @ B)"
    "\<forall>i<h. fold (\<lambda>i prev. prev[i := Some head]) [max_height sl..<h] prev ! i =
        Some (pred_at (height_of (nodes sl)) i A)"
    "map (\<lambda>x. nkey (nodes sl ! x)) A = takeWhile (\<lambda>k. compare k key < 0) (keys_of sl)"
    "map (\<lambda>x. nkey (nodes sl ! x)) B = dropWhile (\<lambda>k. compare k key < 0) (keys_of sl)"
    "sorted_wrt (\<lambda>a b. compare a b < 0) (map (\<lambda>x. nkey (nodes sl ! x)) A @ key # map (\<lambda>x. nkey (nodes sl ! x)) B)"
    "\<forall>k\<in>set (map (\<lambda>x. nkey (nodes sl ! x)) A @ key # map (\<lambda>x. nkey (nodes sl ! x)) B). valid k"
proof -
  define L where "L = addresses sl"
  let ?K = "\<lambda>x. nkey (nodes sl ! x)"
  have inv: "inv_at sl L" and keys: "keys_of sl = map ?K L"
    using assms(1) by (auto simp: inv_at_iff L_def keys_of_def)
  obtain A B prev0 where f: "L = A @ B" "splits_at compare (nodes sl) key A B"
    "A = takeWhile (\<lambda>a. compare (?K a) key < 0) L" "B = dropWhile (\<lambda>a. compare (?K a) key < 0) L"
    "FindGreaterOrEqual compare sl key = Some (case B of [] \<Rightarrow> None | x # _ \<Rightarrow> Some x, prev0)"
    "length prev0 = kMaxHeight" "\<forall>j<max_height sl. prev0 ! j = Some (pred_at (height_of (nodes sl)) j A)"
    by (rule find_ok [OF inv assms(2)])
  have sh: "sl_shape sl (A @ B)" using inv f(1) by (simp add: inv_at_def)
  have prev: "fold (\<lambda>i prev. prev[i := Some head]) [max_height sl..<h] prev ! i =
      Some (pred_at (height_of (nodes sl)) i A)" if i: "i < h" for i
  proof (cases "i < max_height sl")
    case False
    then have "pred_at (height_of (nodes sl)) i A = head"
      using shape_node [OF sh] by (intro pred_at_low) force
    then show ?thesis
      using False i f(5,6) assms(4,5) fold_prev [of prev kMaxHeight h "Some head" "max_height sl"] by simp
  qed (use f(5-7) i assms(4,5) fold_prev [of prev kMaxHeight h "Some head" "max_height sl"] in simp)
  have keysAB: "map ?K A = takeWhile (\<lambda>k. compare k key < 0) (keys_of sl)"
    "map ?K B = dropWhile (\<lambda>k. compare k key < 0) (keys_of sl)"
    by (simp_all add: keys f(3,4) takeWhile_map dropWhile_map comp_def)
  have "compare (?K b) key \<noteq> 0" if "b \<in> set B" for b using that assms(3) f(1) by (auto simp: keys)
  then have "sorted_wrt (\<lambda>a b. compare a b < 0) (map ?K A @ key # map ?K B)"
    using inv f(1,2) assms(2) by (intro sorted_insert) (force simp: inv_at_def splits_at_def order_le_less)+
  moreover have "\<forall>k\<in>set (map ?K A @ key # map ?K B). valid k"
    using inv f(1) assms(2) by (auto simp: inv_at_def)
  ultimately show ?thesis using that sh prev keysAB by blast
qed

lemma new_node_keys:
  assumes "sl_shape sl (A @ B)" "NewNode (nodes sl) key h = (x, ns)"
  shows "map (\<lambda>y. nkey (ns ! y)) (A @ x # B) =
    map (\<lambda>x. nkey (nodes sl ! x)) A @ key # map (\<lambda>x. nkey (nodes sl ! x)) B"
  using shape_node [OF assms(1)] assms(2) by (auto simp: NewNode_def nth_append)

theorem Insert_ok:
  assumes "skiplist_inv compare valid sl" "valid key" "\<forall>k\<in>set (keys_of sl). compare k key \<noteq> 0"
  shows "\<exists>sl'. Insert compare sl key = Some sl' \<and> skiplist_inv compare valid sl' \<and>
    keys_of sl' = takeWhile (\<lambda>k. compare k key < 0) (keys_of sl) @ key #
      dropWhile (\<lambda>k. compare k key < 0) (keys_of sl)"
proof -
  obtain h r where h: "RandomHeight (rnd sl) = (h, r)" by fastforce
  note hb = RandomHeight_bounds [OF h]
  obtain n prev where fge: "FindGreaterOrEqual compare sl key = Some (n, prev)"
    using find_ok [of sl "addresses sl" key] assms(1,2) unfolding inv_at_iff by metis
  define prev' where "prev' = fold (\<lambda>i prev. prev[i := Some head]) [max_height sl..<h] prev"
  obtain A B where ab: "sl_shape sl (A @ B)" "\<forall>i<h. prev' ! i = Some (pred_at (height_of (nodes sl)) i A)"
    "map (\<lambda>x. nkey (nodes sl ! x)) A = takeWhile (\<lambda>k. compare k key < 0) (keys_of sl)"
    "map (\<lambda>x. nkey (nodes sl ! x)) B = dropWhile (\<lambda>k. compare k key < 0) (keys_of sl)"
    "sorted_wrt (\<lambda>a b. compare a b < 0) (map (\<lambda>x. nkey (nodes sl ! x)) A @ key # map (\<lambda>x. nkey (nodes sl ! x)) B)"
    "\<forall>k\<in>set (map (\<lambda>x. nkey (nodes sl ! x)) A @ key # map (\<lambda>x. nkey (nodes sl ! x)) B). valid k"
    by (rule insert_setup [OF assms fge conjunct2 [OF hb], folded prev'_def])
  obtain x ns where x: "NewNode (nodes sl) key h = (x, ns)" by fastforce
  define sl' where "sl' = \<lparr>nodes = fold (Insert_link prev' x) [0..<h] ns, max_height = max h (max_height sl), rnd = r\<rparr>"
  have ins: "Insert compare sl key = Some sl'"
    by (simp add: Insert_def fge h x sl'_def prev'_def)
  have "sl_shape sl' (A @ x # B)"
    by (rule insert_shape [OF ab(1) _ _ x, where prev = prev']) (use hb ab(2) in \<open>auto simp: sl'_def\<close>)
  moreover have map: "map (\<lambda>y. nkey (nodes sl' ! y)) (A @ x # B) =
      map (\<lambda>x. nkey (nodes sl ! x)) A @ key # map (\<lambda>x. nkey (nodes sl ! x)) B"
    using new_node_keys [OF ab(1) x] by (simp add: sl'_def)
  ultimately have "inv_at sl' (A @ x # B)" unfolding inv_at_def map using ab(5,6) by blast
  then show ?thesis using ins inv_atD [of sl' "A @ x # B"] map ab(3,4) by metis
qed

end

text \<open>
  The iterator. A position is an index into the sorted list of keys, the length of the list
  standing for the end.
\<close>

definition at_index :: "'k SkipList \<Rightarrow> nat \<Rightarrow> Iter" where
  "at_index sl i = (if i < length (addresses sl) then Some (addresses sl ! i) else None)"

lemma key_at_index: "i < length (keys_of sl) \<Longrightarrow> Iter_key sl (at_index sl i) = keys_of sl ! i"
  by (simp add: Iter_key_def at_index_def keys_of_def)

lemma Valid_at_index: "Iter_Valid (at_index sl i) \<longleftrightarrow> i < length (keys_of sl)"
  by (simp add: Iter_Valid_def at_index_def keys_of_def)

context key_order begin

lemma Seek_ok:
  assumes "skiplist_inv compare valid sl" "valid key"
  shows "Iter_Seek compare sl key =
    Some (at_index sl (length (takeWhile (\<lambda>k. compare k key < 0) (keys_of sl))))"
proof -
  have inv: "inv_at sl (addresses sl)" using assms(1) by (simp add: inv_at_iff)
  obtain A B prev where f: "addresses sl = A @ B"
    "A = takeWhile (\<lambda>a. compare (nkey (nodes sl ! a)) key < 0) (addresses sl)"
    "FindGreaterOrEqual compare sl key = Some (case B of [] \<Rightarrow> None | x # _ \<Rightarrow> Some x, prev)"
    by (rule find_ok [OF inv assms(2)])
  have "length (takeWhile (\<lambda>k. compare k key < 0) (keys_of sl)) = length A"
    using f(2) by (simp add: keys_of_def takeWhile_map comp_def)
  then show ?thesis
    by (cases B) (simp_all add: Iter_Seek_def f(3) at_index_def f(1))
qed

lemma Contains_ok:
  assumes "skiplist_inv compare valid sl" "valid key"
  shows "Contains compare sl key = Some (\<exists>k\<in>set (keys_of sl). compare k key = 0)"
proof -
  have inv: "inv_at sl (addresses sl)" using assms(1) by (simp add: inv_at_iff)
  obtain A B prev where f: "addresses sl = A @ B" "splits_at compare (nodes sl) key A B"
    "FindGreaterOrEqual compare sl key = Some (case B of [] \<Rightarrow> None | x # _ \<Rightarrow> Some x, prev)"
    by (rule find_ok [OF inv assms(2)])
  have srt: "sorted_wrt (\<lambda>a b. compare a b < 0) (map (\<lambda>x. nkey (nodes sl ! x)) (A @ B))"
    "\<forall>x\<in>set (A @ B). valid (nkey (nodes sl ! x))"
    using inv f(1) by (auto simp: inv_at_def)
  have "(\<exists>k\<in>set (keys_of sl). compare k key = 0) \<longleftrightarrow>
      (case B of [] \<Rightarrow> False | x # _ \<Rightarrow> compare (nkey (nodes sl ! x)) key = 0)"
  proof (cases B)
    case (Cons x B')
    have "compare (nkey (nodes sl ! b)) key \<noteq> 0" if "b \<in> set B'" for b
      using srt f(2) Cons that assms(2) compare_less_le_trans [of "nkey (nodes sl ! x)" "nkey (nodes sl ! b)" key]
      by (force simp: splits_at_def sorted_wrt_append)
    then show ?thesis using f(2) Cons by (auto simp: keys_of_def f(1) splits_at_def)
  qed (use f(1,2) in \<open>auto simp: keys_of_def splits_at_def\<close>)
  also have "\<dots> \<longleftrightarrow> (case B of [] \<Rightarrow> False | x # _ \<Rightarrow> compare key (nkey (nodes sl ! x)) = 0)"
    using compare_eq_flip [OF _ assms(2)] srt(2) by (auto split: list.split)
  finally show ?thesis by (cases B) (simp_all add: Contains_def f(3))
qed

lemma Next_ok:
  assumes "skiplist_inv compare valid sl" "i < length (keys_of sl)"
  shows "Iter_Next sl (at_index sl i) = at_index sl (Suc i)"
proof -
  define L where "L = addresses sl"
  have i: "i < length L" using assms(2) by (simp add: keys_of_def L_def)
  have sh: "sl_shape sl L" using assms(1) by (simp add: skiplist_inv_def L_def)
  have split: "L = take i L @ L ! i # drop (Suc i) L" using id_take_nth_drop [OF i] .
  have nd: "L ! i \<noteq> head" "L ! i \<notin> set (take i L)"
    using sh i split by (auto simp: sl_shape_def linked_def head_def dest: nth_mem)
      (metis distinct_append disjoint_iff list.set_intros(1) split)
  have "after (L ! i) L = drop (Suc i) L" using after_split [OF nd] split by metis
  moreover have "find (\<lambda>a. 0 < height_of (nodes sl) a) (drop (Suc i) L) =
      (if Suc i < length L then Some (L ! Suc i) else None)"
    using shape_node [OF sh, of "L ! Suc i"] by (simp add: Cons_nth_drop_Suc [symmetric])
  ultimately have "Node_Next (nodes sl) (L ! i) 0 = (if Suc i < length L then Some (L ! Suc i) else None)"
    using linkedD [of "nodes sl" "height_of (nodes sl)" L 0 "L ! i"] sh i shape_node [OF sh, of "L ! i"]
    by (simp add: sl_shape_def kMaxHeight_def)
  then show ?thesis using i by (simp add: Iter_Next_def at_index_def L_def)
qed

lemma SeekToFirst_ok: "skiplist_inv compare valid sl \<Longrightarrow> Iter_SeekToFirst sl = at_index sl 0"
  using shape_next_head [of sl "addresses sl"]
  by (auto simp: Iter_SeekToFirst_def at_index_def skiplist_inv_def split: list.split)

lemma inv_splits_at:
  assumes "inv_at sl L" "i < length L"
  shows "splits_at compare (nodes sl) (nkey (nodes sl ! (L ! i))) (take i L) (drop i L)"
proof -
  let ?k = "\<lambda>x. nkey (nodes sl ! x)"
  have v: "\<And>x. x \<in> set L \<Longrightarrow> valid (?k x)"
    and srt: "\<And>j m. j < m \<Longrightarrow> m < length L \<Longrightarrow> compare (?k (L ! j)) (?k (L ! m)) < 0"
    using assms(1) by (auto simp: inv_at_def sorted_wrt_iff_nth_less)
  have "compare (?k a) (?k (L ! i)) < 0" if "a \<in> set (take i L)" for a
    using that srt [of _ i] assms(2) by (auto simp: in_set_conv_nth)
  moreover have "0 \<le> compare (?k b) (?k (L ! i))" if b: "b \<in> set (drop i L)" for b
  proof -
    obtain j where j: "b = L ! j" "i \<le> j" "j < length L"
      using b by (auto simp: in_set_conv_nth less_diff_conv2)
    then show ?thesis
      using srt [of i j] v [of "L ! i"] v [of "L ! j"] assms(2) compare_refl compare_flip [of "?k (L ! j)" "?k (L ! i)"]
      by (cases "i = j") auto
  qed
  ultimately show ?thesis by (simp add: splits_at_def)
qed

lemma Prev_ok:
  assumes "skiplist_inv compare valid sl" "i < length (keys_of sl)"
  shows "Iter_Prev compare sl (at_index sl i) = Some (if i = 0 then None else at_index sl (i - 1))"
proof -
  define L where "L = addresses sl"
  have i: "i < length L" using assms(2) by (simp add: keys_of_def L_def)
  have inv: "inv_at sl L" using assms(1) by (simp add: inv_at_iff L_def)
  have "FindLessThan compare sl (nkey (nodes sl ! (L ! i))) = Some (last (head # take i L))"
    using find_split(2) [OF _ inv_splits_at [OF inv i]] inv by simp
  moreover have "last (head # take i L) = (if i = 0 then head else L ! (i - 1))"
    using i by (cases L) (auto simp: last_conv_nth min_def)
  moreover have "L ! (i - 1) \<noteq> head"
    using i shape_node [of sl L "L ! (i - 1)"] inv by (simp add: inv_at_def head_def)
  ultimately show ?thesis
    using i by (cases i) (simp_all add: Iter_Prev_def Iter_key_def at_index_def L_def [symmetric])
qed

lemma SeekToLast_ok:
  assumes "skiplist_inv compare valid sl"
  shows "Iter_SeekToLast sl =
    Some (if keys_of sl = [] then None else at_index sl (length (keys_of sl) - 1))"
proof -
  define L where "L = addresses sl"
  have sh: "sl_shape sl L" using assms by (simp add: skiplist_inv_def L_def)
  have "FindLast sl = Some (pred_at (height_of (nodes sl)) 0 L)"
    unfolding FindLast_def by (rule FindLast_loop_ok) (use sh in \<open>auto simp: sl_shape_def\<close>)
  moreover have "filter (\<lambda>a. 0 < height_of (nodes sl) a) L = L"
    using shape_node [OF sh] by (simp add: filter_id_conv)
  ultimately have "FindLast sl = Some (last (head # L))" by (simp add: pred_at_def)
  moreover have "L \<noteq> [] \<Longrightarrow> last L \<noteq> head"
    using shape_node [OF sh, of "last L"] by (auto simp: head_def)
  ultimately show ?thesis
    by (simp add: Iter_SeekToLast_def at_index_def keys_of_def L_def [symmetric] last_conv_nth)
qed

end

subsection \<open>Properties\<close>

text \<open>All keys of a list, inserted in the order of the list.\<close>

primrec Inserts :: "('k \<Rightarrow> 'k \<Rightarrow> int) \<Rightarrow> 'k SkipList \<Rightarrow> 'k list \<Rightarrow> 'k SkipList option" where
  "Inserts compare sl [] = Some sl"
| "Inserts compare sl (k # ks) =
     (case Insert compare sl k of None \<Rightarrow> None | Some sl' \<Rightarrow> Inserts compare sl' ks)"

context key_order begin

lemma Inserts_ok:
  assumes "skiplist_inv compare valid sl" "\<forall>k\<in>set ks. valid k" "sorted_wrt (\<lambda>a b. compare a b \<noteq> 0) ks"
    "\<forall>k\<in>set ks. \<forall>k'\<in>set (keys_of sl). compare k' k \<noteq> 0"
  shows "\<exists>sl'. Inserts compare sl ks = Some sl' \<and> skiplist_inv compare valid sl' \<and>
    mset (keys_of sl') = mset (keys_of sl) + mset ks"
  using assms
proof (induction ks arbitrary: sl)
  case (Cons k ks)
  let ?P = "\<lambda>x. compare x k < 0"
  obtain sl1 where sl1: "Insert compare sl k = Some sl1" "skiplist_inv compare valid sl1"
    "keys_of sl1 = takeWhile ?P (keys_of sl) @ k # dropWhile ?P (keys_of sl)"
    using Insert_ok [OF Cons(2), of k] Cons(3,5) by auto
  have "mset (takeWhile ?P (keys_of sl)) + mset (dropWhile ?P (keys_of sl)) = mset (keys_of sl)"
    unfolding mset_append [symmetric] takeWhile_dropWhile_id ..
  then have m: "mset (keys_of sl1) = mset (keys_of sl) + {#k#}" using sl1(3) by simp
  then have "set (keys_of sl1) = insert k (set (keys_of sl))" by (metis set_mset_mset set_mset_add_mset_insert add_mset_add_single)
  then show ?case using Cons(1) [OF sl1(2)] Cons(3-5) sl1(1) m by simp
qed simp

end

lemma SkipList_new_inv: "skiplist_inv compare valid (SkipList_new k0)" "keys_of (SkipList_new k0) = []"
  using SkipList_new_shape [of k0] shape_addresses [OF SkipList_new_shape [of k0]]
  by (simp_all add: skiplist_inv_def keys_of_def)

text \<open>C31: Keys that the comparator tells apart, inserted into an empty skip list in any order, are all
  inserted; the list then holds exactly these keys in increasing order and every level links the
  nodes that reach it, in this order; membership is answered correctly, and a seek stops at the
  first key that is not below the target.\<close>

theorem skiplist_holds_keys:
  assumes "key_order compare valid" "\<forall>k\<in>set ks. valid k" "sorted_wrt (\<lambda>a b. compare a b \<noteq> 0) ks" "valid key"
  shows "\<exists>sl. Inserts compare (SkipList_new k0) ks = Some sl \<and> skiplist_inv compare valid sl \<and>
    sorted_wrt (\<lambda>a b. compare a b < 0) (keys_of sl) \<and> mset (keys_of sl) = mset ks \<and>
    Contains compare sl key = Some (\<exists>k\<in>set ks. compare k key = 0) \<and>
    Iter_Seek compare sl key = Some (at_index sl (length (takeWhile (\<lambda>k. compare k key < 0) (keys_of sl))))"
proof -
  obtain sl where sl: "Inserts compare (SkipList_new k0) ks = Some sl" "skiplist_inv compare valid sl" "mset (keys_of sl) = mset ks"
    using key_order.Inserts_ok [OF assms(1) SkipList_new_inv(1) assms(2,3), of k0] by (auto simp: SkipList_new_inv(2))
  have "set (keys_of sl) = set ks" using sl(3) by (rule mset_eq_setD)
  then show ?thesis
    using sl key_order.Contains_ok [OF assms(1) sl(2) assms(4)] key_order.Seek_ok [OF assms(1) sl(2) assms(4)]
    by (simp add: skiplist_inv_def)
qed

theorem skiplist_holds_keys_witness:
  "\<exists>sl. Inserts Slice_compare (SkipList_new []) [[3], [1], [2, 7]] = Some sl \<and> Contains Slice_compare sl [1] = Some True"
proof -
  have ko: "key_order Slice_compare (\<lambda>_. True)" using bytewise.key_order_axioms by simp
  show ?thesis using skiplist_holds_keys [OF ko, of "[[3], [1], [2, 7]]" "[]" "[1]"] by auto
qed

end
