(* ===== verification/Skiplist_Race.thy ===== *)
theory Skiplist_Race
  imports Skiplist
begin

text \<open>
  Readers take no lock. A reader is somewhere in the loop of \<open>FindGreaterOrEqual\<close>, or has its
  result; one step is one iteration of the loop, that is one load of a link. The writer is in
  the loop at the end of \<open>Insert\<close>; one step is one store. A schedule says who moves next.
\<close>

datatype Search = Searching nat nat | Found "nat option"

fun Search_step :: "('k \<Rightarrow> 'k \<Rightarrow> int) \<Rightarrow> 'k \<Rightarrow> 'k Node list \<Rightarrow> Search \<Rightarrow> Search" where
  "Search_step compare key ns (Found r) = Found r"
| "Search_step compare key ns (Searching x level) =
     (let next = Node_Next ns x level in
      if KeyIsAfterNode compare ns key next then Searching (the next) level
      else if level = 0 then Found next else Searching x (level - 1))"

definition Store_step :: "nat option list \<Rightarrow> nat \<Rightarrow> nat \<Rightarrow> 'k Node list \<Rightarrow> 'k Node list" where
  "Store_step prev x n ns =
     (let i = n div 2; p = the (prev ! i) in
      if even n then Node_SetNext ns x i (Node_Next ns p i) else Node_SetNext ns p i (Some x))"

record 'k Race =
  rheap :: "'k Node list"
  stores :: nat
  search :: Search

definition Race_step ::
  "('k \<Rightarrow> 'k \<Rightarrow> int) \<Rightarrow> 'k \<Rightarrow> nat option list \<Rightarrow> nat \<Rightarrow> nat \<Rightarrow> bool \<Rightarrow> 'k Race \<Rightarrow> 'k Race" where
  "Race_step compare key prev x h who s =
     (if who then s\<lparr>search := Search_step compare key (rheap s) (search s)\<rparr>
      else if stores s < 2 * h
      then s\<lparr>rheap := Store_step prev x (stores s) (rheap s), stores := stores s + 1\<rparr>
      else s)"

lemma SetNext_invisible:
  assumes "linked ns ht L" "x < length ns" "i < height_of ns x" "x \<noteq> head" "\<not> i < ht x"
  shows "linked (Node_SetNext ns x i v) ht L"
  using assms unfolding linked_def by (auto simp: Next_SetNext)

lemma Store_simps [simp]:
  "length (Store_step prev x n ns) = length ns" "nkey (Store_step prev x n ns ! y) = nkey (ns ! y)"
  "height_of (Store_step prev x n ns) y = height_of ns y"
  by (simp_all add: Store_step_def Let_def)

lemma Stores_simps [simp]:
  "length (fold (Store_step prev x) is ns) = length ns"
  "nkey (fold (Store_step prev x) is ns ! y) = nkey (ns ! y)"
  "height_of (fold (Store_step prev x) is ns) y = height_of ns y"
  by (induction "is" arbitrary: ns) auto

lemma Stores_links:
  "p \<noteq> x \<Longrightarrow> prev ! i = Some p \<Longrightarrow> Store_step prev x (Suc (2 * i)) (Store_step prev x (2 * i) ns) = Insert_link prev x i ns"
  by (simp add: Store_step_def Insert_link_def Let_def)

lemma fold_Stores_links: "fold (Store_step prev x) [0..<2 * j] ns = fold (Insert_link prev x) [0..<j] ns"
  by (induction j) (simp_all add: Store_step_def Insert_link_def Let_def)

context key_order begin

text \<open>A reader stands at a node that is visible at its level and comes before its key.\<close>

definition search_at :: "'k \<Rightarrow> 'k Node list \<Rightarrow> (nat \<Rightarrow> nat) \<Rightarrow> nat list \<Rightarrow> nat \<Rightarrow> nat \<Rightarrow> bool" where
  "search_at key ns ht L y level \<longleftrightarrow> level < kMaxHeight \<and>
     (y = head \<or> y \<in> set L \<and> level < ht y \<and> compare (nkey (ns ! y)) key < 0)"

lemma Search_step_ok:
  assumes "linked ns ht L" "search_at key ns ht L y level" "valid key"
    "sorted_wrt (\<lambda>a b. compare a b < 0) (map (\<lambda>x. nkey (ns ! x)) L)" "\<forall>k\<in>set (map (\<lambda>x. nkey (ns ! x)) L). valid k"
  shows "case Search_step compare key ns (Searching y level) of
      Searching y' level' \<Rightarrow> search_at key ns ht L y' level' \<and>
        level' + length (after y' L) < level + length (after y L)
    | Found r \<Rightarrow> r = find (\<lambda>a. 0 \<le> compare (nkey (ns ! a)) key) (filter (\<lambda>a. 0 < ht a) L)"
proof -
  obtain A B where AB: "L = A @ B" "\<forall>a\<in>set A. compare (nkey (ns ! a)) key < 0"
    "\<forall>b\<in>set B. 0 \<le> compare (nkey (ns ! b)) key"
    using sorted_splits [OF assms(4,5,3)] by blast
  have y: "level < kMaxHeight" "y = head \<or> y \<in> set A \<and> level < ht y" "y = head \<or> y \<in> set A"
    using assms(2) AB by (auto simp: search_at_def)
  have l: "linked ns ht (A @ B)" using assms(1) AB(1) by simp
  have d: "distinct L" "head \<notin> set L" using assms(1) by (auto simp: linked_def)
  from l y(1,2) show ?thesis
  proof (cases rule: search_step)
    case (forward p)
    have "length (after p L) < length (after y L)"
      using forward(2,4) y(3) by (simp add: AB(1) after_append)
    then show ?thesis using forward AB y(1) by (auto simp: KeyIsAfterNode_def search_at_def)
  next
    case stop
    have no: "\<not> KeyIsAfterNode compare ns key (Node_Next ns y level)"
      using AB(3) by (auto simp: stop(1) KeyIsAfterNode_def dest!: find_SomeD split: option.splits)
    have "find (\<lambda>a. 0 \<le> compare (nkey (ns ! a)) key) (filter (\<lambda>a. 0 < ht a) L) = find (\<lambda>a. 0 < ht a) B"
    proof -
      have "find (\<lambda>a. 0 \<le> compare (nkey (ns ! a)) key) (filter (\<lambda>a. 0 < ht a) A) = None"
        using AB(2) by (force simp: find_None_iff)
      moreover have "find (\<lambda>a. 0 \<le> compare (nkey (ns ! a)) key) (filter (\<lambda>a. 0 < ht a) B) = find (\<lambda>a. 0 < ht a) B"
        using AB(3) by (induction B) auto
      ultimately show ?thesis by (simp add: AB(1) find_append)
    qed
    then show ?thesis using no stop y AB by (auto simp: search_at_def Let_def)
  qed
qed

lemma stores_linked:
  assumes "sl_shape sl (A @ B)" "h \<le> kMaxHeight" "NewNode (nodes sl) key h = (x, ns)" "n \<le> 2 * h"
    and "\<And>i. i < h \<Longrightarrow> prev ! i = Some (pred_at (height_of (nodes sl)) i A)"
  shows "linked (fold (Store_step prev x) [0..<n] ns) ((height_of (nodes sl))(x := n div 2)) (A @ x # B)"
proof (cases "even n")
  case True
  then obtain j where j: "n = 2 * j" by blast
  then show ?thesis using insert_linked [OF assms(1-3) _ assms(5), of j] assms(4) by (simp add: fold_Stores_links)
next
  case False
  then obtain j where j: "n = Suc (2 * j)" by (metis oddE Suc_eq_plus1)
  have x: "x < length ns" "height_of ns x = h" "x \<noteq> head"
    using assms(1,3) by (auto simp: NewNode_def height_of_def head_def sl_shape_def)
  have "linked (fold (Insert_link prev x) [0..<j] ns) ((height_of (nodes sl))(x := j)) (A @ x # B)"
    using insert_linked [OF assms(1-3) _ assms(5), of j] assms(4) j by simp
  from SetNext_invisible [OF this, of x j] x assms(4) j show ?thesis
    by (simp add: fold_Stores_links [symmetric]) (simp add: Store_step_def Let_def)
qed

definition race_ok ::
  "'k Node list \<Rightarrow> nat option list \<Rightarrow> nat \<Rightarrow> nat \<Rightarrow> (nat \<Rightarrow> nat) \<Rightarrow> nat list \<Rightarrow> 'k \<Rightarrow> 'k Race \<Rightarrow> bool" where
  "race_ok ns prev x h ht L key s \<longleftrightarrow>
     rheap s = fold (Store_step prev x) [0..<stores s] ns \<and> stores s \<le> 2 * h \<and>
     (case search s of
        Searching y l \<Rightarrow> search_at key ns (ht(x := stores s div 2)) L y l
      | Found r \<Rightarrow> \<exists>visible. r = find (\<lambda>a. 0 \<le> compare (nkey (ns ! a)) key) (filter (\<lambda>a. a \<noteq> x \<or> visible) L))"

definition search_left :: "nat list \<Rightarrow> 'k Race \<Rightarrow> nat" where
  "search_left L s = (case search s of Searching y l \<Rightarrow> Suc (l + length (after y L)) | Found r \<Rightarrow> 0)"

lemma race_step_ok:
  assumes "race_ok ns prev x h ht L key s" "valid key"
    and sorted: "sorted_wrt (\<lambda>a b. compare a b < 0) (map (\<lambda>x. nkey (ns ! x)) L)"
      "\<forall>k\<in>set (map (\<lambda>x. nkey (ns ! x)) L). valid k"
    and linked: "\<And>n. n \<le> 2 * h \<Longrightarrow> linked (fold (Store_step prev x) [0..<n] ns) (ht(x := n div 2)) L"
    and high: "\<And>a. a \<in> set L \<Longrightarrow> a \<noteq> x \<Longrightarrow> 0 < ht a"
  shows "race_ok ns prev x h ht L key (Race_step compare key prev x h who s) \<and>
    search_left L (Race_step compare key prev x h who s) \<le> search_left L s - (if who then 1 else 0)"
proof (cases who)
  case False
  have "search_at key ns (ht(x := Suc (stores s) div 2)) L y l"
    if "search_at key ns (ht(x := stores s div 2)) L y l" for y l
    using that by (auto simp: search_at_def split: if_splits)
  then show ?thesis
    using assms(1) False by (auto simp: race_ok_def Race_step_def search_left_def split: Search.splits)
next
  case True
  let ?ht = "ht(x := stores s div 2)"
  have heap: "rheap s = fold (Store_step prev x) [0..<stores s] ns" "stores s \<le> 2 * h"
    using assms(1) by (auto simp: race_ok_def)
  have vis: "filter (\<lambda>a. 0 < ?ht a) L = filter (\<lambda>a. a \<noteq> x \<or> 0 < stores s div 2) L"
    using high by (intro filter_cong) auto
  show ?thesis
  proof (cases "search s")
    case (Searching y l)
    then have "search_at key (rheap s) ?ht L y l" using assms(1) by (simp add: race_ok_def search_at_def heap(1))
    with linked [OF heap(2)] assms(2) sorted
    have "case Search_step compare key (rheap s) (Searching y l) of
        Searching y' l' \<Rightarrow> search_at key (rheap s) ?ht L y' l' \<and> l' + length (after y' L) < l + length (after y L)
      | Found r \<Rightarrow> r = find (\<lambda>a. 0 \<le> compare (nkey (rheap s ! a)) key) (filter (\<lambda>a. 0 < ?ht a) L)"
      by (intro Search_step_ok) (simp_all add: heap(1))
    note this [unfolded vis]
    then show ?thesis
      using True Searching heap
      by (auto simp: race_ok_def Race_step_def search_left_def search_at_def simp del: Search_step.simps split: Search.splits)
  qed (use assms(1) True in \<open>auto simp: race_ok_def Race_step_def search_left_def\<close>)
qed

text \<open>
  A search that runs beside an insertion, under any schedule: what it finds is what it would find
  in the list before or in the list after the insertion, and it is done after a bounded number of
  its own steps, however the writer's are placed.
\<close>

lemma race_run:
  assumes "race_ok ns prev x h ht L key s" "valid key"
    and sorted: "sorted_wrt (\<lambda>a b. compare a b < 0) (map (\<lambda>x. nkey (ns ! x)) L)"
      "\<forall>k\<in>set (map (\<lambda>x. nkey (ns ! x)) L). valid k"
    and linked: "\<And>n. n \<le> 2 * h \<Longrightarrow> linked (fold (Store_step prev x) [0..<n] ns) (ht(x := n div 2)) L"
    and high: "\<And>a. a \<in> set L \<Longrightarrow> a \<noteq> x \<Longrightarrow> 0 < ht a"
  shows "race_ok ns prev x h ht L key (fold (Race_step compare key prev x h) sched s) \<and>
    search_left L (fold (Race_step compare key prev x h) sched s) \<le> search_left L s - count_list sched True"
  using assms(1)
proof (induction sched arbitrary: s)
  case (Cons who sched)
  show ?case
    using Cons(1) race_step_ok [OF Cons(2) assms(2-6), of who] by (cases who) fastforce+
qed simp

lemma concurrent_search:
  assumes "skiplist_inv compare valid sl" "valid key" "\<forall>k\<in>set (keys_of sl). compare k key \<noteq> 0"
    "valid rkey" "level < kMaxHeight" "h \<le> kMaxHeight"
    "FindGreaterOrEqual compare sl key = Some (n, prev)"
    "prev' = fold (\<lambda>i prev. prev[i := Some head]) [max_height sl..<h] prev"
    "s = fold (Race_step compare rkey prev' (length (nodes sl)) h) sched
       \<lparr>rheap = snd (NewNode (nodes sl) key h), stores = 0, search = Searching head level\<rparr>"
  shows "search s = Found r \<Longrightarrow> map_option (\<lambda>a. nkey (rheap s ! a)) r \<in>
      {find (\<lambda>k. 0 \<le> compare k rkey) (keys_of sl),
       find (\<lambda>k. 0 \<le> compare k rkey)
         (takeWhile (\<lambda>k. compare k key < 0) (keys_of sl) @ key # dropWhile (\<lambda>k. compare k key < 0) (keys_of sl))}"
    and "level + length (keys_of sl) + 1 < count_list sched True \<Longrightarrow> \<exists>r. search s = Found r"
proof -
  define x where "x = length (nodes sl)"
  obtain ns where ns: "NewNode (nodes sl) key h = (x, ns)" by (simp add: NewNode_def x_def)
  let ?K = "\<lambda>y. nkey (ns ! y)"
  obtain A B where ab: "sl_shape sl (A @ B)" "\<forall>i<h. prev' ! i = Some (pred_at (height_of (nodes sl)) i A)"
    "map (\<lambda>x. nkey (nodes sl ! x)) A = takeWhile (\<lambda>k. compare k key < 0) (keys_of sl)"
    "map (\<lambda>x. nkey (nodes sl ! x)) B = dropWhile (\<lambda>k. compare k key < 0) (keys_of sl)"
    "sorted_wrt (\<lambda>a b. compare a b < 0) (map (\<lambda>x. nkey (nodes sl ! x)) A @ key # map (\<lambda>x. nkey (nodes sl ! x)) B)"
    "\<forall>k\<in>set (map (\<lambda>x. nkey (nodes sl ! x)) A @ key # map (\<lambda>x. nkey (nodes sl ! x)) B). valid k"
    by (rule insert_setup [OF assms(1-3,7,6), folded assms(8)])
  let ?L = "A @ x # B"
  note map = new_node_keys [OF ab(1) ns]
  have x: "x \<notin> set (A @ B)" "length ?L = Suc (length (keys_of sl))"
    using shape_node [OF ab(1), of x] shape_addresses [OF ab(1)] by (auto simp: x_def keys_of_def)
  have before: "map ?K (A @ B) = keys_of sl"
  proof -
    have "map ?K A @ map ?K B = map (\<lambda>x. nkey (nodes sl ! x)) A @ map (\<lambda>x. nkey (nodes sl ! x)) B"
      using map by simp
    then show ?thesis using ab(3,4) by simp
  qed
  define s0 where "s0 = \<lparr>rheap = ns, stores = 0, search = Searching head level\<rparr>"
  have "race_ok ns prev' x h (height_of (nodes sl)) ?L rkey s0"
    using assms(5) by (simp add: race_ok_def s0_def search_at_def)
  then have run: "race_ok ns prev' x h (height_of (nodes sl)) ?L rkey s \<and>
      search_left ?L s \<le> search_left ?L s0 - count_list sched True"
    unfolding assms(9) ns x_def [symmetric] snd_conv s0_def [symmetric]
    by (rule race_run [OF _ assms(4) ab(5) [folded map] ab(6) [folded map]
          stores_linked [OF ab(1) assms(6) ns _ ab(2) [rule_format]]])
      (use shape_node [OF ab(1)] in auto)
  have find_map: "map_option ?K (find (\<lambda>a. 0 \<le> compare (?K a) rkey) M) = find (\<lambda>k. 0 \<le> compare k rkey) (map ?K M)" for M
    by (induction M) auto
  {
    assume "search s = Found r"
    then obtain visible where "r = find (\<lambda>a. 0 \<le> compare (?K a) rkey) (filter (\<lambda>a. a \<noteq> x \<or> visible) ?L)"
      and heap: "rheap s = fold (Store_step prev' x) [0..<stores s] ns"
      using run by (auto simp: race_ok_def)
    moreover have "filter (\<lambda>a. a \<noteq> x \<or> visible) ?L = (if visible then ?L else A @ B)"
    proof -
      have "filter (\<lambda>a. a \<noteq> x) (A @ B) = A @ B" using x(1) by (intro filter_True) auto
      then show ?thesis by simp
    qed
    ultimately show "map_option (\<lambda>a. nkey (rheap s ! a)) r \<in>
      {find (\<lambda>k. 0 \<le> compare k rkey) (keys_of sl),
       find (\<lambda>k. 0 \<le> compare k rkey)
         (takeWhile (\<lambda>k. compare k key < 0) (keys_of sl) @ key # dropWhile (\<lambda>k. compare k key < 0) (keys_of sl))}"
      using before map ab(3,4) by (auto simp: find_map)
  next
    assume "level + length (keys_of sl) + 1 < count_list sched True"
    moreover have "search_left ?L s0 = Suc (level + length ?L)" by (simp add: search_left_def s0_def)
    ultimately have "search_left ?L s = 0" using run x(2) by simp
    then show "\<exists>r. search s = Found r" by (simp add: search_left_def split: Search.splits)
  }
qed

end

text \<open>C32: A reader that searches without a lock while a writer links a new node into the list finds,
  whatever the interleaving of its loads with the writer's stores, the first key not below its
  target in the list before or in the list after the insertion; and it is done after a bounded
  number of its own steps.\<close>

theorem concurrent_search_completes:
  assumes "key_order compare valid" "skiplist_inv compare valid sl" "valid key" "\<forall>k\<in>set (keys_of sl). compare k key \<noteq> 0"
    "valid rkey" "level < kMaxHeight" "h \<le> kMaxHeight"
    "FindGreaterOrEqual compare sl key = Some (n, prev)"
    "prev' = fold (\<lambda>i prev. prev[i := Some head]) [max_height sl..<h] prev"
    "s = fold (Race_step compare rkey prev' (length (nodes sl)) h) sched
       \<lparr>rheap = snd (NewNode (nodes sl) key h), stores = 0, search = Searching head level\<rparr>"
    "level + length (keys_of sl) + 1 < count_list sched True"
  shows "\<exists>r. search s = Found r \<and> map_option (\<lambda>a. nkey (rheap s ! a)) r \<in>
      {find (\<lambda>k. 0 \<le> compare k rkey) (keys_of sl),
       find (\<lambda>k. 0 \<le> compare k rkey)
         (takeWhile (\<lambda>k. compare k key < 0) (keys_of sl) @ key # dropWhile (\<lambda>k. compare k key < 0) (keys_of sl))}"
  using key_order.concurrent_search [OF assms(1-10)] assms(11) by blast

theorem concurrent_search_completes_witness:
  "\<exists>n prev r. FindGreaterOrEqual Slice_compare (SkipList_new []) [5] = Some (n, prev) \<and>
     search (fold (Race_step Slice_compare [4] (fold (\<lambda>i prev. prev[i := Some head]) [1..<2] prev) 1 2)
       [True, False, False, True, False, False, True]
       \<lparr>rheap = snd (NewNode (nodes (SkipList_new [])) [5] 2), stores = 0, search = Searching head 0\<rparr>) = Found r"
proof -
  let ?sl = "SkipList_new ([] :: bytes)"
  have ko: "key_order Slice_compare (\<lambda>_. True)" using bytewise.key_order_axioms by simp
  have inv: "skiplist_inv Slice_compare (\<lambda>_. True) ?sl" by (rule SkipList_new_inv)
  then have "Iter_Seek Slice_compare ?sl [5] \<noteq> None" using key_order.Seek_ok [OF ko inv, of "[5]"] by simp
  then obtain n prev where f: "FindGreaterOrEqual Slice_compare ?sl [5] = Some (n, prev)" by (auto simp: Iter_Seek_def)
  have len: "length (nodes ?sl) = 1" "max_height ?sl = 1" by (simp_all add: SkipList_new_nodes) (simp add: SkipList_new_def Let_def)
  show ?thesis
    using concurrent_search_completes [OF ko inv _ _ _ _ _ f refl refl, where rkey = "[4]" and level = 0 and h = 2
      and sched = "[True, False, False, True, False, False, True]"]
      f len by (auto simp: SkipList_new_inv(2) kMaxHeight_def)
qed

end
