(* ===== verification/Memtable.thy ===== *)
theory Memtable
  imports Dbformat Skiplist_Race
begin

text \<open>
  The memtable, \<open>db/memtable.cc\<close>: entries are byte strings, a length-prefixed internal key
  followed by a length-prefixed value, kept in a skip list ordered by their internal keys. What
  a pointer into the arena denotes is the bytes from there on.
\<close>

subsection \<open>Entries\<close>

text \<open>
  Reads a varint from at most five bytes and returns the slice behind it and what follows the
  slice. Entries are assumed not to be corrupted; for bytes that are no varint, where the source
  would go on with a null pointer, the model gives nothing.
\<close>

definition mem_GetVarint :: "bytes \<Rightarrow> nat \<times> bytes" where
  "mem_GetVarint data =
     (case GetVarint32Ptr (take 5 data) of
        None \<Rightarrow> (0, [])
      | Some (len, rest) \<Rightarrow> (unat len, drop (min (length data) 5 - length rest) data))"

definition mem_GetLengthPrefixedSlice :: "bytes \<Rightarrow> bytes \<times> bytes" where
  "mem_GetLengthPrefixedSlice data =
     (let (len, p) = mem_GetVarint data in (take len p, drop len p))"

definition KeyComparator :: "Comparator \<Rightarrow> bytes \<Rightarrow> bytes \<Rightarrow> int" where
  "KeyComparator user aptr bptr =
     InternalKey_Compare user (fst (mem_GetLengthPrefixedSlice aptr)) (fst (mem_GetLengthPrefixedSlice bptr))"

definition EncodeKey :: "bytes \<Rightarrow> bytes" where
  "EncodeKey target = PutVarint32 [] (of_nat (length target)) @ target"

subsection \<open>The memtable\<close>

record MemTable =
  table :: "bytes SkipList"
  mrefs :: int

definition MemTable_new :: MemTable where
  "MemTable_new = \<lparr>table = SkipList_new [], mrefs = 0\<rparr>"

definition MemTable_Ref :: "MemTable \<Rightarrow> MemTable" where
  "MemTable_Ref m = m\<lparr>mrefs := mrefs m + 1\<rparr>"

definition MemTable_Unref :: "MemTable \<Rightarrow> MemTable option" where
  "MemTable_Unref m =
     (let m = m\<lparr>mrefs := mrefs m - 1\<rparr> in if mrefs m \<le> 0 then None else Some m)"

definition MemTable_Add ::
  "Comparator \<Rightarrow> MemTable \<Rightarrow> SequenceNumber \<Rightarrow> ValueType \<Rightarrow> bytes \<Rightarrow> bytes \<Rightarrow> MemTable option" where
  "MemTable_Add user m s type key value =
     (let key_size = length key;
          val_size = length value;
          internal_key_size = key_size + 8;
          buf = EncodeVarint32 (of_nat internal_key_size) @ key @
            EncodeFixed64 (push_bit 8 s OR ucast (type_code type)) @
            EncodeVarint32 (of_nat val_size) @ value
      in map_option (\<lambda>t. m\<lparr>table := t\<rparr>) (Insert (KeyComparator user) (table m) buf))"

text \<open>
  The result of \<open>Get\<close>: nothing when it returns false, otherwise the status it sets or the value
  it stores. The outer option is for the search, which has to be shown to return.
\<close>

definition MemTable_Get ::
  "Comparator \<Rightarrow> MemTable \<Rightarrow> LookupKey \<Rightarrow> (Status + bytes) option option" where
  "MemTable_Get user m key =
     (case Iter_Seek (KeyComparator user) (table m) (memtable_key key) of
        None \<Rightarrow> None
      | Some it \<Rightarrow> Some
          (if Iter_Valid it then
             (let entry = Iter_key (table m) it;
                  (key_length, key_ptr) = mem_GetVarint entry
              in if Compare user (take (key_length - 8) key_ptr) (LookupKey_user_key key) = 0 then
                   (let tag = DecodeFixed64 (drop (key_length - 8) key_ptr) in
                    case to_ValueType (ucast (tag AND 0xff)) of
                      Some kTypeValue \<Rightarrow>
                        Some (Inr (fst (mem_GetLengthPrefixedSlice (drop key_length key_ptr))))
                    | Some kTypeDeletion \<Rightarrow> Some (Inl (NotFound [] []))
                    | None \<Rightarrow> None)
                 else None)
           else None))"

text \<open>The iterator.\<close>

definition MemTableIterator_Seek :: "Comparator \<Rightarrow> MemTable \<Rightarrow> bytes \<Rightarrow> Iter option" where
  "MemTableIterator_Seek user m k = Iter_Seek (KeyComparator user) (table m) (EncodeKey k)"

definition MemTableIterator_SeekToFirst :: "MemTable \<Rightarrow> Iter" where
  "MemTableIterator_SeekToFirst m = Iter_SeekToFirst (table m)"

definition MemTableIterator_SeekToLast :: "MemTable \<Rightarrow> Iter option" where
  "MemTableIterator_SeekToLast m = Iter_SeekToLast (table m)"

definition MemTableIterator_Next :: "MemTable \<Rightarrow> Iter \<Rightarrow> Iter" where
  "MemTableIterator_Next m it = Iter_Next (table m) it"

definition MemTableIterator_Prev :: "Comparator \<Rightarrow> MemTable \<Rightarrow> Iter \<Rightarrow> Iter option" where
  "MemTableIterator_Prev user m it = Iter_Prev (KeyComparator user) (table m) it"

definition MemTableIterator_key :: "MemTable \<Rightarrow> Iter \<Rightarrow> bytes" where
  "MemTableIterator_key m it = fst (mem_GetLengthPrefixedSlice (Iter_key (table m) it))"

definition MemTableIterator_value :: "MemTable \<Rightarrow> Iter \<Rightarrow> bytes" where
  "MemTableIterator_value m it =
     fst (mem_GetLengthPrefixedSlice (snd (mem_GetLengthPrefixedSlice (Iter_key (table m) it))))"

subsection \<open>Reading entries\<close>

lemma mem_GetVarint_prefixed:
  assumes "length s < 2 ^ 32"
  shows "mem_GetVarint (length_prefixed s @ rest) = (length s, s @ rest)"
proof -
  let ?e = "EncodeVarint32 (of_nat (length s))"
  have "take 5 (length_prefixed s @ rest) = ?e @ take (5 - length ?e) (s @ rest)"
    using EncodeVarint32_length [of "of_nat (length s)"] by simp
  then have get: "GetVarint32Ptr (take 5 (length_prefixed s @ rest)) =
      Some (of_nat (length s), take (5 - length ?e) (s @ rest))" by (simp add: roundtrip)
  have used: "min (length (length_prefixed s @ rest)) 5 - length (take (5 - length ?e) (s @ rest)) = length ?e"
    using EncodeVarint32_length [of "of_nat (length s)"] by (auto simp: min_def)
  show ?thesis
    unfolding mem_GetVarint_def get option.case prod.case used
    using assms by (simp add: unat_of_nat_small32)
qed

lemma mem_GetLengthPrefixedSlice_prefixed [simp]:
  "length s < 2 ^ 32 \<Longrightarrow> mem_GetLengthPrefixedSlice (length_prefixed s @ rest) = (s, rest)"
  unfolding mem_GetLengthPrefixedSlice_def by (subst mem_GetVarint_prefixed) simp_all

lemma EncodeKey_eq: "EncodeKey k = length_prefixed k"
  by (simp add: EncodeKey_def PutVarint32_def)

type_synonym MemEntry = "SequenceNumber \<times> ValueType \<times> bytes \<times> bytes"

fun entry_key :: "MemEntry \<Rightarrow> bytes" where
  "entry_key (s, t, k, v) = InternalKey k s t"

fun entry_bytes :: "MemEntry \<Rightarrow> bytes" where
  "entry_bytes (s, t, k, v) = length_prefixed (InternalKey k s t) @ length_prefixed v"

fun entry_ok :: "MemEntry \<Rightarrow> bool" where
  "entry_ok (s, t, k, v) \<longleftrightarrow> s \<le> kMaxSequenceNumber \<and> length k + 8 < 2 ^ 32 \<and> length v < 2 ^ 32"

definition valid_entry :: "bytes \<Rightarrow> bool" where
  "valid_entry e \<longleftrightarrow> valid_ikey (fst (mem_GetLengthPrefixedSlice e))"

lemma entry_slice [simp]:
  "entry_ok e \<Longrightarrow> mem_GetLengthPrefixedSlice (entry_bytes e) =
    (entry_key e, length_prefixed (snd (snd (snd e))))"
proof (cases e)
  case (fields s t k v)
  assume "entry_ok e"
  then have "length (InternalKey k s t) < 2 ^ 32" using fields by simp
  then show ?thesis
    unfolding fields entry_bytes.simps by (subst mem_GetLengthPrefixedSlice_prefixed) simp_all
qed

lemma entry_varint:
  assumes "entry_ok (s, t, k, v)"
  shows "mem_GetVarint (entry_bytes (s, t, k, v)) =
    (length k + 8, k @ EncodeFixed64 (PackSequenceAndType s t) @ length_prefixed v)"
  unfolding entry_bytes.simps using assms
  by (subst mem_GetVarint_prefixed) (simp_all add: InternalKey_eq)

lemma valid_entry_bytes [simp]: "entry_ok e \<Longrightarrow> valid_entry (entry_bytes e)"
  by (cases e) (simp add: valid_entry_def del: entry_bytes.simps entry_ok.simps)

lemma Add_buf: "MemTable_Add user m s t k v =
    map_option (\<lambda>t. m\<lparr>table := t\<rparr>) (Insert (KeyComparator user) (table m) (entry_bytes (s, t, k, v)))"
  by (simp add: MemTable_Add_def Let_def InternalKey_eq PackSequenceAndType_def)

subsection \<open>The order of entries\<close>

text \<open>The memtable holds the entries \<open>E\<close>, in this order.\<close>

definition mem_rep :: "Comparator \<Rightarrow> MemTable \<Rightarrow> MemEntry list \<Rightarrow> bool" where
  "mem_rep user m E \<longleftrightarrow> skiplist_inv (KeyComparator user) valid_entry (table m) \<and>
     keys_of (table m) = map entry_bytes E \<and> (\<forall>e\<in>set E. entry_ok e)"

text \<open>What a lookup of user key \<open>k\<close> at snapshot \<open>s\<close> may see, and what it makes of an entry.\<close>

fun visible :: "Comparator \<Rightarrow> bytes \<Rightarrow> SequenceNumber \<Rightarrow> MemEntry \<Rightarrow> bool" where
  "visible user k s (s', t, k', v) \<longleftrightarrow> Compare user k' k = 0 \<and> s' \<le> s"

fun entry_result :: "MemEntry \<Rightarrow> Status + bytes" where
  "entry_result (s, t, k, v) = (case t of kTypeValue \<Rightarrow> Inr v | kTypeDeletion \<Rightarrow> Inl (NotFound [] []))"

context ikey_order begin

sublocale mem: key_order "KeyComparator user" valid_entry
proof (unfold_locales, goal_cases)
  case (1 a)
  then show ?case by (simp add: KeyComparator_def valid_entry_def ikey.compare_refl)
next
  case (2 a b)
  then show ?case unfolding KeyComparator_def valid_entry_def by (rule ikey.compare_flip)
next
  case (3 a b c)
  then show ?case unfolding KeyComparator_def valid_entry_def by (rule ikey.compare_trans)
qed

lemma KeyComparator_entries:
  "entry_ok a \<Longrightarrow> entry_ok b \<Longrightarrow>
    KeyComparator user (entry_bytes a) (entry_bytes b) = InternalKey_Compare user (entry_key a) (entry_key b)"
  by (simp add: KeyComparator_def)

lemma mem_rep_new: "mem_rep user MemTable_new []"
proof -
  have "addresses (SkipList_new ([] :: bytes)) = []" by (rule shape_addresses [OF SkipList_new_shape])
  then show ?thesis
    using SkipList_new_shape [of "[] :: bytes"]
    by (simp add: mem_rep_def MemTable_new_def skiplist_inv_def keys_of_def)
qed

lemma mem_rep_sorted:
  "mem_rep user m E \<Longrightarrow> sorted_wrt (\<lambda>a b. InternalKey_Compare user (entry_key a) (entry_key b) < 0) E"
  unfolding mem_rep_def skiplist_inv_def
  by (elim conjE, rule sorted_wrt_mono_rel [where P = "\<lambda>a b. KeyComparator user (entry_bytes a) (entry_bytes b) < 0"])
    (auto simp: sorted_wrt_map KeyComparator_entries)

lemma Add_ok:
  assumes "mem_rep user m E" "entry_ok (s, t, k, v)"
    "\<forall>e\<in>set E. InternalKey_Compare user (entry_key e) (InternalKey k s t) \<noteq> 0"
  shows "\<exists>m'. MemTable_Add user m s t k v = Some m' \<and>
    mem_rep user m' (takeWhile (\<lambda>e. InternalKey_Compare user (entry_key e) (InternalKey k s t) < 0) E @ (s, t, k, v) #
      dropWhile (\<lambda>e. InternalKey_Compare user (entry_key e) (InternalKey k s t) < 0) E)"
proof -
  let ?e = "(s, t, k, v)" and ?P = "\<lambda>e. InternalKey_Compare user (entry_key e) (InternalKey k s t) < 0"
  have E: "\<forall>e\<in>set E. entry_ok e" and inv: "skiplist_inv (KeyComparator user) valid_entry (table m)"
    and keys: "keys_of (table m) = map entry_bytes E"
    using assms(1) by (auto simp: mem_rep_def)
  have cmp: "KeyComparator user (entry_bytes e) (entry_bytes ?e) = InternalKey_Compare user (entry_key e) (InternalKey k s t)"
    if "e \<in> set E" for e
    using E that assms(2) KeyComparator_entries [of e ?e] by (simp del: entry_bytes.simps entry_ok.simps)
  have tw: "takeWhile (\<lambda>x. KeyComparator user x (entry_bytes ?e) < 0) (map entry_bytes E) = map entry_bytes (takeWhile ?P E)"
    "dropWhile (\<lambda>x. KeyComparator user x (entry_bytes ?e) < 0) (map entry_bytes E) = map entry_bytes (dropWhile ?P E)"
    using cmp by (simp_all add: takeWhile_map dropWhile_map comp_def del: entry_bytes.simps cong: takeWhile_cong dropWhile_cong)
  obtain t' where t': "Insert (KeyComparator user) (table m) (entry_bytes ?e) = Some t'"
    "skiplist_inv (KeyComparator user) valid_entry t'"
    "keys_of t' = map entry_bytes (takeWhile ?P E @ ?e # dropWhile ?P E)"
    using mem.Insert_ok [OF inv valid_entry_bytes [OF assms(2)]] cmp assms(3) keys tw by auto
  have "\<forall>e\<in>set (takeWhile ?P E @ ?e # dropWhile ?P E). entry_ok e"
    using E assms(2) by (auto dest: set_takeWhileD set_dropWhileD)
  then show ?thesis
    using t' by (intro exI [of _ "m\<lparr>table := t'\<rparr>"]) (simp add: Add_buf mem_rep_def del: entry_bytes.simps)
qed

text \<open>What \<open>Get\<close> looks at is the first entry that does not come before the lookup key.\<close>

abbreviation before :: "bytes \<Rightarrow> SequenceNumber \<Rightarrow> MemEntry \<Rightarrow> bool" where
  "before k s e \<equiv> InternalKey_Compare user (entry_key e) (InternalKey k s kTypeValue) < 0"

lemma before_iff:
  assumes "entry_ok e" "s \<le> kMaxSequenceNumber" "Compare user (fst (snd (snd e))) k = 0"
  shows "before k s e \<longleftrightarrow> \<not> visible user k s e"
proof (cases e)
  case (fields s' t k' v)
  then show ?thesis
    using assms Pack_le_iff [OF assms(2), of s' t]
    by (auto simp: InternalKey_Compare_def Let_def not_le)
qed

lemma Get_eq:
  assumes "mem_rep user m E" "length k + 8 < 2 ^ 32"
  shows "MemTable_Get user m (LookupKey_new k s) =
    Some (case dropWhile (before k s) E of
        [] \<Rightarrow> None
      | e # _ \<Rightarrow> if Compare user (fst (snd (snd e))) k = 0 then Some (entry_result e) else None)"
proof -
  let ?lk = "length_prefixed (InternalKey k s kTypeValue)"
  have E: "\<forall>e\<in>set E. entry_ok e" and inv: "skiplist_inv (KeyComparator user) valid_entry (table m)"
    and keys: "keys_of (table m) = map entry_bytes E"
    using assms(1) by (auto simp: mem_rep_def)
  have lk: "mem_GetLengthPrefixedSlice ?lk = (InternalKey k s kTypeValue, [])"
    using mem_GetLengthPrefixedSlice_prefixed [of "InternalKey k s kTypeValue" "[]"] assms(2) by simp
  then have valid: "valid_entry ?lk" unfolding valid_entry_def by simp
  have cmp: "KeyComparator user (entry_bytes e) ?lk < 0 \<longleftrightarrow> before k s e" if "e \<in> set E" for e
    unfolding KeyComparator_def lk using E that by (simp del: entry_bytes.simps)
  have tw: "length (takeWhile (\<lambda>x. KeyComparator user x ?lk < 0) (keys_of (table m))) =
      length (takeWhile (before k s) E)"
    unfolding keys takeWhile_map length_map comp_def using cmp by (metis (no_types, lifting) takeWhile_cong)
  have seek: "Iter_Seek (KeyComparator user) (table m) ?lk = Some (at_index (table m) (length (takeWhile (before k s) E)))"
    using mem.Seek_ok [OF inv valid] unfolding tw .
  show ?thesis
  proof (cases "dropWhile (before k s) E")
    case Nil
    then have "length (takeWhile (before k s) E) = length (keys_of (table m))"
      using takeWhile_dropWhile_id [of "before k s" E] keys Nil by (metis append_Nil2 length_map)
    then show ?thesis
      unfolding Nil using seek by (simp add: MemTable_Get_def memtable_key_LookupKey Valid_at_index)
  next
    case (Cons e r)
    obtain s' t k' v where e: "e = (s', t, k', v)" by (cases e)
    have split: "E = takeWhile (before k s) E @ e # r"
      using takeWhile_dropWhile_id [of "before k s" E] Cons by simp
    then have ok: "entry_ok e" using E by (metis in_set_conv_decomp)
    let ?i = "length (takeWhile (before k s) E)"
    have i: "?i < length (keys_of (table m))" "keys_of (table m) ! ?i = entry_bytes e"
      using arg_cong [OF split, of length] arg_cong [OF split, of "\<lambda>l. l ! ?i"] keys by simp_all
    have v: "fst (mem_GetLengthPrefixedSlice (length_prefixed v)) = v"
      using mem_GetLengthPrefixedSlice_prefixed [of v "[]"] ok e by simp
    show ?thesis
      using seek Cons i ok v entry_varint [of s' t k' v]
      by (simp add: MemTable_Get_def memtable_key_LookupKey Valid_at_index key_at_index e user_key_LookupKey
          ucast_Pack del: entry_bytes.simps entry_ok.simps split: ValueType.split)
  qed
qed

text \<open>
  What a lookup at a snapshot finds: the newest entry for the user key that is not newer than the
  snapshot, be it a value or a deletion; and nothing if there is no such entry.
\<close>

lemma Get_newest:
  assumes "mem_rep user m E" "length k + 8 < 2 ^ 32" "s \<le> kMaxSequenceNumber"
    "e \<in> set E" "visible user k s e"
    "\<forall>e'\<in>set E. visible user k s e' \<longrightarrow> fst e' < fst e \<or> e' = e"
  shows "MemTable_Get user m (LookupKey_new k s) = Some (Some (entry_result e))"
proof -
  have ok: "\<forall>e\<in>set E. entry_ok e" using assms(1) by (simp add: mem_rep_def)
  obtain s' t k' v where e: "e = (s', t, k', v)" by (cases e)
  have keq: "Compare user k' k = 0" using assms(5) e by simp
  have "\<not> before k s e" using before_iff [of e s k] ok assms(3-5) e keq by auto
  then have "e \<in> set (dropWhile (before k s) E)"
    using assms(4) by (metis Un_iff set_append set_takeWhileD takeWhile_dropWhile_id)
  then obtain b r where b: "dropWhile (before k s) E = b # r" "e \<in> set (b # r)"
    by (cases "dropWhile (before k s) E") auto
  have b': "b \<in> set E" "\<not> before k s b"
    using set_dropWhileD [of b "before k s" E] hd_dropWhile [of "before k s" E] b(1) by auto
  have "b = e"
  proof (rule ccontr)
    assume ne: "b \<noteq> e"
    obtain sb tb kb vb where bb: "b = (sb, tb, kb, vb)" by (cases b)
    have "sorted_wrt (\<lambda>a b. InternalKey_Compare user (entry_key a) (entry_key b) < 0) (b # r)"
      using sorted_wrt_drop [OF mem_rep_sorted [OF assms(1)], of "length (takeWhile (before k s) E)"]
      unfolding dropWhile_eq_drop [symmetric] b(1) .
    then have lt: "InternalKey_Compare user (InternalKey kb sb tb) (InternalKey k' s' t) < 0"
      using b(2) ne bb e by auto
    then have "Compare user kb k' \<le> 0"
      using ikey_Compare_user_le [of user "InternalKey kb sb tb" "InternalKey k' s' t"] by simp
    then have "Compare user kb k \<le> 0" using user.compare_trans [of kb k' k] keq by simp
    moreover have "0 \<le> Compare user kb k"
      using b'(2) InternalKey_Compare_user_less [of user "InternalKey kb sb tb" "InternalKey k s kTypeValue"] bb
      by (cases "Compare user kb k < 0") simp_all
    ultimately have kb: "Compare user kb k = 0" by simp
    then have "visible user k s b" using before_iff [of b s k] ok b' assms(3) bb by auto
    then have "sb < s'" using assms(6) b'(1) ne bb e by auto
    moreover have "Compare user kb k' = 0"
      using \<open>Compare user kb k' \<le> 0\<close> user.compare_trans [of k' k kb] keq kb user.compare_eq_flip [of kb k]
        user.compare_le_flip [of kb k'] user.compare_eq_flip [of kb k'] by simp
    moreover have "s' \<le> kMaxSequenceNumber" "sb \<le> kMaxSequenceNumber"
      using ok assms(4) b'(1) bb e by (metis entry_ok.simps)+
    ultimately show False
      using lt Pack_less [of s' sb tb t] by (simp add: InternalKey_Compare_def Let_def split: if_splits)
  qed
  then show ?thesis using Get_eq [OF assms(1,2)] b(1) keq e by simp
qed

lemma Get_nothing:
  assumes "mem_rep user m E" "length k + 8 < 2 ^ 32" "s \<le> kMaxSequenceNumber" "\<forall>e\<in>set E. \<not> visible user k s e"
  shows "MemTable_Get user m (LookupKey_new k s) = Some None"
proof (cases "dropWhile (before k s) E")
  case (Cons b r)
  then have b: "b \<in> set E" "\<not> before k s b"
    using set_dropWhileD [of b "before k s" E] hd_dropWhile [of "before k s" E] by auto
  have "entry_ok b" using b(1) assms(1) by (simp add: mem_rep_def)
  then have "Compare user (fst (snd (snd b))) k \<noteq> 0" using before_iff [of b s k] b assms(3,4) by auto
  then show ?thesis using Get_eq [OF assms(1,2)] Cons by simp
next
  case Nil
  then show ?thesis unfolding Get_eq [OF assms(1,2)] Nil by simp
qed

end

end
