(* ===== verification/Write_Batch.thy ===== *)
theory Write_Batch
  imports Memtable
begin

text \<open>
  Write batches, \<open>db/write_batch.cc\<close>: a batch is a byte string with a header of a sequence
  number and a count, followed by its records; \<open>Iterate\<close> hands the records to a handler, one of
  which inserts them into a memtable.
\<close>

subsection \<open>The batch\<close>

type_synonym WriteBatch = bytes

definition WriteBatch_Clear :: WriteBatch where
  "WriteBatch_Clear = replicate 12 0"

definition Count :: "WriteBatch \<Rightarrow> int" where
  "Count b = sint (DecodeFixed32 (drop 8 b))"

definition SetCount :: "WriteBatch \<Rightarrow> int \<Rightarrow> WriteBatch" where
  "SetCount b n = take 8 b @ EncodeFixed32 (word_of_int n) @ drop 12 b"

definition Sequence :: "WriteBatch \<Rightarrow> SequenceNumber" where
  "Sequence b = DecodeFixed64 b"

definition SetSequence :: "WriteBatch \<Rightarrow> SequenceNumber \<Rightarrow> WriteBatch" where
  "SetSequence b seq = EncodeFixed64 seq @ drop 8 b"

definition WriteBatch_Put :: "WriteBatch \<Rightarrow> bytes \<Rightarrow> bytes \<Rightarrow> WriteBatch" where
  "WriteBatch_Put b key value =
     (let b = SetCount b (Count b + 1);
          b = b @ [type_code kTypeValue];
          b = PutLengthPrefixedSlice b key
      in PutLengthPrefixedSlice b value)"

definition WriteBatch_Delete :: "WriteBatch \<Rightarrow> bytes \<Rightarrow> WriteBatch" where
  "WriteBatch_Delete b key =
     (let b = SetCount b (Count b + 1);
          b = b @ [type_code kTypeDeletion]
      in PutLengthPrefixedSlice b key)"

definition SetContents :: "bytes \<Rightarrow> WriteBatch" where
  "SetContents contents = contents"

subsection \<open>Handlers\<close>

text \<open>A call of a handler that does not return is \<open>None\<close>.\<close>

record 'h Handler =
  h_Put :: "bytes \<Rightarrow> bytes \<Rightarrow> 'h \<Rightarrow> 'h option"
  h_Delete :: "bytes \<Rightarrow> 'h \<Rightarrow> 'h option"

text \<open>The loop ends with an error or with the number of records it has found.\<close>

function Iterate_loop ::
  "'h Handler \<Rightarrow> bytes \<Rightarrow> nat \<Rightarrow> 'h \<Rightarrow> ((Status + nat) \<times> 'h) option" where
  "Iterate_loop h [] found st = Some (Inr found, st)"
| "Iterate_loop h (tag # input) found st =
     (if tag = type_code kTypeValue then
        (case GetLengthPrefixedSlice input of
           None \<Rightarrow> Some (Inl (Corruption ''bad WriteBatch Put'' []), st)
         | Some (key, input1) \<Rightarrow>
             (case GetLengthPrefixedSlice input1 of
                None \<Rightarrow> Some (Inl (Corruption ''bad WriteBatch Put'' []), st)
              | Some (value, input2) \<Rightarrow>
                  (case h_Put h key value st of
                     None \<Rightarrow> None
                   | Some st' \<Rightarrow> Iterate_loop h input2 (found + 1) st')))
      else if tag = type_code kTypeDeletion then
        (case GetLengthPrefixedSlice input of
           None \<Rightarrow> Some (Inl (Corruption ''bad WriteBatch Delete'' []), st)
         | Some (key, input1) \<Rightarrow>
             (case h_Delete h key st of
                None \<Rightarrow> None
              | Some st' \<Rightarrow> Iterate_loop h input1 (found + 1) st'))
      else Some (Inl (Corruption ''unknown WriteBatch tag'' []), st))"
  by pat_completeness auto
termination
  by (relation "measure (\<lambda>(h, input, found, st). length input)")
    (auto dest!: GetLengthPrefixedSlice_length)

definition Iterate :: "'h Handler \<Rightarrow> WriteBatch \<Rightarrow> 'h \<Rightarrow> (Status \<times> 'h) option" where
  "Iterate h b st =
     (if length b < 12 then Some (Corruption ''malformed WriteBatch (too small)'' [], st)
      else
        (case Iterate_loop h (drop 12 b) 0 st of
           None \<Rightarrow> None
         | Some (Inl s, st') \<Rightarrow> Some (s, st')
         | Some (Inr found, st') \<Rightarrow>
             Some (if int found \<noteq> Count b then Corruption ''WriteBatch has wrong count'' [] else OK, st')))"

text \<open>The handler that inserts into a memtable; its state is the next sequence number and the memtable.\<close>

definition MemTableInserter :: "Comparator \<Rightarrow> (SequenceNumber \<times> MemTable) Handler" where
  "MemTableInserter user =
     \<lparr>h_Put = (\<lambda>key value (seq, m).
        map_option (Pair (seq + 1)) (MemTable_Add user m seq kTypeValue key value)),
      h_Delete = (\<lambda>key (seq, m).
        map_option (Pair (seq + 1)) (MemTable_Add user m seq kTypeDeletion key []))\<rparr>"

definition InsertInto :: "Comparator \<Rightarrow> WriteBatch \<Rightarrow> MemTable \<Rightarrow> (Status \<times> MemTable) option" where
  "InsertInto user b m =
     map_option (apsnd snd) (Iterate (MemTableInserter user) b (Sequence b, m))"

subsection \<open>Batches as lists of updates\<close>

datatype Update = UPut bytes bytes | UDelete bytes

fun apply_update :: "WriteBatch \<Rightarrow> Update \<Rightarrow> WriteBatch" where
  "apply_update b (UPut k v) = WriteBatch_Put b k v"
| "apply_update b (UDelete k) = WriteBatch_Delete b k"

definition batch_of :: "Update list \<Rightarrow> WriteBatch" where
  "batch_of us = foldl apply_update WriteBatch_Clear us"

fun update_bytes :: "Update \<Rightarrow> bytes" where
  "update_bytes (UPut k v) = type_code kTypeValue # length_prefixed k @ length_prefixed v"
| "update_bytes (UDelete k) = type_code kTypeDeletion # length_prefixed k"

fun update_ok :: "Update \<Rightarrow> bool" where
  "update_ok (UPut k v) \<longleftrightarrow> length k < 2 ^ 32 \<and> length v < 2 ^ 32"
| "update_ok (UDelete k) \<longleftrightarrow> length k < 2 ^ 32"

fun handle :: "'h Handler \<Rightarrow> Update \<Rightarrow> 'h \<Rightarrow> 'h option" where
  "handle h (UPut k v) st = h_Put h k v st"
| "handle h (UDelete k) st = h_Delete h k st"

fun handle_all :: "'h Handler \<Rightarrow> Update list \<Rightarrow> 'h \<Rightarrow> 'h option" where
  "handle_all h [] st = Some st"
| "handle_all h (u # us) st = (case handle h u st of None \<Rightarrow> None | Some st' \<Rightarrow> handle_all h us st')"

text \<open>
  The records that a string of bytes consists of, up to its end: a tag, and the strings with their lengths in front. The
  lengths may be encoded with more bytes than needed.
\<close>

inductive batch_records :: "bytes \<Rightarrow> Update list \<Rightarrow> bool" where
  nothing: "batch_records [] []"
| put: "GetLengthPrefixedSlice input = Some (k, input1) \<Longrightarrow> GetLengthPrefixedSlice input1 = Some (v, rest) \<Longrightarrow>
    batch_records rest us \<Longrightarrow> batch_records (type_code kTypeValue # input) (UPut k v # us)"
| delete: "GetLengthPrefixedSlice input = Some (k, rest) \<Longrightarrow> batch_records rest us \<Longrightarrow>
    batch_records (type_code kTypeDeletion # input) (UDelete k # us)"

inductive_simps batch_records_Nil [simp]: "batch_records [] us"
inductive_simps batch_records_Cons: "batch_records (tag # input) us"

definition batch_rep :: "WriteBatch \<Rightarrow> SequenceNumber \<Rightarrow> Update list \<Rightarrow> bool" where
  "batch_rep b seq us \<longleftrightarrow>
     b = EncodeFixed64 seq @ EncodeFixed32 (of_nat (length us)) @ concat (map update_bytes us)"

lemma batch_rep_Clear: "batch_rep WriteBatch_Clear 0 []"
  by (simp add: batch_rep_def WriteBatch_Clear_def EncodeFixed64_def EncodeFixed32_def numeral_eq_Suc)

lemma batch_rep_header:
  assumes "batch_rep b seq us"
  shows "Sequence b = seq" "Count b = sint (of_nat (length us) :: uint32)"
    "batch_rep (SetSequence b seq') seq' us" "12 \<le> length b" "drop 12 b = concat (map update_bytes us)"
  using assms by (simp_all add: batch_rep_def Sequence_def Count_def SetSequence_def)

lemma batch_rep_update:
  assumes "batch_rep b seq us"
  shows "batch_rep (apply_update b u) seq (us @ [u])"
proof -
  have "SetCount b (Count b + 1) = EncodeFixed64 seq @ EncodeFixed32 (of_nat (length us + 1)) @ concat (map update_bytes us)"
    using assms batch_rep_header(2) [OF assms] by (simp add: batch_rep_def SetCount_def add.commute)
  then show ?thesis
    by (cases u) (simp_all add: batch_rep_def WriteBatch_Put_def WriteBatch_Delete_def PutLengthPrefixedSlice_eq)
qed

lemma batch_of_rep: "batch_rep (batch_of us) 0 us"
  unfolding batch_of_def
  by (induction us rule: rev_induct) (simp_all add: batch_rep_Clear batch_rep_update)

lemma Iterate_loop_ok:
  "\<forall>u\<in>set us. update_ok u \<Longrightarrow>
    Iterate_loop h (concat (map update_bytes us)) n st =
      map_option (\<lambda>st'. (Inr (n + length us), st')) (handle_all h us st)"
proof (induction us arbitrary: n st)
  case (Cons u us)
  then show ?case by (cases u) (auto split: option.split)
qed simp

lemma Iterate_ok:
  assumes "batch_rep b seq us" "\<forall>u\<in>set us. update_ok u" "length us < 2 ^ 31"
  shows "Iterate h b st = map_option (Pair OK) (handle_all h us st)"
proof -
  have "sint (of_nat (length us) :: uint32) = int (length us)"
    using assms(3) by (simp add: signed_of_nat signed_take_bit_int_eq_self)
  then show ?thesis
    using batch_rep_header [OF assms(1)] Iterate_loop_ok [OF assms(2), of h 0 st]
    by (simp add: Iterate_def split: option.split)
qed

subsection \<open>Inserting a batch into a memtable\<close>

text \<open>The entries a batch makes, numbered from its sequence number on.\<close>

fun update_entry :: "SequenceNumber \<Rightarrow> Update \<Rightarrow> MemEntry" where
  "update_entry s (UPut k v) = (s, kTypeValue, k, v)"
| "update_entry s (UDelete k) = (s, kTypeDeletion, k, [])"

fun update_entries :: "SequenceNumber \<Rightarrow> Update list \<Rightarrow> MemEntry list" where
  "update_entries s [] = []"
| "update_entries s (u # us) = update_entry s u # update_entries (s + 1) us"

lemma fst_update_entry [simp]: "fst (update_entry s u) = s"
  by (cases u) simp_all

fun update_fits :: "Update \<Rightarrow> bool" where
  "update_fits (UPut k v) \<longleftrightarrow> length k + 8 < 2 ^ 32 \<and> length v < 2 ^ 32"
| "update_fits (UDelete k) \<longleftrightarrow> length k + 8 < 2 ^ 32"

lemma update_fits_ok: "update_fits u \<Longrightarrow> update_ok u"
  by (cases u) simp_all

lemma update_fits_entry: "update_fits u \<Longrightarrow> s \<le> kMaxSequenceNumber \<Longrightarrow> entry_ok (update_entry s u)"
  by (cases u) simp_all

lemma unat_kMax: "unat kMaxSequenceNumber = 2 ^ 56 - 1"
  by (simp add: kMaxSequenceNumber_def)

lemma unat_Suc_seq: "unat s + n \<le> 2 ^ 56 \<Longrightarrow> 0 < n \<Longrightarrow> unat (s + 1 :: uint64) = unat s + 1"
  by (subst unat_add_lem [THEN iffD1]) simp_all

lemma set_takeWhile_dropWhile: "set (takeWhile P xs @ x # dropWhile P xs) = insert x (set xs)"
  by (metis Un_insert_right list.simps(15) set_append takeWhile_dropWhile_id)

context ikey_order begin

lemma handle_inserter:
  "handle (MemTableInserter user) u (s, m) = map_option (Pair (s + 1))
    (case update_entry s u of (s, t, k, v) \<Rightarrow> MemTable_Add user m s t k v)"
  by (cases u) (simp_all add: MemTableInserter_def)

text \<open>A new sequence number never makes an entry equal to an older one.\<close>

lemma newer_differs:
  assumes "entry_ok e" "entry_ok e'" "fst e \<noteq> fst e'"
  shows "InternalKey_Compare user (entry_key e) (entry_key e') \<noteq> 0"
proof -
  obtain s t k v s' t' k' v' where e: "e = (s, t, k, v)" "e' = (s', t', k', v')" by (cases e, cases e')
  have "PackSequenceAndType s t \<noteq> PackSequenceAndType s' t'"
    using assms e drop_bit_Pack [of s t] drop_bit_Pack [of s' t'] by auto
  then show ?thesis using e by (auto simp: InternalKey_Compare_def Let_def)
qed

lemma handle_all_inserter:
  assumes "mem_rep user m E" "\<forall>e\<in>set E. fst e < s" "\<forall>u\<in>set us. update_fits u"
    "unat s + length us \<le> 2 ^ 56"
  shows "\<exists>m' E'. handle_all (MemTableInserter user) us (s, m) = Some (s + of_nat (length us), m') \<and>
    mem_rep user m' E' \<and> set E' = set E \<union> set (update_entries s us)"
  using assms
proof (induction us arbitrary: s m E)
  case (Cons u us)
  obtain t k v where e: "update_entry s u = (s, t, k, v)" by (cases u) auto
  have s: "s \<le> kMaxSequenceNumber" "unat (s + 1) = unat s + 1"
    using Cons(5) unat_Suc_seq [of s "length (u # us)"] by (simp_all add: word_le_nat_alt unat_kMax)
  have ok: "entry_ok (s, t, k, v)" using Cons(4) update_fits_entry [of u s] s(1) e by simp
  have "\<forall>e'\<in>set E. InternalKey_Compare user (entry_key e') (InternalKey k s t) \<noteq> 0"
    using Cons(2,3) newer_differs [OF _ ok] by (fastforce simp: mem_rep_def)
  from Add_ok [OF Cons(2) ok this]
  obtain m1 E1 where m1: "MemTable_Add user m s t k v = Some m1" "mem_rep user m1 E1"
    "set E1 = insert (s, t, k, v) (set E)" by (elim exE conjE) (rule that, assumption+, rule set_takeWhile_dropWhile)
  have "\<forall>e'\<in>set E1. fst e' < s + 1"
    using Cons(3) m1(3) s(2) by (fastforce simp: word_less_nat_alt)
  from Cons(1) [OF m1(2) this] Cons(4,5) s(2)
  obtain m' E' where "handle_all (MemTableInserter user) us (s + 1, m1) = Some (s + 1 + of_nat (length us), m')"
    "mem_rep user m' E'" "set E' = set E1 \<union> set (update_entries (s + 1) us)" by auto
  then show ?case
    using m1 e by (intro exI [of _ m'] exI [of _ E']) (auto simp: handle_inserter ac_simps)
qed auto

lemma InsertInto_ok:
  assumes "mem_rep user m E" "\<forall>e\<in>set E. fst e < s" "\<forall>u\<in>set us. update_fits u"
    "unat s + length us \<le> 2 ^ 56" "length us < 2 ^ 31"
  shows "\<exists>m' E'. InsertInto user (SetSequence (batch_of us) s) m = Some (OK, m') \<and>
    mem_rep user m' E' \<and> set E' = set E \<union> set (update_entries s us)"
proof -
  note rep = batch_rep_header(3) [OF batch_of_rep [of us], of s]
  have "Iterate (MemTableInserter user) (SetSequence (batch_of us) s) st =
      map_option (Pair OK) (handle_all (MemTableInserter user) us st)" for st
    using assms(3) update_fits_ok by (intro Iterate_ok [OF rep _ assms(5)]) auto
  then show ?thesis
    using handle_all_inserter [OF assms(1-4)] batch_rep_header(1) [OF rep] by (auto simp: InsertInto_def)
qed

end

text \<open>What a list of updates says about a key: the last one counts.\<close>

fun update_key :: "Update \<Rightarrow> bytes" where
  "update_key (UPut k v) = k"
| "update_key (UDelete k) = k"

fun update_result :: "Update \<Rightarrow> Status + bytes" where
  "update_result (UPut k v) = Inr v"
| "update_result (UDelete k) = Inl (NotFound [] [])"

definition last_update :: "Update list \<Rightarrow> bytes \<Rightarrow> (Status + bytes) option" where
  "last_update us k = map_option update_result (find (\<lambda>u. update_key u = k) (rev us))"

lemma update_entries_nth: "i < length us \<Longrightarrow> update_entries s us ! i = update_entry (s + of_nat i) (us ! i)"
proof (induction us arbitrary: i s)
  case (Cons u us)
  then show ?case by (cases i) (simp_all add: ac_simps)
qed simp

lemma length_update_entries [simp]: "length (update_entries s us) = length us"
  by (induction us arbitrary: s) simp_all

lemma find_rev_Some:
  "find P (rev xs) = Some x \<Longrightarrow> \<exists>i<length xs. xs ! i = x \<and> P x \<and> (\<forall>j<length xs. i < j \<longrightarrow> \<not> P (xs ! j))"
proof (induction xs rule: rev_induct)
  case (snoc y xs)
  show ?case
  proof (cases "P y")
    case True
    then show ?thesis using snoc(2) by (intro exI [of _ "length xs"]) auto
  next
    case False
    then obtain i where i: "i < length xs" "xs ! i = x" "P x" "\<forall>j<length xs. i < j \<longrightarrow> \<not> P (xs ! j)"
      using snoc by auto
    then show ?thesis using False by (intro exI [of _ i]) (auto simp: nth_append less_Suc_eq)
  qed
qed simp

lemma unat_add_seq: "unat (s :: uint64) + n \<le> 2 ^ 56 \<Longrightarrow> i < n \<Longrightarrow> unat (s + of_nat i) = unat s + i"
  by (subst unat_add_lem [THEN iffD1]) (simp_all add: unat_of_nat_small64)

lemma visible_update_entry:
  "visible BytewiseComparator k t (update_entry q u) \<longleftrightarrow> update_key u = k \<and> q \<le> t"
  by (cases u) simp_all

lemma entry_result_update [simp]: "entry_result (update_entry q u) = update_result u"
  by (cases u) simp_all

lemma batch_snapshot:
  assumes "mem_rep BytewiseComparator m E" "set E = set (update_entries s us)"
    "unat s + length us \<le> 2 ^ 56" "j < length us" "length k + 8 < 2 ^ 32"
  shows "MemTable_Get BytewiseComparator m (LookupKey_new k (s + of_nat j)) =
    Some (last_update (take (Suc j) us) k)"
proof -
  have seq: "unat (s + of_nat i) = unat s + i" if "i < length us" for i
    using unat_add_seq assms(3) that by simp
  have max: "s + of_nat j \<le> kMaxSequenceNumber"
    using seq [OF assms(4)] assms(3,4) by (simp add: word_le_nat_alt unat_kMax)
  have vis: "visible BytewiseComparator k (s + of_nat j) (update_entries s us ! i) \<longleftrightarrow> update_key (us ! i) = k \<and> i \<le> j"
    if "i < length us" for i
    using that seq assms(4) by (simp add: update_entries_nth visible_update_entry word_le_nat_alt)
  show ?thesis
  proof (cases "find (\<lambda>u. update_key u = k) (rev (take (Suc j) us))")
    case None
    then have "\<forall>i<length us. i \<le> j \<longrightarrow> update_key (us ! i) \<noteq> k"
      by (fastforce simp: find_None_iff in_set_conv_nth less_Suc_eq_le)
    then have "\<forall>e\<in>set E. \<not> visible BytewiseComparator k (s + of_nat j) e"
      unfolding assms(2) using vis by (metis in_set_conv_nth length_update_entries)
    then show ?thesis
      using bytewise_ikey.Get_nothing [OF assms(1,5) max] None by (simp add: last_update_def)
  next
    case (Some u)
    then obtain i where i: "i < length us" "i \<le> j" "us ! i = u" "update_key u = k"
      "\<And>l. l < length us \<Longrightarrow> l \<le> j \<Longrightarrow> i < l \<Longrightarrow> update_key (us ! l) \<noteq> k"
      by (auto dest!: find_rev_Some simp: less_Suc_eq_le)
    let ?e = "update_entries s us ! i"
    have "fst e' < fst ?e \<or> e' = ?e"
      if e': "e' \<in> set E" "visible BytewiseComparator k (s + of_nat j) e'" for e'
    proof -
      obtain l where l: "l < length us" "e' = update_entries s us ! l"
        using e'(1) assms(2) by (auto simp: in_set_conv_nth)
      then have "l \<le> i" using e'(2) vis i(5) by (metis not_le_imp_less)
      then show ?thesis using l i(1) seq by (cases "l = i") (auto simp: update_entries_nth word_less_nat_alt)
    qed
    then have "MemTable_Get BytewiseComparator m (LookupKey_new k (s + of_nat j)) = Some (Some (entry_result ?e))"
      using vis [OF i(1)] i assms(2) by (intro bytewise_ikey.Get_newest [OF assms(1,5) max]) (auto simp: in_set_conv_nth)
    then show ?thesis using Some i by (simp add: last_update_def update_entries_nth)
  qed
qed

subsection \<open>Properties\<close>

text \<open>C13: A batch of updates, fewer than 2 to the 31 with keys and values shorter than 4 GB, that is inserted into an empty memtable is accepted, and then a lookup
  at the sequence number of any of its updates sees the effect of the last update of the key up to
  this one: the value of a put, not found for a deletion, and nothing if the key was not touched.\<close>

theorem batch_read_back:
  assumes "\<forall>u\<in>set us. update_fits u" "unat s + length us \<le> 2 ^ 56" "length us < 2 ^ 31"
  shows "\<exists>m. InsertInto BytewiseComparator (SetSequence (batch_of us) s) MemTable_new = Some (OK, m) \<and>
    (\<forall>j k. j < length us \<and> length k + 8 < 2 ^ 32 \<longrightarrow>
      MemTable_Get BytewiseComparator m (LookupKey_new k (s + of_nat j)) = Some (last_update (take (Suc j) us) k))"
proof -
  obtain m E where "InsertInto BytewiseComparator (SetSequence (batch_of us) s) MemTable_new = Some (OK, m)"
    "mem_rep BytewiseComparator m E" "set E = set (update_entries s us)"
    using bytewise_ikey.InsertInto_ok [OF bytewise_ikey.mem_rep_new _ assms(1,2,3)] by auto
  then show ?thesis using batch_snapshot [OF _ _ assms(2)] by blast
qed

theorem batch_read_back_witness:
  "\<exists>m. InsertInto BytewiseComparator (SetSequence (batch_of [UPut [97] [1], UDelete [97]]) 5) MemTable_new = Some (OK, m) \<and>
    MemTable_Get BytewiseComparator m (LookupKey_new [97] 5) = Some (Some (Inr [1])) \<and>
    MemTable_Get BytewiseComparator m (LookupKey_new [97] 6) = Some (Some (Inl (NotFound [] [])))"
proof -
  obtain m where m: "InsertInto BytewiseComparator (SetSequence (batch_of [UPut [97] [1], UDelete [97]]) 5) MemTable_new = Some (OK, m)"
    "\<And>j k. j < 2 \<Longrightarrow> length k + 8 < 2 ^ 32 \<Longrightarrow>
      MemTable_Get BytewiseComparator m (LookupKey_new k (5 + of_nat j)) =
        Some (last_update (take (Suc j) [UPut [97] [1], UDelete [97]]) k)"
    using batch_read_back [of "[UPut [97] [1], UDelete [97]]" 5] by auto
  then show ?thesis
    using m(2) [of 0 "[97]"] m(2) [of 1 "[97]"] by (auto simp: last_update_def)
qed

text \<open>C14: \<open>Iterate\<close> hands exactly the updates that were put into a batch to the handler, in order,
  and reports success, whatever the handler does.\<close>

theorem Iterate_batch_of:
  assumes "\<forall>u\<in>set us. update_ok u" "length us < 2 ^ 31"
  shows "Iterate h (batch_of us) st = map_option (Pair OK) (handle_all h us st)"
  using Iterate_ok [OF batch_of_rep assms] .

theorem Iterate_batch_of_witness:
  "Iterate \<lparr>h_Put = (\<lambda>k v l. Some (l @ [(k, Some v)])), h_Delete = (\<lambda>k l. Some (l @ [(k, None)]))\<rparr>
     (batch_of [UPut [1] [2], UDelete [3]]) [] = Some (OK, [([1], Some [2]), ([3], None)])"
  using Iterate_batch_of [of "[UPut [1] [2], UDelete [3]]"
      "\<lparr>h_Put = (\<lambda>k v l. Some (l @ [(k, Some v)])), h_Delete = (\<lambda>k l. Some (l @ [(k, None)]))\<rparr>" "[]"]
  by simp

lemma Iterate_loop_records:
  "Iterate_loop h input n st = Some (Inr found, st') \<longleftrightarrow>
    (\<exists>us. batch_records input us \<and> found = n + length us \<and> handle_all h us st = Some st')"
proof (induction h input n st rule: Iterate_loop.induct)
  case (1 h n st)
  then show ?case by auto
next
  case (2 h tag input n st)
  consider "tag = type_code kTypeValue" | "tag = type_code kTypeDeletion" | "tag \<noteq> type_code kTypeValue" "tag \<noteq> type_code kTypeDeletion" by blast
  then show ?case
  proof cases
    case 1
    show ?thesis
    proof (cases "\<exists>k i1 v i2. GetLengthPrefixedSlice input = Some (k, i1) \<and> GetLengthPrefixedSlice i1 = Some (v, i2)")
      case True
      then obtain k i1 v i2 where i: "GetLengthPrefixedSlice input = Some (k, i1)" "GetLengthPrefixedSlice i1 = Some (v, i2)" by blast
      show ?thesis
      proof (cases "h_Put h k v st")
        case None
        then show ?thesis using 1 i by (auto simp: batch_records_Cons)
      next
        case (Some st1)
        have "Iterate_loop h (tag # input) n st = Iterate_loop h i2 (n + 1) st1" using 1 i Some by simp
        then show ?thesis using 2(1) [OF 1 i(1) refl i(2) refl Some] 1 i Some by (auto simp: batch_records_Cons)
      qed
    next
      case False
      then show ?thesis using 1 by (auto simp: batch_records_Cons split: option.split)
    qed
  next
    case 2
    note del = this
    show ?thesis
    proof (cases "GetLengthPrefixedSlice input")
      case None
      then show ?thesis using del by (auto simp: batch_records_Cons)
    next
      case (Some p)
      then obtain k i1 where i: "GetLengthPrefixedSlice input = Some (k, i1)" by (cases p) simp
      show ?thesis
      proof (cases "h_Delete h k st")
        case None
        then show ?thesis using del i by (auto simp: batch_records_Cons)
      next
        case (Some st1)
        have "Iterate_loop h (tag # input) n st = Iterate_loop h i1 (n + 1) st1" using del i Some by simp
        then show ?thesis using "2.IH"(2) [OF _ del i refl Some] del i Some by (auto simp: batch_records_Cons)
      qed
    qed
  next
    case 3
    then show ?thesis by (auto simp: batch_records_Cons)
  qed
qed

lemma Iterate_loop_not_OK: "Iterate_loop h input n st \<noteq> Some (Inl OK, st')"
  by (induction h input n st rule: Iterate_loop.induct) (auto split: option.split)

text \<open>C15: A batch is accepted exactly when it has a header and the bytes behind it consist of records to their
  end, as many as the header counts, for which the handler can be called; it has then been called for each of
  them, in order, with the key and value of the record.\<close>

theorem Iterate_OK_only:
  "Iterate h b st = Some (OK, st') \<longleftrightarrow> 12 \<le> length b \<and>
    (\<exists>us. batch_records (drop 12 b) us \<and> int (length us) = Count b \<and> handle_all h us st = Some st')"
proof -
  have "Iterate h b st = Some (OK, st') \<longleftrightarrow>
      12 \<le> length b \<and> (\<exists>found. Iterate_loop h (drop 12 b) 0 st = Some (Inr found, st') \<and> int found = Count b)"
    by (auto simp: Iterate_def Iterate_loop_not_OK split: if_splits option.splits sum.splits)
  also have "\<dots> \<longleftrightarrow> 12 \<le> length b \<and> (\<exists>us. batch_records (drop 12 b) us \<and> int (length us) = Count b \<and> handle_all h us st = Some st')"
    unfolding Iterate_loop_records by auto
  finally show ?thesis .
qed

end
