(* ===== verification/Files.thy ===== *)
theory Files
  imports Util
begin

text \<open>
  The file interfaces of \<open>include/leveldb/env.h\<close> as records of operations, what their
  clients rely on as locales, and the in-memory files of \<open>helpers/memenv/memenv.cc\<close>, a
  vector of fixed-size blocks with reference counts, as their provider.
\<close>

subsection \<open>Interfaces\<close>

record 'f SequentialFile =
  sf_Read :: "'f \<Rightarrow> nat \<Rightarrow> Status \<times> bytes \<times> 'f"
  sf_Skip :: "'f \<Rightarrow> nat \<Rightarrow> Status \<times> 'f"

record 'f RandomAccessFile =
  ra_Read :: "'f \<Rightarrow> nat \<Rightarrow> nat \<Rightarrow> Status \<times> bytes"

record 'w WritableFile =
  wf_Append :: "'w \<Rightarrow> bytes \<Rightarrow> Status \<times> 'w"
  wf_Flush :: "'w \<Rightarrow> Status \<times> 'w"
  wf_Sync :: "'w \<Rightarrow> Status \<times> 'w"
  wf_Close :: "'w \<Rightarrow> Status \<times> 'w"

locale sequential_file =
  fixes ops :: "'f SequentialFile" and remaining :: "'f \<Rightarrow> bytes" and invar :: "'f \<Rightarrow> bool"
  assumes read_ok: "invar f \<Longrightarrow> sf_Read ops f n = (s, r, f') \<Longrightarrow>
      s = OK \<and> r = take n (remaining f) \<and> remaining f' = drop n (remaining f) \<and> invar f'"
    and skip_ok: "invar f \<Longrightarrow> sf_Skip ops f n = (s, f') \<Longrightarrow>
      s = OK \<and> remaining f' = drop n (remaining f) \<and> invar f'"

locale writable_file =
  fixes ops :: "'w WritableFile" and content :: "'w \<Rightarrow> bytes" and invar :: "'w \<Rightarrow> bool"
  assumes append_ok: "invar w \<Longrightarrow> wf_Append ops w data = (s, w') \<Longrightarrow>
      s = OK \<and> content w' = content w @ data \<and> invar w'"
    and flush_ok: "invar w \<Longrightarrow> wf_Flush ops w = (s, w') \<Longrightarrow>
      s = OK \<and> content w' = content w \<and> invar w'"

locale random_access_file =
  fixes ops :: "'f RandomAccessFile" and content :: "'f \<Rightarrow> bytes" and invar :: "'f \<Rightarrow> bool"
  assumes ra_read_ok: "invar f \<Longrightarrow> offset \<le> length (content f) \<Longrightarrow>
      ra_Read ops f offset n = (OK, take n (drop offset (content f)))"
    and ra_read_fail: "invar f \<Longrightarrow> offset > length (content f) \<Longrightarrow>
      \<not> ok (fst (ra_Read ops f offset n))"

subsection \<open>In-memory files\<close>

text \<open>
  A block is the prefix of its \<open>kBlockSize\<close> bytes that has been written; the bytes the
  source leaves uninitialised after \<open>new char[kBlockSize]\<close> are not in the list, so nothing
  can be read from them.
\<close>

definition kFileBlockSize :: nat where
  "kFileBlockSize = 8 * 1024"

record FileState =
  refs :: int
  blocks :: "bytes list"
  fsize :: nat

definition FileState_new :: FileState where
  "FileState_new = \<lparr>refs = 0, blocks = [], fsize = 0\<rparr>"

definition FileState_Ref :: "FileState \<Rightarrow> FileState" where
  "FileState_Ref f = f\<lparr>refs := refs f + 1\<rparr>"

text \<open>The object is deleted, here \<open>None\<close>, with its last reference.\<close>

definition FileState_Unref :: "FileState \<Rightarrow> FileState option" where
  "FileState_Unref f =
     (let f' = f\<lparr>refs := refs f - 1\<rparr> in if refs f' \<le> 0 then None else Some f')"

definition memcpy_at :: "bytes \<Rightarrow> nat \<Rightarrow> bytes \<Rightarrow> bytes" where
  "memcpy_at dst offset src = take offset dst @ src @ drop (offset + length src) dst"

function FileState_copy :: "bytes list \<Rightarrow> nat \<Rightarrow> nat \<Rightarrow> nat \<Rightarrow> bytes \<Rightarrow> bytes" where
  "FileState_copy bs block block_offset bytes_to_copy dst =
     (if bytes_to_copy > 0 \<and> block_offset < kFileBlockSize then
        (let avail = kFileBlockSize - block_offset;
             avail = (if avail > bytes_to_copy then bytes_to_copy else avail)
         in FileState_copy bs (block + 1) 0 (bytes_to_copy - avail)
              (dst @ take avail (drop block_offset (bs ! block))))
      else dst)"
  by pat_completeness auto
termination
  by (relation "measure (\<lambda>(bs, block, block_offset, n, dst). n)") auto

declare FileState_copy.simps [simp del]

definition FileState_Read :: "FileState \<Rightarrow> nat \<Rightarrow> nat \<Rightarrow> Status \<times> bytes" where
  "FileState_Read f offset n =
     (if offset > fsize f then (IOError ''Offset greater than file size.'' [], [])
      else
        (let available = fsize f - offset;
             n = (if n > available then available else n)
         in if n = 0 then (OK, [])
            else
              (let block = offset div kFileBlockSize;
                   block_offset = offset mod kFileBlockSize
               in if n \<le> kFileBlockSize - block_offset
                  then (OK, take n (drop block_offset (blocks f ! block)))
                  else (OK, FileState_copy (blocks f) block block_offset n []))))"

function FileState_Append_loop :: "FileState \<Rightarrow> bytes \<Rightarrow> FileState" where
  "FileState_Append_loop f src =
     (if src \<noteq> [] then
        (let offset = fsize f mod kFileBlockSize;
             (bs, avail) = (if offset \<noteq> 0 then (blocks f, kFileBlockSize - offset)
                            else (blocks f @ [[]], kFileBlockSize));
             avail = (if avail > length src then length src else avail)
         in FileState_Append_loop
              (f\<lparr>blocks := butlast bs @ [memcpy_at (last bs) offset (take avail src)],
                 fsize := fsize f + avail\<rparr>)
              (drop avail src))
      else f)"
  by pat_completeness auto
termination
  by (relation "measure (\<lambda>(f, src). length src)")
    (auto simp: kFileBlockSize_def split: if_splits)

declare FileState_Append_loop.simps [simp del]

definition FileState_Append :: "FileState \<Rightarrow> bytes \<Rightarrow> Status \<times> FileState" where
  "FileState_Append f data = (OK, FileState_Append_loop f data)"

text \<open>The handles. A sequential file keeps its position.\<close>

type_synonym SequentialFileImpl = "FileState \<times> nat"

definition SequentialFileImpl_Read ::
  "SequentialFileImpl \<Rightarrow> nat \<Rightarrow> Status \<times> bytes \<times> SequentialFileImpl" where
  "SequentialFileImpl_Read sf n =
     (let (f, pos) = sf; (s, result) = FileState_Read f pos n
      in (s, result, if ok s then (f, pos + length result) else (f, pos)))"

definition SequentialFileImpl_Skip ::
  "SequentialFileImpl \<Rightarrow> nat \<Rightarrow> Status \<times> SequentialFileImpl" where
  "SequentialFileImpl_Skip sf n =
     (let (f, pos) = sf in
      if pos > fsize f then (IOError ''pos_ > file_->Size()'' [], sf)
      else (let available = fsize f - pos in
            (OK, (f, pos + (if n > available then available else n)))))"

definition SequentialFileOps :: "SequentialFileImpl SequentialFile" where
  "SequentialFileOps = \<lparr>sf_Read = SequentialFileImpl_Read, sf_Skip = SequentialFileImpl_Skip\<rparr>"

definition RandomAccessFileOps :: "FileState RandomAccessFile" where
  "RandomAccessFileOps = \<lparr>ra_Read = FileState_Read\<rparr>"

definition WritableFileOps :: "FileState WritableFile" where
  "WritableFileOps =
     \<lparr>wf_Append = FileState_Append, wf_Flush = (\<lambda>f. (OK, f)), wf_Sync = (\<lambda>f. (OK, f)),
      wf_Close = (\<lambda>f. (OK, f))\<rparr>"

subsection \<open>The block vector is a flat byte sequence\<close>

abbreviation file_content :: "FileState \<Rightarrow> bytes" where
  "file_content f \<equiv> concat (blocks f)"

text \<open>Every block but the last is full, the last is not empty, and the size adds up.\<close>

definition file_wf :: "FileState \<Rightarrow> bool" where
  "file_wf f \<longleftrightarrow>
     (\<forall>i < length (blocks f). blocks f ! i \<noteq> [] \<and> length (blocks f ! i) \<le> kFileBlockSize) \<and>
     (\<forall>i. Suc i < length (blocks f) \<longrightarrow> length (blocks f ! i) = kFileBlockSize) \<and>
     fsize f = length (file_content f)"

lemma kFileBlockSize_pos [simp]: "0 < kFileBlockSize"
  by (simp add: kFileBlockSize_def)

lemma concat_full_blocks:
  "\<forall>b \<in> set bs. length b = K \<Longrightarrow> length (concat bs) = length bs * K"
  by (induction bs) auto

text \<open>A well-formed vector is a list of full blocks followed by a partial one, or is empty.\<close>

lemma file_wf_cases:
  assumes "file_wf f"
  obtains "blocks f = []" "fsize f = 0"
  | full b where "blocks f = full @ [b]" "\<forall>c \<in> set full. length c = kFileBlockSize" "b \<noteq> []"
      "length b \<le> kFileBlockSize" "fsize f = length full * kFileBlockSize + length b"
proof (cases "blocks f" rule: rev_cases)
  case Nil
  with assms show ?thesis by (intro that(1)) (auto simp: file_wf_def)
next
  case (snoc full b)
  have "\<forall>c \<in> set full. length c = kFileBlockSize"
    using assms snoc by (force simp: file_wf_def in_set_conv_nth nth_append)
  moreover have "b \<noteq> []" "length b \<le> kFileBlockSize"
    using assms snoc by (auto simp: file_wf_def nth_append dest: spec [of _ "length full"])
  moreover have "fsize f = length full * kFileBlockSize + length b"
    using assms snoc calculation(1) by (simp add: file_wf_def concat_full_blocks)
  ultimately show ?thesis using snoc by (intro that(2))
qed

lemma file_wfI:
  assumes "blocks f = full @ [b]" "\<forall>c \<in> set full. length c = kFileBlockSize" "b \<noteq> []"
    "length b \<le> kFileBlockSize" "fsize f = length full * kFileBlockSize + length b"
  shows "file_wf f"
proof -
  have "blocks f ! i \<noteq> [] \<and> length (blocks f ! i) \<le> kFileBlockSize" if "i < length (blocks f)" for i
  proof (cases "i < length full")
    case True
    then have "length (full ! i) = kFileBlockSize" using assms(2) by simp
    moreover have "kFileBlockSize \<noteq> 0" by simp
    ultimately show ?thesis using True assms(1) by (auto simp: nth_append simp del: kFileBlockSize_pos)
  next
    case False
    with that show ?thesis using assms by (simp add: nth_append)
  qed
  moreover have "length (blocks f ! i) = kFileBlockSize" if "Suc i < length (blocks f)" for i
    using that assms by (simp add: nth_append)
  ultimately show ?thesis
    using assms concat_full_blocks [OF assms(2)] by (simp add: file_wf_def)
qed

lemma file_wf_new [simp]: "file_wf FileState_new"
  by (simp add: file_wf_def FileState_new_def)

text \<open>One round of the append loop.\<close>

lemma FileState_Append_step:
  assumes wf: "file_wf f" and ne: "src \<noteq> []"
  obtains f' n where "FileState_Append_loop f src = FileState_Append_loop f' (drop n src)"
    "0 < n" "n \<le> length src" "file_wf f'" "file_content f' = file_content f @ take n src"
    "refs f' = refs f"
proof -
  let ?K = kFileBlockSize
  define offset where "offset = fsize f mod ?K"
  define p where "p = (if offset \<noteq> 0 then (blocks f, ?K - offset) else (blocks f @ [[]], ?K))"
  define n where "n = (if snd p > length src then length src else snd p)"
  define f' where "f' = f\<lparr>blocks := butlast (fst p) @ [memcpy_at (last (fst p)) offset (take n src)],
     fsize := fsize f + n\<rparr>"
  have off: "offset < ?K" by (simp add: offset_def)
  have loop: "FileState_Append_loop f src = FileState_Append_loop f' (drop n src)"
    using ne by (subst FileState_Append_loop.simps)
      (simp add: Let_def offset_def p_def n_def f'_def split: prod.splits)
  have n: "0 < n" "n \<le> length src"
    using ne off by (auto simp: n_def p_def)
  from wf have "file_wf f' \<and> file_content f' = file_content f @ take n src"
  proof (cases rule: file_wf_cases)
    case 1
    then have "offset = 0" by (simp add: offset_def)
    then have f'b: "blocks f' = [] @ [take n src]" "n \<le> ?K"
      using 1 by (auto simp: f'_def p_def memcpy_at_def n_def)
    moreover have "file_wf f'"
      by (rule file_wfI [OF f'b(1)]) (use n f'b 1 in \<open>auto simp: f'_def\<close>)
    ultimately show ?thesis using 1 by simp
  next
    case (2 full b)
    show ?thesis
    proof (cases "length b = ?K")
      case True
      then have "offset = 0" using 2 by (simp add: offset_def)
      then have f'b: "blocks f' = (full @ [b]) @ [take n src]" "n \<le> ?K"
        using 2 by (auto simp: f'_def p_def memcpy_at_def n_def butlast_append)
      moreover have "file_wf f'"
        by (rule file_wfI [OF f'b(1)]) (use n f'b 2 True in \<open>auto simp: f'_def\<close>)
      ultimately show ?thesis using 2 by simp
    next
      case False
      then have "offset = length b" "0 < length b" using 2 by (auto simp: offset_def)
      then have f'b: "blocks f' = full @ [b @ take n src]" "n \<le> ?K - length b"
        using 2 by (auto simp: f'_def p_def memcpy_at_def n_def)
      moreover have "file_wf f'"
        by (rule file_wfI [OF f'b(1)]) (use n f'b 2 in \<open>auto simp: f'_def\<close>)
      ultimately show ?thesis using 2 by simp
    qed
  qed
  then show ?thesis using that loop n by (auto simp: f'_def)
qed

lemma FileState_Append_loop_ok:
  "file_wf f \<Longrightarrow> file_wf (FileState_Append_loop f src) \<and>
    file_content (FileState_Append_loop f src) = file_content f @ src \<and>
    refs (FileState_Append_loop f src) = refs f"
proof (induction src arbitrary: f rule: length_induct)
  case (1 src)
  show ?case
  proof (cases "src = []")
    case True
    with 1 show ?thesis by (simp add: FileState_Append_loop.simps [of f])
  next
    case False
    from FileState_Append_step [OF "1.prems" False] obtain f' n where
      step: "FileState_Append_loop f src = FileState_Append_loop f' (drop n src)"
        "0 < n" "n \<le> length src" "file_wf f'" "file_content f' = file_content f @ take n src"
        "refs f' = refs f" .
    then have "length (drop n src) < length src" by simp
    with "1.IH" step show ?thesis by simp
  qed
qed

lemma FileState_Append_ok [preserves]:
  assumes "file_wf f" and "FileState_Append f data = (s, f')"
  shows "s = OK" "file_wf f'" "file_content f' = file_content f @ data"
  using assms FileState_Append_loop_ok by (auto simp: FileState_Append_def)

text \<open>Reading is taking from the flat sequence.\<close>

definition full_but_last :: "bytes list \<Rightarrow> bool" where
  "full_but_last bs \<longleftrightarrow> (\<forall>i. Suc i < length bs \<longrightarrow> length (bs ! i) = kFileBlockSize)"

lemma full_but_last_Cons: "full_but_last (b # bs) \<Longrightarrow> full_but_last bs"
  unfolding full_but_last_def by (metis Suc_less_eq length_Cons nth_Cons_Suc)

lemma full_but_last_drop: "full_but_last bs \<Longrightarrow> full_but_last (drop k bs)"
  by (auto simp: full_but_last_def)

lemma full_but_last_hd:
  assumes "full_but_last (b # bs)" "bs \<noteq> []"
  shows "length b = kFileBlockSize"
proof -
  have "Suc 0 < length (b # bs)" using assms(2) by simp
  then have "length ((b # bs) ! 0) = kFileBlockSize" using assms(1) unfolding full_but_last_def by blast
  then show ?thesis by simp
qed

lemma drop_concat_block:
  "full_but_last bs \<Longrightarrow> k < length bs \<Longrightarrow> drop (k * kFileBlockSize) (concat bs) = concat (drop k bs)"
proof (induction k arbitrary: bs)
  case (Suc k)
  then obtain b bs' where bs: "bs = b # bs'" "bs' \<noteq> []"
    by (cases bs; cases "tl bs") auto
  then have "length b = kFileBlockSize" using full_but_last_hd Suc.prems by blast
  moreover have "full_but_last bs'" using Suc.prems bs full_but_last_Cons by blast
  ultimately show ?case
    using Suc.IH [of bs'] Suc.prems bs by (simp add: add.commute)
qed simp

lemma take_first_block:
  assumes "full_but_last bs" "k < length bs" "off + n \<le> kFileBlockSize"
    "off + n \<le> length (concat (drop k bs))"
  shows "take n (drop off (bs ! k)) = take n (drop off (concat (drop k bs)))"
proof -
  have dr: "drop k bs = bs ! k # drop (Suc k) bs" using assms(2) by (simp add: Cons_nth_drop_Suc)
  have "off + n \<le> length (bs ! k)"
  proof (cases "Suc k < length bs")
    case True
    then have "length (bs ! k) = kFileBlockSize" using assms(1) by (simp add: full_but_last_def)
    with assms(3) show ?thesis by simp
  next
    case False
    with assms(4) dr show ?thesis by simp
  qed
  then show ?thesis by (simp add: dr)
qed

lemma FileState_copy_eq:
  "full_but_last bs \<Longrightarrow> \<forall>b \<in> set bs. length b \<le> kFileBlockSize \<Longrightarrow> off < kFileBlockSize \<Longrightarrow>
    off + n \<le> length (concat (drop k bs)) \<Longrightarrow>
    FileState_copy bs k off n dst = dst @ take n (drop off (concat (drop k bs)))"
proof (induction bs k off n dst rule: FileState_copy.induct)
  case (1 bs k off n dst)
  let ?K = kFileBlockSize
  define av where "av = (if ?K - off > n then n else ?K - off)"
  show ?case
  proof (cases "n > 0")
    case False
    then show ?thesis by (simp add: FileState_copy.simps [of bs k off 0])
  next
    case True
    have k: "k < length bs" using "1.prems"(3,4) True by (cases "k < length bs") auto
    have chunk: "take av (drop off (bs ! k)) = take av (drop off (concat (drop k bs)))"
      using "1.prems" k by (intro take_first_block) (auto simp: av_def)
    have step: "FileState_copy bs k off n dst =
        FileState_copy bs (k + 1) 0 (n - av) (dst @ take av (drop off (bs ! k)))"
      using True "1.prems"(3) by (simp add: FileState_copy.simps [of bs k off n] Let_def av_def)
    show ?thesis
    proof (cases "av = n")
      case True
      then show ?thesis using step chunk by (simp add: FileState_copy.simps [of bs "Suc k"])
    next
      case False
      then have av: "av = ?K - off" "?K - off < n" by (auto simp: av_def split: if_splits)
      have dr: "drop k bs = bs ! k # drop (Suc k) bs" using k by (simp add: Cons_nth_drop_Suc)
      have "Suc k < length bs"
      proof (rule ccontr)
        assume "\<not> ?thesis"
        with k dr "1.prems"(2,4) have "off + n \<le> ?K"
          by (metis concat.simps append_Nil2 drop_all le_trans nth_mem not_less)
        with av show False by simp
      qed
      then have full: "length (bs ! k) = ?K" using "1.prems"(1) by (simp add: full_but_last_def)
      have "FileState_copy bs (k + 1) 0 (n - av) (dst @ take av (drop off (bs ! k))) =
          (dst @ take av (drop off (bs ! k))) @ take (n - av) (drop 0 (concat (drop (k + 1) bs)))"
        by (rule "1.IH" [OF _ refl av_def]) (use True "1.prems" dr full av in auto)
      with step chunk av full dr "1.prems"(3) show ?thesis by simp
    qed
  qed
qed

lemma FileState_Read_ok:
  assumes wf: "file_wf f" and "offset \<le> length (file_content f)"
  shows "FileState_Read f offset n = (OK, take n (drop offset (file_content f)))"
proof -
  let ?K = kFileBlockSize and ?C = "file_content f"
  define m where "m = min n (fsize f - offset)"
  have size: "fsize f = length ?C" using wf by (simp add: file_wf_def)
  have fbl: "full_but_last (blocks f)" "\<forall>b \<in> set (blocks f). length b \<le> ?K"
    using wf by (auto simp: file_wf_def full_but_last_def in_set_conv_nth)
  have m: "take n (drop offset ?C) = take m (drop offset ?C)" "offset + m \<le> length ?C"
    using assms(2) by (auto simp: m_def size min_def)
  have mif: "(if n > fsize f - offset then fsize f - offset else n) = m" by (simp add: m_def)
  have ge: "\<not> offset > fsize f" using assms(2) size by simp
  have read: "FileState_Read f offset n =
      (if m = 0 then (OK, [])
       else if m \<le> ?K - offset mod ?K
         then (OK, take m (drop (offset mod ?K) (blocks f ! (offset div ?K))))
       else (OK, FileState_copy (blocks f) (offset div ?K) (offset mod ?K) m []))"
    by (simp only: FileState_Read_def Let_def mif ge if_False)
  show ?thesis
  proof (cases "m = 0")
    case True
    with m show ?thesis by (simp add: read)
  next
    case False
    let ?k = "offset div ?K" and ?o = "offset mod ?K"
    have lt: "offset < length ?C" using False m by simp
    from wf have k: "?k < length (blocks f)"
    proof (cases rule: file_wf_cases)
      case (2 full b)
      then have "offset < Suc (length full) * ?K"
        using lt size by simp
      then show ?thesis using 2(1) by (simp add: less_mult_imp_div_less)
    qed (use lt in simp)
    have "drop offset ?C = drop ?o (drop (?k * ?K) ?C)" by (simp add: add.commute)
    also have "\<dots> = drop ?o (concat (drop ?k (blocks f)))"
      using drop_concat_block [OF fbl(1) k] by simp
    finally have drop_eq: "drop offset ?C = drop ?o (concat (drop ?k (blocks f)))" .
    have room: "?o + m \<le> length (concat (drop ?k (blocks f)))"
      using arg_cong [OF drop_eq, of length] m(2) False by simp
    show ?thesis
    proof (cases "m \<le> ?K - ?o")
      case True
      moreover have "?o < ?K" by simp
      ultimately have fit: "?o + m \<le> ?K" by linarith
      have "take m (drop ?o (blocks f ! ?k)) = take m (drop offset ?C)"
        using take_first_block [OF fbl(1) k fit room] by (simp add: drop_eq)
      with True \<open>m \<noteq> 0\<close> m(1) show ?thesis by (simp add: read)
    next
      case False
      then have "FileState_copy (blocks f) ?k ?o m [] = take m (drop offset ?C)"
        using FileState_copy_eq [OF fbl _ room] by (simp add: drop_eq)
      with False \<open>m \<noteq> 0\<close> m(1) show ?thesis by (simp add: read)
    qed
  qed
qed

lemma FileState_Read_fail:
  "file_wf f \<Longrightarrow> offset > length (file_content f) \<Longrightarrow> \<not> ok (fst (FileState_Read f offset n))"
  by (simp add: FileState_Read_def file_wf_def)

subsection \<open>The in-memory files satisfy the interfaces\<close>

definition seq_wf :: "SequentialFileImpl \<Rightarrow> bool" where
  "seq_wf sf \<longleftrightarrow> file_wf (fst sf) \<and> snd sf \<le> fsize (fst sf)"

definition seq_remaining :: "SequentialFileImpl \<Rightarrow> bytes" where
  "seq_remaining sf = drop (snd sf) (file_content (fst sf))"

interpretation mem_seq: sequential_file SequentialFileOps seq_remaining seq_wf
proof (unfold_locales, goal_cases)
  case (1 sf n s r sf')
  obtain f pos where sf: "sf = (f, pos)" by (cases sf)
  with 1 have wf: "file_wf f" "pos \<le> length (file_content f)"
    by (auto simp: seq_wf_def file_wf_def)
  from 1 show ?case
    using FileState_Read_ok [OF wf, of n] wf
    by (auto simp: sf SequentialFileOps_def SequentialFileImpl_Read_def Let_def seq_remaining_def
        seq_wf_def file_wf_def min_def add.commute)
next
  case (2 sf n s sf')
  then show ?case
    by (auto simp: SequentialFileOps_def SequentialFileImpl_Skip_def Let_def seq_remaining_def
        seq_wf_def file_wf_def add.commute split: prod.splits if_splits)
qed

interpretation mem_ra: random_access_file RandomAccessFileOps file_content file_wf
  by unfold_locales (simp_all add: RandomAccessFileOps_def FileState_Read_ok FileState_Read_fail)

interpretation mem_w: writable_file WritableFileOps file_content file_wf
  by unfold_locales (auto simp: WritableFileOps_def dest: FileState_Append_ok)

text \<open>An in-memory file, which keeps its data in blocks of 8 KB, behaves as the sequence of all bytes
  that were appended: appends never fail, a read at an offset within the file returns the bytes
  from there on, as many as asked for and present, and a read beyond the end fails.\<close>

theorem file_refines_bytes:
  fixes ds :: "bytes list"
  defines "f \<equiv> foldl (\<lambda>f d. snd (FileState_Append f d)) FileState_new ds"
  shows "fst (FileState_Append f d) = OK \<and>
    (if offset \<le> length (concat ds) then FileState_Read f offset n = (OK, take n (drop offset (concat ds)))
     else \<not> ok (fst (FileState_Read f offset n)))"
proof -
  have "file_wf f \<and> file_content f = concat ds"
    unfolding f_def
  proof (induction ds rule: rev_induct)
    case (snoc d ds)
    then show ?case using FileState_Append_loop_ok by (simp add: FileState_Append_def)
  qed (simp add: FileState_new_def file_wf_def)
  then show ?thesis using FileState_Read_ok [of f offset n] FileState_Read_fail [of f offset n]
    by (auto simp: FileState_Append_def)
qed

end
