(* ===== verification/Iterators.thy ===== *)
theory Iterators
  imports Comparators "HOL-Library.Multiset"
begin

text \<open>
  The iterator interface, \<open>include/leveldb/iterator.h\<close>, as a record of the virtual functions
  over a type of iterator states, and the contract its comments state as the locale
  \<open>iterator\<close>: a state stands at a position of a sorted list of key-value pairs, the position
  after the last pair being "not valid". Then the empty iterator and the clean-up functions of
  \<open>table/iterator.cc\<close> and the caching wrapper of \<open>table/iterator_wrapper.h\<close>.
\<close>

record 'it Iterator =
  it_Valid :: "'it \<Rightarrow> bool"
  it_SeekToFirst :: "'it \<Rightarrow> 'it"
  it_SeekToLast :: "'it \<Rightarrow> 'it"
  it_Seek :: "'it \<Rightarrow> bytes \<Rightarrow> 'it"
  it_Next :: "'it \<Rightarrow> 'it"
  it_Prev :: "'it \<Rightarrow> 'it"
  it_key :: "'it \<Rightarrow> bytes"
  it_value :: "'it \<Rightarrow> bytes"
  it_status :: "'it \<Rightarrow> Status"

subsection \<open>Clean-up functions\<close>

text \<open>
  The first function is stored in the object, the others in a chain behind it to which new ones
  are added at the front. The destructor calls them in the order of this list.
\<close>

fun RegisterCleanup :: "'f list \<Rightarrow> 'f \<Rightarrow> 'f list" where
  "RegisterCleanup [] f = [f]"
| "RegisterCleanup (c # cs) f = c # f # cs"

lemma RegisterCleanup_mset: "mset (foldl RegisterCleanup cs fs) = mset cs + mset fs"
proof (induction fs arbitrary: cs)
  case (Cons f fs)
  have "mset (RegisterCleanup cs f) = add_mset f (mset cs)" by (cases cs) simp_all
  then show ?case using Cons by simp
qed simp

text \<open>Whatever clean-up functions are registered on an iterator, its destructor calls each of
  them exactly as often as it was registered.\<close>

theorem cleanups_run_once: "count (mset (foldl RegisterCleanup [] fs)) f = count (mset fs) f"
  by (simp add: RegisterCleanup_mset)

subsection \<open>The contract\<close>

text \<open>The position of the first pair whose key is not before the target.\<close>

definition seek_index :: "('k \<Rightarrow> 'k \<Rightarrow> int) \<Rightarrow> ('k \<times> 'v) list \<Rightarrow> 'k \<Rightarrow> nat" where
  "seek_index cmp kvs target = length (takeWhile (\<lambda>kv. cmp (fst kv) target < 0) kvs)"

definition sorted_pairs :: "('k \<Rightarrow> 'k \<Rightarrow> int) \<Rightarrow> ('k \<Rightarrow> bool) \<Rightarrow> ('k \<times> 'v) list \<Rightarrow> bool" where
  "sorted_pairs cmp valid kvs \<longleftrightarrow>
     sorted_wrt (\<lambda>a b. cmp (fst a) (fst b) < 0) kvs \<and> (\<forall>kv\<in>set kvs. valid (fst kv))"

context key_order
begin

lemma seek_index_split:
  assumes "sorted_pairs compare valid kvs" "valid target" "j < length kvs"
  shows "j < seek_index compare kvs target \<longleftrightarrow> compare (fst (kvs ! j)) target < 0"
proof
  let ?P = "\<lambda>kv. compare (fst kv) target < 0"
  assume "j < seek_index compare kvs target"
  then show "?P (kvs ! j)"
    unfolding seek_index_def by (metis nth_mem set_takeWhileD takeWhile_nth)
next
  let ?P = "\<lambda>kv. compare (fst kv) target < 0"
  assume j: "?P (kvs ! j)"
  show "j < seek_index compare kvs target"
  proof (rule ccontr)
    assume "\<not> ?thesis"
    then have le: "seek_index compare kvs target \<le> j" by simp
    let ?s = "seek_index compare kvs target"
    have s: "?s < length kvs" "\<not> ?P (kvs ! ?s)"
      using le assms(3) nth_length_takeWhile [of ?P kvs] by (simp_all add: seek_index_def)
    have v: "valid (fst (kvs ! ?s))" "valid (fst (kvs ! j))" using assms(1,3) s(1) by (simp_all add: sorted_pairs_def)
    have "?s \<noteq> j" using s(2) j by auto
    then have "compare (fst (kvs ! ?s)) (fst (kvs ! j)) < 0"
      using le assms(1,3) by (simp add: sorted_pairs_def sorted_wrt_iff_nth_less)
    then show False
      using j s(2) v assms(2) compare_less_trans [of "fst (kvs ! ?s)" "fst (kvs ! j)" target] by simp
  qed
qed

end

datatype Move = MFirst | MLast | MSeek bytes | MNext | MPrev

fun move :: "'it Iterator \<Rightarrow> 'it \<Rightarrow> Move \<Rightarrow> 'it" where
  "move ops it MFirst = it_SeekToFirst ops it"
| "move ops it MLast = it_SeekToLast ops it"
| "move ops it (MSeek target) = it_Seek ops it target"
| "move ops it MNext = (if it_Valid ops it then it_Next ops it else it)"
| "move ops it MPrev = (if it_Valid ops it then it_Prev ops it else it)"

fun cursor_move :: "(bytes \<Rightarrow> bytes \<Rightarrow> int) \<Rightarrow> (bytes \<times> bytes) list \<Rightarrow> nat \<Rightarrow> Move \<Rightarrow> nat" where
  "cursor_move cmp kvs i MFirst = 0"
| "cursor_move cmp kvs i MLast = length kvs - 1"
| "cursor_move cmp kvs i (MSeek target) = seek_index cmp kvs target"
| "cursor_move cmp kvs i MNext = (if i < length kvs then Suc i else i)"
| "cursor_move cmp kvs i MPrev = (if i < length kvs then if i = 0 then length kvs else i - 1 else i)"

definition view :: "'it Iterator \<Rightarrow> 'it \<Rightarrow> (bytes \<times> bytes) option" where
  "view ops it = (if it_Valid ops it then Some (it_key ops it, it_value ops it) else None)"

definition cursor_view :: "(bytes \<times> bytes) list \<Rightarrow> nat \<Rightarrow> (bytes \<times> bytes) option" where
  "cursor_view kvs i = (if i < length kvs then Some (kvs ! i) else None)"

locale iterator = key_order compare valid
  for compare :: "bytes \<Rightarrow> bytes \<Rightarrow> int" and valid :: "bytes \<Rightarrow> bool" +
  fixes ops :: "'it Iterator" and pos :: "'it \<Rightarrow> (bytes \<times> bytes) list \<Rightarrow> nat \<Rightarrow> bool"
  assumes pos_sorted: "pos it kvs i \<Longrightarrow> sorted_pairs compare valid kvs"
    and pos_le: "pos it kvs i \<Longrightarrow> i \<le> length kvs"
    and Valid_pos: "pos it kvs i \<Longrightarrow> it_Valid ops it \<longleftrightarrow> i < length kvs"
    and key_pos: "pos it kvs i \<Longrightarrow> i < length kvs \<Longrightarrow> it_key ops it = fst (kvs ! i)"
    and value_pos: "pos it kvs i \<Longrightarrow> i < length kvs \<Longrightarrow> it_value ops it = snd (kvs ! i)"
    and status_pos: "pos it kvs i \<Longrightarrow> it_status ops it = OK"
    and SeekToFirst_pos: "pos it kvs i \<Longrightarrow> pos (it_SeekToFirst ops it) kvs 0"
    and SeekToLast_pos: "pos it kvs i \<Longrightarrow> pos (it_SeekToLast ops it) kvs (length kvs - 1)"
    and Seek_pos: "pos it kvs i \<Longrightarrow> valid target \<Longrightarrow>
      pos (it_Seek ops it target) kvs (seek_index compare kvs target)"
    and Next_pos: "pos it kvs i \<Longrightarrow> i < length kvs \<Longrightarrow> pos (it_Next ops it) kvs (Suc i)"
    and Prev_pos: "pos it kvs i \<Longrightarrow> i < length kvs \<Longrightarrow>
      pos (it_Prev ops it) kvs (if i = 0 then length kvs else i - 1)"
begin

text \<open>
  Any sequence of moves takes an iterator where it takes a cursor on the list; \<open>Next\<close> and \<open>Prev\<close>
  are called when the iterator is valid only.
\<close>

lemma move_pos:
  assumes "pos it kvs i" "\<And>t. m = MSeek t \<Longrightarrow> valid t"
  shows "pos (move ops it m) kvs (cursor_move compare kvs i m)"
  using assms
  by (cases m) (simp_all add: SeekToFirst_pos SeekToLast_pos Seek_pos Next_pos Prev_pos Valid_pos del: One_nat_def)

lemma moves_pos:
  "pos it kvs i \<Longrightarrow> \<forall>t. MSeek t \<in> set ms \<longrightarrow> valid t \<Longrightarrow>
    pos (foldl (move ops) it ms) kvs (foldl (cursor_move compare kvs) i ms)"
  by (induction ms arbitrary: it i) (simp_all add: move_pos)

lemma view_pos: "pos it kvs i \<Longrightarrow> view ops it = cursor_view kvs i"
  by (simp add: view_def cursor_view_def Valid_pos key_pos value_pos)

lemma moves_view:
  assumes "pos it kvs i" "\<forall>t. MSeek t \<in> set ms \<longrightarrow> valid t"
  shows "view ops (foldl (move ops) it ms) = cursor_view kvs (foldl (cursor_move compare kvs) i ms)"
  by (rule view_pos [OF moves_pos [OF assms]])

text \<open>What a client relies on: a scan from the first pair reads the list.\<close>

lemma scan_pos: "pos it kvs i \<Longrightarrow> n \<le> length kvs \<Longrightarrow>
    pos ((it_Next ops ^^ n) (it_SeekToFirst ops it)) kvs n"
  by (induction n) (auto simp: SeekToFirst_pos Next_pos)

lemma scan_reads:
  assumes "pos it kvs i" "n < length kvs"
  defines "it' \<equiv> (it_Next ops ^^ n) (it_SeekToFirst ops it)"
  shows "it_Valid ops it' \<and> (it_key ops it', it_value ops it') = kvs ! n"
  using scan_pos [OF assms(1), of n] assms(2) by (simp add: it'_def Valid_pos key_pos value_pos)

text \<open>A position determines the list it is a position in.\<close>

lemma pos_length_le:
  assumes "pos it kvs i" "pos it kvs' i'"
  shows "length kvs' \<le> length kvs"
proof (rule ccontr)
  assume "\<not> ?thesis"
  then have lt: "length kvs < length kvs'" by simp
  show False
    using Valid_pos [OF scan_pos [OF assms(1), of "length kvs"]] Valid_pos [OF scan_pos [OF assms(2), of "length kvs"]] lt
    by simp
qed

lemma pos_unique:
  assumes "pos it kvs i" "pos it kvs' i'"
  shows "kvs = kvs'"
proof (rule nth_equalityI)
  show len: "length kvs = length kvs'"
    using pos_length_le [OF assms] pos_length_le [OF assms(2,1)] by simp
  show "kvs ! n = kvs' ! n" if "n < length kvs" for n
    using scan_reads [OF assms(1), of n] scan_reads [OF assms(2), of n] that len by simp
qed

end

subsection \<open>The empty iterator\<close>

definition EmptyIterator :: "Status Iterator" where
  "EmptyIterator =
     \<lparr>it_Valid = (\<lambda>_. False), it_SeekToFirst = (\<lambda>s. s), it_SeekToLast = (\<lambda>s. s), it_Seek = (\<lambda>s _. s),
      it_Next = (\<lambda>s. s), it_Prev = (\<lambda>s. s), it_key = (\<lambda>_. []), it_value = (\<lambda>_. []), it_status = (\<lambda>s. s)\<rparr>"

definition NewEmptyIterator :: Status where "NewEmptyIterator = OK"

definition NewErrorIterator :: "Status \<Rightarrow> Status" where "NewErrorIterator s = s"

definition empty_pos :: "Status \<Rightarrow> (bytes \<times> bytes) list \<Rightarrow> nat \<Rightarrow> bool" where
  "empty_pos s kvs i \<longleftrightarrow> s = OK \<and> kvs = [] \<and> i = 0"

interpretation empty: iterator Slice_compare "\<lambda>_. True" EmptyIterator empty_pos
  by unfold_locales (simp_all add: empty_pos_def EmptyIterator_def sorted_pairs_def seek_index_def)

subsection \<open>The wrapper\<close>

record 'it IteratorWrapper =
  witer :: "'it option"
  wvalid :: bool
  wkey :: bytes

definition Wrapper_Update :: "'it Iterator \<Rightarrow> 'it IteratorWrapper \<Rightarrow> 'it IteratorWrapper" where
  "Wrapper_Update ops w =
     (case witer w of
        None \<Rightarrow> w
      | Some it \<Rightarrow>
          (let w = w\<lparr>wvalid := it_Valid ops it\<rparr> in
           if wvalid w then w\<lparr>wkey := it_key ops it\<rparr> else w))"

definition Wrapper_new :: "'it IteratorWrapper" where
  "Wrapper_new = \<lparr>witer = None, wvalid = False, wkey = []\<rparr>"

definition Wrapper_Set :: "'it Iterator \<Rightarrow> 'it IteratorWrapper \<Rightarrow> 'it option \<Rightarrow> 'it IteratorWrapper" where
  "Wrapper_Set ops w iter =
     (let w = w\<lparr>witer := iter\<rparr> in
      if iter = None then w\<lparr>wvalid := False\<rparr> else Wrapper_Update ops w)"

definition Wrapper_lift :: "'it Iterator \<Rightarrow> ('it \<Rightarrow> 'it) \<Rightarrow> 'it IteratorWrapper \<Rightarrow> 'it IteratorWrapper" where
  "Wrapper_lift ops f w = Wrapper_Update ops (w\<lparr>witer := map_option f (witer w)\<rparr>)"

definition Wrapper :: "'it Iterator \<Rightarrow> 'it IteratorWrapper Iterator" where
  "Wrapper ops =
     \<lparr>it_Valid = wvalid,
      it_SeekToFirst = Wrapper_lift ops (it_SeekToFirst ops),
      it_SeekToLast = Wrapper_lift ops (it_SeekToLast ops),
      it_Seek = (\<lambda>w k. Wrapper_lift ops (\<lambda>it. it_Seek ops it k) w),
      it_Next = Wrapper_lift ops (it_Next ops),
      it_Prev = Wrapper_lift ops (it_Prev ops),
      it_key = wkey,
      it_value = (\<lambda>w. it_value ops (the (witer w))),
      it_status = (\<lambda>w. it_status ops (the (witer w)))\<rparr>"

text \<open>The cached values agree with the iterator inside.\<close>

definition wrapped :: "'it Iterator \<Rightarrow> 'it IteratorWrapper \<Rightarrow> 'it \<Rightarrow> bool" where
  "wrapped ops w it \<longleftrightarrow> witer w = Some it \<and> wvalid w = it_Valid ops it \<and>
     (wvalid w \<longrightarrow> wkey w = it_key ops it)"

lemma wrapped_Set: "wrapped ops (Wrapper_Set ops w (Some it)) it"
  by (simp add: wrapped_def Wrapper_Set_def Wrapper_Update_def Let_def)

lemma wrapped_lift: "wrapped ops w it \<Longrightarrow> wrapped ops (Wrapper_lift ops f w) (f it)"
  by (auto simp: wrapped_def Wrapper_lift_def Wrapper_Update_def Let_def)

definition wrapper_pos ::
  "'it Iterator \<Rightarrow> ('it \<Rightarrow> (bytes \<times> bytes) list \<Rightarrow> nat \<Rightarrow> bool) \<Rightarrow>
   'it IteratorWrapper \<Rightarrow> (bytes \<times> bytes) list \<Rightarrow> nat \<Rightarrow> bool" where
  "wrapper_pos ops pos w kvs i \<longleftrightarrow> (\<exists>it. wrapped ops w it \<and> pos it kvs i)"

context iterator
begin

lemma wrapper_pos_lift:
  assumes "wrapper_pos ops pos w kvs i" "\<And>it. pos it kvs i \<Longrightarrow> pos (f it) kvs j"
  shows "wrapper_pos ops pos (Wrapper_lift ops f w) kvs j"
proof -
  obtain it where "wrapped ops w it" "pos it kvs i" using assms(1) by (auto simp: wrapper_pos_def)
  then have "wrapped ops (Wrapper_lift ops f w) (f it) \<and> pos (f it) kvs j"
    using wrapped_lift [of ops w it f] assms(2) by simp
  then show ?thesis unfolding wrapper_pos_def by (rule exI)
qed

lemma wrapper_iterator: "iterator compare valid (Wrapper ops) (wrapper_pos ops pos)"
proof (unfold_locales, goal_cases)
  case (1 w kvs i) then show ?case by (auto simp: wrapper_pos_def dest: pos_sorted)
next
  case (2 w kvs i) then show ?case by (auto simp: wrapper_pos_def dest: pos_le)
next
  case (3 w kvs i) then show ?case by (auto simp: wrapper_pos_def wrapped_def Wrapper_def Valid_pos)
next
  case (4 w kvs i)
  then show ?case by (auto simp: wrapper_pos_def wrapped_def Wrapper_def key_pos Valid_pos)
next
  case (5 w kvs i) then show ?case by (auto simp: wrapper_pos_def wrapped_def Wrapper_def value_pos)
next
  case (6 w kvs i) then show ?case by (auto simp: wrapper_pos_def wrapped_def Wrapper_def status_pos)
next
  case (7 w kvs i)
  then have "wrapper_pos ops pos (Wrapper_lift ops (it_SeekToFirst ops) w) kvs 0"
    by (rule wrapper_pos_lift) (rule SeekToFirst_pos)
  then show ?case by (simp add: Wrapper_def)
next
  case (8 w kvs i)
  then have "wrapper_pos ops pos (Wrapper_lift ops (it_SeekToLast ops) w) kvs (length kvs - 1)"
    by (rule wrapper_pos_lift) (rule SeekToLast_pos)
  then show ?case by (simp add: Wrapper_def)
next
  case (9 w kvs i target)
  from 9(1) have "wrapper_pos ops pos (Wrapper_lift ops (\<lambda>it. it_Seek ops it target) w) kvs (seek_index compare kvs target)"
    by (rule wrapper_pos_lift) (rule Seek_pos [OF _ 9(2)])
  then show ?case by (simp add: Wrapper_def)
next
  case (10 w kvs i)
  from 10(1) have "wrapper_pos ops pos (Wrapper_lift ops (it_Next ops) w) kvs (Suc i)"
    by (rule wrapper_pos_lift) (rule Next_pos [OF _ 10(2)])
  then show ?case by (simp add: Wrapper_def)
next
  case (11 w kvs i)
  from 11(1) have "wrapper_pos ops pos (Wrapper_lift ops (it_Prev ops) w) kvs (if i = 0 then length kvs else i - 1)"
    by (rule wrapper_pos_lift) (rule Prev_pos [OF _ 11(2)])
  then show ?case by (simp add: Wrapper_def)
qed

end

end
