(* ===== verification/Block.thy ===== *)
theory Block
  imports Iterators
begin

text \<open>
  Blocks of key-value pairs, \<open>table/block_builder.cc\<close> and \<open>table/block.cc\<close>: keys are stored as
  differences to their predecessor, except at restart points, whose offsets stand in an array at
  the end of the block and are searched by bisection.
\<close>

subsection \<open>Builder\<close>

record BlockBuilder =
  block_restart_interval :: nat
  bbuffer :: bytes
  brestarts :: "nat list"
  counter :: nat
  finished :: bool
  last_key :: bytes

definition BlockBuilder_new :: "nat \<Rightarrow> BlockBuilder" where
  "BlockBuilder_new interval =
     \<lparr>block_restart_interval = interval, bbuffer = [], brestarts = [0], counter = 0,
      finished = False, last_key = []\<rparr>"

definition BlockBuilder_Reset :: "BlockBuilder \<Rightarrow> BlockBuilder" where
  "BlockBuilder_Reset b =
     b\<lparr>bbuffer := [], brestarts := [0], counter := 0, finished := False, last_key := []\<rparr>"

definition CurrentSizeEstimate :: "BlockBuilder \<Rightarrow> nat" where
  "CurrentSizeEstimate b = length (bbuffer b) + length (brestarts b) * 4 + 4"

definition BlockBuilder_Finish :: "BlockBuilder \<Rightarrow> bytes \<times> BlockBuilder" where
  "BlockBuilder_Finish b =
     (let buf = foldl (\<lambda>buf r. PutFixed32 buf (of_nat r)) (bbuffer b) (brestarts b);
          buf = PutFixed32 buf (of_nat (length (brestarts b)))
      in (buf, b\<lparr>bbuffer := buf, finished := True\<rparr>))"

definition BlockBuilder_Add :: "BlockBuilder \<Rightarrow> bytes \<Rightarrow> bytes \<Rightarrow> BlockBuilder" where
  "BlockBuilder_Add b key value =
     (let (shared, b) =
            (if counter b < block_restart_interval b
             then (common_prefix_length (last_key b) key, b)
             else (0, b\<lparr>brestarts := brestarts b @ [length (bbuffer b)], counter := 0\<rparr>));
          non_shared = length key - shared;
          buf = PutVarint32 (bbuffer b) (of_nat shared);
          buf = PutVarint32 buf (of_nat non_shared);
          buf = PutVarint32 buf (of_nat (length value));
          buf = buf @ drop shared key @ value
      in b\<lparr>bbuffer := buf, last_key := take shared (last_key b) @ drop shared key,
           counter := counter b + 1\<rparr>)"

definition BlockBuilder_empty :: "BlockBuilder \<Rightarrow> bool" where
  "BlockBuilder_empty b \<longleftrightarrow> bbuffer b = []"

subsection \<open>Block\<close>

text \<open>
  The constructor computes with 64-bit sizes and stores the offset of the restart array in 32
  bits; a size of 0 marks a block that is too small.
\<close>

record Block =
  bdata :: bytes
  bsize :: uint64
  restart_offset :: uint32

definition NumRestarts :: "bytes \<Rightarrow> uint32" where
  "NumRestarts data = DecodeFixed32 (drop (length data - 4) data)"

definition Block_new :: "bytes \<Rightarrow> Block" where
  "Block_new data =
     (let size = of_nat (length data) :: uint64 in
      if size < 4 then \<lparr>bdata = data, bsize = 0, restart_offset = 0\<rparr>
      else
        (let ro = ucast (size - ucast (1 + NumRestarts data) * 4) :: uint32
         in \<lparr>bdata = data, bsize = (if ucast ro > size - 4 then 0 else size), restart_offset = ro\<rparr>))"

text \<open>
  The bytes up to \<open>limit\<close>. The sum of the two lengths is taken in 32 bits. Returns the three
  numbers and the bytes from the key difference on.
\<close>

definition DecodeEntry :: "bytes \<Rightarrow> (nat \<times> nat \<times> nat \<times> bytes) option" where
  "DecodeEntry p =
     (if length p < 3 then None
      else
        (let s = ucast (p ! 0) :: uint32; n = ucast (p ! 1) :: uint32; v = ucast (p ! 2) :: uint32;
             r = (if s OR n OR v < 128 then Some (s, n, v, drop 3 p)
                  else
                    (case GetVarint32Ptr p of
                       None \<Rightarrow> None
                     | Some (s, p) \<Rightarrow>
                         (case GetVarint32Ptr p of
                            None \<Rightarrow> None
                          | Some (n, p) \<Rightarrow>
                              (case GetVarint32Ptr p of
                                 None \<Rightarrow> None
                               | Some (v, p) \<Rightarrow> Some (s, n, v, p)))))
         in case r of
              None \<Rightarrow> None
            | Some (s, n, v, p) \<Rightarrow>
                if (of_nat (length p) :: uint32) < n + v then None
                else Some (unat s, unat n, unat v, p)))"

text \<open>
  The iterator. The value is a slice of the block, so it is kept as offset and length. Offsets
  are numbers below the size of the block.
\<close>

record BlockIter =
  icmp :: Comparator
  idata :: bytes
  irestarts :: nat
  num_restarts :: nat
  current :: nat
  restart_index :: nat
  ikey :: bytes
  ivalue :: "nat \<times> nat"
  istatus :: Status

definition BlockIter_new :: "Comparator \<Rightarrow> bytes \<Rightarrow> nat \<Rightarrow> nat \<Rightarrow> BlockIter" where
  "BlockIter_new cmp data restarts n =
     \<lparr>icmp = cmp, idata = data, irestarts = restarts, num_restarts = n, current = restarts,
      restart_index = n, ikey = [], ivalue = (0, 0), istatus = OK\<rparr>"

text \<open>Positions in a block are numbers; the source keeps them in 32 bits, which is exact for the positions within a block that
  is smaller than 4 GB.\<close>

definition NextEntryOffset :: "BlockIter \<Rightarrow> nat" where
  "NextEntryOffset it = fst (ivalue it) + snd (ivalue it)"

definition GetRestartPoint :: "BlockIter \<Rightarrow> nat \<Rightarrow> nat" where
  "GetRestartPoint it index = unat (DecodeFixed32 (drop (irestarts it + index * 4) (idata it)))"

definition SeekToRestartPoint :: "BlockIter \<Rightarrow> nat \<Rightarrow> BlockIter" where
  "SeekToRestartPoint it index =
     it\<lparr>ikey := [], restart_index := index, ivalue := (GetRestartPoint it index, 0)\<rparr>"

definition BlockIter_Valid :: "BlockIter \<Rightarrow> bool" where
  "BlockIter_Valid it \<longleftrightarrow> current it < irestarts it"

definition BlockIter_value :: "BlockIter \<Rightarrow> bytes" where
  "BlockIter_value it = take (snd (ivalue it)) (drop (fst (ivalue it)) (idata it))"

definition CorruptionError :: "BlockIter \<Rightarrow> BlockIter" where
  "CorruptionError it =
     it\<lparr>current := irestarts it, restart_index := num_restarts it,
        istatus := Corruption ''bad entry in block'' [], ikey := [], ivalue := (0, 0)\<rparr>"

function advance_restart_index :: "BlockIter \<Rightarrow> BlockIter" where
  "advance_restart_index it =
     (if restart_index it + 1 < num_restarts it \<and>
         GetRestartPoint it (restart_index it + 1) < current it
      then advance_restart_index (it\<lparr>restart_index := restart_index it + 1\<rparr>) else it)"
  by pat_completeness auto
termination by (relation "measure (\<lambda>it. num_restarts it - restart_index it)") auto

declare advance_restart_index.simps [simp del]

definition ParseNextKey :: "BlockIter \<Rightarrow> bool \<times> BlockIter" where
  "ParseNextKey it =
     (let it = it\<lparr>current := NextEntryOffset it\<rparr> in
      if current it \<ge> irestarts it then
        (False, it\<lparr>current := irestarts it, restart_index := num_restarts it\<rparr>)
      else
        (case DecodeEntry (drop (current it) (take (irestarts it) (idata it))) of
           None \<Rightarrow> (False, CorruptionError it)
         | Some (shared, non_shared, value_length, p) \<Rightarrow>
             if length (ikey it) < shared then (False, CorruptionError it)
             else
               (let off = irestarts it - length p in
                (True, advance_restart_index
                   (it\<lparr>ikey := take shared (ikey it) @ take non_shared p,
                       ivalue := (off + non_shared, value_length)\<rparr>)))))"

lemma advance_same [simp]:
  "ivalue (advance_restart_index it) = ivalue it" "irestarts (advance_restart_index it) = irestarts it"
  "current (advance_restart_index it) = current it" "ikey (advance_restart_index it) = ikey it"
  "idata (advance_restart_index it) = idata it" "icmp (advance_restart_index it) = icmp it"
  "num_restarts (advance_restart_index it) = num_restarts it" "istatus (advance_restart_index it) = istatus it"
  by (induction it rule: advance_restart_index.induct; subst advance_restart_index.simps; simp)+

text \<open>Every entry moves the iterator forward, so the loops below end on any block.\<close>

lemma DecodeEntry_shorter: "DecodeEntry p = Some (s, n, v, q) \<Longrightarrow> length q < length p"
  by (auto simp: DecodeEntry_def Let_def split: if_splits option.splits dest!: GetVarint32Ptr_suffix)

lemma ParseNextKey_progress:
  assumes "ParseNextKey it = (True, it')"
  shows "NextEntryOffset it < NextEntryOffset it' \<and> NextEntryOffset it < irestarts it \<and> irestarts it' = irestarts it"
proof -
  obtain s n v p where d: "NextEntryOffset it < irestarts it"
    "DecodeEntry (drop (NextEntryOffset it) (take (irestarts it) (idata it))) = Some (s, n, v, p)"
    "ivalue it' = (irestarts it - length p + n, v)" "irestarts it' = irestarts it"
    using assms by (auto simp: ParseNextKey_def Let_def split: if_splits option.splits)
  have "length p < irestarts it - NextEntryOffset it" using DecodeEntry_shorter [OF d(2)] by auto
  then show ?thesis using d by (simp add: NextEntryOffset_def [of it'])
qed

definition BlockIter_Next :: "BlockIter \<Rightarrow> BlockIter" where
  "BlockIter_Next it = snd (ParseNextKey it)"

function Prev_back :: "BlockIter \<Rightarrow> nat \<Rightarrow> bool \<times> BlockIter" where
  "Prev_back it original =
     (if GetRestartPoint it (restart_index it) \<ge> original then
        (if restart_index it = 0 then
           (False, it\<lparr>current := irestarts it, restart_index := num_restarts it\<rparr>)
         else Prev_back (it\<lparr>restart_index := restart_index it - 1\<rparr>) original)
      else (True, it))"
  by pat_completeness auto
termination by (relation "measure (\<lambda>(it, original). restart_index it)") auto

function Prev_forward :: "BlockIter \<Rightarrow> nat \<Rightarrow> BlockIter" where
  "Prev_forward it original =
     (let (ok, it') = ParseNextKey it in
      if ok \<and> NextEntryOffset it' < original then Prev_forward it' original else it')"
  by pat_completeness auto
termination
  by (relation "measure (\<lambda>(it, original). irestarts it - NextEntryOffset it)")
    (auto dest!: sym [of "(True, _)"] ParseNextKey_progress)

declare Prev_back.simps [simp del] Prev_forward.simps [simp del]

definition BlockIter_Prev :: "BlockIter \<Rightarrow> BlockIter" where
  "BlockIter_Prev it =
     (let original = current it;
          (found, it) = Prev_back it original
      in if found then Prev_forward (SeekToRestartPoint it (restart_index it)) original else it)"

text \<open>The bisection gives a restart index, or nothing when it meets a bad entry.\<close>

function Seek_bisect :: "BlockIter \<Rightarrow> bytes \<Rightarrow> nat \<Rightarrow> nat \<Rightarrow> nat option" where
  "Seek_bisect it target left right =
     (if left < right then
        (let mid = (left + right + 1) div 2;
             region_offset = GetRestartPoint it mid
         in case DecodeEntry (drop region_offset (take (irestarts it) (idata it))) of
              None \<Rightarrow> None
            | Some (shared, non_shared, value_length, key_ptr) \<Rightarrow>
                if shared \<noteq> 0 then None
                else if Compare (icmp it) (take non_shared key_ptr) target < 0
                then Seek_bisect it target mid right
                else Seek_bisect it target left (mid - 1))
      else Some left)"
  by pat_completeness auto
termination by (relation "measure (\<lambda>(it, target, left, right). right - left)") auto

function Seek_scan :: "BlockIter \<Rightarrow> bytes \<Rightarrow> BlockIter" where
  "Seek_scan it target =
     (let (ok, it') = ParseNextKey it in
      if \<not> ok then it'
      else if Compare (icmp it') (ikey it') target \<ge> 0 then it'
      else Seek_scan it' target)"
  by pat_completeness auto
termination
  by (relation "measure (\<lambda>(it, target). irestarts it - NextEntryOffset it)")
    (auto dest!: sym [of "(True, _)"] ParseNextKey_progress)

function SeekToLast_scan :: "BlockIter \<Rightarrow> BlockIter" where
  "SeekToLast_scan it =
     (let (ok, it') = ParseNextKey it in
      if ok \<and> NextEntryOffset it' < irestarts it' then SeekToLast_scan it' else it')"
  by pat_completeness auto
termination
  by (relation "measure (\<lambda>it. irestarts it - NextEntryOffset it)")
    (auto dest!: sym [of "(True, _)"] ParseNextKey_progress)

declare Seek_bisect.simps [simp del] Seek_scan.simps [simp del] SeekToLast_scan.simps [simp del]

definition BlockIter_Seek :: "BlockIter \<Rightarrow> bytes \<Rightarrow> BlockIter" where
  "BlockIter_Seek it target =
     (case Seek_bisect it target 0 (num_restarts it - 1) of
        None \<Rightarrow> CorruptionError it
      | Some left \<Rightarrow> Seek_scan (SeekToRestartPoint it left) target)"

definition BlockIter_SeekToFirst :: "BlockIter \<Rightarrow> BlockIter" where
  "BlockIter_SeekToFirst it = snd (ParseNextKey (SeekToRestartPoint it 0))"

definition BlockIter_SeekToLast :: "BlockIter \<Rightarrow> BlockIter" where
  "BlockIter_SeekToLast it = SeekToLast_scan (SeekToRestartPoint it (num_restarts it - 1))"

text \<open>An error iterator, an empty one, or an iterator of the block.\<close>

definition Block_NewIterator :: "Comparator \<Rightarrow> Block \<Rightarrow> Status + BlockIter option" where
  "Block_NewIterator cmp b =
     (if bsize b < 8 then Inl (Corruption ''bad block contents'' [])
      else if NumRestarts (bdata b) = 0 then Inr None
      else Inr (Some (BlockIter_new cmp (bdata b) (unat (restart_offset b)) (unat (NumRestarts (bdata b))))))"

subsection \<open>Entries\<close>

record BlockEnt =
  eshared :: nat
  ekey :: bytes
  evalue :: bytes

definition ent_bytes :: "BlockEnt \<Rightarrow> bytes" where
  "ent_bytes e =
     EncodeVarint32 (of_nat (eshared e)) @ EncodeVarint32 (of_nat (length (ekey e) - eshared e)) @
     EncodeVarint32 (of_nat (length (evalue e))) @ drop (eshared e) (ekey e) @ evalue e"

lemma word_less_128_take: "(x :: uint32) < 128 \<longleftrightarrow> take_bit 7 x = x"
proof -
  have "x < 128 \<longleftrightarrow> take_bit 7 (unat x) = unat x" by (simp add: take_bit_nat_eq_self_iff word_less_nat_alt)
  also have "\<dots> \<longleftrightarrow> take_bit 7 x = x" by (metis unsigned_take_bit_eq word_eq_iff_unsigned)
  finally show ?thesis .
qed

lemma or3_less_128: "(s OR n OR v :: uint32) < 128 \<longleftrightarrow> s < 128 \<and> n < 128 \<and> v < 128"
proof
  assume "s OR n OR v < 128"
  then have b: "bit (s OR n OR v) i \<Longrightarrow> i < 7" for i
    unfolding word_less_128_take by (metis bit_take_bit_iff)
  have "take_bit 7 s = s" "take_bit 7 n = n" "take_bit 7 v = v"
    using b by (auto intro!: bit_word_eqI simp: bit_simps)
  then show "s < 128 \<and> n < 128 \<and> v < 128" by (simp add: word_less_128_take)
next
  assume "s < 128 \<and> n < 128 \<and> v < 128"
  then show "s OR n OR v < 128" unfolding word_less_128_take by (simp add: take_bit_or)
qed

lemma EncodeVarint32_small: "v < 128 \<Longrightarrow> EncodeVarint32 v = [ucast v]"
  by (simp add: EncodeVarint32_def)

lemma EncodeVarint32_large:
  assumes "\<not> v < 128"
  shows "\<exists>r. EncodeVarint32 v = ucast (v OR 128) # r"
  using assms by (auto simp: EncodeVarint32_def)

lemma first_byte_large: "\<not> (ucast (ucast (v OR 128 :: uint32) :: byte) :: uint32) < 128"
proof
  assume "(ucast (ucast (v OR 128 :: uint32) :: byte) :: uint32) < 128"
  then have "bit (ucast (ucast (v OR 128 :: uint32) :: byte) :: uint32) 7 \<Longrightarrow> (7::nat) < 7"
    unfolding word_less_128_take by (metis bit_take_bit_iff)
  moreover have "bit (128 :: uint32) 7" by (simp add: bit_iff_odd_drop_bit)
  ultimately show False by (simp add: bit_simps)
qed

text \<open>The fast path for three one-byte numbers agrees with the general one.\<close>

lemma DecodeEntry_varints:
  "DecodeEntry (EncodeVarint32 s @ EncodeVarint32 n @ EncodeVarint32 v @ q) =
    (if (of_nat (length q) :: uint32) < n + v then None else Some (unat s, unat n, unat v, q))"
proof -
  define p where "p = EncodeVarint32 s @ EncodeVarint32 n @ EncodeVarint32 v @ q"
  have l3: "3 \<le> length p"
  proof -
    have "0 < length (EncodeVarint32 x)" for x by simp
    from this [of s] this [of n] this [of v] show ?thesis unfolding p_def length_append by linarith
  qed
  have small: "ucast (ucast x :: byte) = x" if "x < 128" for x :: uint32
  proof -
    have "bit x i \<Longrightarrow> i < 7" for i using that unfolding word_less_128_take by (metis bit_take_bit_iff)
    then have "bit x i \<Longrightarrow> i < 8" for i by fastforce
    then show ?thesis by (intro bit_word_eqI) (auto simp: bit_simps)
  qed
  show ?thesis unfolding p_def [symmetric]
  proof (cases "s < 128 \<and> n < 128 \<and> v < 128")
    case True
    then have "p = ucast s # ucast n # ucast v # q" by (simp add: p_def EncodeVarint32_small)
    then show "DecodeEntry p = (if (of_nat (length q) :: uint32) < n + v then None else Some (unat s, unat n, unat v, q))"
      using True by (simp add: DecodeEntry_def small or3_less_128)
  next
    case False
    then have "\<not> (ucast (p ! 0) OR ucast (p ! 1) OR ucast (p ! 2) :: uint32) < 128"
      unfolding p_def or3_less_128
      using EncodeVarint32_large [of s] EncodeVarint32_large [of n] EncodeVarint32_large [of v] first_byte_large
      by (cases "s < 128"; cases "n < 128"; auto simp: EncodeVarint32_small)
    then show "DecodeEntry p = (if (of_nat (length q) :: uint32) < n + v then None else Some (unat s, unat n, unat v, q))"
      using l3 by (simp add: DecodeEntry_def Let_def) (simp add: p_def roundtrip)
  qed
qed

lemma DecodeEntry_ent_bytes:
  assumes "eshared e \<le> length (ekey e)" "length (ent_bytes e @ rest) < 2 ^ 32" "eshared e < 2 ^ 32"
  shows "DecodeEntry (ent_bytes e @ rest) = Some (eshared e, length (ekey e) - eshared e, length (evalue e),
      drop (eshared e) (ekey e) @ evalue e @ rest)"
proof -
  define q where "q = drop (eshared e) (ekey e) @ evalue e @ rest"
  define s n v :: uint32 where "s = of_nat (eshared e)" and "n = of_nat (length (ekey e) - eshared e)"
    and "v = of_nat (length (evalue e))"
  have p: "ent_bytes e @ rest = EncodeVarint32 s @ EncodeVarint32 n @ EncodeVarint32 v @ q"
    by (simp add: ent_bytes_def q_def s_def n_def v_def)
  have len: "length (ekey e) - eshared e + length (evalue e) \<le> length q" "length q < 2 ^ 32"
    using assms(2) by (simp_all add: q_def ent_bytes_def)
  have u: "unat s = eshared e" "unat n = length (ekey e) - eshared e" "unat v = length (evalue e)"
    "unat (of_nat (length q) :: uint32) = length q"
    using assms(3) len by (simp_all add: s_def n_def v_def unat_of_nat_small32)
  have "unat (n + v) = unat n + unat v"
    using u len by (subst unat_add_lem [THEN iffD1]) simp_all
  then have fits: "\<not> (of_nat (length q) :: uint32) < n + v"
    using u len by (simp add: word_less_nat_alt)
  then show ?thesis unfolding p DecodeEntry_varints using u by (simp add: q_def)
qed

subsection \<open>The layout of a block\<close>

definition offs :: "BlockEnt list \<Rightarrow> nat \<Rightarrow> nat" where
  "offs es i = length (concat (map ent_bytes (take i es)))"

definition ents_wf :: "BlockEnt list \<Rightarrow> bool" where
  "ents_wf es \<longleftrightarrow> (\<forall>i<length es. eshared (es ! i) \<le> length (ekey (es ! i)) \<and>
     (if i = 0 then eshared (es ! i) = 0
      else eshared (es ! i) \<le> length (ekey (es ! (i - 1))) \<and>
        take (eshared (es ! i)) (ekey (es ! (i - 1))) = take (eshared (es ! i)) (ekey (es ! i))))"

definition restarts_wf :: "BlockEnt list \<Rightarrow> nat list \<Rightarrow> bool" where
  "restarts_wf es ms \<longleftrightarrow> ms \<noteq> [] \<and> ms ! 0 = 0 \<and> sorted_wrt (<) ms \<and>
     (\<forall>m\<in>set ms. m = 0 \<or> m < length es \<and> eshared (es ! m) = 0)"

definition block_bytes :: "BlockEnt list \<Rightarrow> nat list \<Rightarrow> bytes" where
  "block_bytes es ms = concat (map ent_bytes es) @
     concat (map (\<lambda>m. EncodeFixed32 (of_nat (offs es m))) ms) @ EncodeFixed32 (of_nat (length ms))"

definition block_wf :: "BlockEnt list \<Rightarrow> nat list \<Rightarrow> bool" where
  "block_wf es ms \<longleftrightarrow> ents_wf es \<and> restarts_wf es ms \<and> length (block_bytes es ms) < 2 ^ 32"

lemma ent_bytes_pos: "0 < length (ent_bytes e)"
  by (simp add: ent_bytes_def)

lemma offs_0 [simp]: "offs es 0 = 0"
  by (simp add: offs_def)

lemma offs_Suc: "i < length es \<Longrightarrow> offs es (Suc i) = offs es i + length (ent_bytes (es ! i))"
  by (simp add: offs_def take_Suc_conv_app_nth)

lemma offs_mono: "i \<le> j \<Longrightarrow> offs es i \<le> offs es j"
  using take_add [of i "j - i" es] by (simp add: offs_def)

lemma offs_less: "i < j \<Longrightarrow> j \<le> length es \<Longrightarrow> offs es i < offs es j"
  using offs_mono [of "Suc i" j es] offs_Suc [of i es] ent_bytes_pos [of "es ! i"] by linarith

lemma offs_less_iff: "i \<le> length es \<Longrightarrow> j \<le> length es \<Longrightarrow> offs es i < offs es j \<longleftrightarrow> i < j"
  using offs_less [of i j es] offs_mono [of j i es] by (cases "i < j") auto

lemma offs_le_all: "offs es i \<le> offs es (length es)"
  using offs_mono [of i "length es" es] by (cases "i \<le> length es") (simp_all add: offs_def)

lemma offs_all: "length (concat (map ent_bytes es)) = offs es (length es)"
  by (simp add: offs_def)

lemma drop_offs: "drop (offs es i) (concat (map ent_bytes es)) = concat (map ent_bytes (drop i es))"
proof -
  have "concat (map ent_bytes es) = concat (map ent_bytes (take i es)) @ concat (map ent_bytes (drop i es))"
    by (metis append_take_drop_id concat_append map_append)
  then show ?thesis by (simp add: offs_def)
qed

lemma drop_concat_fixed:
  assumes "\<And>x. length (f x) = k"
  shows "drop (k * j) (concat (map f ms)) = concat (map f (drop j ms))"
proof (induction ms arbitrary: j)
  case (Cons m ms)
  then show ?case using assms by (cases j) simp_all
qed simp

definition iter_of :: "BlockIter \<Rightarrow> BlockEnt list \<Rightarrow> nat list \<Rightarrow> bool" where
  "iter_of it es ms \<longleftrightarrow> block_wf es ms \<and> idata it = block_bytes es ms \<and>
     irestarts it = offs es (length es) \<and> num_restarts it = length ms \<and> istatus it = OK"

lemma restart_point:
  assumes "iter_of it es ms" "j < length ms"
  shows "GetRestartPoint it j = offs es (ms ! j)"
proof -
  let ?f = "\<lambda>m. EncodeFixed32 (of_nat (offs es m)) :: bytes"
  have "offs es (ms ! j) \<le> length (concat (map ent_bytes es))"
    unfolding offs_all by (rule offs_le_all)
  also have "\<dots> < 2 ^ 32" using assms(1) by (simp add: iter_of_def block_wf_def block_bytes_def)
  finally have "unat (of_nat (offs es (ms ! j)) :: uint32) = offs es (ms ! j)" by (rule unat_of_nat_small32)
  moreover have "drop (irestarts it + j * 4) (idata it) =
      drop (4 * j) (concat (map ?f ms) @ EncodeFixed32 (of_nat (length ms)))"
    using assms(1) by (simp add: iter_of_def block_bytes_def offs_all [symmetric] mult.commute)
  moreover have "\<dots> = concat (map ?f (drop j ms)) @ EncodeFixed32 (of_nat (length ms))"
    using assms(2) drop_concat_fixed [of ?f 4 j ms] by (simp add: length_concat comp_def sum_list_triv)
  ultimately show ?thesis
    using assms(2) by (simp add: GetRestartPoint_def Cons_nth_drop_Suc [symmetric])
qed

text \<open>A key is never longer than the entries up to it.\<close>

lemma key_length_bound: "ents_wf es \<Longrightarrow> i < length es \<Longrightarrow> length (ekey (es ! i)) \<le> offs es (Suc i)"
proof (induction i)
  case 0
  then show ?case by (simp add: ents_wf_def offs_Suc ent_bytes_def)
next
  case (Suc i)
  then have "eshared (es ! Suc i) \<le> length (ekey (es ! i))" by (auto simp: ents_wf_def)
  then show ?case using Suc by (simp add: offs_Suc [of "Suc i"] ent_bytes_def)
qed

lemma decode_at:
  assumes "iter_of it es ms" "i < length es"
  shows "DecodeEntry (drop (offs es i) (take (irestarts it) (idata it))) =
    Some (eshared (es ! i), length (ekey (es ! i)) - eshared (es ! i), length (evalue (es ! i)),
      drop (eshared (es ! i)) (ekey (es ! i)) @ evalue (es ! i) @ concat (map ent_bytes (drop (Suc i) es)))"
proof -
  have d: "drop (offs es i) (take (irestarts it) (idata it)) =
      ent_bytes (es ! i) @ concat (map ent_bytes (drop (Suc i) es))"
    using assms drop_offs [of es i]
    by (simp add: iter_of_def block_bytes_def offs_all [symmetric] Cons_nth_drop_Suc [symmetric])
  have "length (ent_bytes (es ! i) @ concat (map ent_bytes (drop (Suc i) es))) \<le> length (block_bytes es ms)"
    unfolding d [symmetric] using assms(1) by (simp add: iter_of_def)
  then have "length (ent_bytes (es ! i) @ concat (map ent_bytes (drop (Suc i) es))) < 2 ^ 32"
    using assms(1) by (simp add: iter_of_def block_wf_def)
  moreover have "eshared (es ! i) \<le> length (ekey (es ! i))"
    using assms by (simp add: iter_of_def block_wf_def ents_wf_def)
  moreover have "eshared (es ! i) < 2 ^ 32"
    using calculation(2) key_length_bound [of es i] offs_le_all [of es "Suc i"] assms
    by (simp add: iter_of_def block_wf_def block_bytes_def offs_all)
  ultimately show ?thesis unfolding d by (intro DecodeEntry_ent_bytes)
qed

subsection \<open>Positions\<close>

text \<open>The iterator stands at entry \<open>i\<close>; it has left entry \<open>i - 1\<close> behind; it stands nowhere.\<close>

definition at_entry :: "BlockIter \<Rightarrow> BlockEnt list \<Rightarrow> nat list \<Rightarrow> nat \<Rightarrow> bool" where
  "at_entry it es ms i \<longleftrightarrow> iter_of it es ms \<and> i < length es \<and> current it = offs es i \<and>
     ikey it = ekey (es ! i) \<and>
     ivalue it = (offs es (Suc i) - length (evalue (es ! i)), length (evalue (es ! i))) \<and>
     restart_index it < length ms"

definition before_entry :: "BlockIter \<Rightarrow> BlockEnt list \<Rightarrow> nat list \<Rightarrow> nat \<Rightarrow> bool" where
  "before_entry it es ms i \<longleftrightarrow> iter_of it es ms \<and> i \<le> length es \<and> NextEntryOffset it = offs es i \<and>
     restart_index it < length ms \<and>
     (i < length es \<longrightarrow> eshared (es ! i) \<le> length (ikey it) \<and>
        take (eshared (es ! i)) (ikey it) = take (eshared (es ! i)) (ekey (es ! i)))"

definition at_end :: "BlockIter \<Rightarrow> BlockEnt list \<Rightarrow> nat list \<Rightarrow> bool" where
  "at_end it es ms \<longleftrightarrow> iter_of it es ms \<and> current it = irestarts it"

lemma value_fits: "i < length es \<Longrightarrow> length (evalue (es ! i)) \<le> offs es (Suc i)"
  by (simp add: offs_Suc ent_bytes_def)

lemma at_entry_before: "at_entry it es ms i \<Longrightarrow> before_entry it es ms (Suc i)"
  using value_fits [of i es]
  by (auto simp: at_entry_def before_entry_def NextEntryOffset_def iter_of_def block_wf_def ents_wf_def)

lemma advance_restart_bound:
  "restart_index it < num_restarts it \<Longrightarrow> restart_index (advance_restart_index it) < num_restarts it"
proof (induction it rule: advance_restart_index.induct)
  case (1 it)
  then show ?case by (subst advance_restart_index.simps) simp
qed

lemma iter_of_cong: "iter_of it es ms \<Longrightarrow> idata it' = idata it \<Longrightarrow> irestarts it' = irestarts it \<Longrightarrow>
    num_restarts it' = num_restarts it \<Longrightarrow> istatus it' = istatus it \<Longrightarrow> iter_of it' es ms"
  by (simp add: iter_of_def)

lemma parse_entry:
  assumes "before_entry it es ms i" "i < length es"
  shows "\<exists>it'. ParseNextKey it = (True, it') \<and> at_entry it' es ms i \<and> icmp it' = icmp it"
proof -
  let ?e = "es ! i"
  have it: "iter_of it es ms" "NextEntryOffset it = offs es i" "restart_index it < length ms"
    "eshared ?e \<le> length (ikey it)" "take (eshared ?e) (ikey it) = take (eshared ?e) (ekey ?e)"
    using assms by (auto simp: before_entry_def)
  have irs: "irestarts it = offs es (length es)" "num_restarts it = length ms" using it(1) by (simp_all add: iter_of_def)
  have lt: "offs es i < irestarts it" using offs_less [of i "length es" es] assms(2) irs by simp
  let ?rest = "concat (map ent_bytes (drop (Suc i) es))"
  have len: "offs es (Suc i) + length ?rest = irestarts it"
    using assms(2) irs(1) unfolding offs_all [symmetric]
    by (metis Suc_leI append_take_drop_id concat_append length_append map_append offs_def)
  have sh: "eshared ?e \<le> length (ekey ?e)" using it(1) assms(2) by (simp add: iter_of_def block_wf_def ents_wf_def)
  define it1 where "it1 = it\<lparr>current := offs es i, ikey := ekey ?e,
      ivalue := (offs es (Suc i) - length (evalue ?e), length (evalue ?e))\<rparr>"
  have "irestarts it - (length (ekey ?e) - eshared ?e + (length (evalue ?e) + length ?rest)) + (length (ekey ?e) - eshared ?e) =
      offs es (Suc i) - length (evalue ?e)"
    using len sh offs_Suc [OF assms(2)] by (simp add: ent_bytes_def)
  moreover have "take (eshared ?e) (ekey ?e) @ drop (eshared ?e) (ekey ?e) = ekey ?e" by simp
  ultimately have "ParseNextKey it = (True, advance_restart_index it1)"
    using it lt decode_at [OF it(1) assms(2)] unfolding ParseNextKey_def it1_def by simp
  moreover have "at_entry (advance_restart_index it1) es ms i"
    using it irs assms(2) advance_restart_bound [of it1] iter_of_cong [OF it(1), of "advance_restart_index it1"]
    by (simp add: at_entry_def it1_def)
  ultimately show ?thesis by (simp add: it1_def)
qed

lemma parse_end:
  assumes "before_entry it es ms (length es)"
  shows "\<exists>it'. ParseNextKey it = (False, it') \<and> at_end it' es ms \<and> icmp it' = icmp it"
  using assms by (auto simp: before_entry_def ParseNextKey_def at_end_def iter_of_def)

lemma seek_restart:
  assumes "iter_of it es ms" "j < length ms"
  shows "before_entry (SeekToRestartPoint it j) es ms (ms ! j)" "icmp (SeekToRestartPoint it j) = icmp it"
proof -
  have "ms ! j = 0 \<or> ms ! j < length es \<and> eshared (es ! (ms ! j)) = 0"
    using assms by (auto simp: iter_of_def block_wf_def restarts_wf_def)
  moreover have "es \<noteq> [] \<Longrightarrow> eshared (es ! 0) = 0"
    using assms(1) by (auto simp: iter_of_def block_wf_def ents_wf_def)
  ultimately show "before_entry (SeekToRestartPoint it j) es ms (ms ! j)"
    using assms restart_point [OF assms]
    by (auto simp: before_entry_def SeekToRestartPoint_def NextEntryOffset_def intro: iter_of_cong)
qed (simp add: SeekToRestartPoint_def)

text \<open>One notion of position for the whole iterator: the entry or, at the end, their number.\<close>

definition block_at :: "BlockIter \<Rightarrow> BlockEnt list \<Rightarrow> nat list \<Rightarrow> nat \<Rightarrow> bool" where
  "block_at it es ms i \<longleftrightarrow> (if i < length es then at_entry it es ms i else i = length es \<and> at_end it es ms)"

lemma parse_at:
  assumes "before_entry it es ms i"
  shows "block_at (snd (ParseNextKey it)) es ms i" "icmp (snd (ParseNextKey it)) = icmp it"
    "fst (ParseNextKey it) \<longleftrightarrow> i < length es"
proof -
  have "i \<le> length es" using assms by (simp add: before_entry_def)
  then show "block_at (snd (ParseNextKey it)) es ms i" "icmp (snd (ParseNextKey it)) = icmp it"
    "fst (ParseNextKey it) \<longleftrightarrow> i < length es"
    using parse_entry [OF assms] parse_end [of it es ms] assms
    by (cases "i < length es"; force simp: block_at_def)+
qed

lemma block_at_iter: "block_at it es ms i \<Longrightarrow> iter_of it es ms"
  by (auto simp: block_at_def at_entry_def at_end_def split: if_splits)

lemma block_at_Valid: "block_at it es ms i \<Longrightarrow> BlockIter_Valid it \<longleftrightarrow> i < length es"
  using offs_less [of i "length es" es]
  by (auto simp: block_at_def BlockIter_Valid_def at_entry_def at_end_def iter_of_def split: if_splits)

lemma value_at_entry:
  assumes "at_entry it es ms i"
  shows "BlockIter_value it = evalue (es ! i)"
proof -
  have it: "iter_of it es ms" "i < length es" using assms by (simp_all add: at_entry_def)
  have "drop (offs es (Suc i) - length (evalue (es ! i))) (concat (map ent_bytes es)) =
      evalue (es ! i) @ concat (map ent_bytes (drop (Suc i) es))"
  proof -
    let ?h = "take (length (ent_bytes (es ! i)) - length (evalue (es ! i))) (ent_bytes (es ! i))"
    have e: "ent_bytes (es ! i) = ?h @ evalue (es ! i)" by (simp add: ent_bytes_def)
    have "concat (map ent_bytes es) = concat (map ent_bytes (take i es)) @ ent_bytes (es ! i) @ concat (map ent_bytes (drop (Suc i) es))"
      using id_take_nth_drop [OF it(2)] by (metis concat.simps(2) concat_append list.simps(9) map_append)
    then have "concat (map ent_bytes es) = (concat (map ent_bytes (take i es)) @ ?h) @ evalue (es ! i) @ concat (map ent_bytes (drop (Suc i) es))"
      using e by (metis append.assoc)
    moreover have "length (concat (map ent_bytes (take i es)) @ ?h) = offs es (Suc i) - length (evalue (es ! i))"
      unfolding offs_Suc [OF it(2)] by (simp add: offs_def [symmetric] ent_bytes_def)
    ultimately show ?thesis by (metis append_eq_conv_conj)
  qed
  moreover have "drop n (a @ b) = drop n a @ b" if "n \<le> length a" for n and a b :: bytes using that by simp
  ultimately show ?thesis
    using assms it offs_le_all [of es "Suc i"]
    by (simp add: BlockIter_value_def at_entry_def iter_of_def block_bytes_def offs_all)
qed

lemma Next_at: "block_at it es ms i \<Longrightarrow> i < length es \<Longrightarrow> block_at (BlockIter_Next it) es ms (Suc i) \<and> icmp (BlockIter_Next it) = icmp it"
  using parse_at [OF at_entry_before] by (simp add: BlockIter_Next_def block_at_def)

lemma SeekToFirst_at:
  assumes "iter_of it es ms"
  shows "block_at (BlockIter_SeekToFirst it) es ms 0 \<and> icmp (BlockIter_SeekToFirst it) = icmp it"
proof -
  have "0 < length ms" "ms ! 0 = 0" using assms by (simp_all add: iter_of_def block_wf_def restarts_wf_def)
  then show ?thesis using seek_restart [OF assms, of 0] parse_at by (simp add: BlockIter_SeekToFirst_def)
qed

lemma at_entry_next: "at_entry it es ms i \<Longrightarrow> NextEntryOffset it = offs es (Suc i)"
  using at_entry_before by (simp add: before_entry_def)

lemma SeekToLast_scan_at:
  assumes "before_entry it es ms i"
  shows "block_at (SeekToLast_scan it) es ms (if i < length es then length es - 1 else i) \<and>
    icmp (SeekToLast_scan it) = icmp it"
  using assms
proof (induction "length es - i" arbitrary: it i)
  case 0
  then have i: "i = length es" by (simp add: before_entry_def)
  obtain it' where it': "ParseNextKey it = (False, it')" "at_end it' es ms" "icmp it' = icmp it"
    using parse_end [of it es ms] 0(2) i by auto
  then have "SeekToLast_scan it = it'" by (subst SeekToLast_scan.simps) simp
  then show ?case using it' i by (simp add: block_at_def)
next
  case (Suc n)
  obtain it' where it': "ParseNextKey it = (True, it')" "at_entry it' es ms i" "icmp it' = icmp it"
    using parse_entry [OF Suc(3)] Suc(2) zero_less_diff [of "length es" i] by (metis zero_less_Suc)
  have irs: "irestarts it' = offs es (length es)" using it'(2) by (simp add: at_entry_def iter_of_def)
  show ?case
  proof (cases "Suc i = length es")
    case True
    then have "SeekToLast_scan it = it'"
      using it'(1) at_entry_next [OF it'(2)] irs by (subst SeekToLast_scan.simps) simp
    moreover have "length es - 1 = i" using True by simp
    ultimately show ?thesis using it'(2,3) True by (simp add: block_at_def)
  next
    case False
    then have "NextEntryOffset it' < irestarts it'"
      using at_entry_next [OF it'(2)] irs offs_less [of "Suc i" "length es" es] Suc(2) by simp
    then have "SeekToLast_scan it = SeekToLast_scan it'" using it'(1) by (subst SeekToLast_scan.simps) simp
    moreover have "n = length es - Suc i" "Suc i < length es" using Suc(2) False by linarith+
    ultimately show ?thesis
      using Suc(1) [OF _ at_entry_before [OF it'(2)]] it'(3) by simp
  qed
qed

lemma SeekToLast_at:
  assumes "iter_of it es ms"
  shows "block_at (BlockIter_SeekToLast it) es ms (length es - 1) \<and> icmp (BlockIter_SeekToLast it) = icmp it"
proof -
  let ?j = "length ms - 1"
  have ms: "?j < length ms" "num_restarts it = length ms" "ms ! ?j = 0 \<or> ms ! ?j < length es"
    using assms by (auto simp: iter_of_def block_wf_def restarts_wf_def)
  have "length es - 1 = (if ms ! ?j < length es then length es - 1 else ms ! ?j)" using ms(3) by auto
  then show ?thesis
    using SeekToLast_scan_at [OF seek_restart(1) [OF assms ms(1)]] seek_restart(2) [OF assms ms(1)] ms(2)
    by (simp add: BlockIter_SeekToLast_def)
qed

text \<open>Backwards: the restart point before the entry, then forward to the one before it.\<close>

lemma Prev_back_at:
  assumes "iter_of it es ms" "restart_index it < length ms" "i \<le> length es"
  shows "if i = 0 then fst (Prev_back it (offs es i)) = False \<and> at_end (snd (Prev_back it (offs es i))) es ms \<and>
           icmp (snd (Prev_back it (offs es i))) = icmp it
    else \<exists>r. r < length ms \<and> ms ! r < i \<and> Prev_back it (offs es i) = (True, it\<lparr>restart_index := r\<rparr>)"
  using assms
proof (induction "restart_index it" arbitrary: it)
  case 0
  have z: "ms ! 0 = 0" using 0(2) by (simp add: iter_of_def block_wf_def restarts_wf_def)
  have "0 < length ms" using 0(3) by linarith
  then have g: "GetRestartPoint it 0 = 0" using restart_point [OF 0(2), of 0] z by simp
  show ?case
  proof (cases "i = 0")
    case True
    then have "Prev_back it (offs es i) = (False, it\<lparr>current := irestarts it, restart_index := num_restarts it\<rparr>)"
      using 0(1) g by (subst Prev_back.simps) simp
    then show ?thesis using True 0(2) by (auto simp: at_end_def intro: iter_of_cong)
  next
    case False
    then have "0 < offs es i" using offs_less [of 0 i es] 0(4) by simp
    then have "Prev_back it (offs es i) = (True, it\<lparr>restart_index := 0\<rparr>)" using 0(1) g by (subst Prev_back.simps) simp
    then show ?thesis using False z 0(1,3) by auto
  qed
next
  case (Suc n)
  let ?r = "restart_index it"
  have m: "ms ! ?r \<le> length es"
    using Suc(3) nth_mem [OF Suc(4)] by (force simp: iter_of_def block_wf_def restarts_wf_def)
  have g: "offs es i \<le> GetRestartPoint it ?r \<longleftrightarrow> i \<le> ms ! ?r"
    using restart_point [OF Suc(3,4)] offs_less_iff [OF m Suc(5)] by (simp add: linorder_not_less [symmetric])
  show ?case
  proof (cases "i \<le> ms ! ?r")
    case True
    let ?it = "it\<lparr>restart_index := ?r - 1\<rparr>"
    have it: "iter_of ?it es ms" using Suc(3) by (rule iter_of_cong) simp_all
    have "Prev_back it (offs es i) = Prev_back ?it (offs es i)"
      using True g Suc(2) by (subst Prev_back.simps) simp
    moreover have "n = restart_index ?it" "restart_index ?it < length ms" using Suc(2,4) by simp_all
    ultimately show ?thesis using Suc(1) [of ?it, OF _ it _ Suc(5)] by (cases "i = 0") simp_all
  next
    case False
    then have "Prev_back it (offs es i) = (True, it\<lparr>restart_index := ?r\<rparr>)"
      using g by (subst Prev_back.simps) simp
    then show ?thesis using False Suc(4) by auto
  qed
qed

lemma Prev_forward_at:
  assumes "before_entry it es ms m" "m < i" "i \<le> length es"
  shows "at_entry (Prev_forward it (offs es i)) es ms (i - 1) \<and> icmp (Prev_forward it (offs es i)) = icmp it"
  using assms
proof (induction "i - m" arbitrary: it m)
  case (Suc n)
  obtain it' where it': "ParseNextKey it = (True, it')" "at_entry it' es ms m" "icmp it' = icmp it"
    using parse_entry [OF Suc(3)] Suc(4,5) by auto
  show ?case
  proof (cases "Suc m = i")
    case True
    then have "Prev_forward it (offs es i) = it'"
      using it'(1) at_entry_next [OF it'(2)] by (subst Prev_forward.simps) simp
    then show ?thesis using it'(2,3) True by auto
  next
    case False
    then have "NextEntryOffset it' < offs es i"
      using at_entry_next [OF it'(2)] offs_less [of "Suc m" i es] Suc(4,5) by simp
    then have "Prev_forward it (offs es i) = Prev_forward it' (offs es i)"
      using it'(1) by (subst Prev_forward.simps) simp
    then show ?thesis
      using Suc(1) [OF _ at_entry_before [OF it'(2)] _ Suc(5)] Suc(2,4) it'(3) False by simp
  qed
qed simp

lemma Prev_at:
  assumes "block_at it es ms i" "i < length es"
  shows "block_at (BlockIter_Prev it) es ms (if i = 0 then length es else i - 1) \<and> icmp (BlockIter_Prev it) = icmp it"
proof -
  have it: "iter_of it es ms" "restart_index it < length ms" "current it = offs es i"
    using assms by (simp_all add: block_at_def at_entry_def)
  note bk = Prev_back_at [OF it(1,2), of i]
  show ?thesis
  proof (cases "i = 0")
    case True
    then have "BlockIter_Prev it = snd (Prev_back it (offs es i))"
      using bk assms(2) by (simp add: BlockIter_Prev_def it(3) split_beta)
    then show ?thesis using bk True assms(2) by (simp add: block_at_def)
  next
    case False
    then obtain r where r: "r < length ms" "ms ! r < i" "Prev_back it (offs es i) = (True, it\<lparr>restart_index := r\<rparr>)"
      using bk assms(2) by auto
    let ?it = "it\<lparr>restart_index := r\<rparr>"
    have it': "iter_of ?it es ms" using it(1) by (rule iter_of_cong) simp_all
    have "BlockIter_Prev it = Prev_forward (SeekToRestartPoint ?it r) (offs es i)"
      using r(3) by (simp add: BlockIter_Prev_def it(3))
    then show ?thesis
      using Prev_forward_at [OF seek_restart(1) [OF it' r(1)] r(2)] seek_restart(2) [OF it' r(1)] assms(2) False less_imp_diff_less [OF assms(2), of 1]
      by (simp add: block_at_def)
  qed
qed

subsection \<open>Seeking\<close>

lemma restart_key:
  assumes "iter_of it es ms" "r < length ms" "0 < r"
  shows "ms ! r < length es" "eshared (es ! (ms ! r)) = 0"
proof -
  have "sorted_wrt (<) ms" using assms(1) by (simp add: iter_of_def block_wf_def restarts_wf_def)
  then have "ms ! 0 < ms ! r" using assms(2,3) by (simp add: sorted_wrt_nth_less)
  moreover have "ms ! r = 0 \<or> ms ! r < length es \<and> eshared (es ! (ms ! r)) = 0"
    using assms by (simp add: iter_of_def block_wf_def restarts_wf_def)
  ultimately show "ms ! r < length es" "eshared (es ! (ms ! r)) = 0" by auto
qed

text \<open>
  The bisection ends at a restart point that is the first one or has a key before the target;
  nothing is assumed about the order of the keys.
\<close>

lemma Seek_bisect_ok:
  assumes "iter_of it es ms" "left \<le> right" "right < length ms"
    "left = 0 \<or> Compare (icmp it) (ekey (es ! (ms ! left))) target < 0"
  shows "\<exists>r. Seek_bisect it target left right = Some r \<and> r < length ms \<and>
    (r = 0 \<or> Compare (icmp it) (ekey (es ! (ms ! r))) target < 0)"
  using assms(2-)
proof (induction "right - left" arbitrary: left right rule: less_induct)
  case less
  show ?case
  proof (cases "left < right")
    case False
    then show ?thesis using less(2-) by (subst Seek_bisect.simps) auto
  next
    case True
    let ?mid = "(left + right + 1) div 2"
    have mid: "left < ?mid" "?mid \<le> right" "?mid < length ms" using True less(3) by auto
    note rk = restart_key [OF assms(1) mid(3)] restart_point [OF assms(1) mid(3)]
    have m: "ms ! ?mid < length es" "eshared (es ! (ms ! ?mid)) = 0" using rk mid(1) by simp_all
    have step: "Seek_bisect it target left right =
        (if Compare (icmp it) (ekey (es ! (ms ! ?mid))) target < 0 then Seek_bisect it target ?mid right
         else Seek_bisect it target left (?mid - 1))"
      using True decode_at [OF assms(1) m(1)] m(2) rk(3) by (subst Seek_bisect.simps) (simp add: Let_def)
    show ?thesis
    proof (cases "Compare (icmp it) (ekey (es ! (ms ! ?mid))) target < 0")
      case True
      then show ?thesis using less(1) [of right ?mid] less(3) mid step by simp
    next
      case False
      then show ?thesis using less(1) [of "?mid - 1" left] less(2-) mid step by simp
    qed
  qed
qed

lemma Seek_scan_ok:
  assumes "before_entry it es ms m"
  shows "block_at (Seek_scan it target) es ms
      (m + length (takeWhile (\<lambda>e. Compare (icmp it) (ekey e) target < 0) (drop m es))) \<and>
    icmp (Seek_scan it target) = icmp it"
  using assms
proof (induction "length es - m" arbitrary: it m)
  case 0
  then have m: "m = length es" by (simp add: before_entry_def)
  obtain it' where it': "ParseNextKey it = (False, it')" "at_end it' es ms" "icmp it' = icmp it"
    using parse_end [of it es ms] 0(2) m by auto
  then have "Seek_scan it target = it'" by (subst Seek_scan.simps) simp
  then show ?case using it' m by (simp add: block_at_def)
next
  case (Suc n)
  have m: "m < length es" using Suc(2) by linarith
  obtain it' where it': "ParseNextKey it = (True, it')" "at_entry it' es ms m" "icmp it' = icmp it"
    using parse_entry [OF Suc(3) m] by auto
  have k: "ikey it' = ekey (es ! m)" using it'(2) by (simp add: at_entry_def)
  have d: "drop m es = es ! m # drop (Suc m) es" using m by (simp add: Cons_nth_drop_Suc)
  show ?case
  proof (cases "Compare (icmp it) (ekey (es ! m)) target < 0")
    case True
    then have "Seek_scan it target = Seek_scan it' target"
      using it'(1,3) k by (subst Seek_scan.simps) simp
    moreover have "n = length es - Suc m" using Suc(2) by simp
    ultimately show ?thesis
      using Suc(1) [OF _ at_entry_before [OF it'(2)]] it'(3) True d by simp
  next
    case False
    then have "Seek_scan it target = it'" using it'(1,3) k by (subst Seek_scan.simps) simp
    then show ?thesis using it'(2,3) False d m by (simp add: block_at_def)
  qed
qed

lemma takeWhile_from:
  assumes "m \<le> length xs" "\<And>i. i < m \<Longrightarrow> P (xs ! i)"
  shows "length (takeWhile P xs) = m + length (takeWhile P (drop m xs))"
proof -
  have "\<forall>x\<in>set (take m xs). P x" using assms by (auto simp: in_set_conv_nth)
  then have "takeWhile P (take m xs @ drop m xs) = take m xs @ takeWhile P (drop m xs)"
    by (intro takeWhile_append2) auto
  then show ?thesis using assms(1) by simp
qed

definition ent_pair :: "BlockEnt \<Rightarrow> bytes \<times> bytes" where
  "ent_pair e = (ekey e, evalue e)"

lemma BlockIter_Seek_at:
  assumes "iter_of it es ms" "key_order (Compare (icmp it)) valid"
    "sorted_pairs (Compare (icmp it)) valid (map ent_pair es)" "valid target"
  shows "block_at (BlockIter_Seek it target) es ms (seek_index (Compare (icmp it)) (map ent_pair es) target) \<and>
    icmp (BlockIter_Seek it target) = icmp it"
proof -
  let ?c = "Compare (icmp it)" and ?kvs = "map ent_pair es"
  let ?P = "\<lambda>e. ?c (ekey e) target < 0"
  have ms: "0 < length ms" "num_restarts it = length ms" "ms ! 0 = 0"
    using assms(1) by (simp_all add: iter_of_def block_wf_def restarts_wf_def)
  obtain r where r: "Seek_bisect it target 0 (length ms - 1) = Some r" "r < length ms"
    "r = 0 \<or> ?c (ekey (es ! (ms ! r))) target < 0"
    using Seek_bisect_ok [OF assms(1), of 0 "length ms - 1" target] ms(1) by auto
  have le: "ms ! r \<le> length es" using restart_key(1) [OF assms(1) r(2)] ms(3) by (cases "r = 0") auto
  have P: "?P (es ! i)" if "i < ms ! r" for i
  proof -
    have "r \<noteq> 0" using that ms(3) by (cases "r = 0") simp_all
    then have m: "ms ! r < length es" "?P (es ! (ms ! r))" using restart_key(1) [OF assms(1) r(2)] r(3) by auto
    note split = key_order.seek_index_split [OF assms(2,3,4)]
    show ?thesis using split [of "ms ! r"] split [of i] m that by (simp add: ent_pair_def)
  qed
  have "seek_index ?c ?kvs target = length (takeWhile ?P es)"
    by (simp add: seek_index_def takeWhile_map comp_def ent_pair_def)
  also have "\<dots> = ms ! r + length (takeWhile ?P (drop (ms ! r) es))" by (rule takeWhile_from [of _ es ?P, OF le]) (rule P)
  finally show ?thesis
    using Seek_scan_ok [OF seek_restart(1) [OF assms(1) r(2)], of target] seek_restart(2) [OF assms(1) r(2)] r(1) ms(2)
    by (simp add: BlockIter_Seek_def)
qed

subsection \<open>The block iterator meets the contract\<close>

definition BlockIterator :: "BlockIter Iterator" where
  "BlockIterator =
     \<lparr>it_Valid = BlockIter_Valid, it_SeekToFirst = BlockIter_SeekToFirst, it_SeekToLast = BlockIter_SeekToLast,
      it_Seek = BlockIter_Seek, it_Next = BlockIter_Next, it_Prev = BlockIter_Prev, it_key = ikey,
      it_value = BlockIter_value, it_status = istatus\<rparr>"

definition block_pos ::
  "Comparator \<Rightarrow> (bytes \<Rightarrow> bool) \<Rightarrow> BlockIter \<Rightarrow> (bytes \<times> bytes) list \<Rightarrow> nat \<Rightarrow> bool" where
  "block_pos cmp valid it kvs i \<longleftrightarrow> icmp it = cmp \<and> sorted_pairs (Compare cmp) valid kvs \<and>
     (\<exists>es ms. kvs = map ent_pair es \<and> block_at it es ms i)"

lemma block_posI:
  "block_at it es ms i \<and> icmp it = cmp \<Longrightarrow> sorted_pairs (Compare cmp) valid (map ent_pair es) \<Longrightarrow>
    block_pos cmp valid it (map ent_pair es) i"
  by (auto simp: block_pos_def)

lemma block_at_le: "block_at it es ms i \<Longrightarrow> i \<le> length es"
  by (simp add: block_at_def split: if_splits)

lemma block_iterator:
  assumes "key_order (Compare cmp) valid"
  shows "iterator (Compare cmp) valid BlockIterator (block_pos cmp valid)"
proof (intro iterator.intro assms iterator_axioms.intro, goal_cases)
  case (1 it kvs i)
  then show ?case by (simp add: block_pos_def)
next
  case (2 it kvs i)
  then show ?case by (auto simp: block_pos_def dest: block_at_le)
next
  case (3 it kvs i)
  then show ?case by (auto simp: block_pos_def BlockIterator_def block_at_Valid)
next
  case (4 it kvs i)
  then show ?case by (auto simp: block_pos_def BlockIterator_def block_at_def at_entry_def ent_pair_def)
next
  case (5 it kvs i)
  then show ?case by (auto simp: block_pos_def BlockIterator_def block_at_def ent_pair_def value_at_entry)
next
  case (6 it kvs i)
  then show ?case by (auto simp: block_pos_def BlockIterator_def iter_of_def dest!: block_at_iter)
next
  case (7 it kvs i)
  then obtain es ms where es: "kvs = map ent_pair es" "block_at it es ms i" by (auto simp: block_pos_def)
  show ?case
    using block_posI [of "BlockIter_SeekToFirst it" es ms 0 cmp valid] SeekToFirst_at [OF block_at_iter [OF es(2)]] 7 es(1)
    by (simp add: BlockIterator_def block_pos_def [of cmp valid it])
next
  case (8 it kvs i)
  then obtain es ms where es: "kvs = map ent_pair es" "block_at it es ms i" by (auto simp: block_pos_def)
  show ?case
    using block_posI [of "BlockIter_SeekToLast it" es ms "length es - 1" cmp valid]
      SeekToLast_at [OF block_at_iter [OF es(2)]] 8 es(1)
    by (simp add: BlockIterator_def block_pos_def [of cmp valid it])
next
  case (9 it kvs i target)
  then obtain es ms where es: "kvs = map ent_pair es" "block_at it es ms i" by (auto simp: block_pos_def)
  show ?case
    using block_posI [of "BlockIter_Seek it target" es ms _ cmp valid] 9 es(1) assms
      BlockIter_Seek_at [OF block_at_iter [OF es(2)], of valid target]
    by (simp add: BlockIterator_def block_pos_def [of cmp valid it])
next
  case (10 it kvs i)
  then obtain es ms where es: "kvs = map ent_pair es" "block_at it es ms i" by (auto simp: block_pos_def)
  show ?case
    using block_posI [of "BlockIter_Next it" es ms "Suc i" cmp valid] Next_at [OF es(2)] 10 es(1)
    by (simp add: BlockIterator_def block_pos_def [of cmp valid it])
next
  case (11 it kvs i)
  then obtain es ms where es: "kvs = map ent_pair es" "block_at it es ms i" by (auto simp: block_pos_def)
  show ?case
    using block_posI [of "BlockIter_Prev it" es ms "if i = 0 then length es else i - 1" cmp valid]
      Prev_at [OF es(2)] 11 es(1)
    by (cases "i = 0") (simp_all add: BlockIterator_def block_pos_def [of cmp valid it])
qed

interpretation block: iterator "Compare BytewiseComparator" "\<lambda>_. True" BlockIterator
    "block_pos BytewiseComparator (\<lambda>_. True)"
  by (rule block_iterator) unfold_locales

subsection \<open>Building\<close>

definition builder_rep :: "BlockBuilder \<Rightarrow> BlockEnt list \<Rightarrow> nat list \<Rightarrow> bool" where
  "builder_rep b es ms \<longleftrightarrow> bbuffer b = concat (map ent_bytes es) \<and> brestarts b = map (offs es) ms \<and>
     ents_wf es \<and> restarts_wf es ms \<and> last_key b = (if es = [] then [] else ekey (last es)) \<and>
     (es = [] \<longrightarrow> counter b = 0) \<and> 0 < block_restart_interval b \<and> \<not> finished b"

lemma offs_append: "m \<le> length es \<Longrightarrow> offs (es @ es') m = offs es m"
  by (simp add: offs_def)

lemma ents_wf_snoc:
  assumes "ents_wf es" "s \<le> length k" "s \<le> length l" "take s l = take s k" "l = (if es = [] then [] else ekey (last es))"
  shows "ents_wf (es @ [\<lparr>eshared = s, ekey = k, evalue = v\<rparr>])"
proof -
  let ?e = "\<lparr>eshared = s, ekey = k, evalue = v\<rparr>"
  have "eshared ((es @ [?e]) ! i) \<le> length (ekey ((es @ [?e]) ! i)) \<and>
     (if i = 0 then eshared ((es @ [?e]) ! i) = 0
      else eshared ((es @ [?e]) ! i) \<le> length (ekey ((es @ [?e]) ! (i - 1))) \<and>
        take (eshared ((es @ [?e]) ! i)) (ekey ((es @ [?e]) ! (i - 1))) =
        take (eshared ((es @ [?e]) ! i)) (ekey ((es @ [?e]) ! i)))" if "i < length (es @ [?e])" for i
  proof (cases "i < length es")
    case True
    then have eq: "(es @ [?e]) ! i = es ! i" "(es @ [?e]) ! (i - 1) = es ! (i - 1)" by (simp_all add: nth_append)
    show ?thesis unfolding eq by (rule assms(1) [unfolded ents_wf_def, rule_format, OF True])
  next
    case False
    then have "i = length es" using that by simp
    then show ?thesis using assms(2-) by (cases "es = []") (auto simp: nth_append last_conv_nth)
  qed
  then show ?thesis unfolding ents_wf_def by (intro allI impI)
qed

lemma restarts_wf_snoc:
  assumes "restarts_wf es ms"
  shows "restarts_wf (es @ [e]) ms" and "es \<noteq> [] \<Longrightarrow> eshared e = 0 \<Longrightarrow> restarts_wf (es @ [e]) (ms @ [length es])"
  using assms by (force simp: restarts_wf_def nth_append sorted_wrt_append)+

lemma Add_rep:
  assumes "builder_rep b es ms"
  shows "\<exists>es' ms'. builder_rep (BlockBuilder_Add b k v) es' ms' \<and> map ent_pair es' = map ent_pair es @ [(k, v)]"
proof -
  let ?l = "last_key b"
  have b: "bbuffer b = concat (map ent_bytes es)" "brestarts b = map (offs es) ms" "ents_wf es" "restarts_wf es ms"
    "?l = (if es = [] then [] else ekey (last es))" "es = [] \<Longrightarrow> counter b = 0" "0 < block_restart_interval b"
    using assms by (auto simp: builder_rep_def)
  have ms: "map (offs (es @ [e])) ms = map (offs es) ms" for e
    using b(4) by (auto simp: restarts_wf_def intro!: offs_append)
  show ?thesis
  proof (cases "counter b < block_restart_interval b")
    case True
    let ?s = "common_prefix_length ?l k"
    let ?e = "\<lparr>eshared = ?s, ekey = k, evalue = v\<rparr>"
    have "take ?s ?l @ drop ?s k = k" by (metis append_take_drop_id common_prefix_take)
    then have "builder_rep (BlockBuilder_Add b k v) (es @ [?e]) ms"
      using assms True b ms ents_wf_snoc [OF b(3) common_prefix_le(2) [of ?l k] common_prefix_le(1) common_prefix_take b(5)]
        restarts_wf_snoc(1) [OF b(4)]
      by (simp add: builder_rep_def BlockBuilder_Add_def Let_def PutVarint32_def ent_bytes_def)
    then show ?thesis by (intro exI [of _ "es @ [?e]"] exI [of _ ms]) (simp add: ent_pair_def)
  next
    case False
    then have ne: "es \<noteq> []" using b(6,7) by auto
    let ?e = "\<lparr>eshared = 0, ekey = k, evalue = v\<rparr>"
    have o: "offs (es @ [?e]) (length es) = length (bbuffer b)" by (simp add: offs_def b(1))
    have "builder_rep (BlockBuilder_Add b k v) (es @ [?e]) (ms @ [length es])"
      using assms False b ms [of ?e] o ne ents_wf_snoc [OF b(3), of 0 k ?l v, OF _ _ _ b(5)] restarts_wf_snoc(2) [OF b(4) ne, of ?e]
      by (simp add: builder_rep_def BlockBuilder_Add_def Let_def PutVarint32_def ent_bytes_def)
    then show ?thesis by (intro exI [of _ "es @ [?e]"] exI [of _ "ms @ [length es]"]) (simp add: ent_pair_def)
  qed
qed

definition built :: "nat \<Rightarrow> (bytes \<times> bytes) list \<Rightarrow> BlockBuilder" where
  "built interval kvs = foldl (\<lambda>b (k, v). BlockBuilder_Add b k v) (BlockBuilder_new interval) kvs"

lemma built_rep:
  assumes "0 < interval"
  shows "\<exists>es ms. builder_rep (built interval kvs) es ms \<and> map ent_pair es = kvs"
proof (induction kvs rule: rev_induct)
  case Nil
  have "builder_rep (built interval []) [] [0]"
    using assms by (simp add: builder_rep_def built_def BlockBuilder_new_def ents_wf_def restarts_wf_def)
  then show ?case by (intro exI [of _ "[]"] exI [of _ "[0]"]) simp
next
  case (snoc kv kvs)
  then obtain es ms where "builder_rep (built interval kvs) es ms" "map ent_pair es = kvs" by auto
  then show ?case
    using Add_rep [of "built interval kvs" es ms "fst kv" "snd kv"] by (simp add: built_def split_beta)
qed

lemma foldl_PutFixed32:
  "foldl (\<lambda>buf r. PutFixed32 buf (f r)) buf rs = buf @ concat (map (\<lambda>r. EncodeFixed32 (f r)) rs)"
  by (induction rs arbitrary: buf) (simp_all add: PutFixed32_def)

lemma Finish_rep:
  assumes "builder_rep b es ms"
  shows "fst (BlockBuilder_Finish b) = block_bytes es ms"
  using assms unfolding BlockBuilder_Finish_def Let_def foldl_PutFixed32
  by (simp add: PutFixed32_def builder_rep_def block_bytes_def comp_def)


lemma length_block_bytes: "length (block_bytes es ms) = offs es (length es) + 4 * length ms + 4"
  by (simp add: block_bytes_def offs_def length_concat comp_def sum_list_triv)

text \<open>Reading the trailer of a well-formed block back.\<close>

lemma NumRestarts_block:
  assumes "block_wf es ms"
  shows "NumRestarts (block_bytes es ms) = of_nat (length ms)"
proof -
  define A where "A = concat (map ent_bytes es) @ concat (map (\<lambda>m. EncodeFixed32 (of_nat (offs es m))) ms)"
  have "block_bytes es ms = A @ EncodeFixed32 (of_nat (length ms))" by (simp add: A_def block_bytes_def)
  then show ?thesis using DecodeFixed32_EncodeFixed32 [of "of_nat (length ms)" "[]"] by (simp add: NumRestarts_def)
qed

lemma NewIterator_block:
  assumes "block_wf es ms"
  shows "Block_NewIterator cmp (Block_new (block_bytes es ms)) =
      Inr (Some (BlockIter_new cmp (block_bytes es ms) (offs es (length es)) (length ms)))"
proof -
  let ?d = "block_bytes es ms" and ?o = "offs es (length es)" and ?n = "length ms"
  have len: "length ?d < 2 ^ 32" "length ?d = ?o + 4 * ?n + 4" "0 < ?n"
    using assms by (simp_all add: block_wf_def length_block_bytes restarts_wf_def)
  have small: "?n + 1 < 2 ^ 32" "?o < 2 ^ 32" "length ?d < 2 ^ 64" "length ?d - 4 < 2 ^ 64" using len by simp_all
  let ?size = "of_nat (length ?d) :: uint64"
  have "(ucast (1 + NumRestarts ?d) :: uint64) = of_nat (unat (of_nat (?n + 1) :: uint32))"
    by (simp add: NumRestarts_block [OF assms])
  also have "\<dots> = of_nat (?n + 1)" unfolding unat_of_nat_small32 [OF small(1)] ..
  finally have "?size - ucast (1 + NumRestarts ?d) * 4 = of_nat ?o" by (simp add: len(2) algebra_simps)
  moreover have "(ucast (of_nat ?o :: uint64) :: uint32) = of_nat ?o" by (rule bit_word_eqI) (auto simp: bit_simps)
  ultimately have ro: "ucast (?size - ucast (1 + NumRestarts ?d) * 4) = (of_nat ?o :: uint32)" by simp
  have "?size - 4 = of_nat (length ?d - 4)" using len(2) by simp
  then have u4: "unat (?size - 4) = length ?d - 4" by (simp only: unat_of_nat_small64 [OF small(4)])
  have "(ucast (of_nat ?o :: uint32) :: uint64) = of_nat (unat (of_nat ?o :: uint32))" by simp
  then have "(ucast (of_nat ?o :: uint32) :: uint64) = of_nat ?o" unfolding unat_of_nat_small32 [OF small(2)] .
  then have "unat (ucast (of_nat ?o :: uint32) :: uint64) = ?o" using small(2) by simp
  then have le: "\<not> ucast (of_nat ?o :: uint32) > ?size - 4"
    using u4 len(2) unfolding word_less_nat_alt by linarith
  have "8 \<le> length ?d" using len(2,3) by linarith
  then have ge: "\<not> ?size < 4" "\<not> ?size < 8"
    using unat_of_nat_small64 [OF small(3)] by (simp_all add: word_less_nat_alt)
  have nz: "(of_nat ?n :: uint32) \<noteq> 0" using small(1) len(3) unat_of_nat_small32 [of ?n] by (metis add_lessD1 less_irrefl unat_0)
  show ?thesis
    using ro le ge nz small unat_of_nat_small32 [OF small(2)]
    by (simp add: Block_new_def Block_NewIterator_def Let_def NumRestarts_block [OF assms])
qed


lemma iter_of_new: "block_wf es ms \<Longrightarrow> block_at (BlockIter_new cmp (block_bytes es ms) (offs es (length es)) (length ms)) es ms (length es)"
  by (simp add: block_at_def at_end_def iter_of_def BlockIter_new_def)

subsection \<open>Reading a built block\<close>

definition block_of :: "nat \<Rightarrow> (bytes \<times> bytes) list \<Rightarrow> bytes" where
  "block_of interval kvs = fst (BlockBuilder_Finish (built interval kvs))"

lemma built_block:
  assumes "0 < interval" "length (block_of interval kvs) < 2 ^ 32"
  obtains es ms it where "block_of interval kvs = block_bytes es ms" "block_wf es ms" "map ent_pair es = kvs"
    "Block_NewIterator cmp (Block_new (block_of interval kvs)) = Inr (Some it)"
    "block_at it es ms (length es)" "icmp it = cmp"
proof -
  obtain es ms where es: "builder_rep (built interval kvs) es ms" "map ent_pair es = kvs"
    using built_rep [OF assms(1), of kvs] by auto
  then have b: "block_of interval kvs = block_bytes es ms" using Finish_rep by (simp add: block_of_def)
  then have "block_wf es ms" using assms(2) es(1) by (simp add: block_wf_def builder_rep_def)
  then show ?thesis
    using that [OF b _ es(2), of "BlockIter_new cmp (block_bytes es ms) (offs es (length es)) (length ms)"]
      NewIterator_block [of es ms cmp] iter_of_new [of es ms cmp] b by (simp add: BlockIter_new_def)
qed

lemma block_key_value: "block_at it es ms i \<Longrightarrow> i < length es \<Longrightarrow> (ikey it, BlockIter_value it) = ent_pair (es ! i)"
  by (auto simp: block_at_def ent_pair_def value_at_entry) (simp add: at_entry_def)

lemma block_status: "block_at it es ms i \<Longrightarrow> istatus it = OK"
  by (auto simp: iter_of_def dest!: block_at_iter)

lemma forward_at:
  assumes "iter_of it es ms" "n \<le> length es"
  shows "block_at ((BlockIter_Next ^^ n) (BlockIter_SeekToFirst it)) es ms n"
  using assms(2) by (induction n) (simp_all add: SeekToFirst_at [OF assms(1)] Next_at)

lemma backward_at:
  assumes "iter_of it es ms" "n < length es"
  shows "block_at ((BlockIter_Prev ^^ n) (BlockIter_SeekToLast it)) es ms (length es - 1 - n)"
  using assms(2)
proof (induction n)
  case (Suc n)
  then have "block_at (BlockIter_Prev ((BlockIter_Prev ^^ n) (BlockIter_SeekToLast it))) es ms
      (if length es - 1 - n = 0 then length es else length es - 1 - n - 1)"
    using Prev_at [of "(BlockIter_Prev ^^ n) (BlockIter_SeekToLast it)" es ms "length es - 1 - n"] by simp
  moreover have "length es - 1 - n \<noteq> 0" "length es - 1 - n - 1 = length es - 1 - Suc n" using Suc(2) by linarith+
  ultimately show ?case by (simp del: diff_diff_left)
qed (use SeekToLast_at [OF assms(1)] in simp)

text \<open>C16: A block built from any sequence of key-value pairs, with any positive restart interval, and
  smaller than 4 GB is opened by \<open>Block::NewIterator\<close> to an iterator on which \<open>SeekToFirst\<close> and
  then \<open>Next\<close> yield exactly the pairs added, in their order and without an error, and then
  the end.\<close>

theorem block_roundtrip:
  assumes "0 < interval" "length (block_of interval kvs) < 2 ^ 32"
  shows "\<exists>it. Block_NewIterator cmp (Block_new (block_of interval kvs)) = Inr (Some it) \<and>
    (\<forall>n\<le>length kvs. let it' = (BlockIter_Next ^^ n) (BlockIter_SeekToFirst it) in
       istatus it' = OK \<and> (BlockIter_Valid it' \<longleftrightarrow> n < length kvs) \<and>
       (n < length kvs \<longrightarrow> (ikey it', BlockIter_value it') = kvs ! n))"
proof -
  obtain es ms it where b: "map ent_pair es = kvs" "block_at it es ms (length es)"
    "Block_NewIterator cmp (Block_new (block_of interval kvs)) = Inr (Some it)"
    by (rule built_block [OF assms, of cmp])
  have it: "iter_of it es ms" by (rule block_at_iter [OF b(2)])
  have len: "length kvs = length es" using b(1) by auto
  have "let it' = (BlockIter_Next ^^ n) (BlockIter_SeekToFirst it) in
       istatus it' = OK \<and> (BlockIter_Valid it' \<longleftrightarrow> n < length kvs) \<and>
       (n < length kvs \<longrightarrow> (ikey it', BlockIter_value it') = kvs ! n)" if "n \<le> length kvs" for n
  proof -
    note at' = forward_at [OF it, of n]
    show ?thesis using that b(1) at' block_status [OF at'] block_at_Valid [OF at'] block_key_value [OF at'] len
      by (auto simp: Let_def)
  qed
  then show ?thesis using b(3) by (intro exI [of _ it]) simp
qed

lemmas block_eval = block_of_def built_def BlockBuilder_new_def BlockBuilder_Add_def BlockBuilder_Finish_def
  PutVarint32_def EncodeVarint32_small PutFixed32_def Let_def

theorem block_roundtrip_witness:
  "\<exists>it. Block_NewIterator BytewiseComparator (Block_new (block_of 2 [([1], [7]), ([1, 2], []), ([1, 2, 3], [8])])) = Inr (Some it) \<and>
    (ikey (BlockIter_Next (BlockIter_SeekToFirst it)), BlockIter_value (BlockIter_Next (BlockIter_SeekToFirst it))) = ([1, 2], [])"
proof -
  have "length (block_of 2 [([1], [7]), ([1, 2], []), ([1, 2, 3], [8])]) < 2 ^ 32" by (simp add: block_eval)
  from block_roundtrip [OF _ this, of BytewiseComparator] obtain it where
    "Block_NewIterator BytewiseComparator (Block_new (block_of 2 [([1], [7]), ([1, 2], []), ([1, 2, 3], [8])])) = Inr (Some it)"
    "\<forall>n\<le>3. let it' = (BlockIter_Next ^^ n) (BlockIter_SeekToFirst it) in
       (n < 3 \<longrightarrow> (ikey it', BlockIter_value it') = [([1], [7]), ([1, 2], []), ([1, 2, 3], [8])] ! n)"
    by (auto simp: Let_def)
  then show ?thesis by (intro exI [of _ it]) (auto simp: Let_def dest!: spec [of _ 1])
qed

text \<open>C18: On a block built from any sequence of pairs, \<open>SeekToLast\<close> and then \<open>Prev\<close> yield
  the pairs from the last to the first, although entries are only decodable forwards.\<close>

theorem block_backwards:
  assumes "0 < interval" "length (block_of interval kvs) < 2 ^ 32" "n < length kvs"
    "Block_NewIterator cmp (Block_new (block_of interval kvs)) = Inr (Some it)"
  defines "it' \<equiv> (BlockIter_Prev ^^ n) (BlockIter_SeekToLast it)"
  shows "BlockIter_Valid it' \<and> (ikey it', BlockIter_value it') = rev kvs ! n \<and> istatus it' = OK"
proof -
  obtain es ms where b: "map ent_pair es = kvs" "block_at it es ms (length es)"
    by (rule built_block [OF assms(1,2), of cmp]) (use assms(4) in auto)
  have n: "n < length es" using assms(3) b(1) by auto
  note at' = backward_at [OF block_at_iter [OF b(2)] n]
  have "length es - 1 - n < length es" using n by linarith
  moreover have "rev kvs ! n = ent_pair (es ! (length es - 1 - n))" using b(1) n by (auto simp: rev_nth)
  ultimately show ?thesis
    using at' block_at_Valid [OF at'] block_key_value [OF at'] block_status [OF at'] by (simp add: it'_def)
qed

theorem block_backwards_witness:
  "\<exists>it. Block_NewIterator BytewiseComparator (Block_new (block_of 2 [([1], [7]), ([1, 2], [9]), ([1, 2, 3], [8])])) = Inr (Some it) \<and>
    ikey (BlockIter_Prev (BlockIter_SeekToLast it)) = [1, 2]"
proof -
  let ?kvs = "[([1], [7]), ([1, 2], [9]), ([1, 2, 3], [8])]"
  have len: "length (block_of 2 ?kvs) < 2 ^ 32" by (simp add: block_eval)
  obtain it where it: "Block_NewIterator BytewiseComparator (Block_new (block_of 2 ?kvs)) = Inr (Some it)"
    by (rule built_block [OF _ len, of BytewiseComparator]) simp
  show ?thesis using it block_backwards [OF _ len _ it, of 1] by (intro exI [of _ it]) simp
qed

text \<open>C17: On a block that is smaller than 4 GB and was built from pairs whose keys increase in the order of the
  comparator, \<open>Seek\<close>, after any sequence of operations on the iterator, bisects the restart points and stops
  at the first pair whose key is not before the target, or is not valid when there is none.\<close>

theorem block_seek:
  assumes "key_order (Compare cmp) valid" "sorted_pairs (Compare cmp) valid kvs" "valid target"
    and "0 < interval" "length (block_of interval kvs) < 2 ^ 32"
    and "Block_NewIterator cmp (Block_new (block_of interval kvs)) = Inr (Some it)" "\<forall>t. MSeek t \<in> set ms \<longrightarrow> valid t"
  defines "it' \<equiv> BlockIter_Seek (foldl (move BlockIterator) it ms) target" and "i \<equiv> seek_index (Compare cmp) kvs target"
  shows "istatus it' = OK \<and> (BlockIter_Valid it' \<longleftrightarrow> i < length kvs) \<and>
    (i < length kvs \<longrightarrow> (ikey it', BlockIter_value it') = kvs ! i)"
proof -
  note it_ops = block_iterator [OF assms(1)]
  obtain es rs where b: "map ent_pair es = kvs" "block_at it es rs (length es)" "icmp it = cmp"
    by (rule built_block [OF assms(4,5), of cmp]) (use assms(6) in auto)
  have "block_pos cmp valid it (map ent_pair es) (length es)" by (rule block_posI) (use b assms(2) in auto)
  then have "block_pos cmp valid it kvs (length es)" using b(1) by simp
  from iterator.moves_pos [OF it_ops this assms(7)]
  have "block_pos cmp valid (it_Seek BlockIterator (foldl (move BlockIterator) it ms) target) kvs i"
    unfolding i_def using iterator.Seek_pos [OF it_ops _ assms(3)] by blast
  then have pos: "block_pos cmp valid it' kvs i" by (simp add: it'_def BlockIterator_def)
  show ?thesis
    using iterator.Valid_pos [OF it_ops pos] iterator.key_pos [OF it_ops pos] iterator.value_pos [OF it_ops pos]
      iterator.status_pos [OF it_ops pos] by (auto simp: BlockIterator_def)
qed

theorem block_seek_witness:
  "\<exists>it. Block_NewIterator BytewiseComparator (Block_new (block_of 2 [([1], [7]), ([1, 2], [9]), ([1, 2, 3], [8])])) = Inr (Some it) \<and>
    ikey (BlockIter_Seek (foldl (move BlockIterator) it [MLast, MPrev]) [1, 1]) = [1, 2]"
proof -
  let ?kvs = "[([1], [7]), ([1, 2], [9]), ([1, 2, 3], [8])]"
  have len: "length (block_of 2 ?kvs) < 2 ^ 32" by (simp add: block_eval)
  have sorted: "sorted_pairs (Compare BytewiseComparator) (\<lambda>_. True) ?kvs" by code_simp
  have idx: "seek_index (Compare BytewiseComparator) ?kvs [1, 1] = 1" by code_simp
  obtain it where it: "Block_NewIterator BytewiseComparator (Block_new (block_of 2 ?kvs)) = Inr (Some it)"
    by (rule built_block [OF _ len, of BytewiseComparator]) simp
  show ?thesis
    using it block_seek [OF bytewise.key_order_axioms sorted _ _ len it, where target = "[1, 1]" and ms = "[MLast, MPrev]", unfolded idx]
    by (intro exI [of _ it]) simp
qed

text \<open>\<open>BlockBuilder::CurrentSizeEstimate\<close> is exact: it is the size of the block that
  \<open>Finish\<close> would return.\<close>

theorem CurrentSizeEstimate_exact:
  "CurrentSizeEstimate b = length (fst (BlockBuilder_Finish b))"
  unfolding BlockBuilder_Finish_def Let_def foldl_PutFixed32
  by (simp add: CurrentSizeEstimate_def PutFixed32_def length_concat comp_def sum_list_triv)

text \<open>C19: The check of an entry against the end of the block adds its two lengths in 32 bits, where
  the sum wraps around: with less than 4 GB left, an entry is accepted exactly if the sum of its lengths modulo
  2 to the 32 is not more than the bytes that are left. So an entry with a key of 4294967295 bytes and a value of one byte is
  accepted although no byte is left.\<close>

theorem DecodeEntry_sum_wraps:
  assumes "length q < 2 ^ 32"
  shows "DecodeEntry (EncodeVarint32 s @ EncodeVarint32 n @ EncodeVarint32 v @ q) =
    (if (unat n + unat v) mod 2 ^ 32 \<le> length q then Some (unat s, unat n, unat v, q) else None)"
proof -
  have "unat (n + v) = (unat n + unat v) mod 2 ^ 32" by (simp add: unat_word_ariths(1))
  then show ?thesis using assms by (simp add: DecodeEntry_varints word_less_nat_alt)
qed

theorem DecodeEntry_sum_wraps_witness:
  "DecodeEntry (EncodeVarint32 0 @ EncodeVarint32 0xffffffff @ EncodeVarint32 1 @ []) = Some (0, 4294967295, 1, [])"
  using DecodeEntry_sum_wraps [of "[]" 0 "0xffffffff" 1] by simp

lemma word_of_int_mod64: "(word_of_int (x mod 2 ^ 64) :: uint32) = word_of_int x"
proof -
  have "x mod 2 ^ 64 = take_bit 64 x" by (simp only: take_bit_eq_mod)
  then show ?thesis by (simp add: word_of_int_eq_iff)
qed

text \<open>C20: The size of the restart array is computed in 64 bits from a count that is incremented in 32 bits, and the offset
  of the array is cut to 32 bits before it is compared with the size of the block. So a block of 8 bytes to 4 GB that claims
  \<open>n\<close> restart points is opened exactly if \<open>4 (n + 1)\<close> modulo 2 to the 32 is at least 4 and at most the size of the
  block, and the array is then taken to start that far before the end; with 1073741824 claimed
  points a block of eight bytes is opened, and its restart array reaches past its end.\<close>

theorem Block_new_offset_truncated:
  assumes "8 \<le> length data" "length data < 2 ^ 32" "0 < NumRestarts data"
  defines "n \<equiv> unat (NumRestarts data)"
  defines "m \<equiv> (4 * (n + 1)) mod 2 ^ 32"
  shows "Block_NewIterator cmp (Block_new data) =
    (if 4 \<le> m \<and> m \<le> length data then Inr (Some (BlockIter_new cmp data (length data - m) n))
     else Inl (Corruption ''bad block contents'' []))"
proof -
  let ?L = "length data"
  let ?size = "of_nat ?L :: uint64" and ?w = "4 * (1 + NumRestarts data)"
  define ro :: uint32 where "ro = ucast (?size - ucast (1 + NumRestarts data) * 4)"
  have "?w = of_nat (4 * (n + 1))" unfolding of_nat_mult of_nat_add n_def by simp
  then have w: "unat ?w = m" by (simp only: m_def unat_of_nat take_bit_eq_mod) simp
  have ro: "ro = of_nat ?L - ?w"
  proof -
    let ?x = "1 + NumRestarts data"
    have x64: "uint (ucast ?x :: uint64) = uint ?x" by (rule uint_up_ucast) (simp add: is_up)
    have "unat ?size = ?L" using assms(2) by simp
    then have L64: "uint ?size = int ?L" by (simp only: uint_nat)
    have "uint (?size - ucast ?x * 4) = (uint ?size - (uint ?x * 4) mod 2 ^ 64) mod 2 ^ 64"
      unfolding uint_word_ariths x64 by simp
    then have "uint (?size - ucast ?x * 4) = (int ?L - uint ?x * 4) mod 2 ^ 64" unfolding L64 by (simp only: mod_diff_right_eq)
    then have "ro = word_of_int ((int ?L - uint ?x * 4) mod 2 ^ 64)" unfolding ro_def ucast_eq by simp
    also have "\<dots> = word_of_int (int ?L - uint ?x * 4)" by (rule word_of_int_mod64)
    also have "\<dots> = of_nat ?L - 4 * ?x" unfolding wi_hom_syms(2,3) [symmetric] by (simp add: mult.commute)
    finally show ?thesis .
  qed
  have L: "unat (of_nat ?L :: uint32) = ?L" "unat ?size = ?L" using assms(2) by simp_all
  have m: "m < 2 ^ 32" by (simp add: m_def)
  have uro: "unat ro = (if m \<le> ?L then ?L - m else ?L + 2 ^ 32 - m)"
    using unat_sub_if' [of "of_nat ?L :: uint32" ?w] unfolding ro L w by simp
  have s4: "unat (?size - 4) = ?L - 4" using assms(1) L unat_sub_if' [of ?size 4] by simp
  have up: "unat (ucast ro :: uint64) = unat ro"
    using uint_up_ucast [of ro] by (simp only: unat_eq_nat_uint) (simp add: is_up)
  have gt: "ucast ro > ?size - 4 \<longleftrightarrow> \<not> (4 \<le> m \<and> m \<le> ?L)"
    unfolding word_less_nat_alt up s4 uro using m assms(1) by auto
  have ge: "\<not> ?size < 4" "\<not> ?size < 8" using assms(1) L by (simp_all add: word_less_nat_alt)
  show ?thesis
    using gt ge less_imp_neq [OF assms(3)] uro unfolding Block_new_def Let_def ro_def [symmetric]
    by (simp add: Block_NewIterator_def n_def)
qed

theorem Block_new_offset_truncated_witness:
  "Block_NewIterator BytewiseComparator (Block_new [0, 0, 0, 0, 0, 0, 0, 0x40]) =
    Inr (Some (BlockIter_new BytewiseComparator [0, 0, 0, 0, 0, 0, 0, 0x40] 4 (2 ^ 30)))"
proof -
  let ?d = "[0, 0, 0, 0, 0, 0, 0, 0x40] :: bytes"
  have n: "NumRestarts ?d = 2 ^ 30" by code_simp
  have l: "length ?d = 8" and m: "(4 * (unat (2 ^ 30 :: uint32) + 1)) mod 2 ^ 32 = 4" "unat (2 ^ 30 :: uint32) = 2 ^ 30" "(0 :: uint32) < 2 ^ 30" by simp_all
  show ?thesis using Block_new_offset_truncated [of ?d BytewiseComparator] unfolding n l m(1) by (simp only: m(2,3)) simp
qed

end
