(* ===== verification/Merger.thy ===== *)
theory Merger
  imports Block
begin

text \<open>
  The merging iterator, \<open>table/merger.cc\<close>: several iterators read as one. When the children
  read disjoint sorted lists, the merging iterator meets the contract of iterators for the sorted
  union of those lists, in both directions and across changes of direction.
\<close>

datatype Direction = kForward | kReverse

record 'c MergingIterator =
  mchildren :: "'c list"
  mcurrent :: "nat option"
  mdirection :: Direction

definition MergingIterator_new :: "'c list \<Rightarrow> 'c MergingIterator" where
  "MergingIterator_new children = \<lparr>mchildren = children, mcurrent = None, mdirection = kForward\<rparr>"

text \<open>The loop of \<open>FindSmallest\<close> and \<open>FindLargest\<close> over the children, by their indices.\<close>

definition pick :: "(nat \<Rightarrow> bool) \<Rightarrow> (nat \<Rightarrow> nat \<Rightarrow> bool) \<Rightarrow> nat list \<Rightarrow> nat option" where
  "pick good better js =
     fold (\<lambda>i best. if good i then
                      (case best of None \<Rightarrow> Some i | Some b \<Rightarrow> if better i b then Some i else best)
                    else best) js None"

definition FindSmallest :: "Comparator \<Rightarrow> 'c Iterator \<Rightarrow> 'c MergingIterator \<Rightarrow> 'c MergingIterator" where
  "FindSmallest cmp c mi =
     (let ch = mchildren mi in
      mi\<lparr>mcurrent := pick (\<lambda>i. it_Valid c (ch ! i))
           (\<lambda>i s. Compare cmp (it_key c (ch ! i)) (it_key c (ch ! s)) < 0) [0..<length ch]\<rparr>)"

definition FindLargest :: "Comparator \<Rightarrow> 'c Iterator \<Rightarrow> 'c MergingIterator \<Rightarrow> 'c MergingIterator" where
  "FindLargest cmp c mi =
     (let ch = mchildren mi in
      mi\<lparr>mcurrent := pick (\<lambda>i. it_Valid c (ch ! i))
           (\<lambda>i s. Compare cmp (it_key c (ch ! i)) (it_key c (ch ! s)) > 0) (rev [0..<length ch])\<rparr>)"

definition Merging_Valid :: "'c MergingIterator \<Rightarrow> bool" where
  "Merging_Valid mi \<longleftrightarrow> mcurrent mi \<noteq> None"

definition Merging_SeekToFirst :: "Comparator \<Rightarrow> 'c Iterator \<Rightarrow> 'c MergingIterator \<Rightarrow> 'c MergingIterator" where
  "Merging_SeekToFirst cmp c mi =
     (FindSmallest cmp c (mi\<lparr>mchildren := map (it_SeekToFirst c) (mchildren mi)\<rparr>))\<lparr>mdirection := kForward\<rparr>"

definition Merging_SeekToLast :: "Comparator \<Rightarrow> 'c Iterator \<Rightarrow> 'c MergingIterator \<Rightarrow> 'c MergingIterator" where
  "Merging_SeekToLast cmp c mi =
     (FindLargest cmp c (mi\<lparr>mchildren := map (it_SeekToLast c) (mchildren mi)\<rparr>))\<lparr>mdirection := kReverse\<rparr>"

definition Merging_Seek :: "Comparator \<Rightarrow> 'c Iterator \<Rightarrow> 'c MergingIterator \<Rightarrow> bytes \<Rightarrow> 'c MergingIterator" where
  "Merging_Seek cmp c mi target =
     (FindSmallest cmp c (mi\<lparr>mchildren := map (\<lambda>child. it_Seek c child target) (mchildren mi)\<rparr>))
       \<lparr>mdirection := kForward\<rparr>"

definition Merging_key :: "'c Iterator \<Rightarrow> 'c MergingIterator \<Rightarrow> bytes" where
  "Merging_key c mi = it_key c (mchildren mi ! the (mcurrent mi))"

definition Merging_value :: "'c Iterator \<Rightarrow> 'c MergingIterator \<Rightarrow> bytes" where
  "Merging_value c mi = it_value c (mchildren mi ! the (mcurrent mi))"

text \<open>
  \<open>Next\<close> and \<open>Prev\<close> first bring the other children to the right side of the current key when the
  direction changes. They are called on a valid iterator only.
\<close>

definition Merging_Next :: "Comparator \<Rightarrow> 'c Iterator \<Rightarrow> 'c MergingIterator \<Rightarrow> 'c MergingIterator" where
  "Merging_Next cmp c mi =
     (let j = the (mcurrent mi);
          key = Merging_key c mi;
          mi = (if mdirection mi \<noteq> kForward then
                  mi\<lparr>mchildren := map (\<lambda>i.
                       let child = mchildren mi ! i in
                       if i \<noteq> j then
                         (let child = it_Seek c child key in
                          if it_Valid c child \<and> Compare cmp key (it_key c child) = 0
                          then it_Next c child else child)
                       else child) [0..<length (mchildren mi)],
                     mdirection := kForward\<rparr>
                else mi)
      in FindSmallest cmp c (mi\<lparr>mchildren := (mchildren mi)[j := it_Next c (mchildren mi ! j)]\<rparr>))"

definition Merging_Prev :: "Comparator \<Rightarrow> 'c Iterator \<Rightarrow> 'c MergingIterator \<Rightarrow> 'c MergingIterator" where
  "Merging_Prev cmp c mi =
     (let j = the (mcurrent mi);
          key = Merging_key c mi;
          mi = (if mdirection mi \<noteq> kReverse then
                  mi\<lparr>mchildren := map (\<lambda>i.
                       let child = mchildren mi ! i in
                       if i \<noteq> j then
                         (let child = it_Seek c child key in
                          if it_Valid c child then it_Prev c child else it_SeekToLast c child)
                       else child) [0..<length (mchildren mi)],
                     mdirection := kReverse\<rparr>
                else mi)
      in FindLargest cmp c (mi\<lparr>mchildren := (mchildren mi)[j := it_Prev c (mchildren mi ! j)]\<rparr>))"

text \<open>The status of the first child with an error, or of the last child.\<close>

fun Merging_status :: "'c Iterator \<Rightarrow> 'c list \<Rightarrow> Status \<Rightarrow> Status" where
  "Merging_status c [] s = s"
| "Merging_status c (child # ch) s =
     (let s = it_status c child in if s \<noteq> OK then s else Merging_status c ch s)"

definition MergingOps :: "Comparator \<Rightarrow> 'c Iterator \<Rightarrow> 'c MergingIterator Iterator" where
  "MergingOps cmp c =
     \<lparr>it_Valid = Merging_Valid, it_SeekToFirst = Merging_SeekToFirst cmp c,
      it_SeekToLast = Merging_SeekToLast cmp c, it_Seek = Merging_Seek cmp c,
      it_Next = Merging_Next cmp c, it_Prev = Merging_Prev cmp c, it_key = Merging_key c,
      it_value = Merging_value c, it_status = (\<lambda>mi. Merging_status c (mchildren mi) OK)\<rparr>"

text \<open>\<open>NewMergingIterator\<close>: no child, one child, or the iterator above over wrapped children.\<close>

datatype 'it Merged = MergedEmpty Status | MergedOne 'it | MergedMany "'it IteratorWrapper MergingIterator"

definition NewMergingIterator :: "'it Iterator \<Rightarrow> 'it list \<Rightarrow> 'it Merged" where
  "NewMergingIterator ops children =
     (case children of
        [] \<Rightarrow> MergedEmpty NewEmptyIterator
      | [it] \<Rightarrow> MergedOne it
      | _ \<Rightarrow> MergedMany (MergingIterator_new (map (\<lambda>it. Wrapper_Set ops Wrapper_new (Some it)) children)))"

lemma pick_snoc:
  "pick good better (js @ [x]) =
     (if good x then (case pick good better js of None \<Rightarrow> Some x | Some b \<Rightarrow> if better x b then Some x else Some b)
      else pick good better js)"
  by (simp add: pick_def split: option.splits)

text \<open>A child that no other is better than, when \<open>better\<close> is a strict weak order.\<close>

lemma pick_spec:
  assumes "\<And>x b i. {x, b, i} \<subseteq> S \<Longrightarrow> better x b \<Longrightarrow> better i x \<Longrightarrow> better i b"
    "\<And>x. x \<in> S \<Longrightarrow> \<not> better x x" "\<And>i. i \<in> set js \<Longrightarrow> good i \<Longrightarrow> i \<in> S"
  shows "case pick good better js of None \<Rightarrow> \<forall>i\<in>set js. \<not> good i
    | Some b \<Rightarrow> b \<in> set js \<and> good b \<and> (\<forall>i\<in>set js. good i \<longrightarrow> \<not> better i b)"
  using assms(3)
proof (induction js rule: rev_induct)
  case (snoc x js)
  show ?case
  proof (cases "pick good better js")
    case None
    then show ?thesis using snoc assms(2) by (auto simp: pick_snoc)
  next
    case (Some b)
    then have b: "b \<in> set js" "good b" "\<And>i. i \<in> set js \<Longrightarrow> good i \<Longrightarrow> \<not> better i b" using snoc by simp_all
    show ?thesis
    proof (cases "good x \<and> better x b")
      case True
      then have "\<not> better i x" if "i \<in> set js" "good i" for i
        using b assms(1) [of x b i] snoc(2) [of x] snoc(2) [of b] snoc(2) [of i] that by auto
      then show ?thesis using True Some assms(2) snoc(2) [of x] by (simp add: pick_snoc)
    next
      case False
      then show ?thesis using b Some by (auto simp: pick_snoc)
    qed
  qed
qed (simp add: pick_def)

subsection \<open>Ranks\<close>

text \<open>
  How many pairs of \<open>K\<close> are among the first \<open>i\<close> of \<open>M\<close>, and the position of the last of them.
\<close>

definition cnt :: "'a list \<Rightarrow> nat \<Rightarrow> 'a list \<Rightarrow> nat" where
  "cnt M i K = length (takeWhile (\<lambda>x. x \<in> set (take i M)) K)"

definition last_pos :: "'a list \<Rightarrow> nat \<Rightarrow> 'a list \<Rightarrow> nat" where
  "last_pos M i K = (if cnt M i K = 0 then length K else cnt M i K - 1)"

definition merges ::
  "('k \<Rightarrow> 'k \<Rightarrow> int) \<Rightarrow> ('k \<Rightarrow> bool) \<Rightarrow> ('k \<times> 'v) list \<Rightarrow> ('k \<times> 'v) list list \<Rightarrow> bool" where
  "merges cmp valid M Ks \<longleftrightarrow> sorted_pairs cmp valid M \<and> (\<forall>K\<in>set Ks. sorted_pairs cmp valid K) \<and>
     set M = (\<Union>K\<in>set Ks. set K) \<and>
     (\<forall>l<length Ks. \<forall>j<length Ks. l \<noteq> j \<longrightarrow> set (Ks ! l) \<inter> set (Ks ! j) = {})"

lemma cnt_le: "cnt M i K \<le> length K"
  by (simp add: cnt_def length_takeWhile_le)

lemma cnt_0 [simp]: "cnt M 0 K = 0"
  by (cases K) (simp_all add: cnt_def)

lemma cnt_all: "set K \<subseteq> set M \<Longrightarrow> cnt M (length M) K = length K"
  by (simp add: cnt_def takeWhile_eq_all_conv [THEN iffD2] subset_iff)

context key_order
begin

lemma sorted_pairs_index:
  assumes "sorted_pairs compare valid M" "a < length M" "b < length M"
  shows "compare (fst (M ! a)) (fst (M ! b)) < 0 \<longleftrightarrow> a < b"
proof -
  have v: "valid (fst (M ! a))" "valid (fst (M ! b))" using assms by (simp_all add: sorted_pairs_def)
  have less: "compare (fst (M ! x)) (fst (M ! y)) < 0" if "x < y" "y < length M" for x y
    using assms(1) that by (simp add: sorted_pairs_def sorted_wrt_iff_nth_less)
  show ?thesis
    using less [of a b] less [of b a] compare_flip [OF v] compare_refl [OF v(1)] assms(2,3)
    by (cases a b rule: linorder_cases) auto
qed

lemma sorted_pairs_distinct: "sorted_pairs compare valid M \<Longrightarrow> distinct M"
  using sorted_pairs_index [of M] compare_refl
  by (metis distinct_conv_nth linorder_neqE_nat less_irrefl)

lemma in_take_iff:
  assumes "sorted_pairs compare valid M" "m < length M"
  shows "M ! m \<in> set (take i M) \<longleftrightarrow> m < i"
  using sorted_pairs_distinct [OF assms(1)] assms(2)
  by (auto simp: in_set_conv_nth nth_eq_iff_index_eq)

lemma cnt_less:
  assumes "sorted_pairs compare valid M" "sorted_pairs compare valid K" "set K \<subseteq> set M" "a < length K"
  shows "a < cnt M i K \<longleftrightarrow> K ! a \<in> set (take i M)"
proof
  let ?P = "\<lambda>x. x \<in> set (take i M)"
  assume "a < cnt M i K"
  then show "?P (K ! a)" unfolding cnt_def by (metis nth_mem set_takeWhileD takeWhile_nth)
next
  let ?P = "\<lambda>x. x \<in> set (take i M)"
  assume a: "?P (K ! a)"
  show "a < cnt M i K"
  proof (rule ccontr)
    assume n: "\<not> a < cnt M i K"
    let ?s = "cnt M i K"
    have s: "?s \<le> a" "?s < length K" "\<not> ?P (K ! ?s)"
      using n assms(4) nth_length_takeWhile [of ?P K] by (simp_all add: cnt_def)
    obtain m n where m: "K ! a = M ! m" "m < length M" and n: "K ! ?s = M ! n" "n < length M"
      using assms(3,4) s(2) by (metis in_set_conv_nth nth_mem subsetD)
    have "m < i" "\<not> n < i" using a s(3) in_take_iff [OF assms(1), of _ i] m n by auto
    then have "m < n" by simp
    then have "compare (fst (K ! a)) (fst (K ! ?s)) < 0" using sorted_pairs_index [OF assms(1) m(2) n(2)] m n by simp
    then show False using sorted_pairs_index [OF assms(2,4) s(2)] s(1) by simp
  qed
qed

text \<open>One more pair of \<open>M\<close>: the count goes up in the list that has it and stays in the others.\<close>

lemma cnt_Suc_same:
  assumes "i < length M" "M ! i \<notin> set K"
  shows "cnt M (Suc i) K = cnt M i K"
proof -
  have "x \<in> set (take (Suc i) M) \<longleftrightarrow> x \<in> set (take i M)" if "x \<in> set K" for x
    using assms that by (auto simp: take_Suc_conv_app_nth)
  then show ?thesis unfolding cnt_def by (metis takeWhile_cong)
qed

lemma cnt_nth:
  assumes "sorted_pairs compare valid M" "sorted_pairs compare valid K" "set K \<subseteq> set M" "i < length M" "M ! i \<in> set K"
  shows "cnt M i K < length K" "K ! cnt M i K = M ! i" "cnt M (Suc i) K = Suc (cnt M i K)"
proof -
  obtain a where a: "a < length K" "K ! a = M ! i" using assms(5) by (auto simp: in_set_conv_nth)
  note less = cnt_less [OF assms(1-3)]
  have "\<not> a < cnt M i K" "a < cnt M (Suc i) K"
    using less [OF a(1)] in_take_iff [OF assms(1,4)] a(2) by simp_all
  moreover have "\<not> Suc a < cnt M (Suc i) K"
  proof
    assume l: "Suc a < cnt M (Suc i) K"
    then have b: "Suc a < length K" using cnt_le [of M "Suc i" K] by simp
    then have "K ! Suc a \<in> set (take (Suc i) M)" using less l by simp
    then obtain m where m: "M ! m = K ! Suc a" "m < Suc i" "m < length M" by (auto simp: in_set_conv_nth)
    have "compare (fst (K ! a)) (fst (K ! Suc a)) < 0" using sorted_pairs_index [OF assms(2) a(1) b] by simp
    then show False using sorted_pairs_index [OF assms(1,4) m(3)] a(2) m by simp
  qed
  moreover have "b < cnt M i K" if "b < a" for b
  proof -
    have b: "b < length K" using that a(1) by simp
    obtain m where m: "K ! b = M ! m" "m < length M" using assms(3) b by (metis in_set_conv_nth nth_mem subsetD)
    have "compare (fst (K ! b)) (fst (K ! a)) < 0" using sorted_pairs_index [OF assms(2) b a(1)] that by simp
    then have "m < i" using sorted_pairs_index [OF assms(1) m(2) assms(4)] m a(2) by simp
    then show ?thesis using less [OF b] in_take_iff [OF assms(1) m(2)] m(1) by simp
  qed
  ultimately have "cnt M i K = a" "cnt M (Suc i) K = Suc a"
    using linorder_neqE_nat [of "cnt M i K" a] by (blast, linarith)
  then show "cnt M i K < length K" "K ! cnt M i K = M ! i" "cnt M (Suc i) K = Suc (cnt M i K)"
    using a by simp_all
qed

lemma seek_index_cnt:
  assumes "sorted_pairs compare valid M" "set K \<subseteq> set M" "valid target"
  shows "seek_index compare K target = cnt M (seek_index compare M target) K"
proof -
  have "compare (fst x) target < 0 \<longleftrightarrow> x \<in> set (take (seek_index compare M target) M)" if x: "x \<in> set K" for x
  proof -
    obtain m where "x = M ! m" "m < length M" using assms(2) x by (metis in_set_conv_nth subsetD)
    then show ?thesis using seek_index_split [OF assms(1,3), of m] in_take_iff [OF assms(1), of m] by simp
  qed
  then show ?thesis unfolding seek_index_def [of _ K] cnt_def by (metis (no_types, lifting) takeWhile_cong)
qed

lemma seek_index_self:
  assumes "sorted_pairs compare valid M" "i < length M"
  shows "seek_index compare M (fst (M ! i)) = i"
proof -
  have v: "valid (fst (M ! i))" using assms by (simp add: sorted_pairs_def)
  have "j < seek_index compare M (fst (M ! i)) \<longleftrightarrow> j < i" if "j < length M" for j
    using seek_index_split [OF assms(1) v that] sorted_pairs_index [OF assms(1) that assms(2)] by simp
  moreover have "seek_index compare M (fst (M ! i)) \<le> length M" by (simp add: seek_index_def length_takeWhile_le)
  ultimately show ?thesis using assms(2) by (metis linorder_neqE_nat less_irrefl less_le_trans)
qed

end

subsection \<open>The contract\<close>

definition merge_pos ::
  "(bytes \<Rightarrow> bytes \<Rightarrow> int) \<Rightarrow> (bytes \<Rightarrow> bool) \<Rightarrow> ('c \<Rightarrow> (bytes \<times> bytes) list \<Rightarrow> nat \<Rightarrow> bool) \<Rightarrow>
   'c MergingIterator \<Rightarrow> (bytes \<times> bytes) list \<Rightarrow> nat \<Rightarrow> bool" where
  "merge_pos cmp valid pos mi M i \<longleftrightarrow> (\<exists>Ks. merges cmp valid M Ks \<and> length (mchildren mi) = length Ks \<and>
     (case mcurrent mi of
        None \<Rightarrow> i = length M \<and> (\<forall>l<length Ks. \<exists>p. pos (mchildren mi ! l) (Ks ! l) p)
      | Some j \<Rightarrow> i < length M \<and> j < length Ks \<and> M ! i \<in> set (Ks ! j) \<and>
          (\<forall>l<length Ks. pos (mchildren mi ! l) (Ks ! l)
             (if mdirection mi = kForward then cnt M i (Ks ! l) else last_pos M (Suc i) (Ks ! l)))))"

context iterator
begin

lemma mergesD:
  assumes "merges compare valid M Ks" "l < length Ks"
  shows "sorted_pairs compare valid M" "sorted_pairs compare valid (Ks ! l)" "set (Ks ! l) \<subseteq> set M"
    "x \<in> set (Ks ! l) \<Longrightarrow> j < length Ks \<Longrightarrow> x \<in> set (Ks ! j) \<Longrightarrow> j = l"
proof -
  show "sorted_pairs compare valid M" "sorted_pairs compare valid (Ks ! l)" "set (Ks ! l) \<subseteq> set M"
    using assms by (auto simp: merges_def)
  have "j \<noteq> l \<Longrightarrow> j < length Ks \<Longrightarrow> set (Ks ! l) \<inter> set (Ks ! j) = {}" using assms by (simp add: merges_def)
  then show "x \<in> set (Ks ! l) \<Longrightarrow> j < length Ks \<Longrightarrow> x \<in> set (Ks ! j) \<Longrightarrow> j = l" by auto
qed

lemma merges_mem:
  assumes "merges compare valid M Ks" "i < length M"
  obtains j where "j < length Ks" "M ! i \<in> set (Ks ! j)"
proof -
  have "M ! i \<in> (\<Union>K\<in>set Ks. set K)" using assms nth_mem by (auto simp: merges_def)
  then obtain K where "K \<in> set Ks" "M ! i \<in> set K" by auto
  then show ?thesis using that by (metis in_set_conv_nth)
qed

lemma pos_valid_key: "pos it K p \<Longrightarrow> p < length K \<Longrightarrow> valid (it_key ops it)"
  using pos_sorted [of it K p] key_pos [of it K p] by (simp add: sorted_pairs_def)

lemma FindSmallest_pos:
  assumes "Compare cmp = compare" "merges compare valid M Ks" "length (mchildren mi) = length Ks"
    "\<And>l. l < length Ks \<Longrightarrow> pos (mchildren mi ! l) (Ks ! l) (cnt M i (Ks ! l))" "i \<le> length M" "mdirection mi = kForward"
  shows "merge_pos compare valid pos (FindSmallest cmp ops mi) M i"
proof -
  let ?ch = "mchildren mi" and ?n = "length Ks"
  let ?good = "\<lambda>l. it_Valid ops (?ch ! l)" and ?key = "\<lambda>l. it_key ops (?ch ! l)"
  let ?r = "pick ?good (\<lambda>l s. compare (?key l) (?key s) < 0) [0..<?n]"
  have good: "?good l \<longleftrightarrow> cnt M i (Ks ! l) < length (Ks ! l)" if "l < ?n" for l using Valid_pos [OF assms(4)] that by simp
  have key: "?key l = fst (Ks ! l ! cnt M i (Ks ! l))" if "l < ?n" "?good l" for l
    using key_pos [OF assms(4)] good that by simp
  have v: "valid (?key l)" if "l < ?n" "?good l" for l using pos_valid_key [OF assms(4)] good that by blast
  have spec: "case ?r of None \<Rightarrow> \<forall>l\<in>set [0..<?n]. \<not> ?good l
    | Some b \<Rightarrow> b \<in> set [0..<?n] \<and> ?good b \<and> (\<forall>l\<in>set [0..<?n]. ?good l \<longrightarrow> \<not> compare (?key l) (?key b) < 0)"
  proof (rule pick_spec [where S = "{l. l < ?n \<and> ?good l}"], goal_cases)
    case (1 x b l)
    then show ?case using v [of x] v [of b] v [of l] compare_less_trans [of "?key l" "?key x" "?key b"] by simp
  next
    case (2 x)
    then show ?case using compare_refl [OF v, of x] by simp
  qed simp
  have r: "mcurrent (FindSmallest cmp ops mi) = ?r" by (simp add: FindSmallest_def Let_def assms(1,3))
  show ?thesis
  proof (cases "i < length M")
    case True
    obtain j where j: "j < ?n" "M ! i \<in> set (Ks ! j)" by (rule merges_mem [OF assms(2) True])
    note D = mergesD [OF assms(2)]
    note c = cnt_nth [OF D(1-3) True, of j, OF j(1) j(1) j(1) j(2)]
    have gj: "?good j" "?key j = fst (M ! i)" using good key c j(1) by simp_all
    then obtain b where b: "?r = Some b" "b < ?n" "?good b" "\<not> compare (?key j) (?key b) < 0"
      using spec j(1) by (auto split: option.splits)
    let ?x = "Ks ! b ! cnt M i (Ks ! b)"
    have lt: "cnt M i (Ks ! b) < length (Ks ! b)" using good b by simp
    have "?x \<in> set M" using D(3) [OF b(2)] nth_mem [OF lt] by (rule subsetD)
    then obtain m where m: "M ! m = ?x" "m < length M" by (auto simp: in_set_conv_nth)
    have "\<not> m < i" using cnt_less [OF D(1-3) [OF b(2)] lt, of i] in_take_iff [OF D(1) [OF b(2)] m(2), of i] m(1) by simp
    moreover have "\<not> i < m"
      using sorted_pairs_index [OF D(1) [OF b(2)] True m(2)] b(4) gj(2) key [OF b(2,3)] m(1) by simp
    ultimately have "m = i" by simp
    then have "M ! i \<in> set (Ks ! b)" using m(1) nth_mem [OF lt] by simp
    then show ?thesis
      using assms b(1,2) True r unfolding merge_pos_def by (intro exI [of _ Ks]) (simp add: FindSmallest_def Let_def)
  next
    case False
    then have i: "i = length M" using assms(5) by simp
    have "\<not> ?good l" if "l < ?n" for l using good [OF that] cnt_all [OF mergesD(3) [OF assms(2) that]] i by simp
    then have "?r = None" using spec by (auto split: option.splits)
    then show ?thesis
      using assms i r unfolding merge_pos_def by (intro exI [of _ Ks]) (auto simp: FindSmallest_def Let_def)
  qed
qed


lemma FindLargest_pos:
  assumes "Compare cmp = compare" "merges compare valid M Ks" "length (mchildren mi) = length Ks"
    "\<And>l. l < length Ks \<Longrightarrow> pos (mchildren mi ! l) (Ks ! l) (last_pos M i (Ks ! l))" "i \<le> length M" "mdirection mi = kReverse"
  shows "merge_pos compare valid pos (FindLargest cmp ops mi) M (if i = 0 then length M else i - 1)"
proof -
  let ?ch = "mchildren mi" and ?n = "length Ks"
  let ?good = "\<lambda>l. it_Valid ops (?ch ! l)" and ?key = "\<lambda>l. it_key ops (?ch ! l)"
  let ?r = "pick ?good (\<lambda>l s. compare (?key l) (?key s) > 0) (rev [0..<?n])"
  have good: "?good l \<longleftrightarrow> 0 < cnt M i (Ks ! l)" if "l < ?n" for l
    using Valid_pos [OF assms(4)] cnt_le [of M i "Ks ! l"] that by (auto simp: last_pos_def split: if_splits)
  have lp: "last_pos M i (Ks ! l) = cnt M i (Ks ! l) - 1" "last_pos M i (Ks ! l) < length (Ks ! l)" if "l < ?n" "?good l" for l
    using good [OF that(1)] that(2) cnt_le [of M i "Ks ! l"] by (auto simp: last_pos_def)
  have key: "?key l = fst (Ks ! l ! (cnt M i (Ks ! l) - 1))" if "l < ?n" "?good l" for l
    using key_pos [OF assms(4)] lp that by simp
  have v: "valid (?key l)" if "l < ?n" "?good l" for l using pos_valid_key [OF assms(4)] lp that by blast
  have spec: "case ?r of None \<Rightarrow> \<forall>l\<in>set (rev [0..<?n]). \<not> ?good l
    | Some b \<Rightarrow> b \<in> set (rev [0..<?n]) \<and> ?good b \<and> (\<forall>l\<in>set (rev [0..<?n]). ?good l \<longrightarrow> \<not> compare (?key l) (?key b) > 0)"
  proof (rule pick_spec [where S = "{l. l < ?n \<and> ?good l}"], goal_cases)
    case (1 x b l)
    then show ?case
      using v [of x] v [of b] v [of l] compare_less_trans [of "?key b" "?key x" "?key l"]
        compare_flip [of "?key x" "?key b"] compare_flip [of "?key l" "?key x"] compare_flip [of "?key l" "?key b"] by simp
  next
    case (2 x)
    then show ?case using compare_refl [OF v, of x] by simp
  qed simp
  have r: "mcurrent (FindLargest cmp ops mi) = ?r" by (simp add: FindLargest_def Let_def assms(1,3))
  show ?thesis
  proof (cases i)
    case (Suc k)
    have k: "k < length M" using assms(5) Suc by simp
    obtain j where j: "j < ?n" "M ! k \<in> set (Ks ! j)" by (rule merges_mem [OF assms(2) k])
    note D = mergesD [OF assms(2)]
    note c = cnt_nth [OF D(1-3) k, of j, OF j(1) j(1) j(1) j(2)]
    have gj: "?good j" using good [OF j(1)] c(3) Suc by simp
    have kj: "?key j = fst (M ! k)" using key [OF j(1) gj] c Suc by simp
    obtain b where b: "?r = Some b" "b < ?n" "?good b" "\<not> compare (?key j) (?key b) > 0"
      using spec j(1) gj by (auto split: option.splits)
    let ?x = "Ks ! b ! (cnt M i (Ks ! b) - 1)"
    have lt: "cnt M i (Ks ! b) - 1 < length (Ks ! b)" "cnt M i (Ks ! b) - 1 < cnt M i (Ks ! b)"
      using good b(2,3) lp [OF b(2,3)] by simp_all
    have "?x \<in> set (take i M)" using cnt_less [OF D(1-3) [OF b(2)] lt(1), of i] lt(2) by simp
    then obtain m where m: "M ! m = ?x" "m < Suc k" "m < length M" using Suc by (auto simp: in_set_conv_nth)
    have "valid (fst (M ! m))" "valid (fst (M ! k))" using D(1) [OF b(2)] m(3) k by (simp_all add: sorted_pairs_def)
    then have "\<not> m < k"
      using sorted_pairs_index [OF D(1) [OF b(2)] m(3) k] b(4) kj key [OF b(2,3)] m(1)
        compare_flip [of "fst (M ! m)" "fst (M ! k)"] compare_flip [of "fst (M ! k)" "fst (M ! m)"] by simp
    then have "m = k" using m(2) by simp
    then have "M ! k \<in> set (Ks ! b)" using m(1) nth_mem [OF lt(1)] by simp
    then show ?thesis
      using assms b(1,2) k r Suc unfolding merge_pos_def by (intro exI [of _ Ks]) (simp add: FindLargest_def Let_def)
  next
    case 0
    have "\<not> ?good l" if "l < ?n" for l using good [OF that] 0 by simp
    then have "?r = None" using spec by (auto split: option.splits)
    then show ?thesis
      using assms 0 r unfolding merge_pos_def by (intro exI [of _ Ks]) (auto simp: FindLargest_def Let_def)
  qed
qed


lemma merge_posE:
  assumes "merge_pos compare valid pos mi M i"
  obtains Ks where "merges compare valid M Ks" "length (mchildren mi) = length Ks"
    "\<forall>l<length Ks. \<exists>p. pos (mchildren mi ! l) (Ks ! l) p"
  using assms by (fastforce simp: merge_pos_def split: option.splits)

lemma merge_pos_sorted: "merge_pos compare valid pos mi M i \<Longrightarrow> sorted_pairs compare valid M"
  by (auto simp: merges_def elim: merge_posE)

lemma merge_pos_le: "merge_pos compare valid pos mi M i \<Longrightarrow> i \<le> length M"
  by (auto simp: merge_pos_def split: option.splits)

text \<open>The state at a pair: the child that has it stands on it, whatever the direction.\<close>

lemma merge_posD:
  assumes "merge_pos compare valid pos mi M i" "i < length M"
  obtains Ks j where "mcurrent mi = Some j" "merges compare valid M Ks" "length (mchildren mi) = length Ks"
    "j < length Ks" "M ! i \<in> set (Ks ! j)" "pos (mchildren mi ! j) (Ks ! j) (cnt M i (Ks ! j))"
    "cnt M i (Ks ! j) < length (Ks ! j)" "Ks ! j ! cnt M i (Ks ! j) = M ! i"
    "\<forall>l<length Ks. pos (mchildren mi ! l) (Ks ! l)
       (if mdirection mi = kForward then cnt M i (Ks ! l) else last_pos M (Suc i) (Ks ! l))"
proof -
  obtain Ks j where *: "mcurrent mi = Some j" "merges compare valid M Ks" "length (mchildren mi) = length Ks"
    "j < length Ks" "M ! i \<in> set (Ks ! j)" "\<forall>l<length Ks. pos (mchildren mi ! l) (Ks ! l)
       (if mdirection mi = kForward then cnt M i (Ks ! l) else last_pos M (Suc i) (Ks ! l))"
    using assms by (auto simp: merge_pos_def split: option.splits)
  note c = cnt_nth [OF mergesD(1-3) [OF *(2,4)] assms(2) *(5)]
  have "last_pos M (Suc i) (Ks ! j) = cnt M i (Ks ! j)" using c(3) by (simp add: last_pos_def)
  then have "pos (mchildren mi ! j) (Ks ! j) (cnt M i (Ks ! j))" using *(4,6) by (auto split: if_splits)
  then show ?thesis using that * c(1,2) by blast
qed

lemma merge_key_value:
  assumes "merge_pos compare valid pos mi M i" "i < length M"
  shows "Merging_key ops mi = fst (M ! i)" "Merging_value ops mi = snd (M ! i)"
  by (rule merge_posD [OF assms]; simp add: Merging_key_def Merging_value_def key_pos value_pos)+

lemma merge_status: "merge_pos compare valid pos mi M i \<Longrightarrow> Merging_status ops (mchildren mi) OK = OK"
proof -
  have "Merging_status ops ch OK = OK" if "\<forall>it\<in>set ch. it_status ops it = OK" for ch using that by (induction ch) simp_all
  moreover assume "merge_pos compare valid pos mi M i"
  then have "\<forall>it\<in>set (mchildren mi). it_status ops it = OK"
    by (rule merge_posE) (metis in_set_conv_nth status_pos)
  ultimately show ?thesis by blast
qed

lemma Find_direction [simp]:
  "(FindSmallest cmp c mi)\<lparr>mdirection := d\<rparr> = FindSmallest cmp c (mi\<lparr>mdirection := d\<rparr>)"
  "(FindLargest cmp c mi)\<lparr>mdirection := d\<rparr> = FindLargest cmp c (mi\<lparr>mdirection := d\<rparr>)"
  by (simp_all add: FindSmallest_def FindLargest_def Let_def)

lemma Merging_SeekToFirst_pos:
  assumes "Compare cmp = compare" "merge_pos compare valid pos mi M i"
  shows "merge_pos compare valid pos (Merging_SeekToFirst cmp ops mi) M 0"
proof -
  obtain Ks where Ks: "merges compare valid M Ks" "length (mchildren mi) = length Ks"
    "\<forall>l<length Ks. \<exists>p. pos (mchildren mi ! l) (Ks ! l) p" by (rule merge_posE [OF assms(2)])
  show ?thesis unfolding Merging_SeekToFirst_def Find_direction
    by (rule FindSmallest_pos [OF assms(1) Ks(1)]) (use Ks SeekToFirst_pos in auto)
qed

lemma Merging_Seek_pos:
  assumes "Compare cmp = compare" "merge_pos compare valid pos mi M i" "valid target"
  shows "merge_pos compare valid pos (Merging_Seek cmp ops mi target) M (seek_index compare M target)"
proof -
  obtain Ks where Ks: "merges compare valid M Ks" "length (mchildren mi) = length Ks"
    "\<forall>l<length Ks. \<exists>p. pos (mchildren mi ! l) (Ks ! l) p" by (rule merge_posE [OF assms(2)])
  have "pos (it_Seek ops (mchildren mi ! l) target) (Ks ! l) (cnt M (seek_index compare M target) (Ks ! l))"
    if "l < length Ks" for l
    using Ks(3) that seek_index_cnt [OF mergesD(1,3) [OF Ks(1) that] assms(3)] Seek_pos [OF _ assms(3)] by metis
  then show ?thesis unfolding Merging_Seek_def Find_direction
    by (intro FindSmallest_pos [OF assms(1) Ks(1)]) (use Ks(2) in \<open>simp_all add: seek_index_def length_takeWhile_le\<close>)
qed

lemma last_pos_all: "set K \<subseteq> set M \<Longrightarrow> last_pos M (length M) K = length K - 1"
  by (simp add: last_pos_def cnt_all)

lemma Merging_SeekToLast_pos:
  assumes "Compare cmp = compare" "merge_pos compare valid pos mi M i"
  shows "merge_pos compare valid pos (Merging_SeekToLast cmp ops mi) M (length M - 1)"
proof -
  obtain Ks where Ks: "merges compare valid M Ks" "length (mchildren mi) = length Ks"
    "\<forall>l<length Ks. \<exists>p. pos (mchildren mi ! l) (Ks ! l) p" by (rule merge_posE [OF assms(2)])
  have "pos (it_SeekToLast ops (mchildren mi ! l)) (Ks ! l) (last_pos M (length M) (Ks ! l))"
    if "l < length Ks" for l
    using Ks(3) that last_pos_all [OF mergesD(3) [OF Ks(1) that]] SeekToLast_pos by metis
  then have "merge_pos compare valid pos (Merging_SeekToLast cmp ops mi) M (if length M = 0 then length M else length M - 1)"
    unfolding Merging_SeekToLast_def Find_direction
    by (intro FindLargest_pos [OF assms(1) Ks(1)]) (use Ks(2) in simp_all)
  then show ?thesis by (simp split: if_splits)
qed


text \<open>A child that does not have the current pair, after a seek to the current key.\<close>

lemma seek_other:
  assumes "merges compare valid M Ks" "i < length M" "l < length Ks" "M ! i \<notin> set (Ks ! l)" "pos child (Ks ! l) p"
  defines "child' \<equiv> it_Seek ops child (fst (M ! i))"
  shows "pos child' (Ks ! l) (cnt M i (Ks ! l))"
    "it_Valid ops child' \<Longrightarrow> compare (fst (M ! i)) (it_key ops child') \<noteq> 0"
proof -
  note D = mergesD [OF assms(1,3)]
  have v: "valid (fst (M ! i))" using D(1) assms(2) by (simp add: sorted_pairs_def)
  show p: "pos child' (Ks ! l) (cnt M i (Ks ! l))"
    using Seek_pos [OF assms(5) v] seek_index_cnt [OF D(1,3) v] seek_index_self [OF D(1) assms(2)] by (simp add: child'_def)
  assume "it_Valid ops child'"
  then have lt: "cnt M i (Ks ! l) < length (Ks ! l)" using Valid_pos [OF p] by simp
  let ?x = "Ks ! l ! cnt M i (Ks ! l)"
  have "?x \<in> set M" using D(3) nth_mem [OF lt] by (rule subsetD)
  then obtain m where m: "M ! m = ?x" "m < length M" by (auto simp: in_set_conv_nth)
  have "m \<noteq> i" using m(1) nth_mem [OF lt] assms(4) by auto
  then have "compare (fst (M ! i)) (fst (M ! m)) < 0 \<or> compare (fst (M ! m)) (fst (M ! i)) < 0"
    using sorted_pairs_index [OF D(1) assms(2) m(2)] sorted_pairs_index [OF D(1) m(2) assms(2)] by auto
  moreover have "valid (fst (M ! m))" "valid (fst (M ! i))" using D(1) assms(2) m(2) by (simp_all add: sorted_pairs_def)
  ultimately have "compare (fst (M ! i)) (fst (M ! m)) \<noteq> 0" using compare_eq_flip by fastforce
  then show "compare (fst (M ! i)) (it_key ops child') \<noteq> 0" using key_pos [OF p lt] m(1) by simp
qed

lemma set_direction: "mdirection mi = d \<Longrightarrow> mi\<lparr>mdirection := d\<rparr> = mi"
  by (cases mi) simp

lemma Merging_Next_pos:
  assumes "Compare cmp = compare" "merge_pos compare valid pos mi M i" "i < length M"
  shows "merge_pos compare valid pos (Merging_Next cmp ops mi) M (Suc i)"
proof -
  obtain Ks j where d: "mcurrent mi = Some j" "merges compare valid M Ks" "length (mchildren mi) = length Ks"
    "j < length Ks" "M ! i \<in> set (Ks ! j)" "pos (mchildren mi ! j) (Ks ! j) (cnt M i (Ks ! j))"
    "cnt M i (Ks ! j) < length (Ks ! j)" "Ks ! j ! cnt M i (Ks ! j) = M ! i"
    "\<forall>l<length Ks. pos (mchildren mi ! l) (Ks ! l)
       (if mdirection mi = kForward then cnt M i (Ks ! l) else last_pos M (Suc i) (Ks ! l))"
    by (rule merge_posD [OF assms(2,3)])
  have key: "Merging_key ops mi = fst (M ! i)" by (rule merge_key_value [OF assms(2,3)])
  have other: "M ! i \<notin> set (Ks ! l)" if "l < length Ks" "l \<noteq> j" for l
    using mergesD(4) [OF d(2,4,5)] that by auto
  define ch where "ch = (if mdirection mi \<noteq> kForward then
      map (\<lambda>l. let child = mchildren mi ! l in
        if l \<noteq> j then
          (let child = it_Seek ops child (fst (M ! i)) in
           if it_Valid ops child \<and> Compare cmp (fst (M ! i)) (it_key ops child) = 0 then it_Next ops child else child)
        else child) [0..<length Ks] else mchildren mi)"
  have len: "length ch = length Ks" using d(3) by (simp add: ch_def)
  have ch: "pos (ch ! l) (Ks ! l) (cnt M i (Ks ! l))" if "l < length Ks" for l
  proof (cases "mdirection mi = kForward \<or> l = j")
    case True
    then show ?thesis using d(6,9) that by (auto simp: ch_def)
  next
    case False
    then show ?thesis using seek_other [OF d(2) assms(3) that other, of "mchildren mi ! l"] d(9) that assms(1)
      by (auto simp: ch_def Let_def)
  qed
  have "Merging_Next cmp ops mi = FindSmallest cmp ops (mi\<lparr>mdirection := kForward, mchildren := ch[j := it_Next ops (ch ! j)]\<rparr>)"
    by (cases "mdirection mi") (simp_all add: Merging_Next_def key d(1,3) ch_def Let_def set_direction)
  moreover have "merge_pos compare valid pos \<dots> M (Suc i)"
  proof (rule FindSmallest_pos [OF assms(1) d(2)], goal_cases)
    case (2 l)
    then show ?case
      using ch [OF 2] Next_pos [OF ch [OF d(4)] d(7)] cnt_nth(3) [OF mergesD(1-3) [OF d(2,4)] assms(3) d(5)]
        cnt_Suc_same [OF assms(3) other [OF 2]] len by (cases "l = j") simp_all
  qed (use len assms(3) in simp_all)
  ultimately show ?thesis by simp
qed

lemma last_pos_Suc_same: "i < length M \<Longrightarrow> M ! i \<notin> set K \<Longrightarrow> last_pos M (Suc i) K = last_pos M i K"
  by (simp add: last_pos_def cnt_Suc_same)

lemma Merging_Prev_pos:
  assumes "Compare cmp = compare" "merge_pos compare valid pos mi M i" "i < length M"
  shows "merge_pos compare valid pos (Merging_Prev cmp ops mi) M (if i = 0 then length M else i - 1)"
proof -
  obtain Ks j where d: "mcurrent mi = Some j" "merges compare valid M Ks" "length (mchildren mi) = length Ks"
    "j < length Ks" "M ! i \<in> set (Ks ! j)" "pos (mchildren mi ! j) (Ks ! j) (cnt M i (Ks ! j))"
    "cnt M i (Ks ! j) < length (Ks ! j)" "Ks ! j ! cnt M i (Ks ! j) = M ! i"
    "\<forall>l<length Ks. pos (mchildren mi ! l) (Ks ! l)
       (if mdirection mi = kForward then cnt M i (Ks ! l) else last_pos M (Suc i) (Ks ! l))"
    by (rule merge_posD [OF assms(2,3)])
  have key: "Merging_key ops mi = fst (M ! i)" by (rule merge_key_value [OF assms(2,3)])
  have other: "M ! i \<notin> set (Ks ! l)" if "l < length Ks" "l \<noteq> j" for l
    using mergesD(4) [OF d(2,4,5)] that by auto
  define ch where "ch = (if mdirection mi \<noteq> kReverse then
      map (\<lambda>l. let child = mchildren mi ! l in
        if l \<noteq> j then
          (let child = it_Seek ops child (fst (M ! i)) in
           if it_Valid ops child then it_Prev ops child else it_SeekToLast ops child)
        else child) [0..<length Ks] else mchildren mi)"
  have len: "length ch = length Ks" using d(3) by (simp add: ch_def)
  have chj: "ch ! j = mchildren mi ! j" using d(4) by (simp add: ch_def)
  have ch: "pos (ch ! l) (Ks ! l) (last_pos M i (Ks ! l))" if l: "l < length Ks" "l \<noteq> j" for l
  proof (cases "mdirection mi = kReverse")
    case True
    then show ?thesis using d(9) l last_pos_Suc_same [OF assms(3) other [OF l]] by (auto simp: ch_def)
  next
    case False
    let ?child = "it_Seek ops (mchildren mi ! l) (fst (M ! i))"
    have p: "pos ?child (Ks ! l) (cnt M i (Ks ! l))"
      using seek_other(1) [OF d(2) assms(3) l(1) other [OF l]] d(9) l(1) by blast
    have c: "ch ! l = (if it_Valid ops ?child then it_Prev ops ?child else it_SeekToLast ops ?child)"
      using False l by (simp add: ch_def Let_def)
    show ?thesis
    proof (cases "it_Valid ops ?child")
      case True
      then show ?thesis using Prev_pos [OF p] Valid_pos [OF p] c by (simp add: last_pos_def)
    next
      case False
      then have "cnt M i (Ks ! l) = length (Ks ! l)" using Valid_pos [OF p] cnt_le [of M i "Ks ! l"] by simp
      then show ?thesis using SeekToLast_pos [OF p] c False by (cases "Ks ! l = []") (simp_all add: last_pos_def)
    qed
  qed
  have "Merging_Prev cmp ops mi = FindLargest cmp ops (mi\<lparr>mdirection := kReverse, mchildren := ch[j := it_Prev ops (ch ! j)]\<rparr>)"
    by (cases "mdirection mi") (simp_all add: Merging_Prev_def key d(1,3) ch_def Let_def set_direction)
  moreover have "merge_pos compare valid pos \<dots> M (if i = 0 then length M else i - 1)"
  proof (rule FindLargest_pos [OF assms(1) d(2)], goal_cases)
    case (2 l)
    then show ?case
      using ch [OF 2] Prev_pos [OF d(6,7)] chj len by (cases "l = j") (simp_all add: last_pos_def)
  qed (use len assms(3) in simp_all)
  ultimately show ?thesis by simp
qed

lemma merging_iterator:
  assumes "Compare cmp = compare"
  shows "iterator compare valid (MergingOps cmp ops) (merge_pos compare valid pos)"
proof (intro iterator.intro key_order_axioms iterator_axioms.intro, goal_cases)
  case (1 mi M i) then show ?case by (rule merge_pos_sorted)
next
  case (2 mi M i) then show ?case by (rule merge_pos_le)
next
  case (3 mi M i)
  then show ?case by (auto simp: MergingOps_def Merging_Valid_def merge_pos_def split: option.splits)
next
  case (4 mi M i) then show ?case using merge_key_value by (simp add: MergingOps_def)
next
  case (5 mi M i) then show ?case using merge_key_value by (simp add: MergingOps_def)
next
  case (6 mi M i) then show ?case using merge_status by (simp add: MergingOps_def)
next
  case (7 mi M i) then show ?case using Merging_SeekToFirst_pos [OF assms] by (simp add: MergingOps_def)
next
  case (8 mi M i) then show ?case using Merging_SeekToLast_pos [OF assms 8] by (simp add: MergingOps_def)
next
  case (9 mi M i target) then show ?case using Merging_Seek_pos [OF assms] by (simp add: MergingOps_def)
next
  case (10 mi M i) then show ?case using Merging_Next_pos [OF assms] by (simp add: MergingOps_def)
next
  case (11 mi M i) then show ?case using Merging_Prev_pos [OF assms 11] by (simp add: MergingOps_def)
qed

end


interpretation wrapped_block: iterator "Compare BytewiseComparator" "\<lambda>_. True" "Wrapper BlockIterator"
    "wrapper_pos BlockIterator (block_pos BytewiseComparator (\<lambda>_. True))"
  by (rule block.wrapper_iterator)

interpretation merged_blocks: iterator "Compare BytewiseComparator" "\<lambda>_. True"
    "MergingOps BytewiseComparator (Wrapper BlockIterator)"
    "merge_pos (Compare BytewiseComparator) (\<lambda>_. True) (wrapper_pos BlockIterator (block_pos BytewiseComparator (\<lambda>_. True)))"
  by (rule wrapped_block.merging_iterator) (rule refl)

lemma new_merge_pos:
  assumes "merges cmp valid M Ks" "list_all2 (\<lambda>it K. \<exists>p. pos it K p) its Ks"
  shows "merge_pos cmp valid (wrapper_pos ops pos)
    (MergingIterator_new (map (\<lambda>it. Wrapper_Set ops Wrapper_new (Some it)) its)) M (length M)"
proof -
  have "\<exists>p. wrapper_pos ops pos (Wrapper_Set ops Wrapper_new (Some (its ! l))) (Ks ! l) p" if "l < length Ks" for l
    using assms(2) that wrapped_Set by (fastforce simp: wrapper_pos_def list_all2_conv_all_nth)
  then show ?thesis
    using assms unfolding merge_pos_def
    by (intro exI [of _ Ks]) (auto simp: MergingIterator_new_def list_all2_lengthD)
qed

text \<open>C21: When the children meet the contract of iterators and read sorted lists that have no key in common, the merging iterator over them is, for every sequence of \<open>SeekToFirst\<close>,
  \<open>SeekToLast\<close>, \<open>Seek\<close>, \<open>Next\<close> and \<open>Prev\<close> in any order and whatever changes of direction,
  a cursor on the sorted union of the lists.\<close>

theorem merging_refines_cursor:
  assumes "iterator (Compare cmp) valid ops pos" "merges (Compare cmp) valid M Ks"
    and "list_all2 (\<lambda>it K. \<exists>p. pos it K p) its Ks" "\<forall>t. MSeek t \<in> set ms \<longrightarrow> valid t"
    and "NewMergingIterator ops its = MergedMany mi"
  shows "view (MergingOps cmp (Wrapper ops)) (foldl (move (MergingOps cmp (Wrapper ops))) mi ms) =
    cursor_view M (foldl (cursor_move (Compare cmp) M) (length M) ms)"
proof -
  have w: "iterator (Compare cmp) valid (Wrapper ops) (wrapper_pos ops pos)"
    by (rule iterator.wrapper_iterator [OF assms(1)])
  have m: "iterator (Compare cmp) valid (MergingOps cmp (Wrapper ops)) (merge_pos (Compare cmp) valid (wrapper_pos ops pos))"
    by (rule iterator.merging_iterator [OF w refl])
  have "mi = MergingIterator_new (map (\<lambda>it. Wrapper_Set ops Wrapper_new (Some it)) its)"
    using assms(5) by (auto simp: NewMergingIterator_def split: list.splits)
  then show ?thesis using iterator.moves_view [OF m, OF new_merge_pos [OF assms(2,3)] assms(4)] by simp
qed

theorem merging_refines_cursor_witness:
  "\<exists>it it' mi. NewMergingIterator BlockIterator [it, it'] = MergedMany mi \<and>
    view (MergingOps BytewiseComparator (Wrapper BlockIterator))
      (foldl (move (MergingOps BytewiseComparator (Wrapper BlockIterator))) mi [MFirst, MNext, MNext, MPrev]) =
    Some ([2], [8])"
proof -
  let ?K = "[([1], [7]), ([3], [9])]" and ?L = "[([2], [8])]" and ?M = "[([1], [7]), ([2], [8]), ([3], [9])]"
  let ?c = "Compare BytewiseComparator" and ?v = "\<lambda>_ :: bytes. True"
  have len: "length (block_of 2 ?K) < 2 ^ 32" "length (block_of 2 ?L) < 2 ^ 32" by (simp_all add: block_eval)
  have s: "sorted_pairs ?c ?v ?K" "sorted_pairs ?c ?v ?L" "sorted_pairs ?c ?v ?M" by code_simp+
  have new: "\<exists>it p. block_pos BytewiseComparator ?v it kvs p"
    if "length (block_of 2 kvs) < 2 ^ 32" "sorted_pairs ?c ?v kvs" for kvs
    by (rule built_block [OF _ that(1), of BytewiseComparator]) (use that(2) in \<open>auto simp: block_pos_def\<close>)
  obtain it it' p p' where it: "block_pos BytewiseComparator ?v it ?K p" "block_pos BytewiseComparator ?v it' ?L p'"
    using new [OF len(1) s(1)] new [OF len(2) s(2)] by blast
  have m: "merges ?c ?v ?M [?K, ?L]"
    using s by (auto simp: merges_def less_Suc_eq)
  obtain mi where mi: "NewMergingIterator BlockIterator [it, it'] = MergedMany mi" by (simp add: NewMergingIterator_def)
  have l2: "list_all2 (\<lambda>it K. \<exists>p. block_pos BytewiseComparator ?v it K p) [it, it'] [?K, ?L]" using it by auto
  have idx: "foldl (cursor_move ?c ?M) (length ?M) [MFirst, MNext, MNext, MPrev] = 1" by code_simp
  have "view (MergingOps BytewiseComparator (Wrapper BlockIterator))
      (foldl (move (MergingOps BytewiseComparator (Wrapper BlockIterator))) mi [MFirst, MNext, MNext, MPrev]) = cursor_view ?M 1"
    using merging_refines_cursor [OF block.iterator_axioms m l2 _ mi, of "[MFirst, MNext, MNext, MPrev]"] unfolding idx by simp
  then have "view (MergingOps BytewiseComparator (Wrapper BlockIterator))
      (foldl (move (MergingOps BytewiseComparator (Wrapper BlockIterator))) mi [MFirst, MNext, MNext, MPrev]) = Some ([2], [8])"
    by (simp add: cursor_view_def)
  then show ?thesis using mi by blast
qed

end
