(* ===== verification/Two_Level.thy ===== *)
theory Two_Level
  imports Merger
begin

text \<open>
  The two-level iterator, \<open>table/two_level_iterator.cc\<close>: an index iterator whose values name
  blocks, and the iterators of those blocks, read as one. Tables and the levels of a version are
  read this way.
\<close>

record ('i, 'd) TwoLevelIterator =
  tl_status :: Status
  index_iter :: "'i IteratorWrapper"
  data_iter :: "'d IteratorWrapper"
  data_block_handle :: bytes

text \<open>
  The operations take the functions of the index iterator \<open>io\<close> and of the data iterators
  \<open>dops\<close>, and the function that opens the block a handle names.
\<close>

definition TwoLevelIterator_new :: "'i Iterator \<Rightarrow> 'i \<Rightarrow> ('i, 'd) TwoLevelIterator" where
  "TwoLevelIterator_new io index =
     \<lparr>tl_status = OK, index_iter = Wrapper_Set io Wrapper_new (Some index), data_iter = Wrapper_new,
      data_block_handle = []\<rparr>"

definition SaveError :: "('i, 'd) TwoLevelIterator \<Rightarrow> Status \<Rightarrow> ('i, 'd) TwoLevelIterator" where
  "SaveError t s = (if tl_status t = OK \<and> s \<noteq> OK then t\<lparr>tl_status := s\<rparr> else t)"

definition SetDataIterator ::
  "'d Iterator \<Rightarrow> ('i, 'd) TwoLevelIterator \<Rightarrow> 'd option \<Rightarrow> ('i, 'd) TwoLevelIterator" where
  "SetDataIterator dops t iter =
     (let t = (if witer (data_iter t) \<noteq> None then SaveError t (it_status (Wrapper dops) (data_iter t)) else t)
      in t\<lparr>data_iter := Wrapper_Set dops (data_iter t) iter\<rparr>)"

definition InitDataBlock ::
  "'i Iterator \<Rightarrow> 'd Iterator \<Rightarrow> (bytes \<Rightarrow> 'd) \<Rightarrow> ('i, 'd) TwoLevelIterator \<Rightarrow> ('i, 'd) TwoLevelIterator" where
  "InitDataBlock io dops block_function t =
     (if \<not> it_Valid (Wrapper io) (index_iter t) then SetDataIterator dops t None
      else
        (let handle = it_value (Wrapper io) (index_iter t) in
         if witer (data_iter t) \<noteq> None \<and> Slice_compare handle (data_block_handle t) = 0 then t
         else SetDataIterator dops (t\<lparr>data_block_handle := handle\<rparr>) (Some (block_function handle))))"

text \<open>\<open>if (data_iter_.iter() != NULL) data_iter_.f()\<close>\<close>

definition on_data ::
  "('d IteratorWrapper \<Rightarrow> 'd IteratorWrapper) \<Rightarrow> ('i, 'd) TwoLevelIterator \<Rightarrow> ('i, 'd) TwoLevelIterator" where
  "on_data f t = (if witer (data_iter t) \<noteq> None then t\<lparr>data_iter := f (data_iter t)\<rparr> else t)"

partial_function (option) SkipEmptyDataBlocksForward ::
  "'i Iterator \<Rightarrow> 'd Iterator \<Rightarrow> (bytes \<Rightarrow> 'd) \<Rightarrow> ('i, 'd) TwoLevelIterator \<Rightarrow> ('i, 'd) TwoLevelIterator option" where
  "SkipEmptyDataBlocksForward io dops bf t =
     (if witer (data_iter t) = None \<or> \<not> it_Valid (Wrapper dops) (data_iter t) then
        (if \<not> it_Valid (Wrapper io) (index_iter t) then Some (SetDataIterator dops t None)
         else SkipEmptyDataBlocksForward io dops bf
                (on_data (it_SeekToFirst (Wrapper dops))
                  (InitDataBlock io dops bf (t\<lparr>index_iter := it_Next (Wrapper io) (index_iter t)\<rparr>))))
      else Some t)"

partial_function (option) SkipEmptyDataBlocksBackward ::
  "'i Iterator \<Rightarrow> 'd Iterator \<Rightarrow> (bytes \<Rightarrow> 'd) \<Rightarrow> ('i, 'd) TwoLevelIterator \<Rightarrow> ('i, 'd) TwoLevelIterator option" where
  "SkipEmptyDataBlocksBackward io dops bf t =
     (if witer (data_iter t) = None \<or> \<not> it_Valid (Wrapper dops) (data_iter t) then
        (if \<not> it_Valid (Wrapper io) (index_iter t) then Some (SetDataIterator dops t None)
         else SkipEmptyDataBlocksBackward io dops bf
                (on_data (it_SeekToLast (Wrapper dops))
                  (InitDataBlock io dops bf (t\<lparr>index_iter := it_Prev (Wrapper io) (index_iter t)\<rparr>))))
      else Some t)"

definition TwoLevel_Seek ::
  "'i Iterator \<Rightarrow> 'd Iterator \<Rightarrow> (bytes \<Rightarrow> 'd) \<Rightarrow> ('i, 'd) TwoLevelIterator \<Rightarrow> bytes \<Rightarrow>
   ('i, 'd) TwoLevelIterator option" where
  "TwoLevel_Seek io dops bf t target =
     SkipEmptyDataBlocksForward io dops bf
       (on_data (\<lambda>w. it_Seek (Wrapper dops) w target)
         (InitDataBlock io dops bf (t\<lparr>index_iter := it_Seek (Wrapper io) (index_iter t) target\<rparr>)))"

definition TwoLevel_SeekToFirst ::
  "'i Iterator \<Rightarrow> 'd Iterator \<Rightarrow> (bytes \<Rightarrow> 'd) \<Rightarrow> ('i, 'd) TwoLevelIterator \<Rightarrow> ('i, 'd) TwoLevelIterator option" where
  "TwoLevel_SeekToFirst io dops bf t =
     SkipEmptyDataBlocksForward io dops bf
       (on_data (it_SeekToFirst (Wrapper dops))
         (InitDataBlock io dops bf (t\<lparr>index_iter := it_SeekToFirst (Wrapper io) (index_iter t)\<rparr>)))"

definition TwoLevel_SeekToLast ::
  "'i Iterator \<Rightarrow> 'd Iterator \<Rightarrow> (bytes \<Rightarrow> 'd) \<Rightarrow> ('i, 'd) TwoLevelIterator \<Rightarrow> ('i, 'd) TwoLevelIterator option" where
  "TwoLevel_SeekToLast io dops bf t =
     SkipEmptyDataBlocksBackward io dops bf
       (on_data (it_SeekToLast (Wrapper dops))
         (InitDataBlock io dops bf (t\<lparr>index_iter := it_SeekToLast (Wrapper io) (index_iter t)\<rparr>)))"

definition TwoLevel_Next ::
  "'i Iterator \<Rightarrow> 'd Iterator \<Rightarrow> (bytes \<Rightarrow> 'd) \<Rightarrow> ('i, 'd) TwoLevelIterator \<Rightarrow> ('i, 'd) TwoLevelIterator option" where
  "TwoLevel_Next io dops bf t =
     SkipEmptyDataBlocksForward io dops bf (t\<lparr>data_iter := it_Next (Wrapper dops) (data_iter t)\<rparr>)"

definition TwoLevel_Prev ::
  "'i Iterator \<Rightarrow> 'd Iterator \<Rightarrow> (bytes \<Rightarrow> 'd) \<Rightarrow> ('i, 'd) TwoLevelIterator \<Rightarrow> ('i, 'd) TwoLevelIterator option" where
  "TwoLevel_Prev io dops bf t =
     SkipEmptyDataBlocksBackward io dops bf (t\<lparr>data_iter := it_Prev (Wrapper dops) (data_iter t)\<rparr>)"

definition TwoLevel_status :: "'i Iterator \<Rightarrow> 'd Iterator \<Rightarrow> ('i, 'd) TwoLevelIterator \<Rightarrow> Status" where
  "TwoLevel_status io dops t =
     (if it_status (Wrapper io) (index_iter t) \<noteq> OK then it_status (Wrapper io) (index_iter t)
      else if witer (data_iter t) \<noteq> None \<and> it_status (Wrapper dops) (data_iter t) \<noteq> OK
      then it_status (Wrapper dops) (data_iter t)
      else tl_status t)"

definition TwoLevelOps :: "'i Iterator \<Rightarrow> 'd Iterator \<Rightarrow> (bytes \<Rightarrow> 'd) \<Rightarrow> ('i, 'd) TwoLevelIterator Iterator" where
  "TwoLevelOps io dops bf =
     \<lparr>it_Valid = (\<lambda>t. wvalid (data_iter t)),
      it_SeekToFirst = (\<lambda>t. the (TwoLevel_SeekToFirst io dops bf t)),
      it_SeekToLast = (\<lambda>t. the (TwoLevel_SeekToLast io dops bf t)),
      it_Seek = (\<lambda>t target. the (TwoLevel_Seek io dops bf t target)),
      it_Next = (\<lambda>t. the (TwoLevel_Next io dops bf t)),
      it_Prev = (\<lambda>t. the (TwoLevel_Prev io dops bf t)),
      it_key = (\<lambda>t. it_key (Wrapper dops) (data_iter t)),
      it_value = (\<lambda>t. it_value (Wrapper dops) (data_iter t)),
      it_status = TwoLevel_status io dops\<rparr>"


subsection \<open>Positions\<close>

definition blk :: "(bytes \<Rightarrow> (bytes \<times> bytes) list) \<Rightarrow> (bytes \<times> bytes) list \<Rightarrow> nat \<Rightarrow> (bytes \<times> bytes) list" where
  "blk blocks I b = blocks (snd (I ! b))"

definition all_pairs :: "(bytes \<Rightarrow> (bytes \<times> bytes) list) \<Rightarrow> (bytes \<times> bytes) list \<Rightarrow> (bytes \<times> bytes) list" where
  "all_pairs blocks I = concat (map (\<lambda>kh. blocks (snd kh)) I)"

definition start :: "(bytes \<Rightarrow> (bytes \<times> bytes) list) \<Rightarrow> (bytes \<times> bytes) list \<Rightarrow> nat \<Rightarrow> nat" where
  "start blocks I b = length (all_pairs blocks (take b I))"

text \<open>The key of an index entry separates its block from the next one.\<close>

definition index_wf ::
  "(bytes \<Rightarrow> bytes \<Rightarrow> int) \<Rightarrow> (bytes \<Rightarrow> bool) \<Rightarrow> (bytes \<Rightarrow> bool) \<Rightarrow> (bytes \<Rightarrow> (bytes \<times> bytes) list) \<Rightarrow>
   (bytes \<times> bytes) list \<Rightarrow> bool" where
  "index_wf cmp valid handle_ok blocks I \<longleftrightarrow> sorted_pairs cmp valid I \<and> (\<forall>kh\<in>set I. handle_ok (snd kh)) \<and>
     sorted_pairs cmp valid (all_pairs blocks I) \<and>
     (\<forall>b<length I. \<forall>kv\<in>set (blk blocks I b). cmp (fst kv) (fst (I ! b)) \<le> 0 \<and>
        (0 < b \<longrightarrow> cmp (fst (I ! (b - 1))) (fst kv) < 0))"

definition data_ok ::
  "'d Iterator \<Rightarrow> ('d \<Rightarrow> (bytes \<times> bytes) list \<Rightarrow> nat \<Rightarrow> bool) \<Rightarrow> (bytes \<Rightarrow> (bytes \<times> bytes) list) \<Rightarrow>
   ('i, 'd) TwoLevelIterator \<Rightarrow> bool" where
  "data_ok dops dpos blocks t \<longleftrightarrow> tl_status t = OK \<and>
     (if witer (data_iter t) = None then \<not> wvalid (data_iter t)
      else \<exists>q. wrapper_pos dops dpos (data_iter t) (blocks (data_block_handle t)) q)"

definition tl_at ::
  "'i Iterator \<Rightarrow> 'd Iterator \<Rightarrow> ('i \<Rightarrow> (bytes \<times> bytes) list \<Rightarrow> nat \<Rightarrow> bool) \<Rightarrow> ('d \<Rightarrow> (bytes \<times> bytes) list \<Rightarrow> nat \<Rightarrow> bool) \<Rightarrow>
   (bytes \<Rightarrow> (bytes \<times> bytes) list) \<Rightarrow> ('i, 'd) TwoLevelIterator \<Rightarrow> (bytes \<times> bytes) list \<Rightarrow> nat \<Rightarrow> nat \<Rightarrow> bool" where
  "tl_at io dops ipos dpos blocks t I b q \<longleftrightarrow> wrapper_pos io ipos (index_iter t) I b \<and> tl_status t = OK \<and>
     (if b < length I then data_block_handle t = snd (I ! b) \<and> wrapper_pos dops dpos (data_iter t) (blk blocks I b) q
      else q = 0 \<and> witer (data_iter t) = None \<and> \<not> wvalid (data_iter t))"

definition two_level_pos ::
  "(bytes \<Rightarrow> bytes \<Rightarrow> int) \<Rightarrow> (bytes \<Rightarrow> bool) \<Rightarrow> (bytes \<Rightarrow> bool) \<Rightarrow>
   'i Iterator \<Rightarrow> 'd Iterator \<Rightarrow> ('i \<Rightarrow> (bytes \<times> bytes) list \<Rightarrow> nat \<Rightarrow> bool) \<Rightarrow> ('d \<Rightarrow> (bytes \<times> bytes) list \<Rightarrow> nat \<Rightarrow> bool) \<Rightarrow>
   (bytes \<Rightarrow> (bytes \<times> bytes) list) \<Rightarrow> ('i, 'd) TwoLevelIterator \<Rightarrow> (bytes \<times> bytes) list \<Rightarrow> nat \<Rightarrow> bool" where
  "two_level_pos cmp valid handle_ok io dops ipos dpos blocks t M i \<longleftrightarrow>
     (\<exists>I b. M = all_pairs blocks I \<and> index_wf cmp valid handle_ok blocks I \<and>
        wrapper_pos io ipos (index_iter t) I b \<and> data_ok dops dpos blocks t \<and>
        (if i < length M then
           \<exists>q. tl_at io dops ipos dpos blocks t I b q \<and> b < length I \<and> q < length (blk blocks I b) \<and> i = start blocks I b + q
         else i = length M \<and> witer (data_iter t) = None))"

lemma start_0 [simp]: "start blocks I 0 = 0"
  by (simp add: start_def all_pairs_def)

lemma start_Suc: "b < length I \<Longrightarrow> start blocks I (Suc b) = start blocks I b + length (blk blocks I b)"
  by (simp add: start_def all_pairs_def blk_def take_Suc_conv_app_nth)

lemma start_all: "length I \<le> b \<Longrightarrow> start blocks I b = length (all_pairs blocks I)"
  by (simp add: start_def)

lemma all_pairs_split:
  assumes "b < length I"
  shows "all_pairs blocks I = all_pairs blocks (take b I) @ blk blocks I b @ all_pairs blocks (drop (Suc b) I)"
  unfolding all_pairs_def blk_def
  by (subst id_take_nth_drop [OF assms]) simp

lemma start_le: "b < length I \<Longrightarrow> start blocks I b + length (blk blocks I b) \<le> length (all_pairs blocks I)"
  using all_pairs_split [of b I blocks] by (simp add: start_def)

lemma all_pairs_nth:
  "b < length I \<Longrightarrow> q < length (blk blocks I b) \<Longrightarrow> all_pairs blocks I ! (start blocks I b + q) = blk blocks I b ! q"
  using all_pairs_split [of b I blocks] by (simp add: start_def nth_append)

locale two_level = index: iterator compare valid io ipos + data: iterator compare valid dops dpos
  for compare :: "bytes \<Rightarrow> bytes \<Rightarrow> int" and valid :: "bytes \<Rightarrow> bool"
    and io :: "'i Iterator" and ipos :: "'i \<Rightarrow> (bytes \<times> bytes) list \<Rightarrow> nat \<Rightarrow> bool"
    and dops :: "'d Iterator" and dpos :: "'d \<Rightarrow> (bytes \<times> bytes) list \<Rightarrow> nat \<Rightarrow> bool" +
  fixes handle_ok :: "bytes \<Rightarrow> bool" and bf :: "bytes \<Rightarrow> 'd" and blocks :: "bytes \<Rightarrow> (bytes \<times> bytes) list"
  assumes bf_pos: "handle_ok h \<Longrightarrow> \<exists>q. dpos (bf h) (blocks h) q"
begin

sublocale wi: iterator compare valid "Wrapper io" "wrapper_pos io ipos"
  by (rule index.wrapper_iterator)

sublocale wd: iterator compare valid "Wrapper dops" "wrapper_pos dops dpos"
  by (rule data.wrapper_iterator)

lemma at_data_ok: "tl_at io dops ipos dpos blocks t I b q \<Longrightarrow> data_ok dops dpos blocks t"
  by (auto simp: tl_at_def data_ok_def blk_def wrapper_pos_def wrapped_def split: if_splits)

lemma SetDataIterator_eq:
  assumes "data_ok dops dpos blocks t"
  shows "SetDataIterator dops t d = t\<lparr>data_iter := Wrapper_Set dops (data_iter t) d\<rparr>"
proof -
  have "it_status (Wrapper dops) (data_iter t) = OK" if "witer (data_iter t) \<noteq> None"
    using assms that wd.status_pos by (auto simp: data_ok_def)
  then show ?thesis by (simp add: SetDataIterator_def SaveError_def Let_def)
qed

lemma data_ok_handle: "data_ok dops dpos blocks t \<Longrightarrow> SetDataIterator dops (t\<lparr>data_block_handle := h\<rparr>) d =
    t\<lparr>data_block_handle := h, data_iter := Wrapper_Set dops (data_iter t) d\<rparr>"
  using wd.status_pos by (auto simp: SetDataIterator_def SaveError_def Let_def data_ok_def split: if_splits)

lemma Wrapper_Set_None [simp]:
  "witer (Wrapper_Set dops w None) = None" "\<not> wvalid (Wrapper_Set dops w None)"
  by (simp_all add: Wrapper_Set_def)

lemma Init_at:
  assumes "wrapper_pos io ipos (index_iter t) I b" "data_ok dops dpos blocks t" "\<forall>kh\<in>set I. handle_ok (snd kh)"
  shows "\<exists>q. tl_at io dops ipos dpos blocks (InitDataBlock io dops bf t) I b q"
proof (cases "b < length I")
  case False
  then have "InitDataBlock io dops bf t = t\<lparr>data_iter := Wrapper_Set dops (data_iter t) None\<rparr>"
    using wi.Valid_pos [OF assms(1)] SetDataIterator_eq [OF assms(2)] by (simp add: InitDataBlock_def)
  then show ?thesis using assms(1,2) False by (intro exI [of _ 0]) (simp add: tl_at_def data_ok_def)
next
  case True
  let ?h = "snd (I ! b)"
  have v: "it_Valid (Wrapper io) (index_iter t)" "it_value (Wrapper io) (index_iter t) = ?h"
    using wi.Valid_pos [OF assms(1)] wi.value_pos [OF assms(1)] True by simp_all
  show ?thesis
  proof (cases "witer (data_iter t) \<noteq> None \<and> Slice_compare ?h (data_block_handle t) = 0")
    case True
    then have "?h = data_block_handle t" by (simp add: Slice_compare_eq split: if_splits)
    then show ?thesis
      using True v assms(1,2) \<open>b < length I\<close>
      by (auto simp: InitDataBlock_def tl_at_def data_ok_def blk_def)
  next
    case False
    obtain q where q: "dpos (bf ?h) (blocks ?h) q" using bf_pos [of ?h] assms(3) \<open>b < length I\<close> by auto
    have "InitDataBlock io dops bf t = t\<lparr>data_block_handle := ?h, data_iter := Wrapper_Set dops (data_iter t) (Some (bf ?h))\<rparr>"
      using False v data_ok_handle [OF assms(2)] by (auto simp: InitDataBlock_def Let_def)
    moreover have "wrapper_pos dops dpos (Wrapper_Set dops (data_iter t) (Some (bf ?h))) (blocks ?h) q"
      using q wrapped_Set [of dops "data_iter t" "bf ?h"] by (auto simp: wrapper_pos_def)
    ultimately show ?thesis
      using assms(1,2) \<open>b < length I\<close> by (intro exI [of _ q]) (simp add: tl_at_def blk_def data_ok_def)
  qed
qed

lemma moved_at:
  assumes "wrapper_pos io ipos w I b" "data_ok dops dpos blocks t" "index_wf compare valid handle_ok blocks I"
  obtains q where "tl_at io dops ipos dpos blocks (InitDataBlock io dops bf (t\<lparr>index_iter := w\<rparr>)) I b q"
proof -
  have "data_ok dops dpos blocks (t\<lparr>index_iter := w\<rparr>)" using assms(2) by (simp add: data_ok_def)
  then show ?thesis using Init_at [of "t\<lparr>index_iter := w\<rparr>" I b] that assms(1,3) by (auto simp: index_wf_def)
qed

lemma on_data_at:
  assumes "tl_at io dops ipos dpos blocks t I b q"
    "b < length I \<Longrightarrow> wrapper_pos dops dpos (data_iter t) (blk blocks I b) q \<Longrightarrow> wrapper_pos dops dpos (f (data_iter t)) (blk blocks I b) q'"
    "\<not> b < length I \<Longrightarrow> q' = 0"
  shows "tl_at io dops ipos dpos blocks (on_data f t) I b q'"
  using assms by (auto simp: tl_at_def on_data_def wrapper_pos_def wrapped_def split: if_splits)

lemma at_end_pos:
  assumes "wrapper_pos io ipos (index_iter t) I b" "data_ok dops dpos blocks t" "index_wf compare valid handle_ok blocks I"
  shows "two_level_pos compare valid handle_ok io dops ipos dpos blocks (SetDataIterator dops t None) (all_pairs blocks I) (length (all_pairs blocks I))"
  using assms unfolding two_level_pos_def SetDataIterator_eq [OF assms(2)]
  by (intro exI [of _ I] exI [of _ b]) (simp add: data_ok_def)

lemma at_pos:
  assumes "tl_at io dops ipos dpos blocks t I b q" "index_wf compare valid handle_ok blocks I" "b < length I" "q < length (blk blocks I b)"
  shows "two_level_pos compare valid handle_ok io dops ipos dpos blocks t (all_pairs blocks I) (start blocks I b + q)"
  using assms at_data_ok [OF assms(1)] start_le [OF assms(3), of blocks] unfolding two_level_pos_def
  by (intro exI [of _ I] exI [of _ b]) (auto simp: tl_at_def)

lemma at_valid:
  assumes "tl_at io dops ipos dpos blocks t I b q"
  shows "witer (data_iter t) = None \<or> \<not> it_Valid (Wrapper dops) (data_iter t) \<longleftrightarrow> \<not> (b < length I \<and> q < length (blk blocks I b))"
  using assms wd.Valid_pos [of "data_iter t" "blk blocks I b" q]
  by (auto simp: tl_at_def wrapper_pos_def wrapped_def split: if_splits)


lemma Forward_at:
  assumes "tl_at io dops ipos dpos blocks t I b q" "index_wf compare valid handle_ok blocks I"
    "b < length I \<Longrightarrow> q \<le> length (blk blocks I b)" "b \<le> length I"
  shows "\<exists>t'. SkipEmptyDataBlocksForward io dops bf t = Some t' \<and>
    two_level_pos compare valid handle_ok io dops ipos dpos blocks t' (all_pairs blocks I) (start blocks I b + q)"
  using assms(1,3,4)
proof (induction "length I - b" arbitrary: t b q)
  case 0
  then have b: "\<not> b < length I" by simp
  then have q: "q = 0" "\<not> it_Valid (Wrapper io) (index_iter t)"
    using 0(2) wi.Valid_pos [of "index_iter t" I b] by (simp_all add: tl_at_def)
  have "SkipEmptyDataBlocksForward io dops bf t = Some (SetDataIterator dops t None)"
    using at_valid [OF 0(2)] b q(2) by (subst SkipEmptyDataBlocksForward.simps) simp
  then show ?case
    using at_end_pos [OF _ at_data_ok [OF 0(2)] assms(2), of b] 0(2) q(1) start_all [of I b blocks] b
    by (simp add: tl_at_def)
next
  case (Suc n)
  then have b: "b < length I" by linarith
  show ?case
  proof (cases "q < length (blk blocks I b)")
    case True
    then have "SkipEmptyDataBlocksForward io dops bf t = Some t"
      using at_valid [OF Suc(3)] b by (subst SkipEmptyDataBlocksForward.simps) auto
    then show ?thesis using at_pos [OF Suc(3) assms(2) b True] by simp
  next
    case False
    let ?t = "t\<lparr>index_iter := it_Next (Wrapper io) (index_iter t)\<rparr>"
    have w: "wrapper_pos io ipos (index_iter t) I b" using Suc(3) by (simp add: tl_at_def)
    obtain q' where q': "tl_at io dops ipos dpos blocks (InitDataBlock io dops bf ?t) I (Suc b) q'"
      by (rule moved_at [OF wi.Next_pos [OF w b] at_data_ok [OF Suc(3)] assms(2)])
    let ?t' = "on_data (it_SeekToFirst (Wrapper dops)) (InitDataBlock io dops bf ?t)"
    have "tl_at io dops ipos dpos blocks ?t' I (Suc b) 0"
      by (rule on_data_at [OF q']) (auto intro: wd.SeekToFirst_pos)
    moreover have "SkipEmptyDataBlocksForward io dops bf t = SkipEmptyDataBlocksForward io dops bf ?t'"
      using at_valid [OF Suc(3)] False wi.Valid_pos [OF w] b by (subst SkipEmptyDataBlocksForward.simps) simp
    moreover have "start blocks I b + q = start blocks I (Suc b) + 0"
      using start_Suc [OF b, of blocks] False Suc(4) b by simp
    ultimately show ?thesis using Suc(1) [of "Suc b" ?t' 0] Suc(2) b by simp
  qed
qed

lemma Backward_end:
  assumes "tl_at io dops ipos dpos blocks t I (length I) 0" "index_wf compare valid handle_ok blocks I"
  shows "\<exists>t'. SkipEmptyDataBlocksBackward io dops bf t = Some t' \<and>
    two_level_pos compare valid handle_ok io dops ipos dpos blocks t' (all_pairs blocks I) (length (all_pairs blocks I))"
proof -
  have "\<not> it_Valid (Wrapper io) (index_iter t)"
    using assms(1) wi.Valid_pos [of "index_iter t" I "length I"] by (simp add: tl_at_def)
  then have "SkipEmptyDataBlocksBackward io dops bf t = Some (SetDataIterator dops t None)"
    using at_valid [OF assms(1)] by (subst SkipEmptyDataBlocksBackward.simps) simp
  then show ?thesis
    using at_end_pos [OF _ at_data_ok [OF assms(1)] assms(2), of "length I"] assms(1) by (simp add: tl_at_def)
qed

text \<open>From inside a block; from behind a block, the last pair of it or of an earlier one.\<close>

lemma Backward_at:
  assumes "tl_at io dops ipos dpos blocks t I b q" "index_wf compare valid handle_ok blocks I" "b < length I"
    "q \<le> length (blk blocks I b)"
  shows "\<exists>t'. SkipEmptyDataBlocksBackward io dops bf t = Some t' \<and>
    two_level_pos compare valid handle_ok io dops ipos dpos blocks t' (all_pairs blocks I)
      (if q < length (blk blocks I b) then start blocks I b + q
       else if start blocks I b = 0 then length (all_pairs blocks I) else start blocks I b - 1)"
  using assms(1,3,4)
proof (induction b arbitrary: t q)
  case (0 t q)
  show ?case
  proof (cases "q < length (blk blocks I 0)")
    case True
    then have "SkipEmptyDataBlocksBackward io dops bf t = Some t"
      using at_valid [OF 0(1)] 0(2) by (subst SkipEmptyDataBlocksBackward.simps) auto
    then show ?thesis using at_pos [OF 0(1) assms(2) 0(2) True] True by simp
  next
    case False
    let ?t = "t\<lparr>index_iter := it_Prev (Wrapper io) (index_iter t)\<rparr>"
    have w: "wrapper_pos io ipos (index_iter t) I 0" using 0(1) by (simp add: tl_at_def)
    have "wrapper_pos io ipos (it_Prev (Wrapper io) (index_iter t)) I (length I)" using wi.Prev_pos [OF w 0(2)] by simp
    then obtain q' where q': "tl_at io dops ipos dpos blocks (InitDataBlock io dops bf ?t) I (length I) q'"
      by (rule moved_at [OF _ at_data_ok [OF 0(1)] assms(2)])
    let ?t' = "on_data (it_SeekToLast (Wrapper dops)) (InitDataBlock io dops bf ?t)"
    have "tl_at io dops ipos dpos blocks ?t' I (length I) 0" by (rule on_data_at [OF q']) auto
    moreover have "SkipEmptyDataBlocksBackward io dops bf t = SkipEmptyDataBlocksBackward io dops bf ?t'"
      using at_valid [OF 0(1)] False wi.Valid_pos [OF w] 0(2) by (subst SkipEmptyDataBlocksBackward.simps) simp
    ultimately show ?thesis using Backward_end [of ?t' I, OF _ assms(2)] False by simp
  qed
next
  case (Suc b t q)
  have b: "b < length I" using Suc(3) by simp
  show ?case
  proof (cases "q < length (blk blocks I (Suc b))")
    case True
    then have "SkipEmptyDataBlocksBackward io dops bf t = Some t"
      using at_valid [OF Suc(2)] Suc(3) by (subst SkipEmptyDataBlocksBackward.simps) auto
    then show ?thesis using at_pos [OF Suc(2) assms(2) Suc(3) True] True by simp
  next
    case False
    let ?t = "t\<lparr>index_iter := it_Prev (Wrapper io) (index_iter t)\<rparr>"
    have w: "wrapper_pos io ipos (index_iter t) I (Suc b)" using Suc(2) by (simp add: tl_at_def)
    have "wrapper_pos io ipos (it_Prev (Wrapper io) (index_iter t)) I b" using wi.Prev_pos [OF w Suc(3)] by simp
    then obtain q' where q': "tl_at io dops ipos dpos blocks (InitDataBlock io dops bf ?t) I b q'"
      by (rule moved_at [OF _ at_data_ok [OF Suc(2)] assms(2)])
    let ?t' = "on_data (it_SeekToLast (Wrapper dops)) (InitDataBlock io dops bf ?t)"
    have "tl_at io dops ipos dpos blocks ?t' I b (length (blk blocks I b) - 1)"
      by (rule on_data_at [OF q']) (use b in \<open>auto intro: wd.SeekToLast_pos [simplified]\<close>)
    note IH = Suc(1) [OF this b]
    moreover have "SkipEmptyDataBlocksBackward io dops bf t = SkipEmptyDataBlocksBackward io dops bf ?t'"
      using at_valid [OF Suc(2)] False wi.Valid_pos [OF w] Suc(3) by (subst SkipEmptyDataBlocksBackward.simps) simp
    ultimately show ?thesis
      using False start_Suc [OF b, of blocks]
      by (cases "blk blocks I b = []"; cases "start blocks I b = 0") (simp_all add: Suc_le_eq)
  qed
qed


abbreviation tpos where "tpos \<equiv> two_level_pos compare valid handle_ok io dops ipos dpos blocks"

lemma tposE:
  assumes "tpos t M i"
  obtains I b where "M = all_pairs blocks I" "index_wf compare valid handle_ok blocks I"
    "wrapper_pos io ipos (index_iter t) I b" "data_ok dops dpos blocks t"
  using assms by (auto simp: two_level_pos_def)

lemma tposD:
  assumes "tpos t M i" "i < length M"
  obtains I b q where "M = all_pairs blocks I" "index_wf compare valid handle_ok blocks I"
    "tl_at io dops ipos dpos blocks t I b q" "b < length I" "q < length (blk blocks I b)" "i = start blocks I b + q"
    "wrapper_pos dops dpos (data_iter t) (blk blocks I b) q" "M ! i = blk blocks I b ! q"
proof -
  obtain I b q where *: "M = all_pairs blocks I" "index_wf compare valid handle_ok blocks I"
    "tl_at io dops ipos dpos blocks t I b q" "b < length I" "q < length (blk blocks I b)" "i = start blocks I b + q"
    using assms by (auto simp: two_level_pos_def)
  then show ?thesis using that [OF *] all_pairs_nth [OF *(4,5)] by (simp add: tl_at_def)
qed

lemma TwoLevel_SeekToFirst_pos:
  assumes "tpos t M i"
  shows "\<exists>t'. TwoLevel_SeekToFirst io dops bf t = Some t' \<and> tpos t' M 0"
proof -
  obtain I b where t: "M = all_pairs blocks I" "index_wf compare valid handle_ok blocks I"
    "wrapper_pos io ipos (index_iter t) I b" "data_ok dops dpos blocks t" by (rule tposE [OF assms])
  obtain q where q: "tl_at io dops ipos dpos blocks
      (InitDataBlock io dops bf (t\<lparr>index_iter := it_SeekToFirst (Wrapper io) (index_iter t)\<rparr>)) I 0 q"
    by (rule moved_at [OF wi.SeekToFirst_pos [OF t(3)] t(4,2)])
  have "tl_at io dops ipos dpos blocks (on_data (it_SeekToFirst (Wrapper dops))
      (InitDataBlock io dops bf (t\<lparr>index_iter := it_SeekToFirst (Wrapper io) (index_iter t)\<rparr>))) I 0 0"
    by (rule on_data_at [OF q]) (auto intro: wd.SeekToFirst_pos)
  from Forward_at [OF this t(2)] show ?thesis by (simp add: TwoLevel_SeekToFirst_def t(1))
qed

lemma TwoLevel_SeekToLast_pos:
  assumes "tpos t M i"
  shows "\<exists>t'. TwoLevel_SeekToLast io dops bf t = Some t' \<and> tpos t' M (length M - 1)"
proof -
  obtain I b where t: "M = all_pairs blocks I" "index_wf compare valid handle_ok blocks I"
    "wrapper_pos io ipos (index_iter t) I b" "data_ok dops dpos blocks t" by (rule tposE [OF assms])
  let ?b = "length I - 1"
  obtain q where q: "tl_at io dops ipos dpos blocks
      (InitDataBlock io dops bf (t\<lparr>index_iter := it_SeekToLast (Wrapper io) (index_iter t)\<rparr>)) I ?b q"
    by (rule moved_at [OF wi.SeekToLast_pos [OF t(3)] t(4,2)])
  let ?t = "on_data (it_SeekToLast (Wrapper dops))
      (InitDataBlock io dops bf (t\<lparr>index_iter := it_SeekToLast (Wrapper io) (index_iter t)\<rparr>))"
  show ?thesis
  proof (cases "I = []")
    case True
    then have "tl_at io dops ipos dpos blocks ?t I (length I) 0" using on_data_at [OF q, of _ 0] by simp
    from Backward_end [OF this t(2)] show ?thesis using True by (simp add: TwoLevel_SeekToLast_def t(1) all_pairs_def)
  next
    case False
    then have b: "?b < length I" "Suc ?b = length I" by simp_all
    have "tl_at io dops ipos dpos blocks ?t I ?b (length (blk blocks I ?b) - 1)"
      using on_data_at [OF q, of "it_SeekToLast (Wrapper dops)"] wd.SeekToLast_pos b by blast
    from Backward_at [OF this t(2) b(1)] show ?thesis
      using start_Suc [OF b(1), of blocks] start_all [of I "Suc ?b" blocks] b(2)
      by (cases "blk blocks I ?b = []"; cases "start blocks I ?b = 0") (simp_all add: TwoLevel_SeekToLast_def t(1) Suc_le_eq)
  qed
qed

lemma TwoLevel_Next_pos:
  assumes "tpos t M i" "i < length M"
  shows "\<exists>t'. TwoLevel_Next io dops bf t = Some t' \<and> tpos t' M (Suc i)"
proof -
  obtain I b q where t: "M = all_pairs blocks I" "index_wf compare valid handle_ok blocks I"
    "tl_at io dops ipos dpos blocks t I b q" "b < length I" "q < length (blk blocks I b)" "i = start blocks I b + q"
    "wrapper_pos dops dpos (data_iter t) (blk blocks I b) q" by (rule tposD [OF assms])
  have "tl_at io dops ipos dpos blocks (t\<lparr>data_iter := it_Next (Wrapper dops) (data_iter t)\<rparr>) I b (Suc q)"
    using t(3,4) wd.Next_pos [OF t(7,5)] by (simp add: tl_at_def)
  from Forward_at [OF this t(2)] show ?thesis using t by (simp add: TwoLevel_Next_def)
qed

lemma TwoLevel_Prev_pos:
  assumes "tpos t M i" "i < length M"
  shows "\<exists>t'. TwoLevel_Prev io dops bf t = Some t' \<and> tpos t' M (if i = 0 then length M else i - 1)"
proof -
  obtain I b q where t: "M = all_pairs blocks I" "index_wf compare valid handle_ok blocks I"
    "tl_at io dops ipos dpos blocks t I b q" "b < length I" "q < length (blk blocks I b)" "i = start blocks I b + q"
    "wrapper_pos dops dpos (data_iter t) (blk blocks I b) q" by (rule tposD [OF assms])
  let ?q = "if q = 0 then length (blk blocks I b) else q - 1"
  have "tl_at io dops ipos dpos blocks (t\<lparr>data_iter := it_Prev (Wrapper dops) (data_iter t)\<rparr>) I b ?q"
    using t(3,4) wd.Prev_pos [OF t(7,5)] by (simp add: tl_at_def del: if_split)
  from Backward_at [OF this t(2,4)] show ?thesis
    using t(1,5,6) by (cases "q = 0"; cases "start blocks I b = 0") (simp_all add: TwoLevel_Prev_def less_imp_diff_less)
qed

text \<open>The index entry for a target leads to the first pair that is not before the target.\<close>

lemma index_seek:
  assumes "index_wf compare valid handle_ok blocks I" "valid target"
  defines "b \<equiv> seek_index compare I target"
  shows "seek_index compare (all_pairs blocks I) target =
    start blocks I b + (if b < length I then seek_index compare (blk blocks I b) target else 0)"
proof -
  let ?P = "\<lambda>kv. compare (fst kv) target < 0"
  have wf: "sorted_pairs compare valid I" "sorted_pairs compare valid (all_pairs blocks I)"
    "\<And>b kv. b < length I \<Longrightarrow> kv \<in> set (blk blocks I b) \<Longrightarrow> compare (fst kv) (fst (I ! b)) \<le> 0 \<and>
      (0 < b \<longrightarrow> compare (fst (I ! (b - 1))) (fst kv) < 0)"
    using assms(1) by (auto simp: index_wf_def)
  have vI: "valid (fst (I ! c))" if "c < length I" for c using wf(1) that by (simp add: sorted_pairs_def)
  have mem: "\<exists>c. c < length I \<and> P c \<and> kv \<in> set (blk blocks I c)"
    if "kv \<in> set (all_pairs blocks J)" "\<And>x. x \<in> set J \<Longrightarrow> \<exists>c. c < length I \<and> P c \<and> x = I ! c" for kv J P
    using that by (fastforce simp: all_pairs_def blk_def)
  have vkv: "valid (fst kv)" if "c < length I" "kv \<in> set (blk blocks I c)" for c kv
    using wf(2) that by (auto simp: sorted_pairs_def all_pairs_def blk_def)
  have before: "?P kv" if "c < b" "c < length I" "kv \<in> set (blk blocks I c)" for c kv
  proof -
    have "?P (I ! c)" using that(1,2) index.seek_index_split [OF wf(1) assms(2)] by (simp add: b_def)
    then show ?thesis using wf(3) [OF that(2,3)] index.compare_le_less_trans vkv [OF that(2,3)] vI [OF that(2)] assms(2) by blast
  qed
  have after: "\<not> ?P kv" if "b < c" "c < length I" "kv \<in> set (blk blocks I c)" for c kv
  proof
    assume "?P kv"
    have c1: "c - 1 < length I" using that by simp
    have "compare (fst (I ! (c - 1))) (fst kv) < 0" using wf(3) [OF that(2,3)] that(1) by simp
    then have "?P (I ! (c - 1))"
      using \<open>?P kv\<close> index.compare_less_trans [of "fst (I ! (c - 1))" "fst kv" target] vI [OF c1] vkv [OF that(2,3)] assms(2) by simp
    then show False using index.seek_index_split [OF wf(1) assms(2) c1] that(1) by (simp add: b_def)
  qed
  have A: "\<forall>kv\<in>set (all_pairs blocks (take b I)). ?P kv"
  proof
    fix kv assume kv: "kv \<in> set (all_pairs blocks (take b I))"
    have "\<exists>c. c < length I \<and> c < b \<and> kv \<in> set (blk blocks I c)"
      by (rule mem [OF kv]) (auto simp: in_set_conv_nth)
    then show "?P kv" using before by blast
  qed
  show ?thesis
  proof (cases "b < length I")
    case False
    then have "all_pairs blocks (take b I) = all_pairs blocks I" by simp
    then show ?thesis using A False by (simp add: seek_index_def start_def takeWhile_eq_all_conv [THEN iffD2])
  next
    case True
    let ?C = "all_pairs blocks (drop (Suc b) I)"
    have C: "\<not> ?P kv" if kv: "kv \<in> set ?C" for kv
    proof -
      have "\<exists>c. c < length I \<and> b < c \<and> kv \<in> set (blk blocks I c)"
      proof (rule mem [OF kv])
        fix x assume "x \<in> set (drop (Suc b) I)"
        then obtain k where "k < length I - Suc b" "x = I ! (Suc b + k)" by (auto simp: in_set_conv_nth)
        then show "\<exists>c. c < length I \<and> b < c \<and> x = I ! c" by (intro exI [of _ "Suc b + k"]) simp
      qed
      then show ?thesis using after by blast
    qed
    then have "takeWhile ?P ?C = []" by (cases ?C) auto
    then have "length (takeWhile ?P (blk blocks I b @ ?C)) = length (takeWhile ?P (blk blocks I b))"
      by (cases "\<forall>kv\<in>set (blk blocks I b). ?P kv") (auto simp: takeWhile_append1 takeWhile_append2 takeWhile_eq_all_conv [THEN iffD2])
    then show ?thesis
      using True A by (simp add: seek_index_def all_pairs_split [OF True] takeWhile_append2 start_def)
  qed
qed

lemma TwoLevel_Seek_pos:
  assumes "tpos t M i" "valid target"
  shows "\<exists>t'. TwoLevel_Seek io dops bf t target = Some t' \<and> tpos t' M (seek_index compare M target)"
proof -
  obtain I b where t: "M = all_pairs blocks I" "index_wf compare valid handle_ok blocks I"
    "wrapper_pos io ipos (index_iter t) I b" "data_ok dops dpos blocks t" by (rule tposE [OF assms(1)])
  let ?b = "seek_index compare I target"
  let ?q = "if ?b < length I then seek_index compare (blk blocks I ?b) target else 0"
  obtain q where q: "tl_at io dops ipos dpos blocks
      (InitDataBlock io dops bf (t\<lparr>index_iter := it_Seek (Wrapper io) (index_iter t) target\<rparr>)) I ?b q"
    by (rule moved_at [OF wi.Seek_pos [OF t(3) assms(2)] t(4,2)])
  have "tl_at io dops ipos dpos blocks (on_data (\<lambda>w. it_Seek (Wrapper dops) w target)
      (InitDataBlock io dops bf (t\<lparr>index_iter := it_Seek (Wrapper io) (index_iter t) target\<rparr>))) I ?b ?q"
    by (rule on_data_at [OF q]) (auto intro: wd.Seek_pos [OF _ assms(2)])
  from Forward_at [OF this t(2)] show ?thesis
    using index_seek [OF t(2) assms(2)] by (simp add: TwoLevel_Seek_def t(1) seek_index_def length_takeWhile_le)
qed

lemma two_level_iterator:
  "iterator compare valid (TwoLevelOps io dops bf) (two_level_pos compare valid handle_ok io dops ipos dpos blocks)"
proof (intro iterator.intro index.key_order_axioms iterator_axioms.intro, goal_cases)
  case (1 t M i) then show ?case by (auto simp: two_level_pos_def index_wf_def)
next
  case (2 t M i) then show ?case by (auto simp: two_level_pos_def split: if_splits)
next
  case (3 t M i)
  show ?case
  proof (cases "i < length M")
    case True
    have "it_Valid (Wrapper dops) (data_iter t)" by (rule tposD [OF 3 True]) (simp add: wd.Valid_pos)
    then have "wvalid (data_iter t)" by (simp add: Wrapper_def)
    then show ?thesis using True by (simp add: TwoLevelOps_def)
  next
    case False
    then show ?thesis using 3 by (auto simp: two_level_pos_def data_ok_def TwoLevelOps_def)
  qed
next
  case (4 t M i) show ?case by (rule tposD [OF 4]) (simp add: TwoLevelOps_def wd.key_pos)
next
  case (5 t M i) show ?case by (rule tposD [OF 5]) (simp add: TwoLevelOps_def wd.value_pos)
next
  case (6 t M i)
  show ?case
    by (rule tposE [OF 6])
      (auto simp: TwoLevelOps_def TwoLevel_status_def data_ok_def wi.status_pos wd.status_pos split: if_splits)
next
  case (7 t M i) then show ?case using TwoLevel_SeekToFirst_pos by (fastforce simp: TwoLevelOps_def)
next
  case (8 t M i) then show ?case using TwoLevel_SeekToLast_pos [OF 8] by (auto simp: TwoLevelOps_def)
next
  case (9 t M i target) then show ?case using TwoLevel_Seek_pos [OF 9] by (auto simp: TwoLevelOps_def)
next
  case (10 t M i) then show ?case using TwoLevel_Next_pos [OF 10] by (auto simp: TwoLevelOps_def)
next
  case (11 t M i) then show ?case using TwoLevel_Prev_pos [OF 11] by (auto simp: TwoLevelOps_def)
qed

end


subsection \<open>Sequences of operations\<close>

fun TwoLevel_move ::
  "'i Iterator \<Rightarrow> 'd Iterator \<Rightarrow> (bytes \<Rightarrow> 'd) \<Rightarrow> ('i, 'd) TwoLevelIterator \<Rightarrow> Move \<Rightarrow>
   ('i, 'd) TwoLevelIterator option" where
  "TwoLevel_move io dops bf t MFirst = TwoLevel_SeekToFirst io dops bf t"
| "TwoLevel_move io dops bf t MLast = TwoLevel_SeekToLast io dops bf t"
| "TwoLevel_move io dops bf t (MSeek target) = TwoLevel_Seek io dops bf t target"
| "TwoLevel_move io dops bf t MNext = (if wvalid (data_iter t) then TwoLevel_Next io dops bf t else Some t)"
| "TwoLevel_move io dops bf t MPrev = (if wvalid (data_iter t) then TwoLevel_Prev io dops bf t else Some t)"

fun TwoLevel_run ::
  "'i Iterator \<Rightarrow> 'd Iterator \<Rightarrow> (bytes \<Rightarrow> 'd) \<Rightarrow> ('i, 'd) TwoLevelIterator \<Rightarrow> Move list \<Rightarrow>
   ('i, 'd) TwoLevelIterator option" where
  "TwoLevel_run io dops bf t [] = Some t"
| "TwoLevel_run io dops bf t (m # ms) =
     Option.bind (TwoLevel_move io dops bf t m) (\<lambda>t. TwoLevel_run io dops bf t ms)"

context two_level
begin

lemma run_pos:
  assumes "tpos t M i" "\<forall>target. MSeek target \<in> set ms \<longrightarrow> valid target"
  shows "\<exists>t'. TwoLevel_run io dops bf t ms = Some t' \<and> tpos t' M (foldl (cursor_move compare M) i ms)"
  using assms
proof (induction ms arbitrary: t i)
  case (Cons m ms)
  have v: "wvalid (data_iter t) \<longleftrightarrow> i < length M"
    using iterator.Valid_pos [OF two_level_iterator, OF Cons(2)] by (simp add: TwoLevelOps_def)
  have "\<exists>t'. TwoLevel_move io dops bf t m = Some t' \<and> tpos t' M (cursor_move compare M i m)"
  proof (cases m)
    case MFirst then show ?thesis using TwoLevel_SeekToFirst_pos [OF Cons(2)] by simp
  next
    case MLast then show ?thesis using TwoLevel_SeekToLast_pos [OF Cons(2)] by simp
  next
    case (MSeek target) then show ?thesis using TwoLevel_Seek_pos [OF Cons(2), of target] Cons(3) by simp
  next
    case MNext then show ?thesis using TwoLevel_Next_pos [OF Cons(2)] Cons(2) v by simp
  next
    case MPrev then show ?thesis using TwoLevel_Prev_pos [OF Cons(2)] Cons(2) v by simp
  qed
  then obtain t' where t': "TwoLevel_move io dops bf t m = Some t'" "tpos t' M (cursor_move compare M i m)" by blast
  have "\<forall>target. MSeek target \<in> set ms \<longrightarrow> valid target" using Cons(3) by simp
  from Cons(1) [OF t'(2) this] show ?case using t'(1) by simp
qed simp

lemma new_pos:
  assumes "ipos it I b" "index_wf compare valid handle_ok blocks I"
  shows "tpos (TwoLevelIterator_new io it) (all_pairs blocks I) (length (all_pairs blocks I))"
proof -
  have "wrapper_pos io ipos (Wrapper_Set io Wrapper_new (Some it)) I b"
    using assms(1) wrapped_Set [of io Wrapper_new it] by (auto simp: wrapper_pos_def)
  then show ?thesis
    using assms(2) unfolding two_level_pos_def
    by (intro exI [of _ I] exI [of _ b]) (simp add: TwoLevelIterator_new_def data_ok_def Wrapper_new_def)
qed

end

lemma two_level_runs:
  assumes "two_level compare valid io ipos dops dpos handle_ok bf blocks"
    and "ipos it I b" "index_wf compare valid handle_ok blocks I" "\<forall>target. MSeek target \<in> set ms \<longrightarrow> valid target"
  shows "\<exists>t. TwoLevel_run io dops bf (TwoLevelIterator_new io it) ms = Some t \<and>
    view (TwoLevelOps io dops bf) t =
    cursor_view (all_pairs blocks I)
      (foldl (cursor_move compare (all_pairs blocks I)) (length (all_pairs blocks I)) ms) \<and>
    it_status (TwoLevelOps io dops bf) t = OK"
proof -
  let ?M = "all_pairs blocks I" and ?pos = "two_level_pos compare valid handle_ok io dops ipos dpos blocks"
  let ?j = "foldl (cursor_move compare ?M) (length ?M) ms"
  have it: "iterator compare valid (TwoLevelOps io dops bf) ?pos" by (rule two_level.two_level_iterator [OF assms(1)])
  have "?pos (TwoLevelIterator_new io it) ?M (length ?M)" by (rule two_level.new_pos [OF assms(1-3)])
  then have "\<exists>t. TwoLevel_run io dops bf (TwoLevelIterator_new io it) ms = Some t \<and> ?pos t ?M ?j"
    by (rule two_level.run_pos [OF assms(1) _ assms(4)])
  then obtain t where t: "TwoLevel_run io dops bf (TwoLevelIterator_new io it) ms = Some t" "?pos t ?M ?j" by (elim exE conjE)
  have "view (TwoLevelOps io dops bf) t = cursor_view ?M ?j"
    by (rule iterator.view_pos [OF it, OF t(2)])
  then show ?thesis using t(1) iterator.status_pos [OF it, OF t(2)] by blast
qed

text \<open>C22: When the index entries separate the blocks they name and the iterators of index and blocks
  meet the contract of iterators, every sequence of operations on the two-level iterator returns, and
  leaves it where a cursor on the concatenation of the blocks would be; blocks may be empty.\<close>

theorem two_level_refines_cursor:
  assumes "two_level compare valid io ipos dops dpos handle_ok bf blocks"
    and "ipos it I b" "index_wf compare valid handle_ok blocks I" "\<forall>target. MSeek target \<in> set ms \<longrightarrow> valid target"
  shows "\<exists>t. TwoLevel_run io dops bf (TwoLevelIterator_new io it) ms = Some t \<and>
    view (TwoLevelOps io dops bf) t =
    cursor_view (all_pairs blocks I)
      (foldl (cursor_move compare (all_pairs blocks I)) (length (all_pairs blocks I)) ms) \<and>
    it_status (TwoLevelOps io dops bf) t = OK"
  by (rule two_level_runs [OF assms(1), OF assms(2-4)])

end
