(* ===== verification/Table_Format.thy ===== *)
theory Table_Format
  imports Crc32c Files Two_Level
begin

text \<open>
  The format of table files, \<open>table/format.h\<close> and \<open>table/format.cc\<close>: block handles, the footer and
  reading a block back with its type and checksum. Compression is a parameter: the three functions of
  the port layer that call the compression library.
\<close>

record BlockHandle =
  bh_offset :: uint64
  bh_size :: uint64

definition BlockHandle_new :: BlockHandle where
  "BlockHandle_new = \<lparr>bh_offset = NOT 0, bh_size = NOT 0\<rparr>"

definition BlockHandle_EncodeTo :: "BlockHandle \<Rightarrow> bytes \<Rightarrow> bytes" where
  "BlockHandle_EncodeTo h dst = PutVarint64 (PutVarint64 dst (bh_offset h)) (bh_size h)"

text \<open>A handle and the rest of the input, or an error.\<close>

definition BlockHandle_DecodeFrom :: "bytes \<Rightarrow> Status + BlockHandle \<times> bytes" where
  "BlockHandle_DecodeFrom input =
     (case GetVarint64 input of
        None \<Rightarrow> Inl (Corruption ''bad block handle'' [])
      | Some (offset, input) \<Rightarrow>
          (case GetVarint64 input of
             None \<Rightarrow> Inl (Corruption ''bad block handle'' [])
           | Some (sz, input) \<Rightarrow> Inr (\<lparr>bh_offset = offset, bh_size = sz\<rparr>, input)))"

definition kMaxEncodedLength :: nat where "kMaxEncodedLength = 10 + 10"

definition kEncodedLength :: nat where "kEncodedLength = 2 * kMaxEncodedLength + 8"

definition kTableMagicNumber :: uint64 where "kTableMagicNumber = 0xdb4775248b80fb57"

definition kBlockTrailerSize :: nat where "kBlockTrailerSize = 5"

lemmas table_consts = kMaxEncodedLength_def kEncodedLength_def kBlockTrailerSize_def

record Footer =
  metaindex_handle :: BlockHandle
  index_handle :: BlockHandle

text \<open>\<open>resize\<close> cuts or pads to the given length, whatever was in the string before.\<close>

definition resize :: "bytes \<Rightarrow> nat \<Rightarrow> bytes" where
  "resize s n = take n s @ replicate (n - length s) 0"

definition Footer_EncodeTo :: "Footer \<Rightarrow> bytes \<Rightarrow> bytes" where
  "Footer_EncodeTo f dst =
     (let dst = BlockHandle_EncodeTo (metaindex_handle f) dst;
          dst = BlockHandle_EncodeTo (index_handle f) dst;
          dst = resize dst (2 * kMaxEncodedLength);
          dst = PutFixed32 dst (ucast (kTableMagicNumber AND 0xffffffff))
      in PutFixed32 dst (ucast (drop_bit 32 kTableMagicNumber)))"

definition Footer_DecodeFrom :: "bytes \<Rightarrow> Status + Footer \<times> bytes" where
  "Footer_DecodeFrom input =
     (let magic_ptr = drop (kEncodedLength - 8) input;
          magic_lo = DecodeFixed32 magic_ptr;
          magic_hi = DecodeFixed32 (drop 4 magic_ptr);
          magic = push_bit 32 (ucast magic_hi) OR ucast magic_lo
      in if magic \<noteq> kTableMagicNumber
         then Inl (InvalidArgument ''not an sstable (bad magic number)'' [])
         else
           (case BlockHandle_DecodeFrom input of
              Inl s \<Rightarrow> Inl s
            | Inr (m, input') \<Rightarrow>
                (case BlockHandle_DecodeFrom input' of
                   Inl s \<Rightarrow> Inl s
                 | Inr (i, _) \<Rightarrow>
                     Inr (\<lparr>metaindex_handle = m, index_handle = i\<rparr>, drop kEncodedLength input))))"

record Snappy =
  Snappy_Compress :: "bytes \<Rightarrow> bytes option"
  Snappy_GetUncompressedLength :: "bytes \<Rightarrow> nat option"
  Snappy_Uncompress :: "bytes \<Rightarrow> bytes option"

datatype CompressionType = kNoCompression | kSnappyCompression

fun compression_code :: "CompressionType \<Rightarrow> byte" where
  "compression_code kNoCompression = 0"
| "compression_code kSnappyCompression = 1"

record ReadOptions =
  verify_checksums :: bool
  fill_cache :: bool

definition ReadOptions_new :: ReadOptions where
  "ReadOptions_new = \<lparr>verify_checksums = False, fill_cache = True\<rparr>"

text \<open>The number of bytes to read is a sum in 64 bits. Where it wraps, which needs a corrupt handle, the source reads behind
  its buffer, and what follows is not specified here either.\<close>

definition ReadBlock ::
  "Snappy \<Rightarrow> 'f RandomAccessFile \<Rightarrow> 'f \<Rightarrow> ReadOptions \<Rightarrow> BlockHandle \<Rightarrow> Status + Block" where
  "ReadBlock sn ops f options handle =
     (let n = unat (bh_size handle);
          want = unat (bh_size handle + of_nat kBlockTrailerSize);
          (s, contents) = ra_Read ops f (unat (bh_offset handle)) want
      in if \<not> ok s then Inl s
         else if length contents \<noteq> want
         then Inl (Corruption ''truncated block read'' [])
         else if verify_checksums options \<and>
                 Value (take (n + 1) contents) \<noteq> Unmask (DecodeFixed32 (drop (n + 1) contents))
         then Inl (Corruption ''block checksum mismatch'' [])
         else if contents ! n = compression_code kNoCompression
         then Inr (Block_new (take n contents))
         else if contents ! n = compression_code kSnappyCompression
         then
           (case Snappy_GetUncompressedLength sn (take n contents) of
              None \<Rightarrow> Inl (Corruption ''corrupted compressed block contents'' [])
            | Some ulength \<Rightarrow>
                (case Snappy_Uncompress sn (take n contents) of
                   None \<Rightarrow> Inl (Corruption ''corrupted compressed block contents'' [])
                 | Some ubuf \<Rightarrow> Inr (Block_new (take ulength ubuf))))
         else Inl (Corruption ''bad block type'' []))"

subsection \<open>Handles and footers\<close>

lemma BlockHandle_roundtrip [roundtrip, simp]:
  "BlockHandle_DecodeFrom (BlockHandle_EncodeTo h [] @ rest) = Inr (h, rest)"
  by (simp add: BlockHandle_DecodeFrom_def BlockHandle_EncodeTo_def PutVarint64_def roundtrip)

lemma BlockHandle_EncodeTo_append: "BlockHandle_EncodeTo h dst = dst @ BlockHandle_EncodeTo h []"
  by (simp add: BlockHandle_EncodeTo_def PutVarint64_def)

lemma BlockHandle_length: "length (BlockHandle_EncodeTo h []) \<le> kMaxEncodedLength"
  using EncodeVarint64_length [of "bh_offset h"] EncodeVarint64_length [of "bh_size h"]
  by (simp add: BlockHandle_EncodeTo_def PutVarint64_def table_consts)

lemma Footer_EncodeTo_eq:
  obtains pad where "Footer_EncodeTo f [] = (BlockHandle_EncodeTo (metaindex_handle f) [] @
      BlockHandle_EncodeTo (index_handle f) [] @ pad) @ EncodeFixed32 0x8b80fb57 @ EncodeFixed32 0xdb477524"
    "length (BlockHandle_EncodeTo (metaindex_handle f) [] @ BlockHandle_EncodeTo (index_handle f) [] @ pad) = 40"
proof
  let ?b = "BlockHandle_EncodeTo (metaindex_handle f) [] @ BlockHandle_EncodeTo (index_handle f) []"
  let ?pad = "replicate (40 - length ?b) (0 :: byte)"
  have len: "length ?b \<le> 40"
    using BlockHandle_length [of "metaindex_handle f"] BlockHandle_length [of "index_handle f"] by (simp add: table_consts)
  have lo: "(ucast (kTableMagicNumber AND 0xffffffff) :: uint32) = 0x8b80fb57" by code_simp
  have hi: "(ucast (drop_bit 32 kTableMagicNumber) :: uint32) = 0xdb477524" by code_simp
  show "Footer_EncodeTo f [] = (BlockHandle_EncodeTo (metaindex_handle f) [] @
      BlockHandle_EncodeTo (index_handle f) [] @ ?pad) @ EncodeFixed32 0x8b80fb57 @ EncodeFixed32 0xdb477524"
    using len unfolding Footer_EncodeTo_def Let_def lo hi
    by (subst BlockHandle_EncodeTo_append) (simp add: PutFixed32_def resize_def table_consts)
  show "length (BlockHandle_EncodeTo (metaindex_handle f) [] @ BlockHandle_EncodeTo (index_handle f) [] @ ?pad) = 40"
    using len by simp
qed

lemma Footer_read_back:
  "length (Footer_EncodeTo f []) = kEncodedLength \<and> Footer_DecodeFrom (Footer_EncodeTo f [] @ rest) = Inr (f, rest)"
proof -
  let ?m = "BlockHandle_EncodeTo (metaindex_handle f) []" and ?i = "BlockHandle_EncodeTo (index_handle f) []"
  obtain pad where e: "Footer_EncodeTo f [] = (?m @ ?i @ pad) @ EncodeFixed32 0x8b80fb57 @ EncodeFixed32 0xdb477524"
    and len: "length (?m @ ?i @ pad) = 40" by (rule Footer_EncodeTo_eq)
  have magic: "push_bit 32 (ucast (0xdb477524 :: uint32)) OR ucast (0x8b80fb57 :: uint32) = kTableMagicNumber" by code_simp
  have d: "drop 40 (Footer_EncodeTo f [] @ rest) = EncodeFixed32 0x8b80fb57 @ EncodeFixed32 0xdb477524 @ rest"
    "drop 48 (Footer_EncodeTo f [] @ rest) = rest"
    unfolding e using len by simp_all
  have l: "length (Footer_EncodeTo f []) = kEncodedLength" unfolding e using len by (simp add: table_consts)
  have h: "BlockHandle_DecodeFrom (Footer_EncodeTo f [] @ rest) =
      Inr (metaindex_handle f, ?i @ pad @ EncodeFixed32 0x8b80fb57 @ EncodeFixed32 0xdb477524 @ rest)"
    unfolding e append.assoc by simp
  show ?thesis using l d h magic by (simp add: Footer_DecodeFrom_def Let_def table_consts)
qed

text \<open>C23: A footer written to an empty string takes exactly 48 bytes and is read back as it was, whatever
  follows it.\<close>

theorem Footer_roundtrip:
  "length (Footer_EncodeTo f []) = kEncodedLength \<and> Footer_DecodeFrom (Footer_EncodeTo f [] @ rest) = Inr (f, rest)"
  by (rule Footer_read_back)

text \<open>On a string that is not empty \<open>Footer::EncodeTo\<close> pads to an absolute instead of a relative
  length: two handles of 20 bytes written behind one byte lose their last byte, so the string does
  not grow by the 48 bytes that the assertion at the end expects.\<close>

theorem Footer_EncodeTo_nonempty:
  "length (Footer_EncodeTo f [b]) = kEncodedLength"
  by (simp add: Footer_EncodeTo_def Let_def PutFixed32_def resize_def table_consts)

end
