(* ===== verification/Table.thy ===== *)
theory Table
  imports Table_Format
begin

text \<open>
  Table files: the builder of \<open>table/table_builder.cc\<close>, which cuts a sequence of sorted pairs into
  blocks, and the reader of \<open>table/table.cc\<close>, a two-level iterator over the index block and the
  data blocks.
\<close>

subsection \<open>Builder\<close>

record Options =
  opt_comparator :: Comparator
  block_size :: nat
  opt_restart_interval :: nat
  compression :: CompressionType

record 'w TableBuilder =
  tb_options :: Options
  tb_file :: 'w
  tb_offset :: uint64
  tb_status :: Status
  data_block :: BlockBuilder
  index_block :: BlockBuilder
  tb_last_key :: bytes
  num_entries :: nat
  closed :: bool
  pending_index_entry :: bool
  pending_handle :: BlockHandle

definition TableBuilder_new :: "Options \<Rightarrow> 'w \<Rightarrow> 'w TableBuilder" where
  "TableBuilder_new options f =
     \<lparr>tb_options = options, tb_file = f, tb_offset = 0, tb_status = OK,
      data_block = BlockBuilder_new (opt_restart_interval options), index_block = BlockBuilder_new 1,
      tb_last_key = [], num_entries = 0, closed = False, pending_index_entry = False,
      pending_handle = BlockHandle_new\<rparr>"

text \<open>
  The comparators are compared by address in the source, here by the name that identifies them. The
  block builders refer to the options, so their restart intervals change with them.
\<close>

definition TableBuilder_ChangeOptions :: "'w TableBuilder \<Rightarrow> Options \<Rightarrow> Status \<times> 'w TableBuilder" where
  "TableBuilder_ChangeOptions r options =
     (if Name (opt_comparator options) \<noteq> Name (opt_comparator (tb_options r))
      then (InvalidArgument ''changing comparator while building table'' [], r)
      else
        (OK, r\<lparr>tb_options := options,
               data_block := (data_block r)\<lparr>block_restart_interval := opt_restart_interval options\<rparr>,
               index_block := (index_block r)\<lparr>block_restart_interval := 1\<rparr>\<rparr>))"

text \<open>The contents to store for a finished block and the type that says how.\<close>

definition compress_block :: "Snappy \<Rightarrow> CompressionType \<Rightarrow> bytes \<Rightarrow> bytes \<times> CompressionType" where
  "compress_block sn type raw =
     (case type of
        kNoCompression \<Rightarrow> (raw, kNoCompression)
      | kSnappyCompression \<Rightarrow>
          (case Snappy_Compress sn raw of
             Some compressed \<Rightarrow>
               if length compressed < length raw - length raw div 8
               then (compressed, kSnappyCompression) else (raw, kNoCompression)
           | None \<Rightarrow> (raw, kNoCompression)))"

definition block_trailer :: "bytes \<Rightarrow> CompressionType \<Rightarrow> bytes" where
  "block_trailer contents type =
     (let t = compression_code type;
          crc = Extend (Value contents) [t]
      in t # EncodeFixed32 (Mask crc))"

text \<open>Writes the block and gives its handle and the reset builder.\<close>

definition WriteBlock ::
  "Snappy \<Rightarrow> 'w WritableFile \<Rightarrow> 'w TableBuilder \<Rightarrow> BlockBuilder \<Rightarrow> BlockHandle \<times> BlockBuilder \<times> 'w TableBuilder" where
  "WriteBlock sn ops r block =
     (let (raw, block) = BlockBuilder_Finish block;
          (contents, type) = compress_block sn (compression (tb_options r)) raw;
          handle = \<lparr>bh_offset = tb_offset r, bh_size = of_nat (length contents)\<rparr>;
          (s, f) = wf_Append ops (tb_file r) contents;
          r = r\<lparr>tb_status := s, tb_file := f\<rparr>;
          r = (if s = OK then
                 (let (s, f) = wf_Append ops (tb_file r) (block_trailer contents type);
                      r = r\<lparr>tb_status := s, tb_file := f\<rparr>
                  in if s = OK
                     then r\<lparr>tb_offset := tb_offset r + (of_nat (length contents) + of_nat kBlockTrailerSize)\<rparr> else r)
               else r)
      in (handle, BlockBuilder_Reset block, r))"

definition TableBuilder_Flush :: "Snappy \<Rightarrow> 'w WritableFile \<Rightarrow> 'w TableBuilder \<Rightarrow> 'w TableBuilder" where
  "TableBuilder_Flush sn ops r =
     (if tb_status r \<noteq> OK then r
      else if BlockBuilder_empty (data_block r) then r
      else
        (let (handle, block, r) = WriteBlock sn ops r (data_block r);
             r = r\<lparr>data_block := block, pending_handle := handle\<rparr>
         in if tb_status r = OK then
              (let (s, f) = wf_Flush ops (tb_file r)
               in r\<lparr>pending_index_entry := True, tb_status := s, tb_file := f\<rparr>)
            else r))"

definition add_index_entry :: "'w TableBuilder \<Rightarrow> bytes \<Rightarrow> 'w TableBuilder" where
  "add_index_entry r key =
     r\<lparr>tb_last_key := key,
       index_block := BlockBuilder_Add (index_block r) key (BlockHandle_EncodeTo (pending_handle r) []),
       pending_index_entry := False\<rparr>"

definition TableBuilder_Add ::
  "Snappy \<Rightarrow> 'w WritableFile \<Rightarrow> 'w TableBuilder \<Rightarrow> bytes \<Rightarrow> bytes \<Rightarrow> 'w TableBuilder" where
  "TableBuilder_Add sn ops r key value =
     (if tb_status r \<noteq> OK then r
      else
        (let r = (if pending_index_entry r
                  then add_index_entry r (FindShortestSeparator (opt_comparator (tb_options r)) (tb_last_key r) key)
                  else r);
             r = r\<lparr>tb_last_key := key, num_entries := num_entries r + 1,
                   data_block := BlockBuilder_Add (data_block r) key value\<rparr>
         in if CurrentSizeEstimate (data_block r) \<ge> block_size (tb_options r)
            then TableBuilder_Flush sn ops r else r))"

definition TableBuilder_Finish :: "Snappy \<Rightarrow> 'w WritableFile \<Rightarrow> 'w TableBuilder \<Rightarrow> Status \<times> 'w TableBuilder" where
  "TableBuilder_Finish sn ops r =
     (let r = (TableBuilder_Flush sn ops r)\<lparr>closed := True\<rparr>;
          (meta, r) =
            (if tb_status r = OK then
               (let (h, _, r) = WriteBlock sn ops r (BlockBuilder_new (opt_restart_interval (tb_options r))) in (h, r))
             else (BlockHandle_new, r));
          (index, r) =
            (if tb_status r = OK then
               (let r = (if pending_index_entry r
                         then add_index_entry r (FindShortSuccessor (opt_comparator (tb_options r)) (tb_last_key r))
                         else r);
                    (h, block, r) = WriteBlock sn ops r (index_block r)
                in (h, r\<lparr>index_block := block\<rparr>))
             else (BlockHandle_new, r));
          r = (if tb_status r = OK then
                 (let footer = Footer_EncodeTo \<lparr>metaindex_handle = meta, index_handle = index\<rparr> [];
                      (s, f) = wf_Append ops (tb_file r) footer;
                      r = r\<lparr>tb_status := s, tb_file := f\<rparr>
                  in if s = OK then r\<lparr>tb_offset := tb_offset r + of_nat (length footer)\<rparr> else r)
               else r)
      in (tb_status r, r))"

definition TableBuilder_Abandon :: "'w TableBuilder \<Rightarrow> 'w TableBuilder" where
  "TableBuilder_Abandon r = r\<lparr>closed := True\<rparr>"

definition TableBuilder_NumEntries :: "'w TableBuilder \<Rightarrow> nat" where
  "TableBuilder_NumEntries r = num_entries r"

definition TableBuilder_FileSize :: "'w TableBuilder \<Rightarrow> uint64" where
  "TableBuilder_FileSize r = tb_offset r"

subsection \<open>Reader\<close>

text \<open>The iterators of blocks: an empty one with a status, or one over a block.\<close>

datatype BlockIt = BEmpty Status | BIter BlockIter

primrec BlockIt_map :: "(BlockIter \<Rightarrow> BlockIter) \<Rightarrow> BlockIt \<Rightarrow> BlockIt" where
  "BlockIt_map f (BEmpty s) = BEmpty s"
| "BlockIt_map f (BIter it) = BIter (f it)"

definition BlockItOps :: "BlockIt Iterator" where
  "BlockItOps =
     \<lparr>it_Valid = case_BlockIt (it_Valid EmptyIterator) (it_Valid BlockIterator),
      it_SeekToFirst = BlockIt_map (it_SeekToFirst BlockIterator),
      it_SeekToLast = BlockIt_map (it_SeekToLast BlockIterator),
      it_Seek = (\<lambda>it target. BlockIt_map (\<lambda>it. it_Seek BlockIterator it target) it),
      it_Next = BlockIt_map (it_Next BlockIterator),
      it_Prev = BlockIt_map (it_Prev BlockIterator),
      it_key = case_BlockIt (it_key EmptyIterator) (it_key BlockIterator),
      it_value = case_BlockIt (it_value EmptyIterator) (it_value BlockIterator),
      it_status = case_BlockIt (it_status EmptyIterator) (it_status BlockIterator)\<rparr>"

definition BlockIt_new :: "Comparator \<Rightarrow> Block \<Rightarrow> BlockIt" where
  "BlockIt_new cmp b =
     (case Block_NewIterator cmp b of
        Inl s \<Rightarrow> BEmpty (NewErrorIterator s)
      | Inr None \<Rightarrow> BEmpty NewEmptyIterator
      | Inr (Some it) \<Rightarrow> BIter it)"

record 'f Table =
  t_comparator :: Comparator
  t_file :: 'f
  cache_id :: uint64
  t_metaindex_handle :: BlockHandle
  t_index_block :: Block

definition Table_Open ::
  "Snappy \<Rightarrow> 'f RandomAccessFile \<Rightarrow> Comparator \<Rightarrow> uint64 \<Rightarrow> 'f \<Rightarrow> nat \<Rightarrow> Status + 'f Table" where
  "Table_Open sn ops cmp new_id f sz =
     (if sz < kEncodedLength then Inl (InvalidArgument ''file is too short to be an sstable'' [])
      else
        (let (s, footer_input) = ra_Read ops f (sz - kEncodedLength) kEncodedLength in
         if \<not> ok s then Inl s
         else
           (case Footer_DecodeFrom footer_input of
              Inl s \<Rightarrow> Inl s
            | Inr (footer, _) \<Rightarrow>
                (case ReadBlock sn ops f ReadOptions_new (index_handle footer) of
                   Inl s \<Rightarrow> Inl s
                 | Inr ib \<Rightarrow>
                     Inr \<lparr>t_comparator = cmp, t_file = f, cache_id = new_id,
                          t_metaindex_handle = metaindex_handle footer, t_index_block = ib\<rparr>))))"

text \<open>
  The iterator for an index value. A block cache is the function that looks a key up in it, or
  nothing; the result says besides the iterator what the call inserts into the cache. The block that an iterator
  holds is part of its state, so the cleanup functions, which delete the block or release its cache handle, have
  nothing to do.
\<close>

definition cache_key :: "'f Table \<Rightarrow> BlockHandle \<Rightarrow> bytes" where
  "cache_key t h = EncodeFixed64 (cache_id t) @ EncodeFixed64 (bh_offset h)"

definition BlockReader ::
  "Snappy \<Rightarrow> 'f RandomAccessFile \<Rightarrow> 'f Table \<Rightarrow> (bytes \<Rightarrow> Block option) option \<Rightarrow> ReadOptions \<Rightarrow> bytes \<Rightarrow>
   BlockIt \<times> (bytes \<times> Block) option" where
  "BlockReader sn ops t block_cache options index_value =
     (let (block, ins) =
        (case BlockHandle_DecodeFrom index_value of
           Inl s \<Rightarrow> (Inl s, None)
         | Inr (handle, _) \<Rightarrow>
             (case block_cache of
                Some lookup \<Rightarrow>
                  (case lookup (cache_key t handle) of
                     Some block \<Rightarrow> (Inr block, None)
                   | None \<Rightarrow>
                       (case ReadBlock sn ops (t_file t) options handle of
                          Inl s \<Rightarrow> (Inl s, None)
                        | Inr block \<Rightarrow>
                            (Inr block, if fill_cache options then Some (cache_key t handle, block) else None)))
              | None \<Rightarrow> (ReadBlock sn ops (t_file t) options handle, None)))
      in (case block of
            Inr block \<Rightarrow> BlockIt_new (t_comparator t) block
          | Inl s \<Rightarrow> BEmpty (NewErrorIterator s),
          ins))"

type_synonym TableIter = "(BlockIt, BlockIt) TwoLevelIterator"

definition Table_NewIterator :: "'f Table \<Rightarrow> TableIter" where
  "Table_NewIterator t = TwoLevelIterator_new BlockItOps (BlockIt_new (t_comparator t) (t_index_block t))"

definition TableOps ::
  "Snappy \<Rightarrow> 'f RandomAccessFile \<Rightarrow> 'f Table \<Rightarrow> (bytes \<Rightarrow> Block option) option \<Rightarrow> ReadOptions \<Rightarrow> TableIter Iterator" where
  "TableOps sn ops t block_cache options =
     TwoLevelOps BlockItOps BlockItOps (\<lambda>h. fst (BlockReader sn ops t block_cache options h))"

definition ApproximateOffsetOf :: "'f Table \<Rightarrow> bytes \<Rightarrow> uint64" where
  "ApproximateOffsetOf t key =
     (let index_iter = it_Seek BlockItOps (BlockIt_new (t_comparator t) (t_index_block t)) key in
      if it_Valid BlockItOps index_iter then
        (case BlockHandle_DecodeFrom (it_value BlockItOps index_iter) of
           Inr (handle, _) \<Rightarrow> bh_offset handle
         | Inl s \<Rightarrow> bh_offset (t_metaindex_handle t))
      else bh_offset (t_metaindex_handle t))"


subsection \<open>The iterators meet the contract\<close>

definition blockit_pos ::
  "Comparator \<Rightarrow> (bytes \<Rightarrow> bool) \<Rightarrow> BlockIt \<Rightarrow> (bytes \<times> bytes) list \<Rightarrow> nat \<Rightarrow> bool" where
  "blockit_pos cmp valid it kvs i =
     (case it of BEmpty s \<Rightarrow> empty_pos s kvs i | BIter b \<Rightarrow> block_pos cmp valid b kvs i)"

lemma blockit_iterator:
  assumes "key_order (Compare cmp) valid"
  shows "iterator (Compare cmp) valid BlockItOps (blockit_pos cmp valid)"
proof -
  note b = block_iterator [OF assms]
  note ops = blockit_pos_def BlockItOps_def empty_pos_def EmptyIterator_def seek_index_def sorted_pairs_def
  show ?thesis
  proof (intro iterator.intro assms iterator_axioms.intro, goal_cases)
    case (1 it kvs i) then show ?case
      using iterator.pos_sorted [OF b] by (cases it) (simp_all add: blockit_pos_def empty_pos_def sorted_pairs_def)
  next
    case (2 it kvs i) then show ?case using iterator.pos_le [OF b] by (cases it) (simp_all add: blockit_pos_def empty_pos_def)
  next
    case (3 it kvs i) then show ?case using iterator.Valid_pos [OF b] by (cases it) (simp_all add: ops)
  next
    case (4 it kvs i) then show ?case using iterator.key_pos [OF b] by (cases it) (simp_all add: ops)
  next
    case (5 it kvs i) then show ?case using iterator.value_pos [OF b] by (cases it) (simp_all add: ops)
  next
    case (6 it kvs i) then show ?case using iterator.status_pos [OF b] by (cases it) (simp_all add: ops)
  next
    case (7 it kvs i) then show ?case using iterator.SeekToFirst_pos [OF b] by (cases it) (simp_all add: ops)
  next
    case (8 it kvs i) then show ?case using iterator.SeekToLast_pos [OF b] by (cases it) (simp_all add: ops)
  next
    case (9 it kvs i target) then show ?case
      using iterator.Seek_pos [OF b] by (cases it) (simp_all add: blockit_pos_def BlockItOps_def empty_pos_def seek_index_def)
  next
    case (10 it kvs i) then show ?case using iterator.Next_pos [OF b] by (cases it) (simp_all add: ops)
  next
    case (11 it kvs i) then show ?case using iterator.Prev_pos [OF b, of _ kvs i] by (cases it) (simp_all add: ops)
  qed
qed

interpretation blockit: iterator "Compare BytewiseComparator" "\<lambda>_. True" BlockItOps "blockit_pos BytewiseComparator (\<lambda>_. True)"
  by (rule blockit_iterator) unfold_locales

text \<open>The pairs behind an index value, as its reader sees them.\<close>

definition readable ::
  "Comparator \<Rightarrow> (bytes \<Rightarrow> bool) \<Rightarrow> (bytes \<Rightarrow> BlockIt) \<Rightarrow> bytes \<Rightarrow> bool" where
  "readable cmp valid bf h \<longleftrightarrow> (\<exists>kvs q. blockit_pos cmp valid (bf h) kvs q)"

definition pairs_of ::
  "Comparator \<Rightarrow> (bytes \<Rightarrow> bool) \<Rightarrow> (bytes \<Rightarrow> BlockIt) \<Rightarrow> bytes \<Rightarrow> (bytes \<times> bytes) list" where
  "pairs_of cmp valid bf h = (SOME kvs. \<exists>q. blockit_pos cmp valid (bf h) kvs q)"

lemma pairs_of_eq:
  assumes "key_order (Compare cmp) valid" "blockit_pos cmp valid (bf h) kvs q"
  shows "pairs_of cmp valid bf h = kvs" "readable cmp valid bf h"
proof -
  have "\<exists>q. blockit_pos cmp valid (bf h) kvs q" using assms(2) by blast
  then have "\<exists>q. blockit_pos cmp valid (bf h) (pairs_of cmp valid bf h) q" unfolding pairs_of_def by (rule someI)
  then obtain q' where "blockit_pos cmp valid (bf h) (pairs_of cmp valid bf h) q'" by blast
  then show "pairs_of cmp valid bf h = kvs"
    using iterator.pos_unique [OF blockit_iterator [OF assms(1)]] assms(2) by blast
  show "readable cmp valid bf h" using assms(2) by (auto simp: readable_def)
qed

lemma table_two_level:
  assumes "key_order (Compare cmp) valid"
  shows "two_level (Compare cmp) valid BlockItOps (blockit_pos cmp valid) BlockItOps (blockit_pos cmp valid)
    (readable cmp valid bf) bf (pairs_of cmp valid bf)"
proof (intro two_level.intro two_level_axioms.intro blockit_iterator [OF assms])
  fix h assume "readable cmp valid bf h"
  then have "\<exists>kvs q. blockit_pos cmp valid (bf h) kvs q" by (simp add: readable_def)
  then show "\<exists>q. blockit_pos cmp valid (bf h) (pairs_of cmp valid bf h) q" unfolding pairs_of_def by (rule someI_ex)
qed

interpretation table_iter: two_level "Compare BytewiseComparator" "\<lambda>_. True"
    BlockItOps "blockit_pos BytewiseComparator (\<lambda>_. True)" BlockItOps "blockit_pos BytewiseComparator (\<lambda>_. True)"
    "readable BytewiseComparator (\<lambda>_. True) (\<lambda>h. fst (BlockReader sn ops t block_cache options h))"
    "\<lambda>h. fst (BlockReader sn ops t block_cache options h)"
    "pairs_of BytewiseComparator (\<lambda>_. True) (\<lambda>h. fst (BlockReader sn ops t block_cache options h))"
  for sn ops t block_cache options
  by (rule table_two_level) unfold_locales

end
