(* ===== verification/Table_Roundtrip.thy ===== *)
theory Table_Roundtrip imports Table begin

text \<open>
  A table that is built from sorted pairs and read back yields these pairs: what the builder has
  written at every moment, and that the reader finds it.
\<close>

text \<open>
  What the code relies on from the compression library: it restores what it has compressed. It
  stores the length of its input in 32 bits.
\<close>

definition snappy_ok :: "Snappy \<Rightarrow> bool" where
  "snappy_ok sn \<longleftrightarrow> (\<forall>raw c. Snappy_Compress sn raw = Some c \<longrightarrow>
     Snappy_GetUncompressedLength sn c = Some (length raw) \<and> Snappy_Uncompress sn c = Some raw \<and>
     length raw < 2 ^ 32)"

subsection \<open>Stored blocks\<close>

definition stored :: "Snappy \<Rightarrow> bytes \<Rightarrow> BlockHandle \<Rightarrow> bytes \<Rightarrow> bool" where
  "stored sn F h raw \<longleftrightarrow> (\<exists>c type. unat (bh_size h) = length c \<and>
     take (length c + kBlockTrailerSize) (drop (unat (bh_offset h)) F) = c @ block_trailer c type \<and>
     (type = kNoCompression \<and> c = raw \<or> type = kSnappyCompression \<and> Snappy_Compress sn raw = Some c))"

lemma trailer_length [simp]: "length (block_trailer c type) = kBlockTrailerSize"
  by (simp add: block_trailer_def Let_def table_consts)

lemma stored_append:
  assumes "stored sn F h raw"
  shows "stored sn (F @ x) h raw"
proof -
  obtain c type where c: "unat (bh_size h) = length c"
    "take (length c + kBlockTrailerSize) (drop (unat (bh_offset h)) F) = c @ block_trailer c type"
    "type = kNoCompression \<and> c = raw \<or> type = kSnappyCompression \<and> Snappy_Compress sn raw = Some c"
    using assms by (auto simp: stored_def)
  have "length (take (length c + kBlockTrailerSize) (drop (unat (bh_offset h)) F)) = length c + kBlockTrailerSize"
    unfolding c(2) by simp
  then have "length c + kBlockTrailerSize \<le> length F - unat (bh_offset h)" "unat (bh_offset h) \<le> length F"
    by (simp_all add: table_consts)
  then have "take (length c + kBlockTrailerSize) (drop (unat (bh_offset h)) (F @ x)) = c @ block_trailer c type"
    using c(2) by simp
  then show ?thesis using c(1,3) unfolding stored_def by blast
qed

lemma stored_raw_small:
  assumes "stored sn F h raw" "snappy_ok sn" "length F < 2 ^ 32"
  shows "length raw < 2 ^ 32"
proof -
  obtain c type where c: "take (length c + kBlockTrailerSize) (drop (unat (bh_offset h)) F) = c @ block_trailer c type"
    "type = kNoCompression \<and> c = raw \<or> type = kSnappyCompression \<and> Snappy_Compress sn raw = Some c"
    using assms(1) by (auto simp: stored_def)
  have "length (c @ block_trailer c type) \<le> length F" unfolding c(1) [symmetric] by simp
  then show ?thesis using c(2) assms(2,3) by (auto simp: snappy_ok_def)
qed

lemma stored_bounds:
  assumes "stored sn F h raw"
  shows "unat (bh_offset h) \<le> length F"
proof -
  obtain c type where c: "take (length c + kBlockTrailerSize) (drop (unat (bh_offset h)) F) = c @ block_trailer c type"
    using assms by (auto simp: stored_def)
  have "length (take (length c + kBlockTrailerSize) (drop (unat (bh_offset h)) F)) = length c + kBlockTrailerSize"
    unfolding c by simp
  then show ?thesis by (simp add: table_consts)
qed

context random_access_file
begin

lemma ReadBlock_stored:
  assumes "invar f" "stored sn (content f) h raw" "snappy_ok sn" "length (content f) < 2 ^ 64"
  shows "ReadBlock sn ops f options h = Inr (Block_new raw)"
proof -
  obtain c type where c: "unat (bh_size h) = length c"
    "take (length c + kBlockTrailerSize) (drop (unat (bh_offset h)) (content f)) = c @ block_trailer c type"
    "type = kNoCompression \<and> c = raw \<or> type = kSnappyCompression \<and> Snappy_Compress sn raw = Some c"
    using assms(2) by (auto simp: stored_def)
  have read: "ra_Read ops f (unat (bh_offset h)) (length c + kBlockTrailerSize) = (OK, c @ block_trailer c type)"
    using ra_read_ok [OF assms(1) stored_bounds [OF assms(2)]] c(2) by simp
  have "length (c @ block_trailer c type) \<le> length (content f)" unfolding c(2) [symmetric] by simp
  then have fits: "length c + kBlockTrailerSize < 2 ^ 64" using assms(4) by simp
  have want: "unat (bh_size h + of_nat kBlockTrailerSize) = length c + kBlockTrailerSize"
    using c(1) fits by (simp add: unat_word_ariths unat_of_nat)
  have tr: "block_trailer c type = compression_code type # EncodeFixed32 (Mask (Value (c @ [compression_code type])))"
    by (simp add: block_trailer_def Let_def Extend_Value)
  have crc: "Value (take (length c + 1) (c @ block_trailer c type)) =
      Unmask (DecodeFixed32 (drop (length c + 1) (c @ block_trailer c type)))"
    by (simp add: tr)
  have ty: "(c @ block_trailer c type) ! length c = compression_code type" by (simp add: tr)
  show ?thesis
    using c(3) assms(3) unfolding ReadBlock_def c(1) want read Let_def prod.case using crc ty
    by (auto simp: snappy_ok_def)
qed

end

subsection \<open>Writing a block\<close>

lemma compress_block_cases:
  assumes "compress_block sn type raw = (c, t)"
  shows "t = kNoCompression \<and> c = raw \<or> t = kSnappyCompression \<and> Snappy_Compress sn raw = Some c"
  using assms by (auto simp: compress_block_def split: CompressionType.splits option.splits if_splits)

lemma Reset_Finish: "BlockBuilder_Reset (snd (BlockBuilder_Finish b)) = BlockBuilder_new (block_restart_interval b)"
  by (simp add: BlockBuilder_Reset_def BlockBuilder_Finish_def BlockBuilder_new_def Let_def)

context writable_file
begin

lemma WriteBlock_ok:
  assumes "invar (tb_file r)" "tb_status r = OK" "tb_offset r = of_nat (length (content (tb_file r)))"
  obtains h r' x f' where "WriteBlock sn ops r b = (h, BlockBuilder_new (block_restart_interval b), r')"
    "r' = r\<lparr>tb_file := f', tb_offset := of_nat (length (content f'))\<rparr>" "invar f'"
    "content f' = content (tb_file r) @ x"
    "length (content f') < 2 ^ 64 \<longrightarrow> stored sn (content f') h (fst (BlockBuilder_Finish b))"
proof -
  let ?F = "content (tb_file r)" and ?raw = "fst (BlockBuilder_Finish b)"
  obtain c t where c: "compress_block sn (compression (tb_options r)) ?raw = (c, t)" by fastforce
  let ?h = "\<lparr>bh_offset = tb_offset r, bh_size = of_nat (length c)\<rparr>"
  obtain s1 f1 where f1: "wf_Append ops (tb_file r) c = (s1, f1)" by fastforce
  note a1 = append_ok [OF assms(1) f1]
  obtain s2 f2 where f2: "wf_Append ops f1 (block_trailer c t) = (s2, f2)" by fastforce
  note a2 = append_ok [OF _ f2]
  have F2: "s1 = OK" "s2 = OK" "invar f2" "content f2 = ?F @ c @ block_trailer c t" using a1 a2 by auto
  let ?r = "r\<lparr>tb_file := f2, tb_offset := of_nat (length (content f2))\<rparr>"
  have w: "WriteBlock sn ops r b = (?h, BlockBuilder_new (block_restart_interval b), ?r)"
    using assms(2,3) c f1 f2 F2 Reset_Finish [of b]
    by (cases r) (simp add: WriteBlock_def split_beta Let_def)
  have "stored sn (content f2) ?h ?raw" if "length (content f2) < 2 ^ 64"
  proof -
    have "length ?F < 2 ^ 64" "length c < 2 ^ 64" using that F2(4) by simp_all
    then have "unat (tb_offset r) = length ?F" "unat (of_nat (length c) :: uint64) = length c"
      using assms(3) by simp_all
    then show ?thesis
      using compress_block_cases [OF c] F2(4) unfolding stored_def
      by (intro exI [of _ c] exI [of _ t]) simp
  qed
  then show ?thesis using that [OF w refl F2(3,4)] by blast
qed

end


subsection \<open>The state of the builder\<close>

text \<open>
  The blocks that have been written, with their handles; the keys of the index entries for them; and
  the pairs of the block under construction. The last block has no index entry while one is pending.
\<close>

type_synonym Stored = "BlockHandle \<times> (bytes \<times> bytes) list"

definition index_pairs :: "bytes list \<Rightarrow> Stored list \<Rightarrow> (bytes \<times> bytes) list" where
  "index_pairs E bs = zip E (map (\<lambda>b. BlockHandle_EncodeTo (fst b) []) bs)"

lemma index_pairs_more: "length E \<le> length bs \<Longrightarrow> index_pairs E (bs @ bs') = index_pairs E bs"
  by (simp add: index_pairs_def zip_append2)

lemma index_pairs_snoc:
  "length E < length bs \<Longrightarrow> index_pairs (E @ [k]) bs = index_pairs E bs @ [(k, BlockHandle_EncodeTo (fst (bs ! length E)) [])]"
  by (rule nth_equalityI) (auto simp: index_pairs_def nth_append less_Suc_eq min_def)

definition separates ::
  "Comparator \<Rightarrow> (bytes \<Rightarrow> bool) \<Rightarrow> bytes list \<Rightarrow> Stored list \<Rightarrow> (bytes \<times> bytes) list \<Rightarrow> bool" where
  "separates cmp valid E bs cur \<longleftrightarrow> (\<forall>b<length E. valid (E ! b) \<and>
     (\<forall>kv\<in>set (snd (bs ! b)). Compare cmp (fst kv) (E ! b) \<le> 0) \<and>
     (\<forall>c. b < c \<and> c < length bs \<longrightarrow> (\<forall>kv\<in>set (snd (bs ! c)). Compare cmp (E ! b) (fst kv) < 0)) \<and>
     (\<forall>kv\<in>set cur. Compare cmp (E ! b) (fst kv) < 0))"

definition blocks_stored :: "Snappy \<Rightarrow> nat \<Rightarrow> bytes \<Rightarrow> Stored list \<Rightarrow> bool" where
  "blocks_stored sn iv F bs \<longleftrightarrow> (length F < 2 ^ 64 \<longrightarrow> (\<forall>b\<in>set bs. stored sn F (fst b) (block_of iv (snd b))))"

lemma blocks_stored_append: "blocks_stored sn iv F bs \<Longrightarrow> blocks_stored sn iv (F @ x) bs"
  by (simp add: blocks_stored_def stored_append)

definition tb_rep ::
  "('w \<Rightarrow> bytes) \<Rightarrow> ('w \<Rightarrow> bool) \<Rightarrow> Snappy \<Rightarrow> Options \<Rightarrow> (bytes \<Rightarrow> bool) \<Rightarrow> 'w TableBuilder \<Rightarrow>
   (bytes \<times> bytes) list \<Rightarrow> Stored list \<Rightarrow> bytes list \<Rightarrow> (bytes \<times> bytes) list \<Rightarrow> bool" where
  "tb_rep content invar sn opts valid r kvs bs E cur \<longleftrightarrow>
     invar (tb_file r) \<and> tb_status r = OK \<and> tb_offset r = of_nat (length (content (tb_file r))) \<and> tb_options r = opts \<and>
     data_block r = built (opt_restart_interval opts) cur \<and> index_block r = built 1 (index_pairs E bs) \<and>
     blocks_stored sn (opt_restart_interval opts) (content (tb_file r)) bs \<and>
     kvs = concat (map snd bs) @ cur \<and> (\<forall>b\<in>set bs. snd b \<noteq> []) \<and>
     (if pending_index_entry r
      then bs \<noteq> [] \<and> cur = [] \<and> Suc (length E) = length bs \<and> pending_handle r = fst (last bs)
      else length E = length bs \<and> (cur = [] \<longrightarrow> bs = [])) \<and>
     (kvs \<noteq> [] \<longrightarrow> tb_last_key r = fst (last kvs)) \<and> separates (opt_comparator opts) valid E bs cur"

lemma built_snoc: "built iv (kvs @ [(k, v)]) = BlockBuilder_Add (built iv kvs) k v"
  by (simp add: built_def)

lemma built_interval: "block_restart_interval (built iv kvs) = iv"
  by (induction kvs rule: rev_induct)
    (auto simp: built_snoc built_def BlockBuilder_new_def BlockBuilder_Add_def Let_def split_beta)

lemma built_empty:
  assumes "0 < iv"
  shows "BlockBuilder_empty (built iv kvs) \<longleftrightarrow> kvs = []"
proof -
  obtain es ms where "builder_rep (built iv kvs) es ms" "map ent_pair es = kvs" using built_rep [OF assms, of kvs] by auto
  then show ?thesis using ent_bytes_pos by (cases es) (auto simp: builder_rep_def BlockBuilder_empty_def)
qed

locale table_writer = writable_file ops content invar + cmp: comparator cmp valid
  for ops :: "'w WritableFile" and content :: "'w \<Rightarrow> bytes" and invar :: "'w \<Rightarrow> bool"
    and cmp :: Comparator and valid :: "bytes \<Rightarrow> bool"
begin

lemma new_rep:
  assumes "invar f" "content f = []"
  shows "tb_rep content invar sn opts valid (TableBuilder_new opts f) [] [] [] []"
  using assms by (simp add: tb_rep_def TableBuilder_new_def built_def index_pairs_def blocks_stored_def separates_def)

lemma Flush_rep:
  assumes "tb_rep content invar sn opts valid r kvs bs E cur" "0 < opt_restart_interval opts" "cur \<noteq> []"
  shows "\<exists>h. tb_rep content invar sn opts valid (TableBuilder_Flush sn ops r) kvs (bs @ [(h, cur)]) E [] \<and>
    pending_index_entry (TableBuilder_Flush sn ops r)"
proof -
  let ?iv = "opt_restart_interval opts"
  have r: "invar (tb_file r)" "tb_status r = OK" "tb_offset r = of_nat (length (content (tb_file r)))"
    "data_block r = built ?iv cur" "\<not> pending_index_entry r" "length E = length bs"
    "blocks_stored sn ?iv (content (tb_file r)) bs" "separates (opt_comparator opts) valid E bs cur"
    using assms(1,3) by (auto simp: tb_rep_def split: if_splits)
  obtain h r' x f' where w: "WriteBlock sn ops r (data_block r) = (h, BlockBuilder_new (block_restart_interval (data_block r)), r')"
    "r' = r\<lparr>tb_file := f', tb_offset := of_nat (length (content f'))\<rparr>" "invar f'"
    "content f' = content (tb_file r) @ x"
    "length (content f') < 2 ^ 64 \<longrightarrow> stored sn (content f') h (fst (BlockBuilder_Finish (data_block r)))"
    by (rule WriteBlock_ok [OF r(1-3), of sn "data_block r"])
  obtain s f'' where f: "wf_Flush ops f' = (s, f'')" by fastforce
  have f'': "s = OK" "content f'' = content f'" "invar f''" using flush_ok [OF w(3) f] by auto
  have fl: "TableBuilder_Flush sn ops r = r\<lparr>tb_file := f'', tb_offset := of_nat (length (content f'')), data_block := built ?iv [],
      pending_handle := h, pending_index_entry := True\<rparr>"
    using r(2,4) w(1,2) f f'' assms(2,3) built_empty [OF assms(2), of cur]
    by (cases r) (simp add: TableBuilder_Flush_def Let_def built_interval built_def [of _ "[]"])
  have st: "blocks_stored sn ?iv (content f'') (bs @ [(h, cur)])"
    using blocks_stored_append [OF r(7), of x] w(4,5) r(4) f''(2) by (auto simp: blocks_stored_def block_of_def)
  have sep: "separates (opt_comparator opts) valid E (bs @ [(h, cur)]) []"
    using r(6,8) by (auto simp: separates_def nth_append less_Suc_eq)
  show ?thesis
    using assms(1,3) r(6) f'' st sep unfolding fl
    by (intro exI [of _ h]) (auto simp: tb_rep_def index_pairs_more r(5))
qed


lemma rep_last:
  assumes "tb_rep content invar sn opts valid r kvs bs E cur" "bs \<noteq> []" "cur = []"
  shows "kvs \<noteq> []" "last kvs = last (snd (last bs))" "last (snd (last bs)) \<in> set (snd (last bs))"
proof -
  have ne: "snd (last bs) \<noteq> []" and kvs: "kvs = concat (map snd bs)" using assms by (auto simp: tb_rep_def)
  have "kvs = concat (map snd (butlast bs)) @ snd (last bs)"
  proof -
    have "concat (map snd (butlast bs @ [last bs])) = concat (map snd (butlast bs)) @ snd (last bs)" by simp
    then show ?thesis unfolding kvs append_butlast_last_id [OF assms(2)] .
  qed
  then show "kvs \<noteq> []" "last kvs = last (snd (last bs))" "last (snd (last bs)) \<in> set (snd (last bs))"
    using ne by simp_all
qed

text \<open>
  A key that is at or after the last pair written and before the pairs to come separates them; this is
  what both the separator and the successor give.
\<close>

lemma index_entry_sep:
  assumes "tb_rep content invar sn opts valid r kvs bs E cur" "pending_index_entry r" "opt_comparator opts = cmp"
    and "sorted_pairs (Compare cmp) valid kvs" "valid s" "Compare cmp (fst (last kvs)) s \<le> 0"
  shows "separates cmp valid (E @ [s]) bs []"
proof -
  have b: "bs \<noteq> []" "cur = []" "Suc (length E) = length bs" "kvs = concat (map snd bs)" "separates cmp valid E bs []"
    using assms(1-3) by (auto simp: tb_rep_def)
  note last = rep_last [OF assms(1) b(1,2)]
  have "Compare cmp (fst kv) s \<le> 0" if "kv \<in> set (snd (bs ! length E))" for kv
  proof -
    have kv: "kv \<in> set kvs" using that b(3,4) by (auto intro!: bexI [of _ "bs ! length E"])
    then obtain i where i: "i < length kvs" "kvs ! i = kv" by (auto simp: in_set_conv_nth)
    have l: "length kvs - 1 < length kvs" "kvs ! (length kvs - 1) = last kvs" using last(1) by (simp_all add: last_conv_nth)
    have v: "valid (fst kv)" "valid (fst (last kvs))" using assms(4) kv last(1) by (auto simp: sorted_pairs_def)
    have "Compare cmp (fst kv) (fst (last kvs)) \<le> 0"
      using cmp.sorted_pairs_index [OF assms(4) i(1) l(1)] i l cmp.compare_refl [OF v(1)]
      by (cases "i = length kvs - 1") auto
    then show ?thesis using cmp.compare_trans [OF v assms(5)] assms(6) by blast
  qed
  then have "valid ((E @ [s]) ! b) \<and> (\<forall>kv\<in>set (snd (bs ! b)). Compare cmp (fst kv) ((E @ [s]) ! b) \<le> 0) \<and>
      (\<forall>c. b < c \<and> c < length bs \<longrightarrow> (\<forall>kv\<in>set (snd (bs ! c)). Compare cmp ((E @ [s]) ! b) (fst kv) < 0))"
    if "b < length (E @ [s])" for b
    using that b(3,5) assms(5) by (cases "b = length E") (simp_all add: separates_def nth_append)
  then show ?thesis by (simp add: separates_def)
qed


lemma sorted_snoc:
  assumes "sorted_pairs (Compare cmp) valid (kvs @ [(k, v)])"
  shows "sorted_pairs (Compare cmp) valid kvs" "valid k" "\<And>kv. kv \<in> set kvs \<Longrightarrow> Compare cmp (fst kv) k < 0 \<and> valid (fst kv)"
  using assms by (auto simp: sorted_pairs_def sorted_wrt_append)

lemma separates_next:
  assumes "separates cmp valid E bs cur" "\<And>kv. kv \<in> set (concat (map snd bs) @ cur) \<Longrightarrow> Compare cmp (fst kv) k < 0 \<and> valid (fst kv)"
    "valid k" "\<forall>b\<in>set bs. snd b \<noteq> []" "length E < length bs \<or> cur \<noteq> [] \<or> E = []" "b < length E"
  shows "Compare cmp (E ! b) k < 0"
proof -
  have sep: "valid (E ! b)" "\<And>kv. kv \<in> set cur \<Longrightarrow> Compare cmp (E ! b) (fst kv) < 0"
    "\<And>c kv. b < c \<Longrightarrow> c < length bs \<Longrightarrow> kv \<in> set (snd (bs ! c)) \<Longrightarrow> Compare cmp (E ! b) (fst kv) < 0"
    using assms(1,6) by (auto simp: separates_def)
  have "\<exists>kv. kv \<in> set (concat (map snd bs) @ cur) \<and> Compare cmp (E ! b) (fst kv) < 0"
  proof (cases "cur = []")
    case False
    then show ?thesis using sep(2) [of "hd cur"] by (intro exI [of _ "hd cur"]) simp
  next
    case True
    then have c: "Suc b < length bs" using assms(5,6) by auto
    then have ne: "snd (bs ! Suc b) \<noteq> []" using assms(4) nth_mem by blast
    let ?kv = "hd (snd (bs ! Suc b))"
    have "?kv \<in> set (concat (map snd bs))" using ne c by (auto intro!: bexI [of _ "bs ! Suc b"])
    then show ?thesis using sep(3) [of "Suc b" ?kv] ne c by (intro exI [of _ ?kv]) simp
  qed
  then show ?thesis using assms(2,3) sep(1) cmp.compare_less_trans by blast
qed

lemma index_entry_block:
  assumes "tb_rep content invar sn opts valid r kvs bs E cur" "pending_index_entry r"
  shows "index_block (add_index_entry r s) = built 1 (index_pairs (E @ [s]) bs)"
proof -
  have b: "bs \<noteq> []" "Suc (length E) = length bs" "pending_handle r = fst (last bs)" "index_block r = built 1 (index_pairs E bs)"
    using assms by (simp_all add: tb_rep_def)
  have "length bs - 1 = length E" using b(2) by linarith
  then have "last bs = bs ! length E" using b(1) by (simp add: last_conv_nth)
  then show ?thesis using b(2-4) by (simp add: add_index_entry_def index_pairs_snoc built_snoc)
qed

lemma TableAdd_rep:
  assumes "tb_rep content invar sn opts valid r kvs bs E cur" "0 < opt_restart_interval opts" "opt_comparator opts = cmp"
    "sorted_pairs (Compare cmp) valid (kvs @ [(k, v)])"
  shows "\<exists>bs' E' cur'. tb_rep content invar sn opts valid (TableBuilder_Add sn ops r k v) (kvs @ [(k, v)]) bs' E' cur'"
proof -
  note so = sorted_snoc [OF assms(4)]
  have r: "tb_status r = OK" "kvs = concat (map snd bs) @ cur" "separates cmp valid E bs cur" "\<forall>b\<in>set bs. snd b \<noteq> []"
    "tb_options r = opts" "data_block r = built (opt_restart_interval opts) cur" "index_block r = built 1 (index_pairs E bs)"
    using assms(1,3) by (simp_all add: tb_rep_def)
  have next_key: "Compare cmp (E ! b) k < 0" if "b < length E" for b
    by (rule separates_next [OF r(3) _ so(2) r(4) _ that])
      (use so(3) r(2) assms(1) that in \<open>auto simp: tb_rep_def split: if_splits\<close>)
  obtain E1 r1 where E1: "separates cmp valid E1 bs cur" "length E1 = length bs" "\<And>b. b < length E1 \<Longrightarrow> Compare cmp (E1 ! b) k < 0"
    and r1: "r1 = (if pending_index_entry r then add_index_entry r (FindShortestSeparator cmp (tb_last_key r) k) else r)"
      "index_block r1 = built 1 (index_pairs E1 bs)" "\<not> pending_index_entry r1"
  proof (cases "pending_index_entry r")
    case False
    then have "length E = length bs" using assms(1) by (simp add: tb_rep_def)
    then show ?thesis using that [of E r] r(3,7) next_key False by simp
  next
    case True
    have b: "bs \<noteq> []" "cur = []" "Suc (length E) = length bs" "pending_handle r = fst (last bs)" "tb_last_key r = fst (last kvs)"
      using assms(1) True rep_last(1) [OF assms(1)] by (auto simp: tb_rep_def)
    let ?s = "FindShortestSeparator cmp (tb_last_key r) k"
    have l: "last kvs \<in> set kvs" using rep_last(1) [OF assms(1) b(1,2)] by simp
    then have s: "valid ?s" "Compare cmp (fst (last kvs)) ?s \<le> 0" "Compare cmp ?s k < 0"
      using so(2) so(3) [OF l] cmp.separator_valid cmp.separator_ge cmp.separator_less b(5) by simp_all
    have sep: "separates cmp valid (E @ [?s]) bs cur"
      using index_entry_sep [OF assms(1) True assms(3) so(1) s(1,2)] b(2) by simp
    have "index_block (add_index_entry r ?s) = built 1 (index_pairs (E @ [?s]) bs)" by (rule index_entry_block [OF assms(1) True])
    moreover have "Compare cmp ((E @ [?s]) ! c) k < 0" if "c < length (E @ [?s])" for c
      using that next_key s(3) by (cases "c = length E") (simp_all add: nth_append)
    ultimately show ?thesis
      using that [of "E @ [?s]" "add_index_entry r ?s"] sep b(3) True by (simp add: add_index_entry_def)
  qed
  let ?r2 = "r1\<lparr>tb_last_key := k, num_entries := num_entries r1 + 1, data_block := BlockBuilder_Add (data_block r1) k v\<rparr>"
  have same: "tb_file r1 = tb_file r" "tb_status r1 = OK" "tb_offset r1 = tb_offset r" "tb_options r1 = opts"
    "data_block r1 = built (opt_restart_interval opts) cur"
    using r by (simp_all add: r1(1) add_index_entry_def)
  have "separates cmp valid E1 bs (cur @ [(k, v)])" using E1(1,3) by (auto simp: separates_def)
  then have rep: "tb_rep content invar sn opts valid ?r2 (kvs @ [(k, v)]) bs E1 (cur @ [(k, v)])"
    using assms(1,3) E1(2) r1(2,3) same r(2) by (simp add: tb_rep_def built_snoc)
  have e: "(if pending_index_entry r then add_index_entry r (FindShortestSeparator (opt_comparator (tb_options r)) (tb_last_key r) k) else r) = r1"
    using r1(1) assms(3) r(5) by simp
  have "TableBuilder_Add sn ops r k v = (if CurrentSizeEstimate (data_block ?r2) \<ge> block_size opts then TableBuilder_Flush sn ops ?r2 else ?r2)"
    using same r(1) unfolding TableBuilder_Add_def Let_def e by simp
  then show ?thesis using rep Flush_rep [OF rep assms(2)] by (auto split: if_splits)
qed

lemma Adds_rep:
  assumes "0 < opt_restart_interval opts" "opt_comparator opts = cmp" "invar f" "content f = []"
    "sorted_pairs (Compare cmp) valid kvs"
  shows "\<exists>bs E cur. tb_rep content invar sn opts valid
      (foldl (\<lambda>r (k, v). TableBuilder_Add sn ops r k v) (TableBuilder_new opts f) kvs) kvs bs E cur"
  using assms(5)
proof (induction kvs rule: rev_induct)
  case Nil
  then show ?case using new_rep [OF assms(3,4), of sn opts] by auto
next
  case (snoc kv kvs)
  obtain k v where kv: "kv = (k, v)" by fastforce
  have so: "sorted_pairs (Compare cmp) valid (kvs @ [(k, v)])" using snoc(2) kv by simp
  obtain bs E cur where rep: "tb_rep content invar sn opts valid
      (foldl (\<lambda>r (k, v). TableBuilder_Add sn ops r k v) (TableBuilder_new opts f) kvs) kvs bs E cur"
    using snoc(1) [OF sorted_snoc(1) [OF so]] by (elim exE)
  show ?case using TableAdd_rep [OF rep assms(1,2) so] kv by simp
qed


lemma Flush_all:
  assumes "tb_rep content invar sn opts valid r kvs bs E cur" "0 < opt_restart_interval opts"
  shows "\<exists>bs. tb_rep content invar sn opts valid (TableBuilder_Flush sn ops r) kvs bs E [] \<and>
    (pending_index_entry (TableBuilder_Flush sn ops r) \<longleftrightarrow> bs \<noteq> [])"
proof (cases "cur = []")
  case True
  then have "TableBuilder_Flush sn ops r = r"
    using assms built_empty [OF assms(2), of cur] by (simp add: TableBuilder_Flush_def tb_rep_def)
  then show ?thesis using assms(1) True by (intro exI [of _ bs]) (auto simp: tb_rep_def split: if_splits)
next
  case False
  then show ?thesis using Flush_rep [OF assms] by auto
qed

text \<open>The index entry of the last block.\<close>

lemma last_entry:
  assumes "tb_rep content invar sn opts valid r kvs bs E []" "pending_index_entry r \<longleftrightarrow> bs \<noteq> []" "opt_comparator opts = cmp"
    and "sorted_pairs (Compare cmp) valid kvs"
  defines "r' \<equiv> if pending_index_entry r then add_index_entry r (FindShortSuccessor cmp (tb_last_key r)) else r"
  shows "\<exists>E. index_block r' = built 1 (index_pairs E bs) \<and> length E = length bs \<and> separates cmp valid E bs []"
proof (cases "bs = []")
  case True
  then show ?thesis using assms by (intro exI [of _ E]) (auto simp: tb_rep_def)
next
  case False
  then have p: "pending_index_entry r" using assms(2) by simp
  let ?s = "FindShortSuccessor cmp (tb_last_key r)"
  have k: "kvs \<noteq> []" by (rule rep_last(1) [OF assms(1) False refl])
  then have "last kvs \<in> set kvs" by simp
  then have l: "tb_last_key r = fst (last kvs)" "valid (fst (last kvs))"
    using assms(1) k by (simp add: tb_rep_def) (use assms(4) \<open>last kvs \<in> set kvs\<close> in \<open>simp add: sorted_pairs_def\<close>)
  have s: "valid ?s" "Compare cmp (fst (last kvs)) ?s \<le> 0" using l cmp.successor_valid cmp.successor_ge by simp_all
  have "length (E @ [?s]) = length bs" using assms(1) p by (simp add: tb_rep_def)
  then show ?thesis
    using index_entry_block [OF assms(1) p] index_entry_sep [OF assms(1) p assms(3,4) s] p
    by (intro exI [of _ "E @ [?s]"]) (simp add: r'_def)
qed

lemma Finish_layout:
  assumes "tb_rep content invar sn opts valid r kvs bs0 E0 cur" "0 < opt_restart_interval opts" "opt_comparator opts = cmp"
    and "sorted_pairs (Compare cmp) valid kvs"
  obtains r' bs E m i F where "TableBuilder_Finish sn ops r = (OK, r')" "invar (tb_file r')"
    "content (tb_file r') = F @ Footer_EncodeTo \<lparr>metaindex_handle = m, index_handle = i\<rparr> []"
    "tb_offset r' = of_nat (length (content (tb_file r')))"
    "blocks_stored sn (opt_restart_interval opts) F bs" "length F < 2 ^ 64 \<longrightarrow> stored sn F i (block_of 1 (index_pairs E bs))"
    "kvs = concat (map snd bs)" "\<forall>b\<in>set bs. snd b \<noteq> []" "length E = length bs" "separates cmp valid E bs []"
proof -
  let ?iv = "opt_restart_interval opts"
  obtain bs where bs: "tb_rep content invar sn opts valid (TableBuilder_Flush sn ops r) kvs bs E0 []"
    "pending_index_entry (TableBuilder_Flush sn ops r) \<longleftrightarrow> bs \<noteq> []"
    using Flush_all [OF assms(1,2)] by (elim exE conjE)
  define r1 where "r1 = (TableBuilder_Flush sn ops r)\<lparr>closed := True\<rparr>"
  have r1: "invar (tb_file r1)" "tb_status r1 = OK" "tb_offset r1 = of_nat (length (content (tb_file r1)))" "tb_options r1 = opts"
    "blocks_stored sn ?iv (content (tb_file r1)) bs" "kvs = concat (map snd bs)" "\<forall>b\<in>set bs. snd b \<noteq> []"
    using bs(1) by (simp_all add: tb_rep_def r1_def)
  obtain m r2 x f2 where w2: "WriteBlock sn ops r1 (BlockBuilder_new ?iv) = (m, BlockBuilder_new (block_restart_interval (BlockBuilder_new ?iv)), r2)"
    "r2 = r1\<lparr>tb_file := f2, tb_offset := of_nat (length (content f2))\<rparr>" "invar f2" "content f2 = content (tb_file r1) @ x"
    by (rule WriteBlock_ok [OF r1(1-3), of sn "BlockBuilder_new ?iv"])
  define r3 where "r3 = (if pending_index_entry r2 then add_index_entry r2 (FindShortSuccessor cmp (tb_last_key r2)) else r2)"
  have rep2: "tb_rep content invar sn opts valid r2 kvs bs E0 []"
    using bs(1) w2(2-4) r1 blocks_stored_append [OF r1(5), of x] by (simp add: tb_rep_def r1_def)
  have pend2: "pending_index_entry r2 \<longleftrightarrow> bs \<noteq> []" using bs(2) by (simp add: w2(2) r1_def)
  obtain E where E: "index_block r3 = built 1 (index_pairs E bs)" "length E = length bs" "separates cmp valid E bs []"
    using last_entry [OF rep2 pend2 assms(3,4)] unfolding r3_def by (elim exE conjE)
  have r3: "tb_file r3 = f2" "tb_status r3 = OK" "tb_offset r3 = of_nat (length (content f2))" "tb_options r3 = opts"
    using r1(2,4) by (simp_all add: r3_def w2(2) add_index_entry_def)
  obtain i r4 y f4 where w4: "WriteBlock sn ops r3 (index_block r3) = (i, BlockBuilder_new (block_restart_interval (index_block r3)), r4)"
    "r4 = r3\<lparr>tb_file := f4, tb_offset := of_nat (length (content f4))\<rparr>" "invar f4" "content f4 = content (tb_file r3) @ y"
    "length (content f4) < 2 ^ 64 \<longrightarrow> stored sn (content f4) i (fst (BlockBuilder_Finish (index_block r3)))"
    by (rule WriteBlock_ok [of r3 sn "index_block r3"]) (use r3 w2(3) in simp_all)
  let ?footer = "Footer_EncodeTo \<lparr>metaindex_handle = m, index_handle = i\<rparr> []"
  obtain s f5 where f5: "wf_Append ops f4 ?footer = (s, f5)" by fastforce
  have a5: "s = OK" "content f5 = content f4 @ ?footer" "invar f5" using append_ok [OF w4(3) f5] by auto
  let ?r5 = "r4\<lparr>index_block := BlockBuilder_new (block_restart_interval (index_block r3)), tb_status := OK, tb_file := f5,
      tb_offset := of_nat (length (content f5))\<rparr>"
  have r2: "tb_status r2 = OK" "tb_options r2 = opts" using r1 by (simp_all add: w2(2))
  have e3: "(if pending_index_entry r2 then add_index_entry r2 (FindShortSuccessor (opt_comparator (tb_options r2)) (tb_last_key r2)) else r2) = r3"
    by (simp add: r3_def r2 assms(3))
  have r4: "tb_status r4 = OK" "tb_file r4 = f4" "tb_offset r4 = of_nat (length (content f4))" using r3 by (simp_all add: w4(2))
  have r5: "(r4\<lparr>index_block := b, tb_status := OK, tb_file := f5, tb_offset := of_nat (length (content f4)) + of_nat (length ?footer)\<rparr>) =
      r4\<lparr>index_block := b, tb_status := OK, tb_file := f5, tb_offset := of_nat (length (content f5))\<rparr>" for b
    by (simp add: a5(2))
  have "TableBuilder_Finish sn ops r = (OK, ?r5)"
    using r1(2,4) w2(1) w4(1) f5 a5(1) r2(1) r4 r5 e3 unfolding TableBuilder_Finish_def Let_def r1_def [symmetric]
    by (simp cong: if_cong)
  then show ?thesis
    using that [of ?r5 "content f4" m i bs E] a5 blocks_stored_append [OF blocks_stored_append [OF r1(5), of x], of y]
      w2(4) w4(4,5) r3(1) E r1(6,7) by (simp add: block_of_def)
qed

end


interpretation mem_table: table_writer WritableFileOps file_content file_wf BytewiseComparator "\<lambda>_. True"
  by unfold_locales

subsection \<open>Reading the table\<close>

lemma BlockIt_new_built:
  assumes "0 < iv" "length (block_of iv kvs) < 2 ^ 32" "sorted_pairs (Compare cmp) valid kvs"
  shows "\<exists>q. blockit_pos cmp valid (BlockIt_new cmp (Block_new (block_of iv kvs))) kvs q"
  by (rule built_block [OF assms(1,2), of cmp]) (use assms(3) in \<open>auto simp: BlockIt_new_def blockit_pos_def block_pos_def\<close>)

text \<open>
  The values of the index block, and what a block cache has to hold: under the key of an index value
  nothing, or the block that is read for it.
\<close>

definition index_values :: "'f Table \<Rightarrow> bytes set" where
  "index_values t = {v. \<exists>n. let it = (it_Next BlockItOps ^^ n)
       (it_SeekToFirst BlockItOps (BlockIt_new (t_comparator t) (t_index_block t)))
     in it_Valid BlockItOps it \<and> v = it_value BlockItOps it}"

definition cache_coherent ::
  "Snappy \<Rightarrow> 'f RandomAccessFile \<Rightarrow> 'f Table \<Rightarrow> ReadOptions \<Rightarrow> (bytes \<Rightarrow> Block option) option \<Rightarrow> bool" where
  "cache_coherent sn ops t options block_cache \<longleftrightarrow>
     (\<forall>lookup v h rest b. block_cache = Some lookup \<longrightarrow> v \<in> index_values t \<longrightarrow>
        BlockHandle_DecodeFrom v = Inr (h, rest) \<longrightarrow> lookup (cache_key t h) = Some b \<longrightarrow>
        ReadBlock sn ops (t_file t) options h = Inr b)"

lemma BlockReader_eq:
  assumes "cache_coherent sn ops t options block_cache" "v \<in> index_values t" "BlockHandle_DecodeFrom v = Inr (h, rest)"
    "ReadBlock sn ops (t_file t) options h = Inr b"
  shows "fst (BlockReader sn ops t block_cache options v) = BlockIt_new (t_comparator t) b"
proof (cases block_cache)
  case None
  then show ?thesis using assms(3,4) by (simp add: BlockReader_def)
next
  case (Some lookup)
  then show ?thesis
    using assms unfolding cache_coherent_def
    by (cases "lookup (cache_key t h)") (fastforce simp: BlockReader_def)+
qed

lemma index_pairs_sorted:
  assumes "comparator cmp valid" "separates cmp valid E bs []" "length E = length bs" "\<forall>b\<in>set bs. snd b \<noteq> []"
    "sorted_pairs (Compare cmp) valid (concat (map snd bs))"
  shows "sorted_pairs (Compare cmp) valid (index_pairs E bs)"
proof -
  have sep: "valid (E ! b)" "\<And>kv. kv \<in> set (snd (bs ! b)) \<Longrightarrow> Compare cmp (fst kv) (E ! b) \<le> 0"
    "\<And>c kv. b < c \<Longrightarrow> c < length bs \<Longrightarrow> kv \<in> set (snd (bs ! c)) \<Longrightarrow> Compare cmp (E ! b) (fst kv) < 0"
    if "b < length bs" for b
    using assms(2,3) that by (auto simp: separates_def)
  have "Compare cmp (E ! a) (E ! b) < 0" if ab: "a < b" "b < length bs" for a b
  proof -
    let ?kv = "hd (snd (bs ! b))"
    have ne: "?kv \<in> set (snd (bs ! b))" using assms(4) nth_mem [OF ab(2)] by (intro list.set_sel(1)) blast
    have "valid (fst ?kv)" using assms(5) ne nth_mem [OF ab(2)] by (auto simp: sorted_pairs_def)
    moreover have "a < length bs" using ab by simp
    ultimately show ?thesis
      using key_order.compare_less_le_trans [of "Compare cmp" valid "E ! a" "fst ?kv" "E ! b"] comparator.axioms(1) [OF assms(1)]
        sep(1,3) [of a] sep(1,2) [of b] ab ne by blast
  qed
  then show ?thesis
    using sep(1) assms(3) unfolding sorted_pairs_def sorted_wrt_iff_nth_less
    by (auto simp: index_pairs_def in_set_conv_nth)
qed

lemma table_index_wf:
  assumes "comparator cmp valid" "separates cmp valid E bs []" "length E = length bs" "\<forall>b\<in>set bs. snd b \<noteq> []"
    "sorted_pairs (Compare cmp) valid (concat (map snd bs))"
    and bf: "\<And>b. b \<in> set bs \<Longrightarrow> \<exists>q. blockit_pos cmp valid (bf (BlockHandle_EncodeTo (fst b) [])) (snd b) q"
  shows "index_wf (Compare cmp) valid (readable cmp valid bf) (pairs_of cmp valid bf) (index_pairs E bs)"
    "all_pairs (pairs_of cmp valid bf) (index_pairs E bs) = concat (map snd bs)"
proof -
  let ?I = "index_pairs E bs"
  have ko: "key_order (Compare cmp) valid" by (rule comparator.axioms(1) [OF assms(1)])
  have len: "length ?I = length bs" using assms(3) by (simp add: index_pairs_def)
  have I: "?I ! b = (E ! b, BlockHandle_EncodeTo (fst (bs ! b)) [])" if "b < length bs" for b
    using that assms(3) by (simp add: index_pairs_def)
  have p: "pairs_of cmp valid bf (snd (?I ! b)) = snd (bs ! b)" "readable cmp valid bf (snd (?I ! b))" if "b < length bs" for b
    using bf [OF nth_mem [OF that]] pairs_of_eq [OF ko] I [OF that] by auto
  have "map (\<lambda>kh. pairs_of cmp valid bf (snd kh)) ?I = map snd bs"
    by (rule nth_equalityI) (use len p(1) in simp_all)
  then show all: "all_pairs (pairs_of cmp valid bf) ?I = concat (map snd bs)" by (simp add: all_pairs_def)
  have "Compare cmp (fst kv) (fst (?I ! b)) \<le> 0 \<and> (0 < b \<longrightarrow> Compare cmp (fst (?I ! (b - 1))) (fst kv) < 0)"
    if b: "b < length bs" "kv \<in> set (blk (pairs_of cmp valid bf) ?I b)" for b kv
  proof -
    have kv: "kv \<in> set (snd (bs ! b))" using b p(1) by (simp add: blk_def)
    have "Compare cmp (fst kv) (E ! b) \<le> 0" "\<And>a. a < b \<Longrightarrow> Compare cmp (E ! a) (fst kv) < 0"
      using assms(2,3) b(1) kv by (auto simp: separates_def)
    then show ?thesis using I [of b] I [of "b - 1"] b(1) by simp
  qed
  moreover have "\<forall>kh\<in>set ?I. readable cmp valid bf (snd kh)" using p(2) len by (metis in_set_conv_nth)
  ultimately show "index_wf (Compare cmp) valid (readable cmp valid bf) (pairs_of cmp valid bf) ?I"
    using index_pairs_sorted [OF assms(1-5)] all assms(5) len by (simp add: index_wf_def)
qed


text \<open>The steps of opening a table whose file ends with a footer.\<close>

lemma Table_Open_ok:
  assumes "random_access_file ops content invar" "invar f" "snappy_ok sn"
    and "content f = F @ Footer_EncodeTo \<lparr>metaindex_handle = m, index_handle = i\<rparr> []" "stored sn F i raw"
    and "length (content f) < 2 ^ 64"
  shows "Table_Open sn ops cmp cid f (length (content f)) =
    Inr \<lparr>t_comparator = cmp, t_file = f, cache_id = cid, t_metaindex_handle = m, t_index_block = Block_new raw\<rparr>"
proof -
  let ?footer = "Footer_EncodeTo \<lparr>metaindex_handle = m, index_handle = i\<rparr> []"
  have len: "length ?footer = kEncodedLength" "Footer_DecodeFrom ?footer = Inr (\<lparr>metaindex_handle = m, index_handle = i\<rparr>, [])"
    using Footer_read_back [of "\<lparr>metaindex_handle = m, index_handle = i\<rparr>" "[]"] by simp_all
  have "ra_Read ops f (length F) kEncodedLength = (OK, ?footer)"
    using random_access_file.ra_read_ok [OF assms(1,2), of "length F" kEncodedLength] assms(4) len(1) by simp
  moreover have "ReadBlock sn ops f ReadOptions_new i = Inr (Block_new raw)"
    using random_access_file.ReadBlock_stored [OF assms(1,2) _ assms(3,6)] stored_append [OF assms(5)] assms(4) by simp
  ultimately show ?thesis using assms(4) len by (simp add: Table_Open_def)
qed

lemma table_written:
  assumes "comparator cmp valid" "writable_file wops wcontent winvar" "0 < opt_restart_interval opts" "opt_comparator opts = cmp"
    and "winvar f" "wcontent f = []" "sorted_pairs (Compare cmp) valid kvs"
    and "TableBuilder_Finish sn wops (foldl (\<lambda>r (k, v). TableBuilder_Add sn wops r k v) (TableBuilder_new opts f) kvs) = (s, r)"
  shows "s = OK \<and> winvar (tb_file r) \<and> tb_offset r = of_nat (length (wcontent (tb_file r)))"
proof -
  have tw: "table_writer wops wcontent winvar cmp valid" using assms(1,2) by (simp add: table_writer_def)
  obtain bs E cur where rep: "tb_rep wcontent winvar sn opts valid
      (foldl (\<lambda>r (k, v). TableBuilder_Add sn wops r k v) (TableBuilder_new opts f) kvs) kvs bs E cur"
    using table_writer.Adds_rep [OF tw assms(3-7), of sn] by (elim exE)
  show ?thesis by (rule table_writer.Finish_layout [OF tw rep assms(3,4,7)]) (use assms(8) in auto)
qed

text \<open>What opening a table that the builder wrote gives: an index whose blocks hold the pairs.\<close>

lemma table_opens:
  assumes "comparator cmp valid" "writable_file wops wcontent winvar" "random_access_file rops rcontent rinvar" "snappy_ok sn"
    and "opt_comparator opts = cmp" "0 < opt_restart_interval opts" "winvar f" "wcontent f = []"
    and "sorted_pairs (Compare cmp) valid kvs"
    and "TableBuilder_Finish sn wops (foldl (\<lambda>r (k, v). TableBuilder_Add sn wops r k v) (TableBuilder_new opts f) kvs) = (s, r)"
    and "length (wcontent (tb_file r)) < 2 ^ 32" "rinvar g" "rcontent g = wcontent (tb_file r)"
  shows "s = OK \<and> (\<exists>t I q. Table_Open sn rops cmp cid g (length (rcontent g)) = Inr t \<and>
    blockit_pos cmp valid (BlockIt_new (t_comparator t) (t_index_block t)) I q \<and>
    (\<forall>options block_cache. cache_coherent sn rops t options block_cache \<longrightarrow>
      (let bf = (\<lambda>h. fst (BlockReader sn rops t block_cache options h))
       in index_wf (Compare cmp) valid (readable cmp valid bf) (pairs_of cmp valid bf) I \<and> all_pairs (pairs_of cmp valid bf) I = kvs)))"
proof -
  let ?iv = "opt_restart_interval opts"
  have tw: "table_writer wops wcontent winvar cmp valid" using assms(1,2) by (simp add: table_writer_def)
  have ko: "key_order (Compare cmp) valid" by (rule comparator.axioms(1) [OF assms(1)])
  obtain bs0 E0 cur where rep: "tb_rep wcontent winvar sn opts valid
      (foldl (\<lambda>r (k, v). TableBuilder_Add sn wops r k v) (TableBuilder_new opts f) kvs) kvs bs0 E0 cur"
    using table_writer.Adds_rep [OF tw assms(6,5,7-9), of sn] by (elim exE)
  obtain bs E m i F where fin: "s = OK" "wcontent (tb_file r) = F @ Footer_EncodeTo \<lparr>metaindex_handle = m, index_handle = i\<rparr> []"
    "blocks_stored sn ?iv F bs" "length F < 2 ^ 64 \<longrightarrow> stored sn F i (block_of 1 (index_pairs E bs))"
    "kvs = concat (map snd bs)" "\<forall>b\<in>set bs. snd b \<noteq> []" "length E = length bs" "separates cmp valid E bs []"
    by (rule table_writer.Finish_layout [OF tw rep assms(6,5,9)]) (use assms(10) in auto)
  have F: "length F < 2 ^ 32" "length F < 2 ^ 64" using assms(11) fin(2) by simp_all
  have small: "length (rcontent g) < 2 ^ 64" using assms(11,13) by simp
  let ?I = "index_pairs E bs"
  define t where "t = \<lparr>t_comparator = cmp, t_file = g, cache_id = cid, t_metaindex_handle = m, t_index_block = Block_new (block_of 1 ?I)\<rparr>"
  have i: "stored sn F i (block_of 1 ?I)" using fin(4) F(2) by simp
  have open_t: "Table_Open sn rops cmp cid g (length (rcontent g)) = Inr t"
    using Table_Open_ok [OF assms(3,12,4) _ i small] assms(13) fin(2) by (simp add: t_def)
  have sorted: "sorted_pairs (Compare cmp) valid ?I"
    using index_pairs_sorted [OF assms(1) fin(8,7,6)] assms(9) fin(5) by simp
  obtain q where q: "blockit_pos cmp valid (BlockIt_new (t_comparator t) (t_index_block t)) ?I q"
    using BlockIt_new_built [OF _ stored_raw_small [OF i assms(4) F(1)] sorted] by (auto simp: t_def)
  have vals: "BlockHandle_EncodeTo (fst b) [] \<in> index_values t" if b: "b \<in> set bs" for b
  proof -
    obtain n where n: "n < length bs" "bs ! n = b" using b by (auto simp: in_set_conv_nth)
    then have "n < length ?I" "snd (?I ! n) = BlockHandle_EncodeTo (fst b) []" using fin(7) by (simp_all add: index_pairs_def)
    then show ?thesis
      using iterator.scan_reads [OF blockit_iterator [OF ko], OF q, of n] unfolding index_values_def Let_def
      by (auto intro!: exI [of _ n]) (metis snd_conv)
  qed
  have bf: "\<exists>q. blockit_pos cmp valid (fst (BlockReader sn rops t block_cache options (BlockHandle_EncodeTo (fst b) []))) (snd b) q"
    if "cache_coherent sn rops t options block_cache" "b \<in> set bs" for options block_cache b
  proof -
    have st: "stored sn F (fst b) (block_of ?iv (snd b))" using fin(3) F(2) that(2) by (simp add: blocks_stored_def)
    then have "stored sn (rcontent g) (fst b) (block_of ?iv (snd b))" using assms(13) fin(2) stored_append by simp
    then have "ReadBlock sn rops (t_file t) options (fst b) = Inr (Block_new (block_of ?iv (snd b)))"
      using random_access_file.ReadBlock_stored [OF assms(3,12) _ assms(4) small] by (simp add: t_def)
    then have "fst (BlockReader sn rops t block_cache options (BlockHandle_EncodeTo (fst b) [])) =
        BlockIt_new cmp (Block_new (block_of ?iv (snd b)))"
      using BlockReader_eq [OF that(1) vals [OF that(2)], of "fst b" "[]"] BlockHandle_roundtrip [of "fst b" "[]"]
      by (simp add: t_def)
    moreover have "sorted_pairs (Compare cmp) valid (snd b)"
    proof -
      from split_list [OF that(2)] obtain xs ys where "bs = xs @ b # ys" by blast
      then show ?thesis using assms(9) fin(5) by (auto simp: sorted_pairs_def sorted_wrt_append)
    qed
    ultimately show ?thesis using BlockIt_new_built [OF assms(6) stored_raw_small [OF st assms(4) F(1)]] by simp
  qed
  have wf: "index_wf (Compare cmp) valid (readable cmp valid bf) (pairs_of cmp valid bf) ?I" "all_pairs (pairs_of cmp valid bf) ?I = kvs"
    if "cache_coherent sn rops t options block_cache" "bf = (\<lambda>h. fst (BlockReader sn rops t block_cache options h))"
    for options block_cache bf
    using table_index_wf [OF assms(1) fin(8,7,6), of bf] bf [OF that(1)] assms(9) fin(5) that(2) by simp_all
  show ?thesis
    by (intro conjI exI [of _ t] exI [of _ ?I] exI [of _ q] allI impI fin(1) open_t q) (simp add: Let_def wf)
qed

text \<open>C2: Pairs added in increasing order to a table builder over any correct file, with any block size,
  restart interval, compression library that restores what it compressed and comparator that meets its
  contract, are written without error. When the file, of less than 4 GB, is opened as a table, every
  sequence of operations on an iterator of the table returns without error and leaves it where a
  cursor on the list of the pairs would be, with checksums verified or not and with any block cache
  that holds blocks of the table.\<close>

theorem table_roundtrip:
  assumes "comparator cmp valid" "writable_file wops wcontent winvar" "random_access_file rops rcontent rinvar" "snappy_ok sn"
    and "opt_comparator opts = cmp" "0 < opt_restart_interval opts" "winvar f" "wcontent f = []"
    and "sorted_pairs (Compare cmp) valid kvs"
    and "TableBuilder_Finish sn wops (foldl (\<lambda>r (k, v). TableBuilder_Add sn wops r k v) (TableBuilder_new opts f) kvs) = (s, r)"
    and "length (wcontent (tb_file r)) < 2 ^ 32" "rinvar g" "rcontent g = wcontent (tb_file r)"
  shows "s = OK \<and> (\<exists>t. Table_Open sn rops cmp cid g (length (rcontent g)) = Inr t \<and>
    (\<forall>options block_cache ms. cache_coherent sn rops t options block_cache \<longrightarrow>
      (\<forall>target. MSeek target \<in> set ms \<longrightarrow> valid target) \<longrightarrow>
      (\<exists>it. TwoLevel_run BlockItOps BlockItOps (\<lambda>h. fst (BlockReader sn rops t block_cache options h))
               (Table_NewIterator t) ms = Some it \<and>
         view (TableOps sn rops t block_cache options) it =
           cursor_view kvs (foldl (cursor_move (Compare cmp) kvs) (length kvs) ms) \<and>
         it_status (TableOps sn rops t block_cache options) it = OK)))"
proof -
  have ko: "key_order (Compare cmp) valid" by (rule comparator.axioms(1) [OF assms(1)])
  obtain t I q where s: "s = OK" and t: "Table_Open sn rops cmp cid g (length (rcontent g)) = Inr t"
    and q: "blockit_pos cmp valid (BlockIt_new (t_comparator t) (t_index_block t)) I q"
    and wf: "\<forall>options block_cache. cache_coherent sn rops t options block_cache \<longrightarrow>
      (let bf = (\<lambda>h. fst (BlockReader sn rops t block_cache options h))
       in index_wf (Compare cmp) valid (readable cmp valid bf) (pairs_of cmp valid bf) I \<and> all_pairs (pairs_of cmp valid bf) I = kvs)"
    using table_opens [OF assms, of cid] by blast
  show ?thesis
  proof (intro conjI exI [of _ t] allI impI)
    show "s = OK" by (rule s)
    show "Table_Open sn rops cmp cid g (length (rcontent g)) = Inr t" by (rule t)
    fix options block_cache ms
    assume c: "cache_coherent sn rops t options block_cache" and ms: "\<forall>target. MSeek target \<in> set ms \<longrightarrow> valid target"
    let ?bf = "\<lambda>h. fst (BlockReader sn rops t block_cache options h)"
    have tl: "two_level (Compare cmp) valid BlockItOps (blockit_pos cmp valid) BlockItOps (blockit_pos cmp valid)
        (readable cmp valid ?bf) ?bf (pairs_of cmp valid ?bf)" by (rule table_two_level [OF ko])
    have wf: "index_wf (Compare cmp) valid (readable cmp valid ?bf) (pairs_of cmp valid ?bf) I"
      "all_pairs (pairs_of cmp valid ?bf) I = kvs"
      using wf c by (simp_all add: Let_def)
    show "\<exists>it. TwoLevel_run BlockItOps BlockItOps ?bf (Table_NewIterator t) ms = Some it \<and>
         view (TableOps sn rops t block_cache options) it =
           cursor_view kvs (foldl (cursor_move (Compare cmp) kvs) (length kvs) ms) \<and>
         it_status (TableOps sn rops t block_cache options) it = OK"
      using two_level_runs [OF tl, OF q wf(1) ms] unfolding wf(2) by (simp add: Table_NewIterator_def TableOps_def)
  qed
qed


text \<open>
  A port without the compression library, and files that are strings, to apply the theorem to a
  concrete table of two blocks.
\<close>

definition NoSnappy :: Snappy where
  "NoSnappy = \<lparr>Snappy_Compress = (\<lambda>_. None), Snappy_GetUncompressedLength = (\<lambda>_. None), Snappy_Uncompress = (\<lambda>_. None)\<rparr>"

definition StringSink :: "bytes WritableFile" where
  "StringSink = \<lparr>wf_Append = (\<lambda>w d. (OK, w @ d)), wf_Flush = (\<lambda>w. (OK, w)), wf_Sync = (\<lambda>w. (OK, w)), wf_Close = (\<lambda>w. (OK, w))\<rparr>"

definition StringSource :: "bytes RandomAccessFile" where
  "StringSource = \<lparr>ra_Read = (\<lambda>f offset n. if length f < offset then (InvalidArgument ''invalid Read offset'' [], [])
      else (OK, take n (drop offset f)))\<rparr>"

interpretation string_sink: writable_file StringSink "\<lambda>f. f" "\<lambda>_. True"
  by unfold_locales (auto simp: StringSink_def)

interpretation string_source: random_access_file StringSource "\<lambda>f. f" "\<lambda>_. True"
  by unfold_locales (auto simp: StringSource_def ok_def)

lemma NoSnappy_ok: "snappy_ok NoSnappy"
  by (simp add: snappy_ok_def NoSnappy_def)

definition example_options :: Options where
  "example_options = \<lparr>opt_comparator = BytewiseComparator, block_size = 1, opt_restart_interval = 16, compression = kNoCompression\<rparr>"

definition example_pairs :: "(bytes \<times> bytes) list" where
  "example_pairs = [([1], [7]), ([3], [9])]"

definition example_table :: "Status \<times> bytes TableBuilder" where
  "example_table = TableBuilder_Finish NoSnappy StringSink
     (foldl (\<lambda>r (k, v). TableBuilder_Add NoSnappy StringSink r k v) (TableBuilder_new example_options []) example_pairs)"

lemmas table_eval = TableBuilder_Add_def TableBuilder_new_def TableBuilder_Flush_def TableBuilder_Finish_def WriteBlock_def
  compress_block_def add_index_entry_def BlockBuilder_empty_def CurrentSizeEstimate_def BlockBuilder_Reset_def
  BlockBuilder_new_def BlockBuilder_Add_def BlockBuilder_Finish_def PutVarint32_def EncodeVarint32_small PutFixed32_def
  StringSink_def BlockHandle_EncodeTo_def PutVarint64_def EncodeVarint64.simps
  table_consts BytewiseComparator_def Bytewise_FindShortestSeparator_def

lemma example_size: "length (tb_file (snd example_table)) < 2 ^ 32"
  by (simp add: example_table_def example_pairs_def example_options_def table_eval Let_def Footer_read_back [THEN conjunct1])

theorem table_roundtrip_witness:
  "fst example_table = OK \<and> (\<exists>t. Table_Open NoSnappy StringSource BytewiseComparator 7 (tb_file (snd example_table))
      (length (tb_file (snd example_table))) = Inr t \<and>
    (\<exists>it. TwoLevel_run BlockItOps BlockItOps (\<lambda>h. fst (BlockReader NoSnappy StringSource t None ReadOptions_new h))
        (Table_NewIterator t) [MSeek [2], MPrev, MNext] = Some it \<and>
      view (TableOps NoSnappy StringSource t None ReadOptions_new) it = cursor_view example_pairs 1))"
proof -
  have *: "cache_coherent NoSnappy StringSource t ReadOptions_new None" for t :: "bytes Table" by (simp add: cache_coherent_def)
  have pairs: "sorted_pairs (Compare BytewiseComparator) (\<lambda>_. True) example_pairs"
    by (simp add: sorted_pairs_def example_pairs_def BytewiseComparator_def)
  have foldl: "foldl (cursor_move (Compare BytewiseComparator) example_pairs) (length example_pairs) [MSeek [2], MPrev, MNext] = 1"
    by (simp add: example_pairs_def seek_index_def BytewiseComparator_def)
  have "TableBuilder_Finish NoSnappy StringSink
     (foldl (\<lambda>r (k, v). TableBuilder_Add NoSnappy StringSink r k v) (TableBuilder_new example_options []) example_pairs) =
       (fst example_table, snd example_table)" by (simp add: example_table_def)
  from table_roundtrip [OF bytewise.comparator_axioms string_sink.writable_file_axioms string_source.random_access_file_axioms
      NoSnappy_ok _ _ _ _ pairs this example_size, of "tb_file (snd example_table)" 7]
  obtain t where ok: "fst example_table = OK" and t: "Table_Open NoSnappy StringSource BytewiseComparator 7
      (tb_file (snd example_table)) (length (tb_file (snd example_table))) = Inr t"
    and runs: "\<forall>options block_cache. cache_coherent NoSnappy StringSource t options block_cache \<longrightarrow>
      (\<forall>ms. \<exists>it. TwoLevel_run BlockItOps BlockItOps (\<lambda>h. fst (BlockReader NoSnappy StringSource t block_cache options h))
          (Table_NewIterator t) ms = Some it \<and>
        view (TableOps NoSnappy StringSource t block_cache options) it =
          cursor_view example_pairs (foldl (cursor_move (Compare BytewiseComparator) example_pairs) (length example_pairs) ms))"
    by (simp add: example_options_def) blast
  from ok t runs [rule_format, OF *, of "[MSeek [2], MPrev, MNext]", unfolded foldl] show ?thesis by blast
qed

text \<open>The two-level iterator on an index of three blocks of which the second is empty.\<close>

definition example_index :: "(bytes \<times> bytes) list" where
  "example_index = [([2], [10]), ([4], [11]), ([6], [12])]"

definition example_blocks :: "bytes \<Rightarrow> (bytes \<times> bytes) list" where
  "example_blocks h = (if h = [10] then [([1], [7]), ([2], [8])] else if h = [12] then [([5], [9])] else [])"

definition example_reader :: "bytes \<Rightarrow> BlockIt" where
  "example_reader h = BlockIt_new BytewiseComparator (Block_new (block_of 16 (example_blocks h)))"

lemma example_blocks_pos:
  "\<exists>q. blockit_pos BytewiseComparator (\<lambda>_. True) (example_reader h) (example_blocks h) q"
  unfolding example_reader_def
  by (rule BlockIt_new_built) (auto simp: example_blocks_def block_eval sorted_pairs_def BytewiseComparator_def)

lemma example_two_level:
  "two_level (Compare BytewiseComparator) (\<lambda>_. True) BlockItOps (blockit_pos BytewiseComparator (\<lambda>_. True))
     BlockItOps (blockit_pos BytewiseComparator (\<lambda>_. True)) (\<lambda>_. True) example_reader example_blocks"
  by (intro two_level.intro two_level_axioms.intro blockit.iterator_axioms example_blocks_pos)

theorem two_level_refines_cursor_witness:
  "\<exists>t. TwoLevel_run BlockItOps BlockItOps example_reader
      (TwoLevelIterator_new BlockItOps (BlockIt_new BytewiseComparator (Block_new (block_of 1 example_index)))) [MSeek [3], MPrev] = Some t \<and>
    view (TwoLevelOps BlockItOps BlockItOps example_reader) t = Some ([2], [8])"
proof -
  have I: "sorted_pairs (Compare BytewiseComparator) (\<lambda>_. True) example_index"
    by (simp add: sorted_pairs_def example_index_def BytewiseComparator_def)
  obtain q where q: "blockit_pos BytewiseComparator (\<lambda>_. True)
      (BlockIt_new BytewiseComparator (Block_new (block_of 1 example_index))) example_index q"
    using BlockIt_new_built [OF _ _ I, of 1] by (auto simp: example_index_def block_eval)
  have wf: "index_wf (Compare BytewiseComparator) (\<lambda>_. True) (\<lambda>_. True) example_blocks example_index"
    using I by (auto simp: index_wf_def example_index_def example_blocks_def all_pairs_def blk_def sorted_pairs_def
      BytewiseComparator_def less_Suc_eq)
  have M: "all_pairs example_blocks example_index = [([1], [7]), ([2], [8]), ([5], [9])]"
    by (simp add: all_pairs_def example_index_def example_blocks_def)
  have j: "foldl (cursor_move (Compare BytewiseComparator) [([1], [7]), ([2], [8]), ([5], [9])]) 3 [MSeek [3], MPrev] = 1" by code_simp
  show ?thesis
    using two_level_refines_cursor [OF example_two_level, OF q wf, of "[MSeek [3], MPrev]"]
    unfolding M using j by (auto simp: cursor_view_def)
qed

end
