(* ===== verification/DB_Iter.thy ===== *)
theory DB_Iter
  imports Table_Roundtrip Dbformat
begin

text \<open>
  The iterator that users of a database see, \<open>db/db_iter.cc\<close>: it reads an iterator over internal
  keys and yields, for every user key, the newest value that is not newer than a sequence number.
\<close>

subsection \<open>The iterator\<close>

record 'it DBIter =
  dbi_iter :: 'it
  dbi_sequence :: SequenceNumber
  dbi_status :: Status
  saved_key :: bytes
  saved_value :: bytes
  dbi_direction :: Direction
  dbi_valid :: bool

definition NewDBIterator :: "'it \<Rightarrow> SequenceNumber \<Rightarrow> 'it DBIter" where
  "NewDBIterator iter s =
     \<lparr>dbi_iter = iter, dbi_sequence = s, dbi_status = OK, saved_key = [], saved_value = [],
      dbi_direction = kForward, dbi_valid = False\<rparr>"

definition ParseKey :: "'it Iterator \<Rightarrow> 'it DBIter \<Rightarrow> ParsedInternalKey option \<times> 'it DBIter" where
  "ParseKey ops d =
     (case ParseInternalKey (it_key ops (dbi_iter d)) of
        None \<Rightarrow> (None, d\<lparr>dbi_status := Corruption ''corrupted internal key in DBIter'' []\<rparr>)
      | Some pkey \<Rightarrow> (Some pkey, d))"

text \<open>
  One round of the loop of \<open>FindNextUserEntry\<close>: whether it returns, the iterator and whether it is
  skipping. Both callers pass \<open>saved_key_\<close> as the place for the key to skip.
\<close>

definition next_entry :: "Comparator \<Rightarrow> 'it Iterator \<Rightarrow> 'it DBIter \<Rightarrow> bool \<Rightarrow> bool \<times> 'it DBIter \<times> bool" where
  "next_entry user ops d skipping =
     (case ParseKey ops d of
        (None, d) \<Rightarrow> (False, d, skipping)
      | (Some pkey, d) \<Rightarrow>
          if sequence pkey \<le> dbi_sequence d then
            (case vtype pkey of
               kTypeDeletion \<Rightarrow> (False, d\<lparr>saved_key := user_key pkey\<rparr>, True)
             | kTypeValue \<Rightarrow>
                 if skipping \<and> Compare user (user_key pkey) (saved_key d) \<le> 0 then (False, d, skipping)
                 else (True, d\<lparr>dbi_valid := True, saved_key := []\<rparr>, skipping))
          else (False, d, skipping))"

partial_function (option) FindNextUserEntry ::
  "Comparator \<Rightarrow> 'it Iterator \<Rightarrow> 'it DBIter \<Rightarrow> bool \<Rightarrow> 'it DBIter option" where
  "FindNextUserEntry user ops d skipping =
     (let (found, d, skipping) = next_entry user ops d skipping in
      if found then Some d
      else
        (let d = d\<lparr>dbi_iter := it_Next ops (dbi_iter d)\<rparr> in
         if it_Valid ops (dbi_iter d) then FindNextUserEntry user ops d skipping
         else Some (d\<lparr>saved_key := [], dbi_valid := False\<rparr>)))"

text \<open>One round of the loop of \<open>FindPrevUserEntry\<close>.\<close>

definition prev_entry :: "Comparator \<Rightarrow> 'it Iterator \<Rightarrow> 'it DBIter \<Rightarrow> ValueType \<Rightarrow> bool \<times> 'it DBIter \<times> ValueType" where
  "prev_entry user ops d value_type =
     (case ParseKey ops d of
        (None, d) \<Rightarrow> (False, d, value_type)
      | (Some pkey, d) \<Rightarrow>
          if sequence pkey \<le> dbi_sequence d then
            (if value_type \<noteq> kTypeDeletion \<and> Compare user (user_key pkey) (saved_key d) < 0 then (True, d, value_type)
             else
               (case vtype pkey of
                  kTypeDeletion \<Rightarrow> (False, d\<lparr>saved_key := [], saved_value := []\<rparr>, kTypeDeletion)
                | kTypeValue \<Rightarrow>
                    (False, d\<lparr>saved_key := ExtractUserKey (it_key ops (dbi_iter d)),
                              saved_value := it_value ops (dbi_iter d)\<rparr>, kTypeValue)))
          else (False, d, value_type))"

partial_function (option) FindPrev_loop ::
  "Comparator \<Rightarrow> 'it Iterator \<Rightarrow> 'it DBIter \<Rightarrow> ValueType \<Rightarrow> ('it DBIter \<times> ValueType) option" where
  "FindPrev_loop user ops d value_type =
     (let (stop, d, value_type) = prev_entry user ops d value_type in
      if stop then Some (d, value_type)
      else
        (let d = d\<lparr>dbi_iter := it_Prev ops (dbi_iter d)\<rparr> in
         if it_Valid ops (dbi_iter d) then FindPrev_loop user ops d value_type else Some (d, value_type)))"

definition FindPrevUserEntry :: "Comparator \<Rightarrow> 'it Iterator \<Rightarrow> 'it DBIter \<Rightarrow> 'it DBIter option" where
  "FindPrevUserEntry user ops d =
     map_option
       (\<lambda>(d, value_type).
          if value_type = kTypeDeletion
          then d\<lparr>dbi_valid := False, saved_key := [], saved_value := [], dbi_direction := kForward\<rparr>
          else d\<lparr>dbi_valid := True\<rparr>)
       (if it_Valid ops (dbi_iter d) then FindPrev_loop user ops d kTypeDeletion else Some (d, kTypeDeletion))"

definition DBIter_Next :: "Comparator \<Rightarrow> 'it Iterator \<Rightarrow> 'it DBIter \<Rightarrow> 'it DBIter option" where
  "DBIter_Next user ops d =
     (let switch = dbi_direction d = kReverse;
          iter = dbi_iter d;
          d = (if switch
               then d\<lparr>dbi_direction := kForward, dbi_iter := (if \<not> it_Valid ops iter then it_SeekToFirst ops iter else it_Next ops iter)\<rparr>
               else d)
      in if switch \<and> \<not> it_Valid ops (dbi_iter d) then Some (d\<lparr>dbi_valid := False, saved_key := []\<rparr>)
         else FindNextUserEntry user ops (d\<lparr>saved_key := ExtractUserKey (it_key ops (dbi_iter d))\<rparr>) True)"

text \<open>The loop that turns around: whether it has found an entry of an earlier user key.\<close>

partial_function (option) Prev_scan :: "Comparator \<Rightarrow> 'it Iterator \<Rightarrow> 'it DBIter \<Rightarrow> (bool \<times> 'it DBIter) option" where
  "Prev_scan user ops d =
     (let d = d\<lparr>dbi_iter := it_Prev ops (dbi_iter d)\<rparr> in
      if \<not> it_Valid ops (dbi_iter d) then Some (False, d)
      else if Compare user (ExtractUserKey (it_key ops (dbi_iter d))) (saved_key d) < 0 then Some (True, d)
      else Prev_scan user ops d)"

definition DBIter_Prev :: "Comparator \<Rightarrow> 'it Iterator \<Rightarrow> 'it DBIter \<Rightarrow> 'it DBIter option" where
  "DBIter_Prev user ops d =
     (if dbi_direction d = kForward then
        (case Prev_scan user ops (d\<lparr>saved_key := ExtractUserKey (it_key ops (dbi_iter d))\<rparr>) of
           None \<Rightarrow> None
         | Some (False, d) \<Rightarrow> Some (d\<lparr>dbi_valid := False, saved_key := [], saved_value := []\<rparr>)
         | Some (True, d) \<Rightarrow> FindPrevUserEntry user ops (d\<lparr>dbi_direction := kReverse\<rparr>))
      else FindPrevUserEntry user ops d)"

definition DBIter_Seek :: "Comparator \<Rightarrow> 'it Iterator \<Rightarrow> 'it DBIter \<Rightarrow> bytes \<Rightarrow> 'it DBIter option" where
  "DBIter_Seek user ops d target =
     (let key = AppendInternalKey [] \<lparr>user_key = target, sequence = dbi_sequence d, vtype = kValueTypeForSeek\<rparr>;
          d = d\<lparr>dbi_direction := kForward, saved_value := [], saved_key := key, dbi_iter := it_Seek ops (dbi_iter d) key\<rparr>
      in if it_Valid ops (dbi_iter d) then FindNextUserEntry user ops d False else Some (d\<lparr>dbi_valid := False\<rparr>))"

definition DBIter_SeekToFirst :: "Comparator \<Rightarrow> 'it Iterator \<Rightarrow> 'it DBIter \<Rightarrow> 'it DBIter option" where
  "DBIter_SeekToFirst user ops d =
     (let d = d\<lparr>dbi_direction := kForward, saved_value := [], dbi_iter := it_SeekToFirst ops (dbi_iter d)\<rparr>
      in if it_Valid ops (dbi_iter d) then FindNextUserEntry user ops d False else Some (d\<lparr>dbi_valid := False\<rparr>))"

definition DBIter_SeekToLast :: "Comparator \<Rightarrow> 'it Iterator \<Rightarrow> 'it DBIter \<Rightarrow> 'it DBIter option" where
  "DBIter_SeekToLast user ops d =
     FindPrevUserEntry user ops
       (d\<lparr>dbi_direction := kReverse, saved_value := [], dbi_iter := it_SeekToLast ops (dbi_iter d)\<rparr>)"

definition DBIter_key :: "'it Iterator \<Rightarrow> 'it DBIter \<Rightarrow> bytes" where
  "DBIter_key ops d = (if dbi_direction d = kForward then ExtractUserKey (it_key ops (dbi_iter d)) else saved_key d)"

definition DBIter_value :: "'it Iterator \<Rightarrow> 'it DBIter \<Rightarrow> bytes" where
  "DBIter_value ops d = (if dbi_direction d = kForward then it_value ops (dbi_iter d) else saved_value d)"

definition DBIter_status :: "'it Iterator \<Rightarrow> 'it DBIter \<Rightarrow> Status" where
  "DBIter_status ops d = (if ok (dbi_status d) then it_status ops (dbi_iter d) else dbi_status d)"

text \<open>Sequences of operations, and what is seen.\<close>

fun DBIter_move :: "Comparator \<Rightarrow> 'it Iterator \<Rightarrow> 'it DBIter \<Rightarrow> Move \<Rightarrow> 'it DBIter option" where
  "DBIter_move user ops d MFirst = DBIter_SeekToFirst user ops d"
| "DBIter_move user ops d MLast = DBIter_SeekToLast user ops d"
| "DBIter_move user ops d (MSeek target) = DBIter_Seek user ops d target"
| "DBIter_move user ops d MNext = (if dbi_valid d then DBIter_Next user ops d else Some d)"
| "DBIter_move user ops d MPrev = (if dbi_valid d then DBIter_Prev user ops d else Some d)"

fun DBIter_run :: "Comparator \<Rightarrow> 'it Iterator \<Rightarrow> 'it DBIter \<Rightarrow> Move list \<Rightarrow> 'it DBIter option" where
  "DBIter_run user ops d [] = Some d"
| "DBIter_run user ops d (m # ms) = Option.bind (DBIter_move user ops d m) (\<lambda>d. DBIter_run user ops d ms)"

definition DBIter_view :: "'it Iterator \<Rightarrow> 'it DBIter \<Rightarrow> (bytes \<times> bytes) option" where
  "DBIter_view ops d = (if dbi_valid d then Some (DBIter_key ops d, DBIter_value ops d) else None)"

declare FindNextUserEntry.simps [code] FindPrev_loop.simps [code] Prev_scan.simps [code]

subsection \<open>What the iterator should show\<close>

text \<open>
  An entry yields a pair when it is a value, is visible at the snapshot, and no entry before it,
  that is no newer entry, for the same user key is visible.
\<close>

definition key_seq :: "bytes \<Rightarrow> SequenceNumber" where
  "key_seq k = drop_bit 8 (ExtractTag k)"

definition key_type :: "bytes \<Rightarrow> ValueType" where
  "key_type k = the (to_ValueType (ucast (ExtractTag k AND 0xff)))"

definition yields :: "Comparator \<Rightarrow> SequenceNumber \<Rightarrow> (bytes \<times> bytes) list \<Rightarrow> nat \<Rightarrow> bool" where
  "yields user s E i \<longleftrightarrow> key_seq (fst (E ! i)) \<le> s \<and> key_type (fst (E ! i)) = kTypeValue \<and>
     (\<forall>j<i. Compare user (ExtractUserKey (fst (E ! j))) (ExtractUserKey (fst (E ! i))) = 0 \<longrightarrow> s < key_seq (fst (E ! j)))"

definition visible_pairs :: "Comparator \<Rightarrow> SequenceNumber \<Rightarrow> (bytes \<times> bytes) list \<Rightarrow> (bytes \<times> bytes) list" where
  "visible_pairs user s E =
     map (\<lambda>i. (ExtractUserKey (fst (E ! i)), snd (E ! i))) (filter (yields user s E) [0..<length E])"

text \<open>Every user key has an entry that the snapshot sees.\<close>

definition no_hidden_key :: "Comparator \<Rightarrow> SequenceNumber \<Rightarrow> (bytes \<times> bytes) list \<Rightarrow> bool" where
  "no_hidden_key user s E \<longleftrightarrow> (\<forall>e\<in>set E. \<exists>e'\<in>set E.
     Compare user (ExtractUserKey (fst e')) (ExtractUserKey (fst e)) = 0 \<and> key_seq (fst e') \<le> s)"

text \<open>
  The snapshot sees no entry of the last user keys in front of a key. When the iterator has gone back to this key and
  goes on, it yields the key again; the flag tells whether the last step went back.
\<close>

definition hidden_key_before :: "Comparator \<Rightarrow> SequenceNumber \<Rightarrow> (bytes \<times> bytes) list \<Rightarrow> bytes \<Rightarrow> bool" where
  "hidden_key_before user s E k \<longleftrightarrow> (\<exists>e \<in> set E. Compare user (ExtractUserKey (fst e)) k < 0 \<and>
     (\<forall>e' \<in> set E. Compare user (ExtractUserKey (fst e)) (ExtractUserKey (fst e')) \<le> 0 \<longrightarrow> Compare user (ExtractUserKey (fst e')) k < 0 \<longrightarrow>
        s < key_seq (fst e')))"

fun turn_move :: "Comparator \<Rightarrow> (bytes \<Rightarrow> bool) \<Rightarrow> (bytes \<times> bytes) list \<Rightarrow> nat \<times> bool \<Rightarrow> Move \<Rightarrow> nat \<times> bool" where
  "turn_move user again kvs (i, bk) MNext =
     (if i < length kvs \<and> bk \<and> again (fst (kvs ! i)) then i else cursor_move (Compare user) kvs i MNext, False)"
| "turn_move user again kvs (i, bk) m = (cursor_move (Compare user) kvs i m, m = MLast \<or> m = MPrev)"

text \<open>The iterator is not told to go on after it has gone back.\<close>

fun no_turn :: "bool \<Rightarrow> Move list \<Rightarrow> bool" where
  "no_turn bk [] = True"
| "no_turn bk (m # ms) =
     (case m of
        MFirst \<Rightarrow> no_turn False ms
      | MSeek target \<Rightarrow> no_turn False ms
      | MLast \<Rightarrow> no_turn True ms
      | MPrev \<Rightarrow> no_turn True ms
      | MNext \<Rightarrow> \<not> bk \<and> no_turn bk ms)"

lemma not_deletion: "t \<noteq> kTypeDeletion \<longleftrightarrow> t = kTypeValue"
  by (cases t) simp_all

lemma ParseInternalKey_ok:
  "ParseInternalKey k \<noteq> None \<Longrightarrow>
    ParseInternalKey k = Some \<lparr>user_key = ExtractUserKey k, sequence = key_seq k, vtype = key_type k\<rparr>"
  by (auto simp: ParseInternalKey_def Let_def ExtractUserKey_def key_seq_def key_type_def split: if_splits option.splits)

lemma ExtractTag_Pack:
  assumes "ParseInternalKey k \<noteq> None"
  shows "ExtractTag k = PackSequenceAndType (key_seq k) (key_type k)" "key_seq k \<le> kMaxSequenceNumber"
proof -
  let ?t = "ExtractTag k"
  have c: "ucast (?t AND 0xff) = type_code (key_type k)"
    using assms by (auto simp: ParseInternalKey_def Let_def key_type_def to_ValueType_def split: if_splits)
  have "ucast (ucast (?t AND 0xff) :: byte) = (?t AND 0xff)"
    by (rule bit_word_eqI) (auto simp: bit_simps word_bits)
  then have low: "ucast (type_code (key_type k)) = take_bit 8 ?t" using c by (simp add: word_bits)
  have "push_bit 8 (drop_bit 8 ?t) OR take_bit 8 ?t = ?t" by (rule bit_word_eqI) (auto simp: bit_simps)
  then show "?t = PackSequenceAndType (key_seq k) (key_type k)" by (simp add: PackSequenceAndType_def key_seq_def low)
  have "unat ?t div 2 ^ 8 < 2 ^ 56" using unat_lt [of ?t] by (intro less_mult_imp_div_less) simp
  then show "key_seq k \<le> kMaxSequenceNumber"
    by (simp add: key_seq_def word_le_nat_alt unat_drop_bit_pow kMaxSequenceNumber_def)
qed

subsection \<open>The order of the entries\<close>

definition ordered_entries :: "Comparator \<Rightarrow> (bytes \<times> bytes) list \<Rightarrow> bool" where
  "ordered_entries user E \<longleftrightarrow> sorted_pairs (InternalKey_Compare user) valid_ikey E \<and>
     (\<forall>e\<in>set E. ParseInternalKey (fst e) \<noteq> None)"

abbreviation uk :: "(bytes \<times> bytes) list \<Rightarrow> nat \<Rightarrow> bytes" where
  "uk E i \<equiv> ExtractUserKey (fst (E ! i))"

abbreviation vis :: "SequenceNumber \<Rightarrow> (bytes \<times> bytes) list \<Rightarrow> nat \<Rightarrow> bool" where
  "vis s E i \<equiv> key_seq (fst (E ! i)) \<le> s"

definition rank :: "Comparator \<Rightarrow> SequenceNumber \<Rightarrow> (bytes \<times> bytes) list \<Rightarrow> nat \<Rightarrow> nat" where
  "rank user s E p = length (filter (yields user s E) [0..<p])"

lemma rank_Suc: "rank user s E (Suc p) = rank user s E p + (if yields user s E p then 1 else 0)"
  by (simp add: rank_def)

lemma rank_0 [simp]: "rank user s E 0 = 0"
  by (simp add: rank_def)

lemma rank_all: "rank user s E (length E) = length (visible_pairs user s E)"
  by (simp add: rank_def visible_pairs_def)

lemma rank_skip:
  assumes "p \<le> q" "\<forall>j. p \<le> j \<and> j < q \<longrightarrow> \<not> yields user s E j"
  shows "rank user s E q = rank user s E p"
  using assms
proof (induction q rule: dec_induct)
  case (step q)
  then show ?case by (simp add: rank_Suc)
qed simp

lemma filter_upt_split:
  assumes "i < n"
  shows "filter P [0..<n] = filter P [0..<i] @ (if P i then [i] else []) @ filter P [Suc i..<n]"
proof -
  have "[0..<n] = [0..<i] @ i # [Suc i..<n]" using assms by (metis le0 less_imp_le upt_add_eq_append upt_conv_Cons le_iff_add)
  then show ?thesis by simp
qed

lemma rank_nth:
  assumes "i < length E" "yields user s E i"
  shows "rank user s E i < length (visible_pairs user s E)" "visible_pairs user s E ! rank user s E i = (uk E i, snd (E ! i))"
proof -
  note split = filter_upt_split [OF assms(1), of "yields user s E"]
  show "rank user s E i < length (visible_pairs user s E)"
    using split assms(2) by (simp add: visible_pairs_def rank_def)
  show "visible_pairs user s E ! rank user s E i = (uk E i, snd (E ! i))"
    using split assms(2) by (simp add: visible_pairs_def rank_def nth_append)
qed

context ikey_order begin

lemma eq_sym: "Compare user a b = 0 \<Longrightarrow> Compare user b a = 0"
  using user.compare_eq_flip [of a b] by simp

lemma eq_trans: "Compare user a b = 0 \<Longrightarrow> Compare user b c = 0 \<Longrightarrow> Compare user a c = 0"
  using user.compare_trans [of a b c] user.compare_trans [of c b a] user.compare_eq_flip [of a b] user.compare_eq_flip [of b c]
    user.compare_le_flip [of a c] user.compare_eq_flip [of a c] by auto

lemma le_antisym: "Compare user a b \<le> 0 \<Longrightarrow> Compare user b a \<le> 0 \<Longrightarrow> Compare user a b = 0"
  using user.compare_le_flip [of a b] user.compare_eq_flip [of a b] by auto

lemma uk_mono:
  assumes "ordered_entries user E" "i \<le> j" "j < length E"
  shows "Compare user (uk E i) (uk E j) \<le> 0"
proof (cases "i = j")
  case False
  then have "InternalKey_Compare user (fst (E ! i)) (fst (E ! j)) < 0"
    using assms by (simp add: ordered_entries_def sorted_pairs_def sorted_wrt_iff_nth_less)
  then show ?thesis by (simp add: ikey_Compare_user_le)
qed (simp add: user.compare_refl)

lemma same_between:
  assumes "ordered_entries user E" "i \<le> j" "j \<le> k" "k < length E" "Compare user (uk E i) (uk E k) = 0"
  shows "Compare user (uk E i) (uk E j) = 0" "Compare user (uk E j) (uk E k) = 0"
proof -
  have "Compare user (uk E j) (uk E i) \<le> 0"
    using user.compare_trans [of "uk E j" "uk E k" "uk E i"] uk_mono [OF assms(1,3,4)] eq_sym [OF assms(5)] by simp
  moreover have "Compare user (uk E i) (uk E j) \<le> 0" using uk_mono [OF assms(1,2)] assms(3,4) by simp
  ultimately show *: "Compare user (uk E i) (uk E j) = 0" by (rule le_antisym [rotated])
  show "Compare user (uk E j) (uk E k) = 0" using eq_trans [OF eq_sym [OF *] assms(5)] .
qed

lemma newer_before:
  assumes "ordered_entries user E" "i < j" "j < length E" "Compare user (uk E i) (uk E j) = 0"
  shows "key_seq (fst (E ! j)) \<le> key_seq (fst (E ! i))"
proof -
  have "InternalKey_Compare user (fst (E ! i)) (fst (E ! j)) < 0"
    using assms by (simp add: ordered_entries_def sorted_pairs_def sorted_wrt_iff_nth_less)
  then have "ExtractTag (fst (E ! j)) < ExtractTag (fst (E ! i))"
    using assms(4) by (simp add: InternalKey_Compare_def Let_def split: if_splits)
  then have "unat (ExtractTag (fst (E ! j))) div 2 ^ 8 \<le> unat (ExtractTag (fst (E ! i))) div 2 ^ 8"
    by (intro div_le_mono) (simp add: word_less_nat_alt)
  then show ?thesis unfolding key_seq_def word_le_nat_alt unat_drop_bit_pow .
qed

lemma yields_unique:
  assumes "yields user s E i" "j < i" "Compare user (uk E j) (uk E i) = 0"
  shows "\<not> vis s E j" "\<not> yields user s E j"
  using assms by (auto simp: yields_def not_le)

end

subsection \<open>The loops\<close>

locale db_iterator = ikey_order user + internal: iterator "InternalKey_Compare user" valid_ikey ops pos
  for user :: Comparator and ops :: "'it Iterator" and pos :: "'it \<Rightarrow> (bytes \<times> bytes) list \<Rightarrow> nat \<Rightarrow> bool"
begin

text \<open>What the loops keep: the snapshot, the status, and that the internal iterator is on the entries.\<close>

definition dbi_at :: "SequenceNumber \<Rightarrow> 'it DBIter \<Rightarrow> (bytes \<times> bytes) list \<Rightarrow> nat \<Rightarrow> bool" where
  "dbi_at s d E p \<longleftrightarrow> ordered_entries user E \<and> dbi_sequence d = s \<and> dbi_status d = OK \<and> pos (dbi_iter d) E p"

lemma dbi_at_update [simp]:
  "dbi_at s (d\<lparr>saved_key := k\<rparr>) E p = dbi_at s d E p" "dbi_at s (d\<lparr>saved_value := k\<rparr>) E p = dbi_at s d E p"
  "dbi_at s (d\<lparr>dbi_valid := v\<rparr>) E p = dbi_at s d E p" "dbi_at s (d\<lparr>dbi_direction := dir\<rparr>) E p = dbi_at s d E p"
  by (simp_all add: dbi_at_def)

lemma at_Valid: "dbi_at s d E p \<Longrightarrow> it_Valid ops (dbi_iter d) \<longleftrightarrow> p < length E"
  by (simp add: dbi_at_def internal.Valid_pos)

lemma at_Next: "dbi_at s d E p \<Longrightarrow> p < length E \<Longrightarrow> dbi_at s (d\<lparr>dbi_iter := it_Next ops (dbi_iter d)\<rparr>) E (Suc p)"
  by (simp add: dbi_at_def internal.Next_pos)

lemma at_Prev: "dbi_at s d E p \<Longrightarrow> p < length E \<Longrightarrow>
    dbi_at s (d\<lparr>dbi_iter := it_Prev ops (dbi_iter d)\<rparr>) E (if p = 0 then length E else p - 1)"
  using internal.Prev_pos [of "dbi_iter d" E p] by (simp add: dbi_at_def)

lemma at_key: "dbi_at s d E p \<Longrightarrow> p < length E \<Longrightarrow> it_key ops (dbi_iter d) = fst (E ! p)"
  by (simp add: dbi_at_def internal.key_pos)

lemma at_value: "dbi_at s d E p \<Longrightarrow> p < length E \<Longrightarrow> it_value ops (dbi_iter d) = snd (E ! p)"
  by (simp add: dbi_at_def internal.value_pos)

lemma at_ParseKey:
  assumes "dbi_at s d E p" "p < length E"
  shows "ParseKey ops d = (Some \<lparr>user_key = uk E p, sequence = key_seq (fst (E ! p)), vtype = key_type (fst (E ! p))\<rparr>, d)"
proof -
  have "ParseInternalKey (fst (E ! p)) \<noteq> None" using assms by (simp add: dbi_at_def ordered_entries_def)
  from ParseInternalKey_ok [OF this] show ?thesis by (simp add: ParseKey_def at_key [OF assms])
qed

lemma at_next_entry:
  assumes "dbi_at s d E p" "p < length E"
  shows "next_entry user ops d skipping =
    (if \<not> vis s E p then (False, d, skipping)
     else if key_type (fst (E ! p)) = kTypeDeletion then (False, d\<lparr>saved_key := uk E p\<rparr>, True)
     else if skipping \<and> Compare user (uk E p) (saved_key d) \<le> 0 then (False, d, skipping)
     else (True, d\<lparr>dbi_valid := True, saved_key := []\<rparr>, skipping))"
  using assms(1) by (auto simp: next_entry_def at_ParseKey [OF assms] dbi_at_def split: ValueType.split)

lemma at_prev_entry:
  assumes "dbi_at s d E p" "p < length E"
  shows "prev_entry user ops d vt =
    (if \<not> vis s E p then (False, d, vt)
     else if vt \<noteq> kTypeDeletion \<and> Compare user (uk E p) (saved_key d) < 0 then (True, d, vt)
     else if key_type (fst (E ! p)) = kTypeDeletion then (False, d\<lparr>saved_key := [], saved_value := []\<rparr>, kTypeDeletion)
     else (False, d\<lparr>saved_key := uk E p, saved_value := snd (E ! p)\<rparr>, kTypeValue))"
  using assms(1) by (auto simp: prev_entry_def at_ParseKey [OF assms] at_key [OF assms] at_value [OF assms] dbi_at_def split: ValueType.split)

text \<open>
  Going forward. The entries from \<open>p\<close> on that are hidden, by a visible entry before \<open>p\<close> or
  because their key is the one to leave behind, are those that the test on the key to skip finds.
\<close>

definition left_behind :: "bytes option \<Rightarrow> (bytes \<times> bytes) list \<Rightarrow> nat \<Rightarrow> bool" where
  "left_behind x E j \<longleftrightarrow> (\<exists>u. x = Some u \<and> Compare user u (uk E j) = 0)"

definition hidden :: "SequenceNumber \<Rightarrow> bytes option \<Rightarrow> (bytes \<times> bytes) list \<Rightarrow> nat \<Rightarrow> nat \<Rightarrow> bool" where
  "hidden s x E p j \<longleftrightarrow> (\<exists>i<p. vis s E i \<and> Compare user (uk E i) (uk E j) = 0) \<or> left_behind x E j"

definition skips :: "SequenceNumber \<Rightarrow> bytes option \<Rightarrow> (bytes \<times> bytes) list \<Rightarrow> nat \<Rightarrow> bool \<Rightarrow> bytes \<Rightarrow> bool" where
  "skips s x E p skipping key \<longleftrightarrow>
     (\<forall>j. p \<le> j \<and> j < length E \<longrightarrow> (hidden s x E p j \<longleftrightarrow> skipping \<and> Compare user (uk E j) key \<le> 0)) \<and>
     (\<forall>u j. x = Some u \<and> p \<le> j \<and> j < length E \<longrightarrow> Compare user u (uk E j) \<le> 0)"

lemma yields_hidden:
  assumes "p < length E"
  shows "yields user s E p \<and> \<not> left_behind x E p \<longleftrightarrow> vis s E p \<and> key_type (fst (E ! p)) = kTypeValue \<and> \<not> hidden s x E p p"
  by (auto simp: yields_def hidden_def not_le)

lemma hidden_Suc: "hidden s x E (Suc p) j \<longleftrightarrow> hidden s x E p j \<or> vis s E p \<and> Compare user (uk E p) (uk E j) = 0"
  by (auto simp: hidden_def less_Suc_eq)

lemma skips_pass:
  assumes "skips s x E p skipping key" "p < length E" "\<not> vis s E p \<or> hidden s x E p p"
  shows "skips s x E (Suc p) skipping key"
proof -
  have "hidden s x E (Suc p) j \<longleftrightarrow> hidden s x E p j" for j
  proof -
    have "hidden s x E p j" if "hidden s x E p p" "Compare user (uk E p) (uk E j) = 0"
      using that eq_trans unfolding hidden_def left_behind_def by blast
    then show ?thesis using assms(3) by (auto simp: hidden_Suc)
  qed
  then show ?thesis using assms(1) by (simp add: skips_def)
qed

lemma skips_deletion:
  assumes "skips s x E p skipping key" "ordered_entries user E" "p < length E" "vis s E p"
  shows "skips s x E (Suc p) True (uk E p)"
proof -
  have "hidden s x E (Suc p) j \<longleftrightarrow> Compare user (uk E j) (uk E p) \<le> 0" if j: "Suc p \<le> j" "j < length E" for j
  proof
    assume "Compare user (uk E j) (uk E p) \<le> 0"
    then have "Compare user (uk E p) (uk E j) = 0" using uk_mono [OF assms(2), of p j] j by (intro le_antisym) simp_all
    then show "hidden s x E (Suc p) j" using assms(4) by (simp add: hidden_Suc)
  next
    assume h: "hidden s x E (Suc p) j"
    have "Compare user (uk E p) (uk E j) = 0"
    proof (cases "left_behind x E j")
      case True
      then obtain u where u: "x = Some u" "Compare user u (uk E j) = 0" by (auto simp: left_behind_def)
      have "Compare user u (uk E p) \<le> 0" using assms(1,3) u(1) by (auto simp: skips_def)
      then have "Compare user (uk E j) (uk E p) \<le> 0" using user.compare_trans [of "uk E j" u "uk E p"] eq_sym [OF u(2)] by simp
      then show ?thesis using uk_mono [OF assms(2), of p j] j by (intro le_antisym) simp_all
    next
      case False
      then obtain i where "i < Suc p" "Compare user (uk E i) (uk E j) = 0" using h by (auto simp: hidden_def)
      then show ?thesis using same_between(2) [OF assms(2), of i p j] j by simp
    qed
    then show "Compare user (uk E j) (uk E p) \<le> 0" using eq_sym by simp
  qed
  then show ?thesis using assms(1) by (simp add: skips_def)
qed

lemma FindNext_ok:
  assumes "dbi_at s d E p" "p < length E" "skips s x E p skipping (saved_key d)"
  shows "\<exists>d' q. FindNextUserEntry user ops d skipping = Some d' \<and> dbi_at s d' E q \<and> p \<le> q \<and> q \<le> length E \<and>
    (\<forall>j. p \<le> j \<and> j < q \<longrightarrow> \<not> (yields user s E j \<and> \<not> left_behind x E j)) \<and>
    (q < length E \<longrightarrow> yields user s E q \<and> \<not> left_behind x E q) \<and>
    dbi_valid d' = (q < length E) \<and> dbi_direction d' = dbi_direction d"
  using assms
proof (induction "length E - p" arbitrary: d p skipping rule: less_induct)
  case less
  note at = less(2,3)
  have ord: "ordered_entries user E" using at(1) by (simp add: dbi_at_def)
  note hid = yields_hidden [OF at(2), of s x]
  have hp: "hidden s x E p p \<longleftrightarrow> skipping \<and> Compare user (uk E p) (saved_key d) \<le> 0" using less(4) at(2) by (auto simp: skips_def)
  obtain found d1 sk where ne: "next_entry user ops d skipping = (found, d1, sk)" by (cases "next_entry user ops d skipping") auto
  have dir: "dbi_direction d1 = dbi_direction d" "dbi_at s d1 E p"
    using ne at_next_entry [OF at, of skipping] at(1) by (auto split: if_splits)
  show ?case
  proof (cases found)
    case True
    then have "vis s E p" "key_type (fst (E ! p)) \<noteq> kTypeDeletion" "\<not> hidden s x E p p" "dbi_valid d1"
      using ne at_next_entry [OF at, of skipping] hp by (auto split: if_splits)
    moreover have "key_type (fst (E ! p)) = kTypeValue" using calculation(2) by (cases "key_type (fst (E ! p))") auto
    ultimately show ?thesis
      using True ne dir at(2) hid by (subst FindNextUserEntry.simps) (auto intro!: exI [of _ p])
  next
    case False
    let ?d2 = "d1\<lparr>dbi_iter := it_Next ops (dbi_iter d1)\<rparr>"
    have at2: "dbi_at s ?d2 E (Suc p)" by (rule at_Next [OF dir(2) at(2)])
    have ny: "\<not> (yields user s E p \<and> \<not> left_behind x E p)"
      using False ne at_next_entry [OF at, of skipping] hp hid by (auto split: if_splits)
    have sk: "skips s x E (Suc p) sk (saved_key ?d2)"
    proof (cases "vis s E p \<and> key_type (fst (E ! p)) = kTypeDeletion")
      case True
      then have "sk" "saved_key d1 = uk E p" using ne at_next_entry [OF at, of skipping] by auto
      then show ?thesis using skips_deletion [OF less(4) ord at(2)] True by simp
    next
      case 2: False
      then have "sk = skipping" "d1 = d" "\<not> vis s E p \<or> hidden s x E p p"
        using False ne at_next_entry [OF at, of skipping] hp by (auto split: if_splits)
      then show ?thesis using skips_pass [OF less(4) at(2)] by simp
    qed
    have step: "FindNextUserEntry user ops d skipping =
        (if Suc p < length E then FindNextUserEntry user ops ?d2 sk else Some (?d2\<lparr>saved_key := [], dbi_valid := False\<rparr>))"
      using False ne at_Valid [OF at2] by (subst FindNextUserEntry.simps) simp
    show ?thesis
    proof (cases "Suc p < length E")
      case True
      have lt: "length E - Suc p < length E - p" using at(2) by simp
      obtain d' q where q: "FindNextUserEntry user ops ?d2 sk = Some d'" "dbi_at s d' E q" "Suc p \<le> q" "q \<le> length E"
        "\<forall>j. Suc p \<le> j \<and> j < q \<longrightarrow> \<not> (yields user s E j \<and> \<not> left_behind x E j)"
        "q < length E \<longrightarrow> yields user s E q \<and> \<not> left_behind x E q"
        "dbi_valid d' = (q < length E)" "dbi_direction d' = dbi_direction ?d2"
        using less(1) [OF lt at2 True sk] by (elim exE conjE) (rule that)
      have "\<not> (yields user s E j \<and> \<not> left_behind x E j)" if "p \<le> j \<and> j < q" for j
        using that ny q(5) by (cases "j = p") (simp, simp add: Suc_le_eq)
      then show ?thesis using q step True dir(1) by (intro exI [of _ d'] exI [of _ q]) simp
    next
      case False
      then have "Suc p = length E" using at(2) by simp
      moreover have "\<forall>j. p \<le> j \<and> j < Suc p \<longrightarrow> \<not> (yields user s E j \<and> \<not> left_behind x E j)"
        using ny by (auto simp: less_Suc_eq)
      ultimately show ?thesis
        using step at2 dir(1) by (intro exI [of _ "?d2\<lparr>saved_key := [], dbi_valid := False\<rparr>"] exI [of _ "Suc p"]) simp
    qed
  qed
qed

text \<open>
  Going back. The internal iterator stops before a pair when it is before all entries, or at a
  visible entry of an earlier key, and what lies between is not visible.
\<close>

definition before_pair :: "SequenceNumber \<Rightarrow> (bytes \<times> bytes) list \<Rightarrow> nat \<Rightarrow> nat \<Rightarrow> bool" where
  "before_pair s E q m \<longleftrightarrow> q = length E \<and> (\<forall>j<m. \<not> vis s E j) \<or>
     q < m \<and> vis s E q \<and> Compare user (uk E q) (uk E m) < 0 \<and> (\<forall>j. q < j \<and> j < m \<longrightarrow> \<not> vis s E j)"

definition holds_pair :: "(bytes \<times> bytes) list \<Rightarrow> 'it DBIter \<Rightarrow> nat \<Rightarrow> bool" where
  "holds_pair E d m \<longleftrightarrow> saved_key d = uk E m \<and> saved_value d = snd (E ! m)"

definition prev_inv :: "SequenceNumber \<Rightarrow> (bytes \<times> bytes) list \<Rightarrow> nat \<Rightarrow> nat \<Rightarrow> 'it DBIter \<Rightarrow> ValueType \<Rightarrow> bool" where
  "prev_inv s E n B d vt \<longleftrightarrow>
     (if vt = kTypeDeletion then \<forall>j. n \<le> j \<and> j \<le> B \<longrightarrow> \<not> yields user s E j
      else \<exists>m. n \<le> m \<and> m \<le> B \<and> vis s E m \<and> key_type (fst (E ! m)) = kTypeValue \<and> (\<forall>j. n \<le> j \<and> j < m \<longrightarrow> \<not> vis s E j) \<and>
        holds_pair E d m \<and> (\<forall>j. m < j \<and> j \<le> B \<longrightarrow> \<not> yields user s E j))"

lemma all_from: "(\<forall>j. p \<le> j \<and> Q j \<longrightarrow> R j) \<longleftrightarrow> (Q p \<longrightarrow> R p) \<and> (\<forall>j. Suc p \<le> j \<and> Q j \<longrightarrow> R j)"
  by (metis Suc_leI le_eq_less_or_eq less_eq_Suc_le)

lemma prev_inv_update [simp]:
  "prev_inv s E n B (d\<lparr>dbi_iter := it\<rparr>) vt = prev_inv s E n B d vt"
  by (simp add: prev_inv_def holds_pair_def)

lemma prev_inv_step:
  assumes "dbi_at s d E p" "p < length E" "p \<le> B" "B < length E" "prev_inv s E (Suc p) B d vt" "prev_entry user ops d vt = (False, d1, vt1)"
  shows "prev_inv s E p B d1 vt1"
proof -
  note pe = at_prev_entry [OF assms(1,2), of vt]
  have ord: "ordered_entries user E" using assms(1) by (simp add: dbi_at_def)
  show ?thesis
  proof (cases "vis s E p")
    case False
    then have "d1 = d" "vt1 = vt" "\<not> yields user s E p" using assms(6) pe by (auto simp: yields_def)
    then show ?thesis using assms(5) False unfolding prev_inv_def all_from [of p] by (auto simp: Suc_le_eq split: if_splits) (meson less_imp_le)
  next
    case True
    have none: "\<not> yields user s E j" if j: "p < j" "j \<le> B" for j
    proof (cases "vt = kTypeDeletion")
      case False
      then obtain m where m: "p < m" "m \<le> B" "saved_key d = uk E m" "\<forall>j. p < j \<and> j < m \<longrightarrow> \<not> vis s E j"
        "\<forall>j. m < j \<and> j \<le> B \<longrightarrow> \<not> yields user s E j"
        using assms(5) by (auto simp: prev_inv_def holds_pair_def Suc_le_eq)
      have "\<not> Compare user (uk E p) (uk E m) < 0" using assms(6) pe True False m(3) by (auto split: if_splits)
      then have "Compare user (uk E p) (uk E m) = 0" using uk_mono [OF ord, of p m] m(1,2) assms(4) by simp
      then have "\<not> yields user s E m" using True m(1) by (auto simp: yields_def not_le)
      then show ?thesis using m(4,5) j by (cases j m rule: linorder_cases) (auto simp: yields_def)
    qed (use assms(5) j in \<open>auto simp: prev_inv_def\<close>)
    show ?thesis
    proof (cases "key_type (fst (E ! p)) = kTypeDeletion")
      case del: True
      then have "\<not> yields user s E p" by (simp add: yields_def)
      moreover have "vt1 = kTypeDeletion" using assms(6) pe True del by (auto split: if_splits)
      ultimately show ?thesis using none by (auto simp: prev_inv_def le_less)
    next
      case False
      then have "vt1 = kTypeValue" "holds_pair E d1 p" "key_type (fst (E ! p)) = kTypeValue"
        using assms(6) pe True by (auto simp: holds_pair_def not_deletion split: if_splits)
      then show ?thesis using none True assms(3) by (auto simp: prev_inv_def intro!: exI [of _ p])
    qed
  qed
qed

lemma prev_stop:
  assumes "dbi_at s d E p" "p < length E" "p \<le> B" "B < length E" "prev_inv s E (Suc p) B d vt" "prev_entry user ops d vt = (True, d1, vt1)"
  shows "d1 = d \<and> vt1 = kTypeValue \<and> (\<exists>m\<le>B. yields user s E m \<and> holds_pair E d m \<and> before_pair s E p m \<and> (\<forall>j. m < j \<and> j \<le> B \<longrightarrow> \<not> yields user s E j))"
proof -
  have ord: "ordered_entries user E" using assms(1) by (simp add: dbi_at_def)
  have e: "vis s E p" "vt \<noteq> kTypeDeletion" "Compare user (uk E p) (saved_key d) < 0" "d1 = d" "vt1 = vt"
    using assms(6) at_prev_entry [OF assms(1,2), of vt] by (auto split: if_splits)
  then obtain m where m: "p < m" "m \<le> B" "vis s E m" "key_type (fst (E ! m)) = kTypeValue" "\<forall>j. p < j \<and> j < m \<longrightarrow> \<not> vis s E j"
    "holds_pair E d m" "\<forall>j. m < j \<and> j \<le> B \<longrightarrow> \<not> yields user s E j"
    using assms(5) by (auto simp: prev_inv_def Suc_le_eq)
  have lt: "Compare user (uk E p) (uk E m) < 0" using e(3) m(6) by (simp add: holds_pair_def)
  have "\<not> vis s E j" if "j < m" "Compare user (uk E j) (uk E m) = 0" for j
  proof (cases "p < j")
    case False
    then have "Compare user (uk E j) (uk E p) \<le> 0" using uk_mono [OF ord, of j p] assms(2) by simp
    then have "Compare user (uk E j) (uk E m) < 0" using user.compare_le_less_trans [OF _ _ _ _ lt] by simp
    then show ?thesis using that(2) by simp
  qed (use m(5) that(1) in blast)
  then have "yields user s E m" using m(3,4) by (auto simp: yields_def not_le)
  then show ?thesis using e m lt by (cases vt) (auto simp: before_pair_def)
qed

lemma prev_end:
  assumes "prev_inv s E 0 B d vt" "B < length E"
  shows "if vt = kTypeDeletion then \<forall>j\<le>B. \<not> yields user s E j
     else \<exists>m\<le>B. yields user s E m \<and> holds_pair E d m \<and> before_pair s E (length E) m \<and> (\<forall>j. m < j \<and> j \<le> B \<longrightarrow> \<not> yields user s E j)"
proof (cases "vt = kTypeDeletion")
  case False
  then obtain m where m: "m \<le> B" "vis s E m" "key_type (fst (E ! m)) = kTypeValue" "\<forall>j<m. \<not> vis s E j"
    "holds_pair E d m" "\<forall>j. m < j \<and> j \<le> B \<longrightarrow> \<not> yields user s E j"
    using assms(1) by (auto simp: prev_inv_def)
  then have "yields user s E m" by (auto simp: yields_def not_le)
  then show ?thesis using False m by (auto simp: before_pair_def)
qed (use assms(1) in \<open>simp add: prev_inv_def\<close>)

lemma FindPrev_loop_ok:
  assumes "dbi_at s d E p" "p < length E" "p \<le> B" "B < length E" "prev_inv s E (Suc p) B d vt"
  shows "\<exists>d' vt' q. FindPrev_loop user ops d vt = Some (d', vt') \<and> dbi_at s d' E q \<and> dbi_direction d' = dbi_direction d \<and>
    (if vt' = kTypeDeletion then \<forall>j\<le>B. \<not> yields user s E j
     else \<exists>m\<le>B. yields user s E m \<and> holds_pair E d' m \<and> before_pair s E q m \<and> (\<forall>j. m < j \<and> j \<le> B \<longrightarrow> \<not> yields user s E j))"
  using assms
proof (induction p arbitrary: d vt)
  case (0 d vt)
  note at = 0(1,2)
  obtain stop d1 vt1 where pe: "prev_entry user ops d vt = (stop, d1, vt1)" by (cases "prev_entry user ops d vt") auto
  have d1: "dbi_at s d1 E 0" "dbi_direction d1 = dbi_direction d" using pe at_prev_entry [OF at, of vt] at(1) by (auto split: if_splits)
  show ?case
  proof (cases stop)
    case True
    then have "FindPrev_loop user ops d vt = Some (d1, vt1)" using pe by (subst FindPrev_loop.simps) simp
    then show ?thesis using pe True prev_stop [OF 0] d1 by (intro exI [of _ d1] exI [of _ vt1] exI [of _ 0]) simp
  next
    case False
    let ?d2 = "d1\<lparr>dbi_iter := it_Prev ops (dbi_iter d1)\<rparr>"
    have at2: "dbi_at s ?d2 E (length E)" using at_Prev [OF d1(1) 0(2)] by simp
    have "FindPrev_loop user ops d vt = Some (?d2, vt1)"
      using False pe at_Valid [OF at2] by (subst FindPrev_loop.simps) simp
    moreover have "prev_inv s E 0 B ?d2 vt1" using prev_inv_step [OF 0] pe False by simp
    ultimately show ?thesis using prev_end [OF _ 0(4), of s ?d2 vt1] at2 d1(2) by (intro exI [of _ ?d2] exI [of _ vt1] exI [of _ "length E"]) simp
  qed
next
  case (Suc p d vt)
  note at = Suc(2,3)
  obtain stop d1 vt1 where pe: "prev_entry user ops d vt = (stop, d1, vt1)" by (cases "prev_entry user ops d vt") auto
  have d1: "dbi_at s d1 E (Suc p)" "dbi_direction d1 = dbi_direction d" using pe at_prev_entry [OF at, of vt] at(1) by (auto split: if_splits)
  show ?case
  proof (cases stop)
    case True
    then have "FindPrev_loop user ops d vt = Some (d1, vt1)" using pe by (subst FindPrev_loop.simps) simp
    then show ?thesis using pe True prev_stop [OF Suc(2-6)] d1 by (intro exI [of _ d1] exI [of _ vt1] exI [of _ "Suc p"]) simp
  next
    case False
    let ?d2 = "d1\<lparr>dbi_iter := it_Prev ops (dbi_iter d1)\<rparr>"
    have at2: "dbi_at s ?d2 E p" using at_Prev [OF d1(1) Suc(3)] by simp
    have "FindPrev_loop user ops d vt = FindPrev_loop user ops ?d2 vt1"
      using False pe at_Valid [OF at2] Suc(3) by (subst FindPrev_loop.simps) simp
    moreover have "prev_inv s E (Suc p) B ?d2 vt1" using prev_inv_step [OF Suc(2-6)] pe False by simp
    ultimately show ?thesis using Suc(1) [OF at2 _ _ Suc(5), of vt1] Suc(3,4) d1(2) by simp
  qed
qed

subsection \<open>Where the iterator stands\<close>

definition dbi_pos :: "SequenceNumber \<Rightarrow> 'it DBIter \<Rightarrow> (bytes \<times> bytes) list \<Rightarrow> nat \<Rightarrow> bool" where
  "dbi_pos s d E c \<longleftrightarrow> (\<exists>p. dbi_at s d E p \<and>
     (if dbi_valid d then
        (if dbi_direction d = kForward then p < length E \<and> yields user s E p \<and> c = rank user s E p
         else \<exists>i<length E. yields user s E i \<and> c = rank user s E i \<and> holds_pair E d i \<and> before_pair s E p i)
      else c = length (visible_pairs user s E)))"

abbreviation V :: "SequenceNumber \<Rightarrow> (bytes \<times> bytes) list \<Rightarrow> (bytes \<times> bytes) list" where
  "V s E \<equiv> visible_pairs user s E"

lemma dbi_pos_valid:
  assumes "dbi_pos s d E c"
  shows "dbi_valid d \<longleftrightarrow> c < length (V s E)" "c \<le> length (V s E)"
proof -
  have "c < length (V s E)" if "dbi_valid d"
    using assms that rank_nth(1) by (auto simp: dbi_pos_def split: if_splits)
  moreover have "c = length (V s E)" if "\<not> dbi_valid d" using assms that by (simp add: dbi_pos_def)
  ultimately show "dbi_valid d \<longleftrightarrow> c < length (V s E)" "c \<le> length (V s E)" by (cases "dbi_valid d"; simp)+
qed

lemma dbi_pos_view:
  assumes "dbi_pos s d E c"
  shows "DBIter_view ops d = cursor_view (V s E) c" "DBIter_status ops d = OK"
proof -
  show "DBIter_status ops d = OK" using assms internal.status_pos by (auto simp: dbi_pos_def dbi_at_def DBIter_status_def)
  show "DBIter_view ops d = cursor_view (V s E) c"
  proof (cases "dbi_valid d")
    case True
    then have c: "c < length (V s E)" using dbi_pos_valid [OF assms] by simp
    obtain p where p: "dbi_at s d E p" using assms by (auto simp: dbi_pos_def)
    have "V s E ! c = (DBIter_key ops d, DBIter_value ops d)"
    proof (cases "dbi_direction d = kForward")
      case fwd: True
      then obtain p where "dbi_at s d E p" "p < length E" "yields user s E p" "c = rank user s E p"
        using assms True by (auto simp: dbi_pos_def)
      then show ?thesis using rank_nth(2) [of p E user s] at_key [of s d E p] at_value [of s d E p] fwd
        by (simp add: DBIter_key_def DBIter_value_def)
    next
      case False
      then obtain i where "i < length E" "yields user s E i" "c = rank user s E i" "holds_pair E d i"
        using assms True by (auto simp: dbi_pos_def)
      then show ?thesis using rank_nth(2) [of i E user s] False by (simp add: DBIter_key_def DBIter_value_def holds_pair_def)
    qed
    then show ?thesis using True c by (simp add: DBIter_view_def cursor_view_def)
  qed (use dbi_pos_valid [OF assms] in \<open>simp add: DBIter_view_def cursor_view_def\<close>)
qed

text \<open>A forward search from \<open>p\<close> leads to the pair that comes after those of the entries before.\<close>

lemma FindNext_pos:
  assumes "dbi_at s d E p" "p < length E" "skips s x E p skipping (saved_key d)" "dbi_direction d = kForward"
    and "\<And>q. p \<le> q \<Longrightarrow> q \<le> length E \<Longrightarrow> \<forall>j. p \<le> j \<and> j < q \<longrightarrow> \<not> (yields user s E j \<and> \<not> left_behind x E j) \<Longrightarrow>
      q < length E \<longrightarrow> yields user s E q \<and> \<not> left_behind x E q \<Longrightarrow> rank user s E q = c"
  shows "\<exists>d'. FindNextUserEntry user ops d skipping = Some d' \<and> dbi_pos s d' E c \<and> dbi_direction d' = kForward"
proof -
  obtain d' q where q: "FindNextUserEntry user ops d skipping = Some d'" "dbi_at s d' E q" "p \<le> q" "q \<le> length E"
    "\<forall>j. p \<le> j \<and> j < q \<longrightarrow> \<not> (yields user s E j \<and> \<not> left_behind x E j)"
    "q < length E \<longrightarrow> yields user s E q \<and> \<not> left_behind x E q" "dbi_valid d' = (q < length E)" "dbi_direction d' = dbi_direction d"
    using FindNext_ok [OF assms(1-3)] by (elim exE conjE) (rule that)
  have c: "rank user s E q = c" by (rule assms(5) [OF q(3-6)])
  have "dbi_pos s d' E c"
  proof (cases "q < length E")
    case True
    then show ?thesis using q c assms(4) by (auto simp: dbi_pos_def)
  next
    case False
    then have "c = length (V s E)" using c q(4) rank_all [of user s E] by simp
    then show ?thesis using q False by (auto simp: dbi_pos_def)
  qed
  then show ?thesis using q(1,8) assms(4) by simp
qed

lemma FindPrev_pos:
  assumes "dbi_at s d E p" "dbi_direction d = kReverse" "p \<le> length E"
    and "c = (if p < length E then rank user s E (Suc p) else 0)"
  shows "\<exists>d'. FindPrevUserEntry user ops d = Some d' \<and> dbi_pos s d' E (if c = 0 then length (V s E) else c - 1) \<and>
    (dbi_valid d' \<longrightarrow> dbi_direction d' = kReverse)"
proof (cases "p < length E")
  case False
  then have "FindPrevUserEntry user ops d = Some (d\<lparr>dbi_valid := False, saved_key := [], saved_value := [], dbi_direction := kForward\<rparr>)"
    using at_Valid [OF assms(1)] by (simp add: FindPrevUserEntry_def)
  then show ?thesis using assms(1,4) False by (auto simp: dbi_pos_def)
next
  case True
  have "prev_inv s E (Suc p) p d kTypeDeletion" by (auto simp: prev_inv_def)
  from FindPrev_loop_ok [OF assms(1) True order.refl True this]
  obtain d' vt' q where l: "FindPrev_loop user ops d kTypeDeletion = Some (d', vt')" "dbi_at s d' E q" "dbi_direction d' = dbi_direction d"
    "if vt' = kTypeDeletion then \<forall>j\<le>p. \<not> yields user s E j
     else \<exists>m\<le>p. yields user s E m \<and> holds_pair E d' m \<and> before_pair s E q m \<and> (\<forall>j. m < j \<and> j \<le> p \<longrightarrow> \<not> yields user s E j)"
    by (elim exE conjE) (rule that)
  show ?thesis
  proof (cases "vt' = kTypeDeletion")
    case del: True
    have "c = 0" using l(4) del assms(4) True rank_skip [of 0 "Suc p" user s E] by (auto simp: less_Suc_eq_le)
    then show ?thesis using l(1,2) del True at_Valid [OF assms(1)] by (auto simp: FindPrevUserEntry_def dbi_pos_def)
  next
    case False
    then obtain m where m: "m \<le> p" "yields user s E m" "holds_pair E d' m" "before_pair s E q m" "\<forall>j. m < j \<and> j \<le> p \<longrightarrow> \<not> yields user s E j"
      using l(4) by auto
    have "rank user s E (Suc p) = rank user s E (Suc m)" using m(1,5) by (intro rank_skip) auto
    then have "c = Suc (rank user s E m)" using assms(4) True m(2) by (simp add: rank_Suc)
    moreover have "dbi_pos s (d'\<lparr>dbi_valid := True\<rparr>) E (rank user s E m)"
      unfolding dbi_pos_def using l(2,3) m True assms(2) by (intro exI [of _ q]) (auto simp: holds_pair_def intro!: exI [of _ m])
    ultimately show ?thesis using l(1,3) assms(2) False True at_Valid [OF assms(1)] by (simp add: FindPrevUserEntry_def)
  qed
qed

subsection \<open>The operations\<close>

lemma skips_first: "skips s None E 0 False key"
  by (simp add: skips_def hidden_def left_behind_def)

lemma skips_leave:
  assumes "ordered_entries user E" "p < length E"
  shows "skips s (Some (uk E p)) E p True (uk E p)"
proof -
  have "hidden s (Some (uk E p)) E p j \<longleftrightarrow> Compare user (uk E j) (uk E p) \<le> 0" if j: "p \<le> j" "j < length E" for j
  proof
    assume "hidden s (Some (uk E p)) E p j"
    then have "Compare user (uk E p) (uk E j) = 0"
      using same_between(2) [OF assms(1) less_imp_le j(1,2)] by (auto simp: hidden_def left_behind_def)
    then show "Compare user (uk E j) (uk E p) \<le> 0" using eq_sym by simp
  next
    assume "Compare user (uk E j) (uk E p) \<le> 0"
    then show "hidden s (Some (uk E p)) E p j"
      using le_antisym [OF uk_mono [OF assms(1) j]] by (simp add: hidden_def left_behind_def)
  qed
  then show ?thesis using uk_mono [OF assms(1)] by (simp add: skips_def)
qed

lemma DBIter_SeekToFirst_pos:
  assumes "dbi_at s d E p"
  shows "\<exists>d'. DBIter_SeekToFirst user ops d = Some d' \<and> dbi_pos s d' E 0 \<and> dbi_direction d' = kForward"
proof -
  let ?d = "d\<lparr>dbi_direction := kForward, saved_value := [], dbi_iter := it_SeekToFirst ops (dbi_iter d)\<rparr>"
  have at: "dbi_at s ?d E 0" using assms internal.SeekToFirst_pos by (auto simp: dbi_at_def)
  show ?thesis
  proof (cases "0 < length E")
    case True
    have "rank user s E q = 0" if "\<forall>j. 0 \<le> j \<and> j < q \<longrightarrow> \<not> (yields user s E j \<and> \<not> left_behind None E j)" for q
      using that rank_skip [of 0 q user s E] by (simp add: left_behind_def)
    then have "\<exists>d'. FindNextUserEntry user ops ?d False = Some d' \<and> dbi_pos s d' E 0 \<and> dbi_direction d' = kForward"
      by (intro FindNext_pos [OF at True skips_first]) simp_all
    then show ?thesis using True at_Valid [OF at] by (simp add: DBIter_SeekToFirst_def)
  next
    case False
    then show ?thesis
      using at at_Valid [OF at] by (auto simp: DBIter_SeekToFirst_def dbi_pos_def visible_pairs_def)
  qed
qed

text \<open>The entries before the position that a seek finds are those of smaller keys, and invisible ones.\<close>

lemma seek_split:
  assumes "ordered_entries user E" "s \<le> kMaxSequenceNumber" "i < length E"
    and "p = seek_index (InternalKey_Compare user) E (InternalKey target s kTypeValue)"
  shows "i < p \<Longrightarrow> vis s E i \<Longrightarrow> Compare user (uk E i) target < 0" "p \<le> i \<Longrightarrow> \<not> Compare user (uk E i) target < 0"
proof -
  let ?l = "InternalKey target s kTypeValue"
  have split: "i < p \<longleftrightarrow> InternalKey_Compare user (fst (E ! i)) ?l < 0"
    using assms ikey.seek_index_split [of E ?l i] by (simp add: ordered_entries_def)
  {
    assume "i < p" "vis s E i"
    then have lt: "InternalKey_Compare user (fst (E ! i)) ?l < 0" and v: "key_seq (fst (E ! i)) \<le> s" using split by simp_all
    have pk: "ParseInternalKey (fst (E ! i)) \<noteq> None" using assms(1,3) by (simp add: ordered_entries_def)
    have "ExtractTag (fst (E ! i)) \<le> PackSequenceAndType s kTypeValue"
      using Pack_le_iff [of s "key_seq (fst (E ! i))"] ExtractTag_Pack [OF pk] v assms(2) by simp
    then show "Compare user (uk E i) target < 0" using lt by (auto simp: InternalKey_Compare_def Let_def split: if_splits)
  next
    assume "p \<le> i"
    then show "\<not> Compare user (uk E i) target < 0"
      using split InternalKey_Compare_user_less [of user "fst (E ! i)" ?l] by auto
  }
qed

lemma seek_index_rank:
  assumes "ordered_entries user E" "s \<le> kMaxSequenceNumber" "p \<le> length E"
    and "p = seek_index (InternalKey_Compare user) E (InternalKey target s kTypeValue)"
  shows "seek_index (Compare user) (V s E) target = rank user s E p"
proof -
  let ?f = "\<lambda>i. (uk E i, snd (E ! i))" and ?P = "\<lambda>kv. Compare user (fst kv) target < 0"
  let ?A = "map ?f (filter (yields user s E) [0..<p])" and ?B = "map ?f (filter (yields user s E) [p..<length E])"
  have "[0..<length E] = [0..<p] @ [p..<length E]" using assms(3) by (metis le0 upt_add_eq_append le_add_diff_inverse)
  then have V: "V s E = ?A @ ?B" by (simp add: visible_pairs_def)
  have "\<forall>kv\<in>set ?A. ?P kv" using seek_split(1) [OF assms(1,2) _ assms(4)] assms(3) by (auto simp: yields_def)
  moreover have "\<forall>kv\<in>set ?B. \<not> ?P kv" using seek_split(2) [OF assms(1,2) _ assms(4)] by auto
  then have "takeWhile ?P ?B = []" by (cases ?B) auto
  moreover have "takeWhile ?P (?A @ ?B) = ?A @ takeWhile ?P ?B" by (rule takeWhile_append2) (use calculation(1) in blast)
  ultimately show ?thesis unfolding seek_index_def V by (simp add: rank_def)
qed

lemma DBIter_Seek_pos:
  assumes "dbi_at s d E p0" "s \<le> kMaxSequenceNumber"
  shows "\<exists>d'. DBIter_Seek user ops d target = Some d' \<and> dbi_pos s d' E (seek_index (Compare user) (V s E) target) \<and>
    dbi_direction d' = kForward"
proof -
  let ?key = "InternalKey target s kTypeValue"
  define p where "p = seek_index (InternalKey_Compare user) E ?key"
  let ?d = "d\<lparr>dbi_direction := kForward, saved_value := [], saved_key := ?key, dbi_iter := it_Seek ops (dbi_iter d) ?key\<rparr>"
  have ord: "ordered_entries user E" using assms(1) by (simp add: dbi_at_def)
  have at: "dbi_at s ?d E p" using assms(1) internal.Seek_pos [of "dbi_iter d" E p0 ?key] by (simp add: dbi_at_def p_def)
  have ple: "p \<le> length E" by (simp add: p_def seek_index_def length_takeWhile_le)
  have c: "seek_index (Compare user) (V s E) target = rank user s E p" by (rule seek_index_rank [OF ord assms(2) ple p_def])
  have key: "AppendInternalKey [] \<lparr>user_key = target, sequence = dbi_sequence d, vtype = kValueTypeForSeek\<rparr> = ?key"
    using assms(1) by (simp add: InternalKey_def dbi_at_def kValueTypeForSeek_def)
  show ?thesis
  proof (cases "p < length E")
    case True
    have "Compare user (uk E i) (uk E j) \<noteq> 0" if "i < p" "vis s E i" "p \<le> j" "j < length E" for i j
    proof
      assume "Compare user (uk E i) (uk E j) = 0"
      then have "Compare user (uk E j) target < 0"
        using user.compare_le_less_trans [of "uk E j" "uk E i" target] eq_sym seek_split(1) [OF ord assms(2) _ p_def that(1,2)] that by simp
      then show False using seek_split(2) [OF ord assms(2) that(4) p_def that(3)] by simp
    qed
    then have "skips s None E p False ?key" by (auto simp: skips_def hidden_def left_behind_def)
    then have "\<exists>d'. FindNextUserEntry user ops ?d False = Some d' \<and> dbi_pos s d' E (rank user s E p) \<and> dbi_direction d' = kForward"
      by (intro FindNext_pos [OF at True]) (auto simp: left_behind_def intro!: rank_skip)
    then show ?thesis using True at_Valid [OF at] key c by (simp add: DBIter_Seek_def Let_def)
  next
    case False
    then have "rank user s E p = length (V s E)" using ple rank_all [of user s E] by simp
    then show ?thesis using at at_Valid [OF at] key c False by (auto simp: DBIter_Seek_def Let_def dbi_pos_def)
  qed
qed

lemma DBIter_SeekToLast_pos:
  assumes "dbi_at s d E p"
  shows "\<exists>d'. DBIter_SeekToLast user ops d = Some d' \<and> dbi_pos s d' E (length (V s E) - 1) \<and> (dbi_valid d' \<longrightarrow> dbi_direction d' = kReverse)"
proof -
  let ?d = "d\<lparr>dbi_direction := kReverse, saved_value := [], dbi_iter := it_SeekToLast ops (dbi_iter d)\<rparr>"
  have at: "dbi_at s ?d E (length E - 1)" using assms internal.SeekToLast_pos by (auto simp: dbi_at_def)
  have "(if length E - 1 < length E then rank user s E (Suc (length E - 1)) else 0) = length (V s E)"
    using rank_all [of user s E] by (cases E) (simp_all add: visible_pairs_def)
  then show ?thesis using FindPrev_pos [OF at _ _ refl] by (simp add: DBIter_SeekToLast_def split: if_splits)
qed

text \<open>Onwards from entry \<open>p\<close>, which has the key of the pair at \<open>i\<close>, with nothing visible in between.\<close>

lemma leave_pair:
  assumes "dbi_at s d E p" "p \<le> i" "i < length E" "yields user s E i" "Compare user (uk E p) (uk E i) = 0"
    "\<forall>j. p \<le> j \<and> j < i \<longrightarrow> \<not> vis s E j" "dbi_direction d = kForward"
  shows "\<exists>d'. FindNextUserEntry user ops (d\<lparr>saved_key := uk E p\<rparr>) True = Some d' \<and> dbi_pos s d' E (Suc (rank user s E i)) \<and>
    dbi_direction d' = kForward"
proof -
  have ord: "ordered_entries user E" using assms(1) by (simp add: dbi_at_def)
  have p: "p < length E" using assms(2,3) by simp
  have behind: "left_behind (Some (uk E p)) E j \<longleftrightarrow> Compare user (uk E i) (uk E j) = 0" for j
    unfolding left_behind_def using eq_trans [OF eq_sym [OF assms(5)]] eq_trans [OF assms(5)] by blast
  have "rank user s E q = Suc (rank user s E i)"
    if q: "p \<le> q" "q \<le> length E" "\<forall>j. p \<le> j \<and> j < q \<longrightarrow> \<not> (yields user s E j \<and> \<not> left_behind (Some (uk E p)) E j)"
      "q < length E \<longrightarrow> yields user s E q \<and> \<not> left_behind (Some (uk E p)) E q" for q
  proof -
    have "i < q"
    proof (rule ccontr)
      assume "\<not> i < q"
      then have "Compare user (uk E q) (uk E i) = 0" using same_between(2) [OF ord q(1) _ assms(3,5)] by simp
      then show False using q(4) \<open>\<not> i < q\<close> assms(3) eq_sym by (simp add: behind)
    qed
    moreover have "\<not> yields user s E j" if j: "i < j" "j < q" for j
    proof
      assume y: "yields user s E j"
      then have "left_behind (Some (uk E p)) E j" using q(3) j assms(2) by simp
      then have "\<not> vis s E i" using yields_unique(1) [OF y j(1)] behind by simp
      then show False using assms(4) by (simp add: yields_def)
    qed
    ultimately show ?thesis using rank_skip [of "Suc i" q user s E] assms(4) by (simp add: rank_Suc)
  qed
  then show ?thesis using FindNext_pos [of s "d\<lparr>saved_key := uk E p\<rparr>" E p "Some (uk E p)" True] assms(1,7) p skips_leave [OF ord p] by simp
qed

lemma Next_forward:
  assumes "dbi_pos s d E c" "dbi_valid d" "dbi_direction d = kForward"
  shows "\<exists>d'. DBIter_Next user ops d = Some d' \<and> dbi_pos s d' E (Suc c) \<and> dbi_direction d' = kForward"
proof -
  obtain p where p: "dbi_at s d E p" "p < length E" "yields user s E p" "c = rank user s E p"
    using assms by (auto simp: dbi_pos_def)
  have "\<forall>j. p \<le> j \<and> j < p \<longrightarrow> \<not> vis s E j" by auto
  then show ?thesis
    using p(4) leave_pair [OF p(1) order.refl p(2,3) user.compare_refl] assms(3) at_key [OF p(1,2)] by (simp add: DBIter_Next_def)
qed

text \<open>The key of an invisible entry in front of a pair is the key of the pair, if every key has a visible entry.\<close>

lemma key_between:
  assumes "ordered_entries user E" "no_hidden_key user s E" "p \<le> i" "i < length E" "\<forall>j. p \<le> j \<and> j < i \<longrightarrow> \<not> vis s E j"
    and "\<forall>j<p. vis s E j \<longrightarrow> Compare user (uk E j) (uk E p) = 0 \<longrightarrow> vis s E p"
  shows "Compare user (uk E p) (uk E i) = 0"
proof (cases "p = i")
  case False
  then have p: "p < i" "\<not> vis s E p" using assms(3,5) by auto
  have "E ! p \<in> set E" using p(1) assms(4) by simp
  then obtain e where "e \<in> set E" "Compare user (ExtractUserKey (fst e)) (uk E p) = 0" "key_seq (fst e) \<le> s"
    using assms(2) unfolding no_hidden_key_def by blast
  then obtain j where j: "j < length E" "Compare user (uk E j) (uk E p) = 0" "vis s E j" by (auto simp: in_set_conv_nth)
  then have "i \<le> j" using assms(5,6) p(2) by (metis linorder_not_le)
  then show ?thesis using same_between(1) [OF assms(1) assms(3) _ j(1) eq_sym [OF j(2)]] by simp
qed (simp add: user.compare_refl)

lemma Next_reverse:
  assumes "dbi_pos s d E c" "dbi_valid d" "dbi_direction d = kReverse" "no_hidden_key user s E"
  shows "\<exists>d'. DBIter_Next user ops d = Some d' \<and> dbi_pos s d' E (Suc c) \<and> dbi_direction d' = kForward"
proof -
  obtain q i where qi: "dbi_at s d E q" "i < length E" "yields user s E i" "c = rank user s E i" "before_pair s E q i"
    using assms by (auto simp: dbi_pos_def)
  have ord: "ordered_entries user E" using qi(1) by (simp add: dbi_at_def)
  define p where "p = (if q = length E then 0 else Suc q)"
  let ?d = "d\<lparr>dbi_direction := kForward, dbi_iter := (if \<not> it_Valid ops (dbi_iter d) then it_SeekToFirst ops (dbi_iter d) else it_Next ops (dbi_iter d))\<rparr>"
  have q: "p \<le> i" "\<forall>j. p \<le> j \<and> j < i \<longrightarrow> \<not> vis s E j" "q < length E \<or> q = length E"
    using qi(2,5) by (auto simp: before_pair_def p_def Suc_le_eq)
  have at: "dbi_at s ?d E p"
    using qi(1) at_Valid [OF qi(1)] q(3) internal.SeekToFirst_pos [of "dbi_iter d" E q] at_Next [OF qi(1)]
    by (auto simp: dbi_at_def p_def)
  have "vis s E p" if "j < p" "vis s E j" "Compare user (uk E j) (uk E p) = 0" for j
    using newer_before [OF ord that(1) _ that(3)] that(2) q(1) qi(2) by simp
  then have same: "Compare user (uk E p) (uk E i) = 0" using key_between [OF ord assms(4) q(1) qi(2) q(2)] by blast
  have pl: "p < length E" using q(1) qi(2) by simp
  show ?thesis
    using leave_pair [OF at q(1) qi(2,3) same q(2)] at_key [OF at pl] at_Valid [OF at] pl assms(3) qi(4)
    by (simp add: DBIter_Next_def Let_def)
qed

text \<open>Onwards from entry \<open>p\<close>, which has an earlier key than the pair at \<open>i\<close>, with nothing visible in between.\<close>

lemma return_to_pair:
  assumes "dbi_at s d E p" "p \<le> i" "i < length E" "yields user s E i" "Compare user (uk E p) (uk E i) < 0"
    "\<forall>j. p \<le> j \<and> j < i \<longrightarrow> \<not> vis s E j" "dbi_direction d = kForward"
  shows "\<exists>d'. FindNextUserEntry user ops (d\<lparr>saved_key := uk E p\<rparr>) True = Some d' \<and> dbi_pos s d' E (rank user s E i) \<and>
    dbi_direction d' = kForward"
proof -
  have ord: "ordered_entries user E" using assms(1) by (simp add: dbi_at_def)
  have p: "p < length E" using assms(2,3) by simp
  have ahead: "yields user s E i \<and> \<not> left_behind (Some (uk E p)) E i" using assms(4,5) by (simp add: left_behind_def)
  have "rank user s E q = rank user s E i"
    if q: "p \<le> q" "q \<le> length E" "\<forall>j. p \<le> j \<and> j < q \<longrightarrow> \<not> (yields user s E j \<and> \<not> left_behind (Some (uk E p)) E j)"
      "q < length E \<longrightarrow> yields user s E q \<and> \<not> left_behind (Some (uk E p)) E q" for q
  proof -
    have "\<not> i < q" using q(3) ahead assms(2) by blast
    moreover have "\<not> q < i" using q(1,4) assms(3,6) by (auto simp: yields_def)
    ultimately show ?thesis by (simp add: not_less le_antisym)
  qed
  then show ?thesis using FindNext_pos [of s "d\<lparr>saved_key := uk E p\<rparr>" E p "Some (uk E p)" True] assms(1,7) p skips_leave [OF ord p] by simp
qed

lemma hidden_between:
  assumes ord: "ordered_entries user E" and p: "p \<le> i" "i < length E" and inv: "\<forall>j. p \<le> j \<and> j < i \<longrightarrow> \<not> vis s E j"
    and q: "p = 0 \<or> vis s E (p - 1) \<and> Compare user (uk E (p - 1)) (uk E i) < 0"
  shows "hidden_key_before user s E (uk E i) \<longleftrightarrow> Compare user (uk E p) (uk E i) < 0"
proof
  have pl: "p < length E" using p by simp
  have after_first: "\<not> Compare user b a < 0" if "Compare user a b \<le> 0" for a b
    using that user.compare_flip [of a b] user.compare_flip [of b a] by auto
  assume lt: "Compare user (uk E p) (uk E i) < 0"
  then have "p \<noteq> i" using user.compare_refl by auto
  then have pi: "p < i" using p(1) by simp
  have hidden: "s < key_seq (fst (E ! j))" if j: "j < length E" "Compare user (uk E p) (uk E j) \<le> 0" "Compare user (uk E j) (uk E i) < 0" for j
  proof -
    have ji: "j < i"
    proof (rule ccontr)
      assume "\<not> j < i"
      then have "Compare user (uk E i) (uk E j) \<le> 0" using uk_mono [OF ord, of i j] j(1) by simp
      then show False using j(3) after_first by blast
    qed
    have "\<not> vis s E j"
    proof (cases "p \<le> j")
      case False
      then have same: "Compare user (uk E j) (uk E p) = 0" using uk_mono [OF ord, of j p] pl j(2) by (intro le_antisym) simp_all
      have "vis s E p" if "vis s E j" using newer_before [OF ord _ pl same] False that by simp
      then show ?thesis using inv pi by auto
    qed (use inv ji in blast)
    then show ?thesis by (simp add: not_le)
  qed
  have "s < key_seq (fst e')" if e': "e' \<in> set E" "Compare user (uk E p) (ExtractUserKey (fst e')) \<le> 0"
    "Compare user (ExtractUserKey (fst e')) (uk E i) < 0" for e'
  proof -
    obtain j where "j < length E" "e' = E ! j" using e'(1) in_set_conv_nth [of e' E] by blast
    then show ?thesis using hidden e'(2,3) by simp
  qed
  then show "hidden_key_before user s E (uk E i)"
    unfolding hidden_key_before_def using lt nth_mem [OF pl] by blast
next
  assume "hidden_key_before user s E (uk E i)"
  then obtain e where e: "e \<in> set E" "Compare user (ExtractUserKey (fst e)) (uk E i) < 0"
    "\<And>e'. e' \<in> set E \<Longrightarrow> Compare user (ExtractUserKey (fst e)) (ExtractUserKey (fst e')) \<le> 0 \<Longrightarrow> Compare user (ExtractUserKey (fst e')) (uk E i) < 0 \<Longrightarrow>
       s < key_seq (fst e')" unfolding hidden_key_before_def by blast
  obtain j where j: "j < length E" "e = E ! j" using e(1) by (auto simp: in_set_conv_nth)
  show "Compare user (uk E p) (uk E i) < 0"
  proof (cases "p \<le> j")
    case True
    then have "Compare user (uk E p) (uk E j) \<le> 0" using uk_mono [OF ord, of p j] j(1) by simp
    then show ?thesis using e(2) j(2) user.compare_le_less_trans by simp
  next
    case False
    then have v: "vis s E (p - 1)" "Compare user (uk E (p - 1)) (uk E i) < 0" using q by auto
    have "Compare user (uk E j) (uk E (p - 1)) \<le> 0" using uk_mono [OF ord, of j "p - 1"] False p by simp
    then have "s < key_seq (fst (E ! (p - 1)))" using e(3) [of "E ! (p - 1)"] j(2) v(2) p False by simp
    then show ?thesis using v(1) by simp
  qed
qed

lemma Next_turn:
  assumes "dbi_pos s d E c" "dbi_valid d" "dbi_direction d = kReverse"
  shows "\<exists>d'. DBIter_Next user ops d = Some d' \<and> dbi_pos s d' E (if hidden_key_before user s E (fst (V s E ! c)) then c else Suc c) \<and>
    dbi_direction d' = kForward"
proof -
  obtain q i where qi: "dbi_at s d E q" "i < length E" "yields user s E i" "c = rank user s E i" "before_pair s E q i"
    using assms by (auto simp: dbi_pos_def)
  have ord: "ordered_entries user E" using qi(1) by (simp add: dbi_at_def)
  define p where "p = (if q = length E then 0 else Suc q)"
  let ?d = "d\<lparr>dbi_direction := kForward, dbi_iter := (if \<not> it_Valid ops (dbi_iter d) then it_SeekToFirst ops (dbi_iter d) else it_Next ops (dbi_iter d))\<rparr>"
  have q: "p \<le> i" "\<forall>j. p \<le> j \<and> j < i \<longrightarrow> \<not> vis s E j" "q < length E \<or> q = length E"
    using qi(2,5) by (auto simp: before_pair_def p_def Suc_le_eq)
  have front: "p = 0 \<or> vis s E (p - 1) \<and> Compare user (uk E (p - 1)) (uk E i) < 0" using qi(5) by (auto simp: p_def before_pair_def)
  have at: "dbi_at s ?d E p"
    using qi(1) at_Valid [OF qi(1)] q(3) internal.SeekToFirst_pos [of "dbi_iter d" E q] at_Next [OF qi(1)]
    by (auto simp: dbi_at_def p_def)
  have pl: "p < length E" using q(1) qi(2) by simp
  have key: "fst (V s E ! c) = uk E i" using rank_nth(2) [of i E user s] qi(2-4) by simp
  have next_eq: "DBIter_Next user ops d = FindNextUserEntry user ops (?d\<lparr>saved_key := uk E p\<rparr>) True"
    using at_key [OF at pl] at_Valid [OF at] pl assms(3) by (simp add: DBIter_Next_def Let_def)
  have le: "Compare user (uk E p) (uk E i) \<le> 0" using uk_mono [OF ord q(1) qi(2)] .
  show ?thesis
  proof (cases "Compare user (uk E p) (uk E i) < 0")
    case True
    then show ?thesis
      using return_to_pair [OF at q(1) qi(2,3) True q(2)] hidden_between [OF ord q(1) qi(2) q(2) front] qi(4) key next_eq by simp
  next
    case False
    then have "Compare user (uk E p) (uk E i) = 0" using le by simp
    then show ?thesis
      using leave_pair [OF at q(1) qi(2,3) _ q(2)] hidden_between [OF ord q(1) qi(2) q(2) front] False qi(4) key next_eq by simp
  qed
qed

lemma Prev_scan_ok:
  assumes "dbi_at s d E p" "p < length E"
  shows "\<exists>b d' q. Prev_scan user ops d = Some (b, d') \<and> dbi_at s d' E q \<and> dbi_direction d' = dbi_direction d \<and>
    (if b then q < p \<and> Compare user (uk E q) (saved_key d) < 0 \<and> (\<forall>j. q < j \<and> j < p \<longrightarrow> \<not> Compare user (uk E j) (saved_key d) < 0)
     else q = length E \<and> (\<forall>j<p. \<not> Compare user (uk E j) (saved_key d) < 0))"
  using assms
proof (induction p arbitrary: d)
  case 0
  let ?d = "d\<lparr>dbi_iter := it_Prev ops (dbi_iter d)\<rparr>"
  have at: "dbi_at s ?d E (length E)" using at_Prev [OF 0] by simp
  then show ?case using at_Valid [OF at] by (subst Prev_scan.simps) auto
next
  case (Suc p)
  let ?d = "d\<lparr>dbi_iter := it_Prev ops (dbi_iter d)\<rparr>"
  have at: "dbi_at s ?d E p" using at_Prev [OF Suc(2,3)] by simp
  have p: "p < length E" using Suc(3) by simp
  note v = at_Valid [OF at] at_key [OF at p]
  show ?case
  proof (cases "Compare user (uk E p) (saved_key d) < 0")
    case True
    then have "Prev_scan user ops d = Some (True, ?d)" using v p by (subst Prev_scan.simps) simp
    then show ?thesis using at True by (intro exI [of _ True] exI [of _ ?d] exI [of _ p]) auto
  next
    case False
    have "Prev_scan user ops d = Prev_scan user ops ?d" using v p False by (subst Prev_scan.simps) simp
    moreover obtain b d' q where r: "Prev_scan user ops ?d = Some (b, d')" "dbi_at s d' E q" "dbi_direction d' = dbi_direction ?d"
      "if b then q < p \<and> Compare user (uk E q) (saved_key ?d) < 0 \<and> (\<forall>j. q < j \<and> j < p \<longrightarrow> \<not> Compare user (uk E j) (saved_key ?d) < 0)
       else q = length E \<and> (\<forall>j<p. \<not> Compare user (uk E j) (saved_key ?d) < 0)"
      using Suc(1) [OF at p] by (elim exE conjE) (rule that)
    ultimately show ?thesis
      using False by (intro exI [of _ b] exI [of _ d'] exI [of _ q]) (auto simp: less_Suc_eq split: if_splits)
  qed
qed

lemma DBIter_Prev_pos:
  assumes "dbi_pos s d E c" "dbi_valid d"
  shows "\<exists>d'. DBIter_Prev user ops d = Some d' \<and> dbi_pos s d' E (if c = 0 then length (V s E) else c - 1) \<and>
    (dbi_valid d' \<longrightarrow> dbi_direction d' = kReverse)"
proof (cases "dbi_direction d = kForward")
  case True
  obtain p where p: "dbi_at s d E p" "p < length E" "yields user s E p" "c = rank user s E p"
    using assms True by (auto simp: dbi_pos_def)
  have ord: "ordered_entries user E" using p(1) by (simp add: dbi_at_def)
  let ?d = "d\<lparr>saved_key := uk E p\<rparr>"
  have at: "dbi_at s ?d E p" using p(1) by simp
  obtain b d' q where r: "Prev_scan user ops ?d = Some (b, d')" "dbi_at s d' E q" "dbi_direction d' = dbi_direction ?d"
    "if b then q < p \<and> Compare user (uk E q) (saved_key ?d) < 0 \<and> (\<forall>j. q < j \<and> j < p \<longrightarrow> \<not> Compare user (uk E j) (saved_key ?d) < 0)
     else q = length E \<and> (\<forall>j<p. \<not> Compare user (uk E j) (saved_key ?d) < 0)"
    using Prev_scan_ok [OF at p(2)] by (elim exE conjE) (rule that)
  have no: "\<not> yields user s E j" if "j < p" "\<not> Compare user (uk E j) (uk E p) < 0" for j
    using yields_unique(2) [OF p(3) that(1)] uk_mono [OF ord, of j p] p(2) that by simp
  have key: "DBIter_Prev user ops d = (case Some (b, d') of
      Some (False, d) \<Rightarrow> Some (d\<lparr>dbi_valid := False, saved_key := [], saved_value := []\<rparr>)
    | Some (True, d) \<Rightarrow> FindPrevUserEntry user ops (d\<lparr>dbi_direction := kReverse\<rparr>))"
    using True r(1) at_key [OF p(1,2)] by (simp add: DBIter_Prev_def)
  show ?thesis
  proof (cases b)
    case b: True
    have q: "q < p" "\<forall>j. q < j \<and> j < p \<longrightarrow> \<not> Compare user (uk E j) (uk E p) < 0" using r(4) b by simp_all
    have "rank user s E p = rank user s E (Suc q)" using q no by (intro rank_skip) auto
    then show ?thesis
      using key b p(2,4) q(1) FindPrev_pos [of s "d'\<lparr>dbi_direction := kReverse\<rparr>" E q "rank user s E (Suc q)"] r(2)
      by (cases "rank user s E (Suc q) = 0") simp_all
  next
    case False
    have "\<forall>j<p. \<not> Compare user (uk E j) (uk E p) < 0" using r(4) False by simp
    then have "c = 0" using p(4) rank_skip [of 0 p user s E] no by simp
    then show ?thesis using key False r(2) by (auto simp: dbi_pos_def)
  qed
next
  case False
  then have dir: "dbi_direction d = kReverse" by (cases "dbi_direction d") simp_all
  obtain q i where qi: "dbi_at s d E q" "i < length E" "yields user s E i" "c = rank user s E i" "before_pair s E q i"
    using assms False by (auto simp: dbi_pos_def)
  have "c = (if q < length E then rank user s E (Suc q) else 0)"
  proof (cases "q < i")
    case True
    have "\<forall>j. q < j \<and> j < i \<longrightarrow> \<not> vis s E j" using qi(2,5) True by (auto simp: before_pair_def)
    then have "rank user s E i = rank user s E (Suc q)" using True by (intro rank_skip) (auto simp: yields_def)
    then show ?thesis using qi(2,4) True by simp
  next
    case False
    then have "q = length E" "\<forall>j<i. \<not> vis s E j" using qi(5) by (auto simp: before_pair_def)
    then show ?thesis using qi(4) rank_skip [of 0 i user s E] by (simp add: yields_def)
  qed
  moreover have "q \<le> length E" using qi(2,5) by (auto simp: before_pair_def)
  ultimately show ?thesis using FindPrev_pos [OF qi(1) dir, of c] False by (simp add: DBIter_Prev_def del: One_nat_def)
qed

subsection \<open>Sequences of operations\<close>

lemma DBIter_run_pos:
  assumes "dbi_pos s d E c" "s \<le> kMaxSequenceNumber" "no_hidden_key user s E \<or> no_turn bk ms" "dbi_direction d = kReverse \<longrightarrow> bk"
  shows "\<exists>d'. DBIter_run user ops d ms = Some d' \<and> dbi_pos s d' E (foldl (cursor_move (Compare user) (V s E)) c ms)"
  using assms(1,3,4)
proof (induction ms arbitrary: d c bk)
  case (Cons m ms)
  obtain p where at: "dbi_at s d E p" using Cons(2) by (auto simp: dbi_pos_def)
  note v = dbi_pos_valid [OF Cons(2)]
  have next_ok: "no_hidden_key user s E \<or> dbi_direction d = kForward" if "m = MNext"
    using Cons(3,4) that by (cases "dbi_direction d") auto
  define bk2 where "bk2 = (case m of MFirst \<Rightarrow> False | MSeek _ \<Rightarrow> False | MLast \<Rightarrow> True | MPrev \<Rightarrow> True | MNext \<Rightarrow> bk)"
  have "\<exists>d'. DBIter_move user ops d m = Some d' \<and> dbi_pos s d' E (cursor_move (Compare user) (V s E) c m) \<and>
      (dbi_direction d' = kReverse \<longrightarrow> bk2)"
  proof (cases m)
    case MFirst then show ?thesis using DBIter_SeekToFirst_pos [OF at] by auto
  next
    case MLast then show ?thesis using DBIter_SeekToLast_pos [OF at] by (auto simp: bk2_def simp del: One_nat_def)
  next
    case (MSeek target) then show ?thesis using DBIter_Seek_pos [OF at assms(2), of target] by auto
  next
    case MPrev then show ?thesis using DBIter_Prev_pos [OF Cons(2)] Cons(2) v by (auto simp: bk2_def)
  next
    case MNext
    have "\<exists>d'. DBIter_Next user ops d = Some d' \<and> dbi_pos s d' E (Suc c) \<and> dbi_direction d' = kForward" if "dbi_valid d"
      using next_ok [OF MNext] Next_forward [OF Cons(2) that] Next_reverse [OF Cons(2) that] by (cases "dbi_direction d") auto
    then show ?thesis using MNext Cons(2,4) v by (auto simp: bk2_def)
  qed
  then obtain d' where d': "DBIter_move user ops d m = Some d'" "dbi_pos s d' E (cursor_move (Compare user) (V s E) c m)"
    "dbi_direction d' = kReverse \<longrightarrow> bk2" by blast
  have "no_hidden_key user s E \<or> no_turn bk2 ms" using Cons(3) by (auto simp: bk2_def split: Move.splits)
  from Cons(1) [OF d'(2) this d'(3)] show ?case using d'(1) by simp
qed simp

text \<open>Every sequence of operations, with the steps that yield a pair again.\<close>

lemma DBIter_run_turns:
  assumes "dbi_pos s d E c" "s \<le> kMaxSequenceNumber" "dbi_valid d \<longrightarrow> (dbi_direction d = kReverse \<longleftrightarrow> bk)"
  shows "\<exists>d'. DBIter_run user ops d ms = Some d' \<and> dbi_pos s d' E (fst (foldl (turn_move user (hidden_key_before user s E) (V s E)) (c, bk) ms))"
  using assms(1,3)
proof (induction ms arbitrary: d c bk)
  case (Cons m ms)
  obtain p where at: "dbi_at s d E p" using Cons(2) by (auto simp: dbi_pos_def)
  note v = dbi_pos_valid [OF Cons(2)]
  obtain c2 bk2 where t: "turn_move user (hidden_key_before user s E) (V s E) (c, bk) m = (c2, bk2)" by fastforce
  have "\<exists>d'. DBIter_move user ops d m = Some d' \<and> dbi_pos s d' E c2 \<and> (dbi_valid d' \<longrightarrow> (dbi_direction d' = kReverse \<longleftrightarrow> bk2))"
  proof (cases m)
    case MFirst then show ?thesis using DBIter_SeekToFirst_pos [OF at] t by auto
  next
    case MLast then show ?thesis using DBIter_SeekToLast_pos [OF at] t by (auto simp del: One_nat_def)
  next
    case (MSeek target) then show ?thesis using DBIter_Seek_pos [OF at assms(2), of target] t by auto
  next
    case MPrev
    show ?thesis
    proof (cases "dbi_valid d")
      case True
      then show ?thesis using DBIter_Prev_pos [OF Cons(2) True] MPrev t v by auto
    next
      case False
      then show ?thesis using Cons(2) MPrev t v by auto
    qed
  next
    case MNext
    show ?thesis
    proof (cases "dbi_valid d")
      case True
      then show ?thesis
        using Next_forward [OF Cons(2) True] Next_turn [OF Cons(2) True] Cons(3) MNext t v by (cases "dbi_direction d") auto
    next
      case False
      then show ?thesis using Cons(2) MNext t v by auto
    qed
  qed
  then obtain d' where d': "DBIter_move user ops d m = Some d'" "dbi_pos s d' E c2" "dbi_valid d' \<longrightarrow> (dbi_direction d' = kReverse \<longleftrightarrow> bk2)" by blast
  from Cons(1) [OF d'(2,3)] show ?case using d'(1) t by simp
qed simp

end

subsection \<open>Properties\<close>

interpretation block_db: db_iterator BytewiseComparator BlockItOps "blockit_pos (InternalKeyComparator BytewiseComparator) valid_ikey"
proof (intro db_iterator.intro bytewise_ikey.ikey_order_axioms)
  show "iterator (InternalKey_Compare BytewiseComparator) valid_ikey BlockItOps (blockit_pos (InternalKeyComparator BytewiseComparator) valid_ikey)"
    using blockit_iterator [OF bytewise_internal.key_order_axioms] by simp
qed

text \<open>C3: A user iterator over any iterator of internal keys that meets the contract shows the newest value that the
  snapshot sees for every user key, in the order of the keys, and neither deleted nor newer ones: every
  sequence of operations returns without error and leaves it where a cursor on these pairs would
  be. This holds for all sequences when every user key has an entry the snapshot sees, and otherwise for
  those in which \<open>Next\<close> does not follow a step back.\<close>

theorem dbiter_refines_cursor:
  assumes "db_iterator user ops pos" "pos it E p" "\<forall>e\<in>set E. ParseInternalKey (fst e) \<noteq> None"
    and "s \<le> kMaxSequenceNumber" "no_hidden_key user s E \<or> no_turn False ms"
  shows "\<exists>d. DBIter_run user ops (NewDBIterator it s) ms = Some d \<and>
    DBIter_view ops d = cursor_view (visible_pairs user s E)
      (foldl (cursor_move (Compare user) (visible_pairs user s E)) (length (visible_pairs user s E)) ms) \<and>
    DBIter_status ops d = OK"
proof -
  have "ordered_entries user E"
    using assms(3) iterator.pos_sorted [OF db_iterator.axioms(2) [OF assms(1)] assms(2)] by (simp add: ordered_entries_def)
  then have "db_iterator.dbi_pos user pos s (NewDBIterator it s) E (length (visible_pairs user s E))"
    using assms(2) by (auto simp: db_iterator.dbi_pos_def [OF assms(1)] db_iterator.dbi_at_def [OF assms(1)] NewDBIterator_def)
  from db_iterator.DBIter_run_pos [OF assms(1) this assms(4,5)]
  obtain d where d: "DBIter_run user ops (NewDBIterator it s) ms = Some d"
    "db_iterator.dbi_pos user pos s d E (foldl (cursor_move (Compare user) (visible_pairs user s E)) (length (visible_pairs user s E)) ms)"
    by (auto simp: NewDBIterator_def)
  then show ?thesis using db_iterator.dbi_pos_view [OF assms(1) d(2)] by blast
qed

text \<open>Three keys of which a snapshot at 5 does not see the second.\<close>

definition turn_entries :: "(bytes \<times> bytes) list" where
  "turn_entries = [(InternalKey [1] 1 kTypeValue, [7]), (InternalKey [2] 9 kTypeValue, [8]), (InternalKey [3] 2 kTypeValue, [9])]"

definition turn_block :: BlockIt where
  "turn_block = BlockIt_new (InternalKeyComparator BytewiseComparator) (Block_new (block_of 16 turn_entries))"

lemma turn_block_pos: "\<exists>q. blockit_pos (InternalKeyComparator BytewiseComparator) valid_ikey turn_block turn_entries q"
  unfolding turn_block_def
proof (rule BlockIt_new_built)
  show "sorted_pairs (Compare (InternalKeyComparator BytewiseComparator)) valid_ikey turn_entries"
    by (simp add: turn_entries_def sorted_pairs_def InternalKey_Compare_user_less)
  show "length (block_of 16 turn_entries) < 2 ^ 32" by (simp add: turn_entries_def block_eval InternalKey_eq)
qed simp

lemma key_parts_InternalKey:
  "t \<le> kMaxSequenceNumber \<Longrightarrow> key_seq (InternalKey k t ty) = t" "key_type (InternalKey k t ty) = ty"
  by (simp_all add: key_seq_def key_type_def drop_bit_Pack ucast_Pack)

lemma turn_entries_eval:
  "\<forall>e\<in>set turn_entries. ParseInternalKey (fst e) \<noteq> None"
  "visible_pairs BytewiseComparator 5 turn_entries = [([1], [7]), ([3], [9])]"
  by (simp_all add: turn_entries_def ParseInternalKey_InternalKey kMaxSequenceNumber_def visible_pairs_def yields_def
      key_parts_InternalKey upt_rec less_Suc_eq)

theorem dbiter_refines_cursor_witness:
  "\<exists>d. DBIter_run BytewiseComparator BlockItOps (NewDBIterator turn_block 5) [MFirst, MNext] = Some d \<and>
     DBIter_view BlockItOps d = Some ([3], [9])"
proof -
  obtain q where q: "blockit_pos (InternalKeyComparator BytewiseComparator) valid_ikey turn_block turn_entries q"
    using turn_block_pos by blast
  show ?thesis
    using dbiter_refines_cursor [OF block_db.db_iterator_axioms q turn_entries_eval(1), of 5 "[MFirst, MNext]"]
    by (auto simp: turn_entries_eval(2) cursor_view_def kMaxSequenceNumber_def)
qed

text \<open>C38: What the iterator shows after any sequence of operations, on entries that can be parsed: it moves as a cursor on the
  visible pairs does, except that \<open>Next\<close> right after a step back stays on its pair when the user key right in front
  of the key of this pair has only entries that the snapshot does not see. \<open>Next\<close> then takes the key to leave behind
  from the internal iterator, which stands at such a key, and not from the pair that was shown.\<close>

theorem dbiter_turn_repeats:
  assumes "db_iterator user ops pos" "pos it E p" "\<forall>e\<in>set E. ParseInternalKey (fst e) \<noteq> None" "s \<le> kMaxSequenceNumber"
  shows "\<exists>d. DBIter_run user ops (NewDBIterator it s) ms = Some d \<and>
    DBIter_view ops d = cursor_view (visible_pairs user s E)
      (fst (foldl (turn_move user (hidden_key_before user s E) (visible_pairs user s E)) (length (visible_pairs user s E), False) ms)) \<and>
    DBIter_status ops d = OK"
proof -
  have "ordered_entries user E"
    using assms(3) iterator.pos_sorted [OF db_iterator.axioms(2) [OF assms(1)] assms(2)] by (simp add: ordered_entries_def)
  then have "db_iterator.dbi_pos user pos s (NewDBIterator it s) E (length (visible_pairs user s E))"
    using assms(2) by (auto simp: db_iterator.dbi_pos_def [OF assms(1)] db_iterator.dbi_at_def [OF assms(1)] NewDBIterator_def)
  from db_iterator.DBIter_run_turns [OF assms(1) this assms(4), of False ms]
  obtain d where d: "DBIter_run user ops (NewDBIterator it s) ms = Some d"
    "db_iterator.dbi_pos user pos s d E (fst (foldl (turn_move user (hidden_key_before user s E) (visible_pairs user s E)) (length (visible_pairs user s E), False) ms))"
    by (auto simp: NewDBIterator_def)
  then show ?thesis using db_iterator.dbi_pos_view [OF assms(1) d(2)] by blast
qed

theorem dbiter_turn_repeats_witness:
  "\<exists>d. DBIter_run BytewiseComparator BlockItOps (NewDBIterator turn_block 5) [MLast, MNext] = Some d \<and>
     DBIter_view BlockItOps d = Some ([3], [9])"
proof -
  obtain q where q: "blockit_pos (InternalKeyComparator BytewiseComparator) valid_ikey turn_block turn_entries q"
    using turn_block_pos by blast
  have "hidden_key_before BytewiseComparator 5 turn_entries [3]"
    by (simp add: hidden_key_before_def turn_entries_def key_parts_InternalKey kMaxSequenceNumber_def)
  then show ?thesis
    using dbiter_turn_repeats [OF block_db.db_iterator_axioms q turn_entries_eval(1), of 5 "[MLast, MNext]"]
    by (auto simp: turn_entries_eval(2) cursor_view_def kMaxSequenceNumber_def)
qed

end
