(* ===== verification/Logging.thy ===== *)
theory Logging
  imports Util
begin

text \<open>
  Text conversions of \<open>util/logging.cc\<close>: numbers in decimal, escaped strings, and the parser of
  decimal numbers that file names are read with.
\<close>

definition AppendNumberTo :: "string \<Rightarrow> uint64 \<Rightarrow> string" where
  "AppendNumberTo str num = str @ decimal (unat num)"

definition NumberToString :: "uint64 \<Rightarrow> string" where
  "NumberToString num = AppendNumberTo [] num"

definition hex_char :: "nat \<Rightarrow> char" where
  "hex_char d = (if d < 10 then char_of (48 + d) else char_of (87 + d))"

definition escape_byte :: "byte \<Rightarrow> string" where
  "escape_byte c =
     (if 0x20 \<le> c \<and> c \<le> 0x7e then [char_of (unat c)]
      else [CHR 0x5C, CHR ''x'', hex_char (unat c div 16), hex_char (unat c mod 16)])"

primrec AppendEscapedStringTo :: "string \<Rightarrow> bytes \<Rightarrow> string" where
  "AppendEscapedStringTo str [] = str"
| "AppendEscapedStringTo str (c # value) = AppendEscapedStringTo (str @ escape_byte c) value"

definition EscapeString :: "bytes \<Rightarrow> string" where
  "EscapeString value = AppendEscapedStringTo [] value"

fun ConsumeChar :: "string \<Rightarrow> char \<Rightarrow> string option" where
  "ConsumeChar [] c = None"
| "ConsumeChar (x # xs) c = (if x = c then Some xs else None)"

text \<open>The value and what is left of the input, or nothing where the source returns false.\<close>

definition kMaxUint64 :: uint64 where "kMaxUint64 = - 1"

fun ConsumeDecimalNumber_loop :: "string \<Rightarrow> uint64 \<Rightarrow> nat \<Rightarrow> (uint64 \<times> nat \<times> string) option" where
  "ConsumeDecimalNumber_loop [] v digits = Some (v, digits, [])"
| "ConsumeDecimalNumber_loop (c # s) v digits =
     (if 48 \<le> (of_char c :: nat) \<and> (of_char c :: nat) \<le> 57 then
        (let delta = of_char c - 48 :: nat in
         if v > kMaxUint64 div 10 \<or> v = kMaxUint64 div 10 \<and> of_nat delta > kMaxUint64 mod 10 then None
         else ConsumeDecimalNumber_loop s (v * 10 + of_nat delta) (digits + 1))
      else Some (v, digits, c # s))"

definition ConsumeDecimalNumber :: "string \<Rightarrow> (uint64 \<times> string) option" where
  "ConsumeDecimalNumber s =
     (case ConsumeDecimalNumber_loop s 0 0 of
        None \<Rightarrow> None
      | Some (v, digits, rest) \<Rightarrow> if digits > 0 then Some (v, rest) else None)"

subsection \<open>Decimal numbers are read back\<close>

definition is_digit :: "char \<Rightarrow> bool" where
  "is_digit c \<longleftrightarrow> 48 \<le> (of_char c :: nat) \<and> (of_char c :: nat) \<le> 57"

definition decimal_value :: "nat \<Rightarrow> string \<Rightarrow> nat" where
  "decimal_value = foldl (\<lambda>v c. v * 10 + (of_char c - 48))"

lemma decimal_value_simps [simp]:
  "decimal_value v [] = v" "decimal_value v (c # s) = decimal_value (v * 10 + (of_char c - 48)) s"
  "decimal_value v (s @ t) = decimal_value (decimal_value v s) t"
  by (simp_all add: decimal_value_def)

lemma decimal_value_mono: "v \<le> decimal_value v s"
proof (induction s arbitrary: v)
  case (Cons c s)
  have "v \<le> v * 10 + (of_char c - 48)" by simp
  then show ?case using Cons [of "v * 10 + (of_char c - 48)"] by simp
qed simp

lemma digit_char_digit: "d < 10 \<Longrightarrow> is_digit (digit_char d) \<and> of_char (digit_char d) = 48 + d"
  by (simp add: is_digit_def digit_char_def of_char_of)

lemma decimal_ok: "(\<forall>c\<in>set (decimal n). is_digit c) \<and> decimal n \<noteq> [] \<and> decimal_value 0 (decimal n) = n"
proof (induction n rule: decimal.induct)
  case (1 n)
  then show ?case
    using digit_char_digit [of n] digit_char_digit [of "n mod 10"]
    by (cases "n < 10") (simp_all add: decimal.simps [of n])
qed

text \<open>The check before the step is the check that the step does not wrap around.\<close>

lemma overflow_iff:
  assumes "d < 10"
  shows "(v > kMaxUint64 div 10 \<or> v = kMaxUint64 div 10 \<and> of_nat d > kMaxUint64 mod 10) \<longleftrightarrow> 2 ^ 64 \<le> unat v * 10 + d"
proof -
  have c: "unat (kMaxUint64 div 10) = 1844674407370955161" "unat (kMaxUint64 mod 10) = 5"
    by (simp_all add: kMaxUint64_def unat_div unat_mod)
  have d: "unat (of_nat d :: uint64) = d" using assms by simp
  have "v = kMaxUint64 div 10 \<longleftrightarrow> unat v = 1844674407370955161" unfolding c(1) [symmetric] by (simp add: word_unat_eq_iff)
  then show ?thesis using assms by (simp only: word_less_nat_alt c d) auto
qed

lemma ConsumeDecimalNumber_loop_eq:
  assumes "\<forall>c\<in>set ds. is_digit c" "rest = [] \<or> \<not> is_digit (hd rest)"
  shows "ConsumeDecimalNumber_loop (ds @ rest) v n =
    (if decimal_value (unat v) ds < 2 ^ 64 then Some (of_nat (decimal_value (unat v) ds), n + length ds, rest) else None)"
  using assms(1)
proof (induction ds arbitrary: v n)
  case Nil
  have "ConsumeDecimalNumber_loop rest v n = Some (v, n, rest)"
    using assms(2) by (cases rest) (auto simp: is_digit_def)
  then show ?case using unat_lt [of v] by simp
next
  case (Cons c ds)
  define d :: nat where "d = of_char c - 48"
  have c: "is_digit c" "d < 10" using Cons(2) by (auto simp: d_def is_digit_def)
  have step: "ConsumeDecimalNumber_loop ((c # ds) @ rest) v n =
      (if 2 ^ 64 \<le> unat v * 10 + d then None else ConsumeDecimalNumber_loop (ds @ rest) (v * 10 + of_nat d) (n + 1))"
    using c(1) unfolding overflow_iff [OF c(2), of v, symmetric] by (simp add: is_digit_def d_def Let_def)
  show ?case
  proof (cases "unat v * 10 + d < 2 ^ 64")
    case True
    have eq: "unat (v * 10 + of_nat d) = unat v * 10 + d"
    proof -
      have "v * 10 + of_nat d = (of_nat (unat v * 10 + d) :: uint64)" by simp
      then show ?thesis using True by (metis unat_of_nat_small64)
    qed
    have "ConsumeDecimalNumber_loop ((c # ds) @ rest) v n = ConsumeDecimalNumber_loop (ds @ rest) (v * 10 + of_nat d) (n + 1)"
      using step True by simp
    then show ?thesis using Cons(1) [of "v * 10 + of_nat d" "n + 1"] Cons(2) eq by (simp add: d_def)
  next
    case False
    then have "ConsumeDecimalNumber_loop ((c # ds) @ rest) v n = None"
      using step by simp
    moreover have "\<not> decimal_value (unat v) (c # ds) < 2 ^ 64"
      using False decimal_value_mono [of "unat v * 10 + d" ds] by (simp add: d_def)
    ultimately show ?thesis by simp
  qed
qed

lemma ConsumeDecimalNumber_eq:
  assumes "\<forall>c\<in>set ds. is_digit c" "ds \<noteq> []" "rest = [] \<or> \<not> is_digit (hd rest)"
  shows "ConsumeDecimalNumber (ds @ rest) =
    (if decimal_value 0 ds < 2 ^ 64 then Some (of_nat (decimal_value 0 ds), rest) else None)"
  using ConsumeDecimalNumber_loop_eq [OF assms(1,3), of 0 0] assms(2) by (simp add: ConsumeDecimalNumber_def)

text \<open>A number that was printed in decimal, with any number of leading zeros, is read back from any
  text that continues with something other than a digit; a run of digits whose value needs more
  than 64 bits is rejected, as is a text without a digit at the front.\<close>

theorem decimal_number_roundtrip:
  assumes "rest = [] \<or> \<not> is_digit (hd rest)"
  shows "ConsumeDecimalNumber (replicate z (CHR ''0'') @ NumberToString num @ rest) = Some (num, rest) \<and>
    (2 ^ 64 \<le> n \<longrightarrow> ConsumeDecimalNumber (decimal n @ rest) = None) \<and> ConsumeDecimalNumber rest = None"
proof -
  have z: "decimal_value 0 (replicate z (CHR ''0'')) = 0" by (induction z) simp_all
  have "ConsumeDecimalNumber ((replicate z (CHR ''0'') @ NumberToString num) @ rest) = Some (num, rest)"
    using decimal_ok [of "unat num"] z unat_lt [of num]
    by (subst ConsumeDecimalNumber_eq [OF _ _ assms])
      (auto simp: NumberToString_def AppendNumberTo_def is_digit_def)
  moreover have "ConsumeDecimalNumber (decimal n @ rest) = None" if "2 ^ 64 \<le> n"
    using decimal_ok [of n] that by (subst ConsumeDecimalNumber_eq [OF _ _ assms]) auto
  moreover have "ConsumeDecimalNumber rest = None"
    using assms by (cases rest) (auto simp: ConsumeDecimalNumber_def is_digit_def)
  ultimately show ?thesis by simp
qed

theorem decimal_number_roundtrip_witness:
  "ConsumeDecimalNumber (''00'' @ NumberToString 18446744073709551615 @ ''.log'') = Some (18446744073709551615, ''.log'')"
  using decimal_number_roundtrip [of "''.log''" 2 18446744073709551615] by (simp add: is_digit_def numeral_2_eq_2)

end
