(* ===== verification/Version_Edit.thy ===== *)
theory Version_Edit
  imports Dbformat Logging "HOL-Library.Product_Lexorder"
begin

text \<open>
  The records of a manifest, \<open>db/version_edit.cc\<close>: what an edit holds, its encoding as a sequence
  of tagged fields, and the decoder.
\<close>

subsection \<open>Edits\<close>

record FileMetaData =
  fm_refs :: int
  allowed_seeks :: int
  fm_number :: uint64
  file_size :: uint64
  smallest :: bytes
  largest :: bytes

definition FileMetaData_new :: FileMetaData where
  "FileMetaData_new = \<lparr>fm_refs = 0, allowed_seeks = 2 ^ 30, fm_number = 0, file_size = 0, smallest = [], largest = []\<rparr>"

text \<open>
  A field with its \<open>has_\<close> flag is two fields. The set of deleted files is kept as the sorted
  list in which the source iterates over it.
\<close>

record VersionEdit =
  ve_comparator :: bytes
  log_number :: uint64
  prev_log_number :: uint64
  next_file_number :: uint64
  last_sequence :: SequenceNumber
  has_comparator :: bool
  has_log_number :: bool
  has_prev_log_number :: bool
  has_next_file_number :: bool
  has_last_sequence :: bool
  compact_pointers :: "(nat \<times> bytes) list"
  deleted_files :: "(nat \<times> uint64) list"
  new_files :: "(nat \<times> FileMetaData) list"

text \<open>\<open>Clear\<close> leaves the compaction pointers alone.\<close>

definition VersionEdit_Clear :: "VersionEdit \<Rightarrow> VersionEdit" where
  "VersionEdit_Clear e = e\<lparr>ve_comparator := [], log_number := 0, prev_log_number := 0, last_sequence := 0, next_file_number := 0,
     has_comparator := False, has_log_number := False, has_prev_log_number := False, has_next_file_number := False,
     has_last_sequence := False, deleted_files := [], new_files := []\<rparr>"

definition VersionEdit_new :: VersionEdit where
  "VersionEdit_new = VersionEdit_Clear
     \<lparr>ve_comparator = [], log_number = 0, prev_log_number = 0, next_file_number = 0, last_sequence = 0,
      has_comparator = False, has_log_number = False, has_prev_log_number = False, has_next_file_number = False,
      has_last_sequence = False, compact_pointers = [], deleted_files = [], new_files = []\<rparr>"

definition SetComparatorName :: "bytes \<Rightarrow> VersionEdit \<Rightarrow> VersionEdit" where
  "SetComparatorName name e = e\<lparr>has_comparator := True, ve_comparator := name\<rparr>"

definition SetLogNumber :: "uint64 \<Rightarrow> VersionEdit \<Rightarrow> VersionEdit" where
  "SetLogNumber num e = e\<lparr>has_log_number := True, log_number := num\<rparr>"

definition SetPrevLogNumber :: "uint64 \<Rightarrow> VersionEdit \<Rightarrow> VersionEdit" where
  "SetPrevLogNumber num e = e\<lparr>has_prev_log_number := True, prev_log_number := num\<rparr>"

definition SetNextFile :: "uint64 \<Rightarrow> VersionEdit \<Rightarrow> VersionEdit" where
  "SetNextFile num e = e\<lparr>has_next_file_number := True, next_file_number := num\<rparr>"

definition SetLastSequence :: "SequenceNumber \<Rightarrow> VersionEdit \<Rightarrow> VersionEdit" where
  "SetLastSequence seq e = e\<lparr>has_last_sequence := True, last_sequence := seq\<rparr>"

definition SetCompactPointer :: "nat \<Rightarrow> bytes \<Rightarrow> VersionEdit \<Rightarrow> VersionEdit" where
  "SetCompactPointer level key e = e\<lparr>compact_pointers := compact_pointers e @ [(level, key)]\<rparr>"

definition AddFile :: "nat \<Rightarrow> uint64 \<Rightarrow> uint64 \<Rightarrow> bytes \<Rightarrow> bytes \<Rightarrow> VersionEdit \<Rightarrow> VersionEdit" where
  "AddFile level f sz small large e =
     e\<lparr>new_files := new_files e @
        [(level, FileMetaData_new\<lparr>fm_number := f, file_size := sz, smallest := small, largest := large\<rparr>)]\<rparr>"

definition VersionEdit_DeleteFile :: "nat \<Rightarrow> uint64 \<Rightarrow> VersionEdit \<Rightarrow> VersionEdit" where
  "VersionEdit_DeleteFile level f e = e\<lparr>deleted_files := insort_insert (level, f) (deleted_files e)\<rparr>"

subsection \<open>Encoding\<close>

definition "kComparator = (1 :: uint32)"
definition "kLogNumber = (2 :: uint32)"
definition "kNextFileNumber = (3 :: uint32)"
definition "kLastSequence = (4 :: uint32)"
definition "kCompactPointer = (5 :: uint32)"
definition "kDeletedFile = (6 :: uint32)"
definition "kNewFile = (7 :: uint32)"
definition "kPrevLogNumber = (9 :: uint32)"

lemmas edit_tags = kComparator_def kLogNumber_def kNextFileNumber_def kLastSequence_def kCompactPointer_def
  kDeletedFile_def kNewFile_def kPrevLogNumber_def

definition put_compact_pointer :: "bytes \<Rightarrow> nat \<times> bytes \<Rightarrow> bytes" where
  "put_compact_pointer dst p =
     PutLengthPrefixedSlice (PutVarint32 (PutVarint32 dst kCompactPointer) (of_nat (fst p))) (snd p)"

definition put_deleted_file :: "bytes \<Rightarrow> nat \<times> uint64 \<Rightarrow> bytes" where
  "put_deleted_file dst p = PutVarint64 (PutVarint32 (PutVarint32 dst kDeletedFile) (of_nat (fst p))) (snd p)"

definition put_new_file :: "bytes \<Rightarrow> nat \<times> FileMetaData \<Rightarrow> bytes" where
  "put_new_file dst p =
     (let f = snd p;
          dst = PutVarint32 dst kNewFile;
          dst = PutVarint32 dst (of_nat (fst p));
          dst = PutVarint64 dst (fm_number f);
          dst = PutVarint64 dst (file_size f);
          dst = PutLengthPrefixedSlice dst (smallest f)
      in PutLengthPrefixedSlice dst (largest f))"

definition VersionEdit_EncodeTo :: "VersionEdit \<Rightarrow> bytes \<Rightarrow> bytes" where
  "VersionEdit_EncodeTo e dst =
     (let dst = (if has_comparator e then PutLengthPrefixedSlice (PutVarint32 dst kComparator) (ve_comparator e) else dst);
          dst = (if has_log_number e then PutVarint64 (PutVarint32 dst kLogNumber) (log_number e) else dst);
          dst = (if has_prev_log_number e then PutVarint64 (PutVarint32 dst kPrevLogNumber) (prev_log_number e) else dst);
          dst = (if has_next_file_number e then PutVarint64 (PutVarint32 dst kNextFileNumber) (next_file_number e) else dst);
          dst = (if has_last_sequence e then PutVarint64 (PutVarint32 dst kLastSequence) (last_sequence e) else dst);
          dst = foldl put_compact_pointer dst (compact_pointers e);
          dst = foldl put_deleted_file dst (deleted_files e)
      in foldl put_new_file dst (new_files e))"

subsection \<open>Decoding\<close>

text \<open>\<open>DecodeFrom\<close> of an internal key keeps its bytes.\<close>

definition GetInternalKey :: "bytes \<Rightarrow> (bytes \<times> bytes) option" where
  "GetInternalKey input = GetLengthPrefixedSlice input"

definition GetLevel :: "bytes \<Rightarrow> (nat \<times> bytes) option" where
  "GetLevel input =
     (case GetVarint32 input of
        None \<Rightarrow> None
      | Some (v, input) \<Rightarrow> if v < of_nat kNumLevels then Some (unat v, input) else None)"

definition decode_new_file :: "bytes \<Rightarrow> ((nat \<times> FileMetaData) \<times> bytes) option" where
  "decode_new_file input =
     (case GetLevel input of None \<Rightarrow> None | Some (level, input) \<Rightarrow>
      (case GetVarint64 input of None \<Rightarrow> None | Some (number, input) \<Rightarrow>
      (case GetVarint64 input of None \<Rightarrow> None | Some (sz, input) \<Rightarrow>
      (case GetInternalKey input of None \<Rightarrow> None | Some (small, input) \<Rightarrow>
      (case GetInternalKey input of None \<Rightarrow> None | Some (large, input) \<Rightarrow>
         Some ((level, FileMetaData_new\<lparr>fm_number := number, file_size := sz, smallest := small, largest := large\<rparr>), input))))))"

text \<open>One field: the message of the error, or the edit with the field and the rest of the input.\<close>

definition decode_field :: "VersionEdit \<Rightarrow> uint32 \<Rightarrow> bytes \<Rightarrow> string + VersionEdit \<times> bytes" where
  "decode_field e tag input =
     (if tag = kComparator then
        (case GetLengthPrefixedSlice input of
           Some (str, input) \<Rightarrow> Inr (e\<lparr>ve_comparator := str, has_comparator := True\<rparr>, input)
         | None \<Rightarrow> Inl ''comparator name'')
      else if tag = kLogNumber then
        (case GetVarint64 input of
           Some (v, input) \<Rightarrow> Inr (e\<lparr>log_number := v, has_log_number := True\<rparr>, input)
         | None \<Rightarrow> Inl ''log number'')
      else if tag = kPrevLogNumber then
        (case GetVarint64 input of
           Some (v, input) \<Rightarrow> Inr (e\<lparr>prev_log_number := v, has_prev_log_number := True\<rparr>, input)
         | None \<Rightarrow> Inl ''previous log number'')
      else if tag = kNextFileNumber then
        (case GetVarint64 input of
           Some (v, input) \<Rightarrow> Inr (e\<lparr>next_file_number := v, has_next_file_number := True\<rparr>, input)
         | None \<Rightarrow> Inl ''next file number'')
      else if tag = kLastSequence then
        (case GetVarint64 input of
           Some (v, input) \<Rightarrow> Inr (e\<lparr>last_sequence := v, has_last_sequence := True\<rparr>, input)
         | None \<Rightarrow> Inl ''last sequence number'')
      else if tag = kCompactPointer then
        (case GetLevel input of
           None \<Rightarrow> Inl ''compaction pointer''
         | Some (level, input) \<Rightarrow>
             (case GetInternalKey input of
                Some (key, input) \<Rightarrow> Inr (e\<lparr>compact_pointers := compact_pointers e @ [(level, key)]\<rparr>, input)
              | None \<Rightarrow> Inl ''compaction pointer''))
      else if tag = kDeletedFile then
        (case GetLevel input of
           None \<Rightarrow> Inl ''deleted file''
         | Some (level, input) \<Rightarrow>
             (case GetVarint64 input of
                Some (number, input) \<Rightarrow> Inr (e\<lparr>deleted_files := insort_insert (level, number) (deleted_files e)\<rparr>, input)
              | None \<Rightarrow> Inl ''deleted file''))
      else if tag = kNewFile then
        (case decode_new_file input of
           Some (f, input) \<Rightarrow> Inr (e\<lparr>new_files := new_files e @ [f]\<rparr>, input)
         | None \<Rightarrow> Inl ''new-file entry'')
      else Inl ''unknown tag'')"

lemma GetLevel_shorter: "GetLevel input = Some (v, rest) \<Longrightarrow> length rest < length input"
  by (auto simp: GetLevel_def split: option.splits if_splits dest!: GetVarint32Ptr_suffix)

lemma GetVarint64_shorter: "GetVarint64 input = Some (v, rest) \<Longrightarrow> length rest < length input"
  by (auto dest!: GetVarint64_suffix)

lemma GetInternalKey_shorter: "GetInternalKey input = Some (v, rest) \<Longrightarrow> length rest < length input"
  by (auto simp: GetInternalKey_def dest!: GetLengthPrefixedSlice_suffix)

lemma decode_new_file_shorter: "decode_new_file input = Some (f, rest) \<Longrightarrow> length rest < length input"
  by (auto simp: decode_new_file_def split: option.splits dest!: GetLevel_shorter GetVarint64_shorter GetInternalKey_shorter)

lemma decode_field_shorter:
  assumes "decode_field e tag input = Inr (e', rest)"
  shows "length rest < length input"
  using assms unfolding decode_field_def
  by (auto split: if_splits option.splits dest!: GetLengthPrefixedSlice_length GetLevel_shorter GetVarint64_shorter
      GetInternalKey_shorter decode_new_file_shorter)

text \<open>The loop gives the message, the edit and the input that is left.\<close>

function decode_loop :: "VersionEdit \<Rightarrow> bytes \<Rightarrow> string option \<times> VersionEdit \<times> bytes" where
  "decode_loop e input =
     (case GetVarint32 input of
        None \<Rightarrow> (None, e, input)
      | Some (tag, input') \<Rightarrow>
          (case decode_field e tag input' of
             Inl msg \<Rightarrow> (Some msg, e, input')
           | Inr (e', input'') \<Rightarrow> decode_loop e' input''))"
  by pat_completeness auto
termination
  by (relation "measure (\<lambda>(e, input). length input)")
    (auto dest!: GetVarint32Ptr_suffix decode_field_shorter)

declare decode_loop.simps [simp del]

definition VersionEdit_DecodeFrom :: "VersionEdit \<Rightarrow> bytes \<Rightarrow> Status \<times> VersionEdit" where
  "VersionEdit_DecodeFrom e src =
     (let (msg, e, input) = decode_loop (VersionEdit_Clear e) src;
          msg = (if msg = None \<and> input \<noteq> [] then Some ''invalid tag'' else msg)
      in (case msg of None \<Rightarrow> OK | Some m \<Rightarrow> Corruption ''VersionEdit'' m, e))"

subsection \<open>Debugging output\<close>

definition VersionEdit_DebugString :: "VersionEdit \<Rightarrow> string" where
  "VersionEdit_DebugString e =
     (let nl = [CHR 0x0A];
          r = ''VersionEdit {'';
          r = (if has_comparator e then r @ nl @ ''  Comparator: '' @ map (\<lambda>c. char_of (unat c)) (ve_comparator e) else r);
          r = (if has_log_number e then AppendNumberTo (r @ nl @ ''  LogNumber: '') (log_number e) else r);
          r = (if has_prev_log_number e then AppendNumberTo (r @ nl @ ''  PrevLogNumber: '') (prev_log_number e) else r);
          r = (if has_next_file_number e then AppendNumberTo (r @ nl @ ''  NextFile: '') (next_file_number e) else r);
          r = (if has_last_sequence e then AppendNumberTo (r @ nl @ ''  LastSeq: '') (last_sequence e) else r);
          r = foldl (\<lambda>r p. AppendEscapedStringTo (AppendNumberTo (r @ nl @ ''  CompactPointer: '') (of_nat (fst p)) @ [CHR '' '', CHR 0x27]) (snd p)
                @ [CHR 0x27]) r (compact_pointers e);
          r = foldl (\<lambda>r p. AppendNumberTo (AppendNumberTo (r @ nl @ ''  DeleteFile: '') (of_nat (fst p)) @ '' '') (snd p)) r (deleted_files e);
          r = foldl (\<lambda>r p.
                (let f = snd p;
                     r = AppendNumberTo (r @ nl @ ''  AddFile: '') (of_nat (fst p)) @ '' '';
                     r = AppendNumberTo r (fm_number f) @ '' '';
                     r = AppendNumberTo r (file_size f) @ [CHR '' '', CHR 0x27];
                     r = AppendEscapedStringTo r (smallest f) @ [CHR 0x27] @ '' .. '' @ [CHR 0x27]
                 in AppendEscapedStringTo r (largest f) @ [CHR 0x27])) r (new_files e)
      in r @ nl @ ''}'' @ nl)"

subsection \<open>Edits are read back\<close>

text \<open>The edits that the setters make, with keys and names that fit a 32-bit length.\<close>

inductive built_edit :: "VersionEdit \<Rightarrow> bool" where
  new: "built_edit VersionEdit_new"
| comparator: "built_edit e \<Longrightarrow> length name < 2 ^ 32 \<Longrightarrow> built_edit (SetComparatorName name e)"
| log_number: "built_edit e \<Longrightarrow> built_edit (SetLogNumber num e)"
| prev_log_number: "built_edit e \<Longrightarrow> built_edit (SetPrevLogNumber num e)"
| next_file: "built_edit e \<Longrightarrow> built_edit (SetNextFile num e)"
| last_sequence: "built_edit e \<Longrightarrow> built_edit (SetLastSequence num e)"
| compact_pointer: "built_edit e \<Longrightarrow> level < kNumLevels \<Longrightarrow> length key < 2 ^ 32 \<Longrightarrow> built_edit (SetCompactPointer level key e)"
| add_file: "built_edit e \<Longrightarrow> level < kNumLevels \<Longrightarrow> length small < 2 ^ 32 \<Longrightarrow> length large < 2 ^ 32 \<Longrightarrow>
    built_edit (AddFile level f sz small large e)"
| delete_file: "built_edit e \<Longrightarrow> level < kNumLevels \<Longrightarrow> built_edit (VersionEdit_DeleteFile level f e)"

definition new_file_wf :: "nat \<times> FileMetaData \<Rightarrow> bool" where
  "new_file_wf p \<longleftrightarrow> fst p < kNumLevels \<and> length (smallest (snd p)) < 2 ^ 32 \<and> length (largest (snd p)) < 2 ^ 32 \<and>
     fm_refs (snd p) = 0 \<and> allowed_seeks (snd p) = 2 ^ 30"

definition edit_wf :: "VersionEdit \<Rightarrow> bool" where
  "edit_wf e \<longleftrightarrow> length (ve_comparator e) < 2 ^ 32 \<and>
     (\<not> has_comparator e \<longrightarrow> ve_comparator e = []) \<and> (\<not> has_log_number e \<longrightarrow> log_number e = 0) \<and>
     (\<not> has_prev_log_number e \<longrightarrow> prev_log_number e = 0) \<and> (\<not> has_next_file_number e \<longrightarrow> next_file_number e = 0) \<and>
     (\<not> has_last_sequence e \<longrightarrow> last_sequence e = 0) \<and>
     (\<forall>p\<in>set (compact_pointers e). fst p < kNumLevels \<and> length (snd p) < 2 ^ 32) \<and>
     sorted (deleted_files e) \<and> distinct (deleted_files e) \<and> (\<forall>p\<in>set (deleted_files e). fst p < kNumLevels) \<and>
     (\<forall>p\<in>set (new_files e). new_file_wf p)"

lemmas edit_setters = SetComparatorName_def SetLogNumber_def SetPrevLogNumber_def SetNextFile_def SetLastSequence_def
  SetCompactPointer_def AddFile_def VersionEdit_DeleteFile_def

lemma built_edit_wf: "built_edit e \<Longrightarrow> edit_wf e"
proof (induction rule: built_edit.induct)
  case (delete_file e level f)
  then show ?case by (auto simp: edit_wf_def edit_setters sorted_insort_insert distinct_insort_insert set_insort_insert)
qed (auto simp: edit_wf_def edit_setters VersionEdit_new_def VersionEdit_Clear_def new_file_wf_def FileMetaData_new_def)

text \<open>What each part of the encoding adds, and that the decoder reads it.\<close>

definition compact_pointer_bytes :: "nat \<times> bytes \<Rightarrow> bytes" where
  "compact_pointer_bytes p = EncodeVarint32 kCompactPointer @ EncodeVarint32 (of_nat (fst p)) @ length_prefixed (snd p)"

definition deleted_file_bytes :: "nat \<times> uint64 \<Rightarrow> bytes" where
  "deleted_file_bytes p = EncodeVarint32 kDeletedFile @ EncodeVarint32 (of_nat (fst p)) @ EncodeVarint64 (snd p)"

definition new_file_bytes :: "nat \<times> FileMetaData \<Rightarrow> bytes" where
  "new_file_bytes p = EncodeVarint32 kNewFile @ EncodeVarint32 (of_nat (fst p)) @ EncodeVarint64 (fm_number (snd p)) @
     EncodeVarint64 (file_size (snd p)) @ length_prefixed (smallest (snd p)) @ length_prefixed (largest (snd p))"

definition number_bytes :: "bool \<Rightarrow> uint32 \<Rightarrow> uint64 \<Rightarrow> bytes" where
  "number_bytes has tag v = (if has then EncodeVarint32 tag @ EncodeVarint64 v else [])"

definition comparator_bytes :: "bool \<Rightarrow> bytes \<Rightarrow> bytes" where
  "comparator_bytes has name = (if has then EncodeVarint32 kComparator @ length_prefixed name else [])"

lemma foldl_append_bytes: "(\<And>dst x. f dst x = dst @ g x) \<Longrightarrow> foldl f dst xs = dst @ concat (map g xs)"
  by (induction xs arbitrary: dst) simp_all

lemma EncodeTo_eq:
  "VersionEdit_EncodeTo e dst = dst @ comparator_bytes (has_comparator e) (ve_comparator e) @
     number_bytes (has_log_number e) kLogNumber (log_number e) @ number_bytes (has_prev_log_number e) kPrevLogNumber (prev_log_number e) @
     number_bytes (has_next_file_number e) kNextFileNumber (next_file_number e) @
     number_bytes (has_last_sequence e) kLastSequence (last_sequence e) @
     concat (map compact_pointer_bytes (compact_pointers e)) @ concat (map deleted_file_bytes (deleted_files e)) @
     concat (map new_file_bytes (new_files e))"
proof -
  have p: "put_compact_pointer d x = d @ compact_pointer_bytes x" for d x
    by (simp add: put_compact_pointer_def compact_pointer_bytes_def PutVarint32_def PutLengthPrefixedSlice_eq)
  have d: "put_deleted_file d x = d @ deleted_file_bytes x" for d x
    by (simp add: put_deleted_file_def deleted_file_bytes_def PutVarint32_def PutVarint64_def)
  have n: "put_new_file d x = d @ new_file_bytes x" for d x
    by (simp add: put_new_file_def Let_def new_file_bytes_def PutVarint32_def PutVarint64_def PutLengthPrefixedSlice_eq)
  show ?thesis
    by (simp add: VersionEdit_EncodeTo_def foldl_append_bytes [OF p] foldl_append_bytes [OF d] foldl_append_bytes [OF n]
        number_bytes_def comparator_bytes_def PutVarint32_def PutVarint64_def PutLengthPrefixedSlice_eq)
qed

lemma GetLevel_encoded: "level < kNumLevels \<Longrightarrow> GetLevel (EncodeVarint32 (of_nat level) @ rest) = Some (level, rest)"
  by (simp add: GetLevel_def word_less_nat_alt kNumLevels_def)

lemma decode_comparator:
  "length name < 2 ^ 32 \<Longrightarrow> decode_loop e (comparator_bytes h name @ rest) =
    decode_loop (if h then e\<lparr>ve_comparator := name, has_comparator := True\<rparr> else e) rest"
  unfolding comparator_bytes_def by (cases h, simp, subst decode_loop.simps) (simp_all add: decode_field_def)

lemma decode_numbers:
  "decode_loop e (number_bytes h kLogNumber v @ rest) =
     decode_loop (if h then e\<lparr>log_number := v, has_log_number := True\<rparr> else e) rest"
  "decode_loop e (number_bytes h kPrevLogNumber v @ rest) =
     decode_loop (if h then e\<lparr>prev_log_number := v, has_prev_log_number := True\<rparr> else e) rest"
  "decode_loop e (number_bytes h kNextFileNumber v @ rest) =
     decode_loop (if h then e\<lparr>next_file_number := v, has_next_file_number := True\<rparr> else e) rest"
  "decode_loop e (number_bytes h kLastSequence v @ rest) =
     decode_loop (if h then e\<lparr>last_sequence := v, has_last_sequence := True\<rparr> else e) rest"
  unfolding number_bytes_def
  by (cases h, simp, subst decode_loop.simps, simp add: decode_field_def edit_tags, simp)+

lemma decode_compact_pointers:
  "\<forall>p\<in>set ps. fst p < kNumLevels \<and> length (snd p) < 2 ^ 32 \<Longrightarrow>
    decode_loop e (concat (map compact_pointer_bytes ps) @ rest) = decode_loop (e\<lparr>compact_pointers := compact_pointers e @ ps\<rparr>) rest"
proof (induction ps arbitrary: e)
  case (Cons p ps)
  have "decode_loop e (compact_pointer_bytes p @ r) = decode_loop (e\<lparr>compact_pointers := compact_pointers e @ [p]\<rparr>) r" for r
    using Cons(2) by (subst decode_loop.simps)
      (simp add: compact_pointer_bytes_def decode_field_def edit_tags GetLevel_encoded GetInternalKey_def)
  then show ?case using Cons by simp
qed simp

lemma decode_deleted_files:
  "\<forall>p\<in>set ds. fst p < kNumLevels \<Longrightarrow> decode_loop e (concat (map deleted_file_bytes ds) @ rest) =
    decode_loop (e\<lparr>deleted_files := foldl (\<lambda>s p. insort_insert p s) (deleted_files e) ds\<rparr>) rest"
proof (induction ds arbitrary: e)
  case (Cons p ds)
  have "decode_loop e (deleted_file_bytes p @ r) = decode_loop (e\<lparr>deleted_files := insort_insert p (deleted_files e)\<rparr>) r" for r
    using Cons(2) by (subst decode_loop.simps) (simp add: deleted_file_bytes_def decode_field_def edit_tags GetLevel_encoded)
  then show ?case using Cons by simp
qed simp

lemma decode_new_files:
  "\<forall>p\<in>set fs. new_file_wf p \<Longrightarrow> decode_loop e (concat (map new_file_bytes fs) @ rest) =
    decode_loop (e\<lparr>new_files := new_files e @ fs\<rparr>) rest"
proof (induction fs arbitrary: e)
  case (Cons p fs)
  have f: "FileMetaData_new\<lparr>fm_number := fm_number (snd p), file_size := file_size (snd p), smallest := smallest (snd p),
      largest := largest (snd p)\<rparr> = snd p"
    using Cons(2) by (cases "snd p") (simp add: FileMetaData_new_def new_file_wf_def)
  have "decode_loop e (new_file_bytes p @ r) = decode_loop (e\<lparr>new_files := new_files e @ [p]\<rparr>) r" for r
    using Cons(2) f by (subst decode_loop.simps)
      (simp add: new_file_bytes_def decode_field_def decode_new_file_def edit_tags GetLevel_encoded GetInternalKey_def new_file_wf_def)
  then show ?case using Cons by simp
qed simp

lemma insort_insert_sorted: "sorted (xs @ ds) \<Longrightarrow> distinct (xs @ ds) \<Longrightarrow> foldl (\<lambda>s p. insort_insert p s) xs ds = xs @ ds"
proof (induction ds arbitrary: xs)
  case (Cons d ds)
  have "insort_insert d xs = xs @ [d]"
    using Cons(2,3) sorted_insort_is_snoc [of xs d] by (auto simp: insort_insert_key_def sorted_append)
  then show ?case using Cons by simp
qed simp

lemma decode_nothing: "decode_loop e [] = (None, e, [])"
  by (subst decode_loop.simps) (simp add: GetVarint32Ptr_def GetVarint32PtrFallback_def GetVarint32_loop.simps [of 0])

lemma edit_decodes:
  assumes wf: "edit_wf e"
  shows "VersionEdit_DecodeFrom e0 (VersionEdit_EncodeTo e []) = (OK, e\<lparr>compact_pointers := compact_pointers e0 @ compact_pointers e\<rparr>)"
proof -
  have d: "foldl (\<lambda>s p. insort_insert p s) [] (deleted_files e) = deleted_files e"
    using insort_insert_sorted [of "[]" "deleted_files e"] wf by (simp add: edit_wf_def)
  let ?e' = "e\<lparr>compact_pointers := compact_pointers e0 @ compact_pointers e\<rparr>"
  have lens: "length (ve_comparator e) < 2 ^ 32" "\<forall>p\<in>set (compact_pointers e). fst p < kNumLevels \<and> length (snd p) < 2 ^ 32"
    "\<forall>p\<in>set (deleted_files e). fst p < kNumLevels" "\<forall>p\<in>set (new_files e). new_file_wf p"
    using wf unfolding edit_wf_def by blast+
  have unset: "\<not> has_comparator e \<Longrightarrow> ve_comparator e = []" "\<not> has_log_number e \<Longrightarrow> log_number e = 0"
    "\<not> has_prev_log_number e \<Longrightarrow> prev_log_number e = 0" "\<not> has_next_file_number e \<Longrightarrow> next_file_number e = 0"
    "\<not> has_last_sequence e \<Longrightarrow> last_sequence e = 0"
    using wf unfolding edit_wf_def by blast+
  have "decode_loop (VersionEdit_Clear e0) (VersionEdit_EncodeTo e []) = decode_loop ?e' []"
    unfolding EncodeTo_eq append_Nil decode_comparator [OF lens(1)] decode_numbers decode_compact_pointers [OF lens(2)]
      decode_deleted_files [OF lens(3)] decode_new_files [OF lens(4), where rest = "[]", unfolded append_Nil2]
    by (intro arg_cong2 [where f = decode_loop] VersionEdit.equality) (use d unset in \<open>simp_all add: VersionEdit_Clear_def\<close>)
  then have "decode_loop (VersionEdit_Clear e0) (VersionEdit_EncodeTo e []) = (None, ?e', [])" by (simp add: decode_nothing)
  then show ?thesis by (simp add: VersionEdit_DecodeFrom_def)
qed

text \<open>C37: Every edit that the setters can make, with levels in range and keys of less than 4 GB, is read
  back from its encoding with all its fields; only the compaction pointers that the decoding edit
  held before stay in front of the decoded ones.\<close>

theorem edit_roundtrip:
  assumes "built_edit e"
  shows "VersionEdit_DecodeFrom e0 (VersionEdit_EncodeTo e []) = (OK, e\<lparr>compact_pointers := compact_pointers e0 @ compact_pointers e\<rparr>)"
  using assms by (intro edit_decodes built_edit_wf)

theorem edit_roundtrip_witness:
  "VersionEdit_DecodeFrom VersionEdit_new (VersionEdit_EncodeTo (VersionEdit_DeleteFile 2 9 (AddFile 1 7 100 [1] [2]
     (SetLogNumber 300 (SetCompactPointer 0 [5] VersionEdit_new)))) []) =
   (OK, VersionEdit_DeleteFile 2 9 (AddFile 1 7 100 [1] [2] (SetLogNumber 300 (SetCompactPointer 0 [5] VersionEdit_new))))"
proof -
  have b: "built_edit (VersionEdit_DeleteFile 2 9 (AddFile 1 7 100 [1] [2] (SetLogNumber 300 (SetCompactPointer 0 [5] VersionEdit_new))))"
    by (intro built_edit.intros) (simp_all add: kNumLevels_def)
  show ?thesis using edit_roundtrip [OF b, of VersionEdit_new] by (simp add: VersionEdit_new_def VersionEdit_Clear_def)
qed

end
