(* ===== verification/Version.thy ===== *)
theory Version
  imports DB_Iter Version_Edit Two_Level
begin

text \<open>
  The files of a version and reading from them, the first part of \<open>db/version_set.cc\<close>: the search
  for a file in a level, the iterator over the files of a level, and \<open>Version::Get\<close>. A version
  holds addresses of \<open>FileMetaData\<close>; the functions here take the files of a level as the list
  of the records these addresses refer to, or the addresses together with the store. The table cache
  is seen through the operation that opens an iterator on a file and may change the cache.
\<close>

subsection \<open>Searching a level\<close>

function FindFile_loop :: "Comparator \<Rightarrow> FileMetaData list \<Rightarrow> bytes \<Rightarrow> nat \<Rightarrow> nat \<Rightarrow> nat" where
  "FindFile_loop user files key left right =
     (if left < right then
        (let mid = (left + right) div 2 in
         if InternalKey_Compare user (largest (files ! mid)) key < 0
         then FindFile_loop user files key (mid + 1) right
         else FindFile_loop user files key left mid)
      else right)"
  by pat_completeness auto
termination by (relation "measure (\<lambda>(user, files, key, left, right). right - left)") auto

declare FindFile_loop.simps [simp del]

definition FindFile :: "Comparator \<Rightarrow> FileMetaData list \<Rightarrow> bytes \<Rightarrow> nat" where
  "FindFile user files key = FindFile_loop user files key 0 (length files)"

definition SomeFileOverlapsRange :: "Comparator \<Rightarrow> FileMetaData list \<Rightarrow> bytes \<Rightarrow> bytes \<Rightarrow> bool" where
  "SomeFileOverlapsRange user files smallest_user_key largest_user_key =
     (let small = InternalKey smallest_user_key kMaxSequenceNumber kValueTypeForSeek;
          index = FindFile user files small
      in index < length files \<and>
         Compare user largest_user_key (ExtractUserKey (smallest (files ! index))) \<ge> 0)"

subsection \<open>The iterator over the files of a level\<close>

record LevelFileNumIterator =
  flist :: "FileMetaData list"
  lindex :: nat

definition LevelFileNumIterator_new :: "FileMetaData list \<Rightarrow> LevelFileNumIterator" where
  "LevelFileNumIterator_new files = \<lparr>flist = files, lindex = length files\<rparr>"

definition file_value :: "FileMetaData \<Rightarrow> bytes" where
  "file_value f = EncodeFixed64 (fm_number f) @ EncodeFixed64 (file_size f)"

definition LevelFileNumOps :: "Comparator \<Rightarrow> LevelFileNumIterator Iterator" where
  "LevelFileNumOps user =
     \<lparr>it_Valid = (\<lambda>it. lindex it < length (flist it)),
      it_SeekToFirst = (\<lambda>it. it\<lparr>lindex := 0\<rparr>),
      it_SeekToLast = (\<lambda>it. it\<lparr>lindex := if flist it = [] then 0 else length (flist it) - 1\<rparr>),
      it_Seek = (\<lambda>it target. it\<lparr>lindex := FindFile user (flist it) target\<rparr>),
      it_Next = (\<lambda>it. it\<lparr>lindex := lindex it + 1\<rparr>),
      it_Prev = (\<lambda>it. it\<lparr>lindex := if lindex it = 0 then length (flist it) else lindex it - 1\<rparr>),
      it_key = (\<lambda>it. largest (flist it ! lindex it)),
      it_value = (\<lambda>it. file_value (flist it ! lindex it)),
      it_status = (\<lambda>it. OK)\<rparr>"

subsection \<open>Reading\<close>

text \<open>The characters of a key, for messages.\<close>

definition bytes_string :: "bytes \<Rightarrow> string" where
  "bytes_string = map (\<lambda>b. char_of (unat b))"

text \<open>Whether the iterator is at an entry for the user key, and what this entry says.\<close>

definition GetValue :: "'it Iterator \<Rightarrow> 'it \<Rightarrow> bytes \<Rightarrow> (Status + bytes) option" where
  "GetValue ops iter ukey =
     (if \<not> it_Valid ops iter then None
      else
        (case ParseInternalKey (it_key ops iter) of
           None \<Rightarrow> Some (Inl (Corruption ''corrupted key for '' (bytes_string ukey)))
         | Some parsed_key \<Rightarrow>
             if user_key parsed_key \<noteq> ukey then None
             else
               (case vtype parsed_key of
                  kTypeDeletion \<Rightarrow> Some (Inl (NotFound [] []))
                | kTypeValue \<Rightarrow> Some (Inr (it_value ops iter)))))"

definition NewestFirst :: "FileMetaData \<Rightarrow> FileMetaData \<Rightarrow> bool" where
  "NewestFirst a b \<longleftrightarrow> fm_number a > fm_number b"

text \<open>
  The files of a level to search, as addresses. Sorting with \<open>NewestFirst\<close> orders the files by
  descending numbers; files with equal numbers, which a level never has, stay in their order.
\<close>

definition files_to_search :: "Comparator \<Rightarrow> (nat \<Rightarrow> FileMetaData) \<Rightarrow> nat \<Rightarrow> nat list \<Rightarrow> LookupKey \<Rightarrow> nat list" where
  "files_to_search user meta level files k =
     (if level = 0 then
        (let tmp = filter (\<lambda>a. let f = meta a in
               Compare user (LookupKey_user_key k) (ExtractUserKey (smallest f)) \<ge> 0 \<and>
               Compare user (LookupKey_user_key k) (ExtractUserKey (largest f)) \<le> 0) files
         in sort_key (\<lambda>a. - uint (fm_number (meta a))) tmp)
      else
        (let index = FindFile user (map meta files) (internal_key k) in
         if index \<ge> length files then []
         else if Compare user (LookupKey_user_key k) (ExtractUserKey (smallest (meta (files ! index)))) < 0 then []
         else [files ! index]))"

text \<open>What is kept while files are read: the file to charge for a seek, and the file read last.\<close>

record GetState =
  seek_file :: "(nat \<times> nat) option"
  last_file_read :: "(nat \<times> nat) option"

type_synonym ('it, 'tc) opener = "uint64 \<Rightarrow> uint64 \<Rightarrow> 'tc \<Rightarrow> 'it \<times> 'tc"

type_synonym ('it, 'tc) deleter = "'it \<Rightarrow> 'tc \<Rightarrow> 'tc"

fun search_files ::
  "'it Iterator \<Rightarrow> ('it, 'tc) opener \<Rightarrow> ('it, 'tc) deleter \<Rightarrow> (nat \<Rightarrow> FileMetaData) \<Rightarrow> LookupKey \<Rightarrow> nat \<Rightarrow> nat list \<Rightarrow>
   GetState \<Rightarrow> 'tc \<Rightarrow> (Status + bytes) option \<times> GetState \<times> 'tc" where
  "search_files ops NewIterator DeleteIterator meta k level [] st tc = (None, st, tc)"
| "search_files ops NewIterator DeleteIterator meta k level (f # fs) st tc =
     (let st = (if last_file_read st \<noteq> None \<and> seek_file st = None then st\<lparr>seek_file := last_file_read st\<rparr> else st);
          st = st\<lparr>last_file_read := Some (f, level)\<rparr>;
          (iter, tc) = NewIterator (fm_number (meta f)) (file_size (meta f)) tc;
          iter = it_Seek ops iter (internal_key k);
          r = GetValue ops iter (LookupKey_user_key k);
          tc = DeleteIterator iter tc
      in if \<not> ok (it_status ops iter) then (Some (Inl (it_status ops iter)), st, tc)
         else if r \<noteq> None then (r, st, tc)
         else search_files ops NewIterator DeleteIterator meta k level fs st tc)"

fun search_levels ::
  "Comparator \<Rightarrow> 'it Iterator \<Rightarrow> ('it, 'tc) opener \<Rightarrow> ('it, 'tc) deleter \<Rightarrow> (nat \<Rightarrow> FileMetaData) \<Rightarrow> LookupKey \<Rightarrow> nat \<Rightarrow> nat list list \<Rightarrow>
   GetState \<Rightarrow> 'tc \<Rightarrow> (Status + bytes) option \<times> GetState \<times> 'tc" where
  "search_levels user ops NewIterator DeleteIterator meta k level [] st tc = (None, st, tc)"
| "search_levels user ops NewIterator DeleteIterator meta k level (files # levels) st tc =
     (if files = [] then search_levels user ops NewIterator DeleteIterator meta k (level + 1) levels st tc
      else
        (case search_files ops NewIterator DeleteIterator meta k level (files_to_search user meta level files k) st tc of
           (Some r, st, tc) \<Rightarrow> (Some r, st, tc)
         | (None, st, tc) \<Rightarrow> search_levels user ops NewIterator DeleteIterator meta k (level + 1) levels st tc))"

definition Version_Get ::
  "Comparator \<Rightarrow> 'it Iterator \<Rightarrow> ('it, 'tc) opener \<Rightarrow> ('it, 'tc) deleter \<Rightarrow> (nat \<Rightarrow> FileMetaData) \<Rightarrow> nat list list \<Rightarrow> LookupKey \<Rightarrow> 'tc \<Rightarrow>
   (Status + bytes) \<times> (nat \<times> nat) option \<times> 'tc" where
  "Version_Get user ops NewIterator DeleteIterator meta files k tc =
     (let (r, st, tc) = search_levels user ops NewIterator DeleteIterator meta k 0 files \<lparr>seek_file = None, last_file_read = None\<rparr> tc
      in (case r of None \<Rightarrow> Inl (NotFound [] []) | Some r \<Rightarrow> r, seek_file st, tc))"

definition OverlapInLevel :: "Comparator \<Rightarrow> (nat \<Rightarrow> FileMetaData) \<Rightarrow> nat list list \<Rightarrow> nat \<Rightarrow> bytes \<Rightarrow> bytes \<Rightarrow> bool" where
  "OverlapInLevel user meta files level smallest_user_key largest_user_key =
     SomeFileOverlapsRange user (map meta (files ! level)) smallest_user_key largest_user_key"


subsection \<open>The search in a level\<close>

lemma FindFile_loop_split:
  assumes "left \<le> right" "right \<le> length files"
    and "\<forall>i j. i \<le> j \<and> j < length files \<and> InternalKey_Compare user (largest (files ! j)) key < 0 \<longrightarrow>
      InternalKey_Compare user (largest (files ! i)) key < 0"
    and "\<forall>i < left. InternalKey_Compare user (largest (files ! i)) key < 0"
    and "\<forall>i. right \<le> i \<and> i < length files \<longrightarrow> \<not> InternalKey_Compare user (largest (files ! i)) key < 0"
  shows "(\<forall>i < FindFile_loop user files key left right. InternalKey_Compare user (largest (files ! i)) key < 0) \<and>
    (\<forall>i. FindFile_loop user files key left right \<le> i \<and> i < length files \<longrightarrow> \<not> InternalKey_Compare user (largest (files ! i)) key < 0) \<and>
    FindFile_loop user files key left right \<le> length files"
  using assms
proof (induction user files key left right rule: FindFile_loop.induct)
  case (1 user files key left right)
  let ?P = "\<lambda>i. InternalKey_Compare user (largest (files ! i)) key < 0"
  let ?mid = "(left + right) div 2"
  note prems = "1.prems"
  show ?case
  proof (cases "left < right")
    case False
    then have "FindFile_loop user files key left right = right" by (subst FindFile_loop.simps) (simp only: if_False)
    then show ?thesis using prems False by simp
  next
    case True
    show ?thesis
    proof (cases "?P ?mid")
      case P: True
      have "?mid < length files" using True prems(2) by linarith
      then have below: "\<forall>i < ?mid + 1. ?P i" using prems(3) P by (auto simp: less_Suc_eq_le)
      have eq: "FindFile_loop user files key left right = FindFile_loop user files key (?mid + 1) right"
        using True P by (subst FindFile_loop.simps) (simp only: Let_def if_True)
      have "?mid + 1 \<le> right" using True by linarith
      then show ?thesis unfolding eq by (rule "1.IH"(1) [OF True refl P _ prems(2,3) below prems(5)])
    next
      case P: False
      have above: "\<forall>i. ?mid \<le> i \<and> i < length files \<longrightarrow> \<not> ?P i" using prems(3) P by blast
      have eq: "FindFile_loop user files key left right = FindFile_loop user files key left ?mid"
        using True P by (subst FindFile_loop.simps) (simp only: Let_def if_True if_False)
      have "left \<le> ?mid" "?mid \<le> length files" using True prems(2) by linarith+
      then show ?thesis unfolding eq by (rule "1.IH"(2) [OF True refl P _ _ prems(3,4) above])
    qed
  qed
qed

text \<open>What the iterator of a level shows: the largest key of each file, and the file.\<close>

definition file_pairs :: "FileMetaData list \<Rightarrow> (bytes \<times> bytes) list" where
  "file_pairs files = map (\<lambda>f. (largest f, file_value f)) files"

definition level_pos :: "Comparator \<Rightarrow> LevelFileNumIterator \<Rightarrow> (bytes \<times> bytes) list \<Rightarrow> nat \<Rightarrow> bool" where
  "level_pos user it kvs i \<longleftrightarrow> kvs = file_pairs (flist it) \<and> sorted_pairs (InternalKey_Compare user) valid_ikey kvs \<and>
     i = lindex it \<and> i \<le> length kvs"

context ikey_order begin

lemma FindFile_seek_index:
  assumes "sorted_pairs (InternalKey_Compare user) valid_ikey (file_pairs files)" "valid_ikey key"
  shows "FindFile user files key = seek_index (InternalKey_Compare user) (file_pairs files) key"
proof -
  let ?P = "\<lambda>i. InternalKey_Compare user (largest (files ! i)) key < 0"
  let ?s = "seek_index (InternalKey_Compare user) (file_pairs files) key" and ?f = "FindFile user files key"
  have s: "i < ?s \<longleftrightarrow> ?P i" if "i < length files" for i
    using key_order.seek_index_split [OF ikey_key_order assms, of i] that by (simp add: file_pairs_def)
  have le: "?s \<le> length files" using length_takeWhile_le [of _ "file_pairs files"] by (simp add: seek_index_def file_pairs_def)
  have mono: "\<forall>i j. i \<le> j \<and> j < length files \<and> ?P j \<longrightarrow> ?P i" using s by (meson le_less_trans)
  have f: "\<forall>i < ?f. ?P i" "\<forall>i. ?f \<le> i \<and> i < length files \<longrightarrow> \<not> ?P i" "?f \<le> length files"
    using FindFile_loop_split [OF le0 order_refl mono] by (simp_all add: FindFile_def)
  show ?thesis
  proof (rule linorder_cases [of ?f ?s])
    assume "?f < ?s"
    then show ?thesis using f(2) s [of ?f] le by simp
  next
    assume "?s < ?f"
    then show ?thesis using f(1,3) s [of ?s] by simp
  qed
qed

lemma level_iterator: "iterator (InternalKey_Compare user) valid_ikey (LevelFileNumOps user) (level_pos user)"
proof (intro iterator.intro ikey_key_order iterator_axioms.intro, goal_cases)
  case (9 it kvs i target)
  then show ?case using FindFile_seek_index [of "flist it" target] length_takeWhile_le
    by (auto simp: level_pos_def LevelFileNumOps_def seek_index_def)
qed (auto simp: level_pos_def LevelFileNumOps_def file_pairs_def)

end

interpretation level_files: iterator "InternalKey_Compare BytewiseComparator" valid_ikey "LevelFileNumOps BytewiseComparator"
    "level_pos BytewiseComparator"
  by (rule bytewise_ikey.level_iterator)


subsection \<open>What a lookup should find\<close>

definition entry_visible :: "bytes \<Rightarrow> SequenceNumber \<Rightarrow> bytes \<times> bytes \<Rightarrow> bool" where
  "entry_visible k s e \<longleftrightarrow> ExtractUserKey (fst e) = k \<and> key_seq (fst e) \<le> s"

definition newest_visible :: "(bytes \<times> bytes) set \<Rightarrow> bytes \<Rightarrow> SequenceNumber \<Rightarrow> bytes \<times> bytes \<Rightarrow> bool" where
  "newest_visible E k s e \<longleftrightarrow> e \<in> E \<and> entry_visible k s e \<and>
     (\<forall>e' \<in> E. entry_visible k s e' \<longrightarrow> key_seq (fst e') \<le> key_seq (fst e))"

definition entry_answer :: "bytes \<times> bytes \<Rightarrow> Status + bytes" where
  "entry_answer e = (case key_type (fst e) of kTypeValue \<Rightarrow> Inr (snd e) | kTypeDeletion \<Rightarrow> Inl (NotFound [] []))"

text \<open>The answer for a user key at a snapshot: that of the newest entry the snapshot sees, or none.\<close>

definition lookup_in :: "(bytes \<times> bytes) set \<Rightarrow> bytes \<Rightarrow> SequenceNumber \<Rightarrow> (Status + bytes) option \<Rightarrow> bool" where
  "lookup_in E k s r \<longleftrightarrow>
     (case r of
        None \<Rightarrow> \<forall>e \<in> E. \<not> entry_visible k s e
      | Some a \<Rightarrow> \<exists>e. newest_visible E k s e \<and> a = entry_answer e)"

text \<open>For one user key the entries of the first set are newer than those of the second.\<close>

definition newer_than :: "(bytes \<times> bytes) set \<Rightarrow> (bytes \<times> bytes) set \<Rightarrow> bool" where
  "newer_than A B \<longleftrightarrow> (\<forall>a \<in> A. \<forall>b \<in> B. ExtractUserKey (fst a) = ExtractUserKey (fst b) \<longrightarrow> key_seq (fst b) < key_seq (fst a))"

lemma newest_visible_first: "newest_visible A k s e \<Longrightarrow> newer_than A B \<Longrightarrow> newest_visible (A \<union> B) k s e"
  unfolding newest_visible_def newer_than_def entry_visible_def by (metis UnE UnI1 order_less_imp_le)

lemma lookup_in_first: "lookup_in A k s (Some r) \<Longrightarrow> newer_than A B \<Longrightarrow> lookup_in (A \<union> B) k s (Some r)"
  unfolding lookup_in_def option.case by (metis newest_visible_first)

lemma lookup_in_SomeI: "newest_visible E k s e \<Longrightarrow> lookup_in E k s (Some (entry_answer e))"
  unfolding lookup_in_def option.case by metis

lemma lookup_in_rest: "lookup_in A k s None \<Longrightarrow> lookup_in B k s r \<Longrightarrow> lookup_in (A \<union> B) k s r"
  by (cases r) (auto simp: lookup_in_def newest_visible_def)

lemma lookup_in_empty [simp]: "lookup_in {} k s None"
  by (simp add: lookup_in_def)

lemma newer_than_Union: "newer_than A (\<Union>x \<in> X. f x) \<longleftrightarrow> (\<forall>x \<in> X. newer_than A (f x))"
  by (auto simp: newer_than_def)

text \<open>Nothing else in a larger set is visible.\<close>

lemma lookup_in_mono:
  "lookup_in A k s r \<Longrightarrow> A \<subseteq> B \<Longrightarrow> \<forall>e \<in> B - A. \<not> entry_visible k s e \<Longrightarrow> lookup_in B k s r"
proof (cases r)
  case (Some a)
  assume *: "lookup_in A k s r" "A \<subseteq> B" "\<forall>e \<in> B - A. \<not> entry_visible k s e"
  then obtain e where "newest_visible A k s e" "a = entry_answer e" by (auto simp: lookup_in_def Some)
  moreover from this have "newest_visible B k s e" using * unfolding newest_visible_def by (metis DiffI subsetD)
  ultimately show ?thesis unfolding lookup_in_def Some option.case by metis
qed (auto simp: lookup_in_def)

text \<open>User keys that compare as equal are equal, as the comparator promises.\<close>

locale strict_ikey_order = ikey_order user for user :: Comparator +
  assumes Compare_0: "Compare user a b = 0 \<longleftrightarrow> a = b"
begin

lemma before_target:
  assumes "ParseInternalKey x \<noteq> None" "s \<le> kMaxSequenceNumber"
  shows "InternalKey_Compare user x (InternalKey k s kTypeValue) < 0 \<longleftrightarrow>
    Compare user (ExtractUserKey x) k < 0 \<or> ExtractUserKey x = k \<and> s < key_seq x"
proof -
  have "ExtractTag x \<le> PackSequenceAndType s kTypeValue \<longleftrightarrow> key_seq x \<le> s"
    using Pack_le_iff [of s "key_seq x"] ExtractTag_Pack [OF assms(1)] assms(2) by simp
  then show ?thesis using Compare_0 [of "ExtractUserKey x" k]
    by (auto simp: InternalKey_Compare_def Let_def not_le [symmetric])
qed

lemma before_newer:
  assumes "InternalKey_Compare user a b < 0" "ExtractUserKey a = ExtractUserKey b"
  shows "key_seq b \<le> key_seq a"
proof -
  have "ExtractTag b < ExtractTag a"
    using assms by (simp add: InternalKey_Compare_def Let_def user.compare_refl split: if_splits)
  then have "unat (ExtractTag b) div 2 ^ 8 \<le> unat (ExtractTag a) div 2 ^ 8"
    by (intro div_le_mono) (simp add: word_less_nat_alt)
  then show ?thesis unfolding key_seq_def word_le_nat_alt unat_drop_bit_pow .
qed

lemma seek_lookup:
  assumes E: "ordered_entries user E" and s: "s \<le> kMaxSequenceNumber"
    and j: "j = seek_index (InternalKey_Compare user) E (InternalKey k s kTypeValue)"
  shows "j < length E \<Longrightarrow> uk E j = k \<Longrightarrow> newest_visible (set E) k s (E ! j)"
    and "\<not> (j < length E \<and> uk E j = k) \<Longrightarrow> \<forall>e \<in> set E. \<not> entry_visible k s e"
proof -
  have sorted: "sorted_pairs (InternalKey_Compare user) valid_ikey E" using E by (simp add: ordered_entries_def)
  have split: "i < j \<longleftrightarrow> Compare user (uk E i) k < 0 \<or> uk E i = k \<and> s < key_seq (fst (E ! i))" if "i < length E" for i
    using ikey.seek_index_split [OF sorted valid_ikey_InternalKey that] before_target [OF _ s] E that j
    by (simp add: ordered_entries_def)
  have vis: "j \<le> i" if "i < length E" "entry_visible k s (E ! i)" for i
    using split [OF that(1)] that(2) user.compare_refl [of k] by (auto simp: entry_visible_def not_less [symmetric])
  show "newest_visible (set E) k s (E ! j)" if j': "j < length E" "uk E j = k"
  proof -
    have "entry_visible k s (E ! j)" using split [OF j'(1)] j'(2) by (auto simp: entry_visible_def not_less)
    moreover have "key_seq (fst (E ! i)) \<le> key_seq (fst (E ! j))" if i: "i < length E" "entry_visible k s (E ! i)" for i
    proof (cases "i = j")
      case False
      then have "j < i" using vis [OF i] by simp
      then show ?thesis using newer_before [OF E _ i(1)] i(2) j'(2) Compare_0 by (simp add: entry_visible_def)
    qed simp
    ultimately show ?thesis using j'(1) unfolding newest_visible_def by (metis in_set_conv_nth)
  qed
  show "\<forall>e \<in> set E. \<not> entry_visible k s e" if no: "\<not> (j < length E \<and> uk E j = k)"
  proof (intro ballI notI)
    fix e assume "e \<in> set E" "entry_visible k s e"
    then obtain i where i: "i < length E" "entry_visible k s (E ! i)" by (auto simp: in_set_conv_nth)
    then have le: "j \<le> i" "uk E i = k" using vis by (auto simp: entry_visible_def)
    then have "j < length E" using i(1) by simp
    moreover have "Compare user (uk E j) k = 0"
    proof (rule le_antisym)
      show "Compare user (uk E j) k \<le> 0" using uk_mono [OF E le(1) i(1)] le(2) by simp
      show "Compare user k (uk E j) \<le> 0"
        using split [OF \<open>j < length E\<close>] user.compare_le_flip [of k "uk E j"] by auto
    qed
    ultimately show False using no Compare_0 by simp
  qed
qed

end

interpretation bytewise_strict: strict_ikey_order BytewiseComparator
  by unfold_locales simp

subsection \<open>Versions\<close>

text \<open>A file holds the entries of a table: they are in order, and its bounds are the first and the last key.\<close>

definition file_ok :: "Comparator \<Rightarrow> FileMetaData \<Rightarrow> (bytes \<times> bytes) list \<Rightarrow> bool" where
  "file_ok user f kvs \<longleftrightarrow> ordered_entries user kvs \<and> kvs \<noteq> [] \<and> smallest f = fst (hd kvs) \<and> largest f = fst (last kvs)"

definition level_ok :: "Comparator \<Rightarrow> FileMetaData list \<Rightarrow> bool" where
  "level_ok user files \<longleftrightarrow> sorted_wrt (\<lambda>f g. InternalKey_Compare user (largest f) (smallest g) < 0) files"

definition entries :: "(nat \<Rightarrow> (bytes \<times> bytes) list) \<Rightarrow> nat list \<Rightarrow> (bytes \<times> bytes) set" where
  "entries tbl files = (\<Union>a \<in> set files. set (tbl a))"

text \<open>
  What \<open>Version::Get\<close> relies on: the files of a level above zero do not overlap; of two files in
  level zero the one with the higher number, and of two levels the lower one, has the newer entries.
\<close>

definition version_ok :: "Comparator \<Rightarrow> (nat \<Rightarrow> FileMetaData) \<Rightarrow> (nat \<Rightarrow> (bytes \<times> bytes) list) \<Rightarrow> nat list list \<Rightarrow> bool" where
  "version_ok user meta tbl files \<longleftrightarrow>
     (\<forall>level < length files. \<forall>a \<in> set (files ! level). file_ok user (meta a) (tbl a)) \<and>
     (\<forall>level < length files. 0 < level \<longrightarrow> level_ok user (map meta (files ! level))) \<and>
     (\<forall>a \<in> set (files ! 0). \<forall>b \<in> set (files ! 0). fm_number (meta b) < fm_number (meta a) \<longrightarrow> newer_than (set (tbl a)) (set (tbl b))) \<and>
     distinct (map (fm_number \<circ> meta) (files ! 0)) \<and>
     (\<forall>i j. i < j \<and> j < length files \<longrightarrow> newer_than (entries tbl (files ! i)) (entries tbl (files ! j)))"

text \<open>The interface to the table cache: a file that is stored can be opened, and keeps its contents.\<close>

locale table_store = strict_ikey_order user + tables: iterator "InternalKey_Compare user" valid_ikey ops pos
  for user :: Comparator and ops :: "'it Iterator" and pos :: "'it \<Rightarrow> (bytes \<times> bytes) list \<Rightarrow> nat \<Rightarrow> bool" +
  fixes NewIterator :: "('it, 'tc) opener" and DeleteIterator :: "('it, 'tc) deleter" and stored :: "'tc \<Rightarrow> uint64 \<Rightarrow> uint64 \<Rightarrow> (bytes \<times> bytes) list \<Rightarrow> bool"
  assumes open_pos: "stored tc n sz kvs \<Longrightarrow> NewIterator n sz tc = (it, tc') \<Longrightarrow> \<exists>i. pos it kvs i"
    and close_stored: "stored tc n sz kvs0 \<Longrightarrow> NewIterator n sz tc = (it, tc') \<Longrightarrow> stored tc m sz' kvs \<Longrightarrow>
      stored (DeleteIterator (it_Seek ops it target) tc') m sz' kvs"
begin

definition has_files :: "'tc \<Rightarrow> (nat \<Rightarrow> FileMetaData) \<Rightarrow> (nat \<Rightarrow> (bytes \<times> bytes) list) \<Rightarrow> nat set \<Rightarrow> bool" where
  "has_files tc meta tbl A \<longleftrightarrow> (\<forall>a \<in> A. stored tc (fm_number (meta a)) (file_size (meta a)) (tbl a))"

lemma GetValue_lookup:
  assumes "pos it E i" "ordered_entries user E" "s \<le> kMaxSequenceNumber"
  shows "lookup_in (set E) k s (GetValue ops (it_Seek ops it (InternalKey k s kTypeValue)) k)"
    "ok (it_status ops (it_Seek ops it (InternalKey k s kTypeValue)))"
proof -
  let ?it = "it_Seek ops it (InternalKey k s kTypeValue)"
  define j where "j = seek_index (InternalKey_Compare user) E (InternalKey k s kTypeValue)"
  have p: "pos ?it E j" using tables.Seek_pos [OF assms(1) valid_ikey_InternalKey] by (simp add: j_def)
  show "ok (it_status ops ?it)" using tables.status_pos [OF p] by (simp add: ok_def)
  note sk = seek_lookup [OF assms(2,3) j_def]
  show "lookup_in (set E) k s (GetValue ops ?it k)"
  proof (cases "j < length E")
    case True
    have "ParseInternalKey (fst (E ! j)) \<noteq> None" using True assms(2) by (simp add: ordered_entries_def)
    then have parse: "ParseInternalKey (it_key ops ?it) =
        Some \<lparr>user_key = uk E j, sequence = key_seq (fst (E ! j)), vtype = key_type (fst (E ! j))\<rparr>"
      using ParseInternalKey_ok tables.key_pos [OF p True] by simp
    have "GetValue ops ?it k = (if uk E j = k then Some (entry_answer (E ! j)) else None)"
      using parse tables.Valid_pos [OF p] tables.value_pos [OF p True] True
      by (simp add: GetValue_def entry_answer_def split: ValueType.split)
    then show ?thesis using sk True lookup_in_SomeI [OF sk(1)] by (simp add: lookup_in_def)
  next
    case False
    then show ?thesis using sk(2) tables.Valid_pos [OF p] by (simp add: GetValue_def lookup_in_def)
  qed
qed

lemma search_files_lookup:
  assumes "\<forall>a \<in> set fs. ordered_entries user (tbl a)" "sorted_wrt (\<lambda>a b. newer_than (set (tbl a)) (set (tbl b))) fs"
    and "has_files tc meta tbl (set fs)" "s \<le> kMaxSequenceNumber"
    and "search_files ops NewIterator DeleteIterator meta (LookupKey_new k s) level fs st tc = (r, st', tc')"
  shows "lookup_in (entries tbl fs) k s r \<and> (\<forall>m sz kvs. stored tc m sz kvs \<longrightarrow> stored tc' m sz kvs)"
  using assms(1-3,5)
proof (induction fs arbitrary: st tc)
  case (Cons f fs)
  obtain it tc0 where it: "NewIterator (fm_number (meta f)) (file_size (meta f)) tc = (it, tc0)" by fastforce
  define tc1 where "tc1 = DeleteIterator (it_Seek ops it (InternalKey k s kTypeValue)) tc0"
  have sf: "stored tc (fm_number (meta f)) (file_size (meta f)) (tbl f)" using Cons.prems(3) by (simp add: has_files_def)
  then obtain i where i: "pos it (tbl f) i" using open_pos it by blast
  have st: "\<forall>m sz kvs. stored tc m sz kvs \<longrightarrow> stored tc1 m sz kvs" using close_stored [OF sf it] by (simp add: tc1_def)
  note gv = GetValue_lookup [OF i _ assms(4), of k] 
  let ?r = "GetValue ops (it_Seek ops it (InternalKey k s kTypeValue)) k"
  have E: "ordered_entries user (tbl f)" using Cons.prems(1) by simp
  have nt: "newer_than (set (tbl f)) (entries tbl fs)" using Cons.prems(2) by (simp add: entries_def newer_than_Union)
  have ent: "entries tbl (f # fs) = set (tbl f) \<union> entries tbl fs" by (simp add: entries_def)
  show ?case
  proof (cases ?r)
    case None
    then obtain st1 where "search_files ops NewIterator DeleteIterator meta (LookupKey_new k s) level fs st1 tc1 = (r, st', tc')"
      using Cons.prems(4) gv(2) [OF E] by (auto simp: it tc1_def Let_def internal_key_LookupKey user_key_LookupKey)
    moreover have "has_files tc1 meta tbl (set fs)" using Cons.prems(3) st by (simp add: has_files_def)
    ultimately have "lookup_in (entries tbl fs) k s r \<and> (\<forall>m sz kvs. stored tc1 m sz kvs \<longrightarrow> stored tc' m sz kvs)"
      using Cons.IH Cons.prems(1,2) by simp
    then show ?thesis using lookup_in_rest gv(1) [OF E] None st ent by simp
  next
    case (Some a)
    then have "r = Some a" "tc' = tc1"
      using Cons.prems(4) gv(2) [OF E] by (auto simp: it tc1_def Let_def internal_key_LookupKey user_key_LookupKey)
    then show ?thesis using lookup_in_first [OF _ nt] gv(1) [OF E] Some st ent by simp
  qed
qed (simp add: entries_def)


lemma ordered_le:
  assumes "ordered_entries user kvs" "i \<le> j" "j < length kvs"
  shows "InternalKey_Compare user (fst (kvs ! i)) (fst (kvs ! j)) \<le> 0"
proof (cases "i = j")
  case True
  then show ?thesis by (simp add: InternalKey_Compare_def user.compare_refl)
next
  case False
  then have "InternalKey_Compare user (fst (kvs ! i)) (fst (kvs ! j)) < 0"
    using assms by (simp add: ordered_entries_def sorted_pairs_def sorted_wrt_iff_nth_less)
  then show ?thesis by simp
qed

lemma file_bounds:
  assumes "file_ok user f kvs" "e \<in> set kvs"
  shows "InternalKey_Compare user (smallest f) (fst e) \<le> 0" "InternalKey_Compare user (fst e) (largest f) \<le> 0"
    "valid_ikey (fst e)" "ParseInternalKey (fst e) \<noteq> None"
proof -
  obtain i where i: "i < length kvs" "e = kvs ! i" using assms(2) by (auto simp: in_set_conv_nth)
  have f: "ordered_entries user kvs" "smallest f = fst (kvs ! 0)" "largest f = fst (kvs ! (length kvs - 1))"
    using assms(1) by (simp_all add: file_ok_def hd_conv_nth last_conv_nth)
  show "InternalKey_Compare user (smallest f) (fst e) \<le> 0" "InternalKey_Compare user (fst e) (largest f) \<le> 0"
    using ordered_le [OF f(1), of 0 i] ordered_le [OF f(1), of i "length kvs - 1"] i f by simp_all
  show "valid_ikey (fst e)" "ParseInternalKey (fst e) \<noteq> None"
    using f(1) assms(2) by (simp_all add: ordered_entries_def sorted_pairs_def)
qed

lemma file_ok_keys:
  assumes "file_ok user f kvs"
  shows "valid_ikey (smallest f)" "valid_ikey (largest f)" "\<exists>v. (largest f, v) \<in> set kvs"
    "InternalKey_Compare user (smallest f) (largest f) \<le> 0"
proof -
  have kvs: "ordered_entries user kvs" "kvs \<noteq> []" "smallest f = fst (hd kvs)" "largest f = fst (last kvs)"
    using assms by (auto simp: file_ok_def)
  then show "valid_ikey (smallest f)" "valid_ikey (largest f)" by (simp_all add: ordered_entries_def sorted_pairs_def)
  show "\<exists>v. (largest f, v) \<in> set kvs" using kvs(2,4) by (metis last_in_set prod.collapse)
  show "InternalKey_Compare user (smallest f) (largest f) \<le> 0"
    using file_bounds(2) [OF assms, of "hd kvs"] kvs by simp
qed

lemma level_file_pairs:
  assumes "\<forall>f \<in> set files. \<exists>kvs. file_ok user f kvs" "level_ok user files"
  shows "sorted_pairs (InternalKey_Compare user) valid_ikey (file_pairs files)"
proof -
  have "sorted_wrt (\<lambda>f g. InternalKey_Compare user (largest f) (largest g) < 0) files"
    using assms(2) unfolding level_ok_def
  proof (rule sorted_wrt_mono_rel [rotated])
    fix f g assume *: "f \<in> set files" "g \<in> set files" "InternalKey_Compare user (largest f) (smallest g) < 0"
    then show "InternalKey_Compare user (largest f) (largest g) < 0"
      using assms(1) file_ok_keys by (metis ikey.compare_less_le_trans)
  qed
  then show ?thesis using assms(1) file_ok_keys(2) by (auto simp: sorted_pairs_def file_pairs_def sorted_wrt_map)
qed

text \<open>In a level above zero the search goes to the only file that can hold the newest visible entry.\<close>

lemma level_search:
  assumes files: "\<forall>m < length files. file_ok user (files ! m) (T m)" "level_ok user files" and s: "s \<le> kMaxSequenceNumber"
    and e: "e \<in> set (T j)" "j < length files" "entry_visible k s e"
    and i: "i = FindFile user files (InternalKey k s kTypeValue)"
  shows "i < length files \<and> (\<exists>e' \<in> set (T i). entry_visible k s e' \<and> key_seq (fst e) \<le> key_seq (fst e'))"
proof -
  let ?t = "InternalKey k s kTypeValue"
  have pairs: "sorted_pairs (InternalKey_Compare user) valid_ikey (file_pairs files)" using files by (intro level_file_pairs) (metis in_set_conv_nth)+
  have ok: "file_ok user (files ! m) (T m)" if "m < length files" for m using files(1) that by simp
  have split: "m < i \<longleftrightarrow> InternalKey_Compare user (largest (files ! m)) ?t < 0" if "m < length files" for m
    using ikey.seek_index_split [OF pairs valid_ikey_InternalKey, of m] FindFile_seek_index [OF pairs valid_ikey_InternalKey] that i
    by (simp add: file_pairs_def)
  have vis: "\<not> InternalKey_Compare user (fst x) ?t < 0 \<longleftrightarrow> \<not> Compare user (ExtractUserKey (fst x)) k < 0 \<and>
      (ExtractUserKey (fst x) = k \<longrightarrow> key_seq (fst x) \<le> s)" if "m < length files" "x \<in> set (T m)" for m x
    using before_target [OF file_bounds(4) [OF ok [OF that(1)] that(2)] s, of k] by (simp add: not_less)
  have ev: "\<not> InternalKey_Compare user (fst e) ?t < 0"
    using vis [OF e(2,1)] e(3) user.compare_refl [of k] by (simp add: entry_visible_def)
  note fb = file_bounds [OF ok [OF e(2)] e(1)]
  have "\<not> j < i" 
  proof
    assume "j < i"
    then have "InternalKey_Compare user (largest (files ! j)) ?t < 0" using split [OF e(2)] by simp
    then show False
      using ev ikey.compare_le_less_trans [OF fb(3) file_ok_keys(2) [OF ok [OF e(2)]] valid_ikey_InternalKey fb(2)]
      by blast
  qed
  then have i': "i < length files" using e(2) by simp
  obtain v where L: "(largest (files ! i), v) \<in> set (T i)" using file_ok_keys(3) [OF ok [OF i']] by blast
  show ?thesis
  proof (cases "i = j")
    case True
    then show ?thesis using e i' by blast
  next
    case False
    then have "i < j" using \<open>\<not> j < i\<close> by simp
    let ?l = "largest (files ! i)"
    have "InternalKey_Compare user ?l (smallest (files ! j)) < 0"
      using files(2) \<open>i < j\<close> e(2) by (simp add: level_ok_def sorted_wrt_iff_nth_less)
    then have lt: "InternalKey_Compare user ?l (fst e) < 0"
      using ikey.compare_less_le_trans [OF file_ok_keys(2) [OF ok [OF i']] file_ok_keys(1) [OF ok [OF e(2)]] fb(3) _ fb(1)] by blast
    then have uk: "Compare user (ExtractUserKey ?l) k \<le> 0" using ikey_Compare_user_le [of user ?l "fst e"] e(3) by (simp add: entry_visible_def)
    have "\<not> InternalKey_Compare user ?l ?t < 0" using split [OF i'] by simp
    then have "\<not> Compare user (ExtractUserKey ?l) k < 0" "ExtractUserKey ?l = k \<longrightarrow> key_seq ?l \<le> s" using vis [OF i' L] by simp_all
    then have l: "ExtractUserKey ?l = k" "key_seq ?l \<le> s" using uk Compare_0 [of "ExtractUserKey ?l" k] by auto
    then have "key_seq (fst e) \<le> key_seq ?l" using before_newer [OF lt] e(3) by (simp add: entry_visible_def)
    then show ?thesis using i' L l by (intro conjI bexI [of _ "(?l, v)"]) (simp_all add: entry_visible_def)
  qed
qed


lemma level0_outside:
  assumes "file_ok user f kvs" "e \<in> set kvs" "ExtractUserKey (fst e) = k"
  shows "Compare user k (ExtractUserKey (smallest f)) \<ge> 0" "Compare user k (ExtractUserKey (largest f)) \<le> 0"
  using ikey_Compare_user_le [OF file_bounds(1) [OF assms(1,2)]] ikey_Compare_user_le [OF file_bounds(2) [OF assms(1,2)]] assms(3)
    user.compare_le_flip [of "ExtractUserKey (smallest f)" k] user.compare_le_flip [of k "ExtractUserKey (smallest f)"] by simp_all

lemma files_to_search_0:
  assumes "version_ok user meta tbl files" "files \<noteq> []"
    and fs_def: "fs = files_to_search user meta 0 (files ! 0) (LookupKey_new k s)"
  shows "set fs \<subseteq> set (files ! 0)" "sorted_wrt (\<lambda>a b. newer_than (set (tbl a)) (set (tbl b))) fs"
    "lookup_in (entries tbl fs) k s r \<Longrightarrow> lookup_in (entries tbl (files ! 0)) k s r"
proof -
  let ?P = "\<lambda>a. Compare user k (ExtractUserKey (smallest (meta a))) \<ge> 0 \<and> Compare user k (ExtractUserKey (largest (meta a))) \<le> 0"
  let ?key = "\<lambda>a. - uint (fm_number (meta a))"
  have fs: "fs = sort_key ?key (filter ?P (files ! 0))"
    by (simp add: fs_def files_to_search_def user_key_LookupKey Let_def)
  then have set_fs: "set fs = {a \<in> set (files ! 0). ?P a}" by auto
  then show sub: "set fs \<subseteq> set (files ! 0)" by auto
  have v: "\<forall>a \<in> set (files ! 0). file_ok user (meta a) (tbl a)" "distinct (map (fm_number \<circ> meta) (files ! 0))"
    "\<forall>a \<in> set (files ! 0). \<forall>b \<in> set (files ! 0). fm_number (meta b) < fm_number (meta a) \<longrightarrow> newer_than (set (tbl a)) (set (tbl b))"
    using assms(1,2) by (auto simp: version_ok_def)
  have "inj_on (fm_number \<circ> meta) (set (files ! 0))" "distinct (files ! 0)" using v(2) by (simp_all add: distinct_map)
  then have dist: "distinct fs" and inj: "inj_on (fm_number \<circ> meta) (set fs)" using fs inj_on_subset [OF _ sub] by simp_all
  have sorted: "sorted (map ?key fs)" using fs sorted_sort_key [of ?key] by simp
  show "sorted_wrt (\<lambda>a b. newer_than (set (tbl a)) (set (tbl b))) fs"
    unfolding sorted_wrt_iff_nth_less
  proof (intro allI impI)
    fix i j assume ij: "i < j" "j < length fs"
    then have mem: "fs ! i \<in> set fs" "fs ! j \<in> set fs" "fs ! i \<noteq> fs ! j" using dist by (simp_all add: nth_eq_iff_index_eq)
    then have "fm_number (meta (fs ! i)) \<noteq> fm_number (meta (fs ! j))" using inj by (auto simp: inj_on_def)
    moreover have "uint (fm_number (meta (fs ! j))) \<le> uint (fm_number (meta (fs ! i)))"
      using sorted_nth_mono [OF sorted, of i j] ij by simp
    ultimately have "fm_number (meta (fs ! j)) < fm_number (meta (fs ! i))" by (simp add: word_less_def word_uint_eq_iff)
    then show "newer_than (set (tbl (fs ! i))) (set (tbl (fs ! j)))" using v(3) mem sub by blast
  qed
  assume l: "lookup_in (entries tbl fs) k s r"
  show "lookup_in (entries tbl (files ! 0)) k s r"
  proof (rule lookup_in_mono [OF l])
    show "entries tbl fs \<subseteq> entries tbl (files ! 0)" using sub by (auto simp: entries_def)
    show "\<forall>e \<in> entries tbl (files ! 0) - entries tbl fs. \<not> entry_visible k s e"
    proof (intro ballI notI)
      fix e assume e: "e \<in> entries tbl (files ! 0) - entries tbl fs" "entry_visible k s e"
      then obtain a where a: "a \<in> set (files ! 0)" "e \<in> set (tbl a)" by (auto simp: entries_def)
      then have "a \<in> set fs" using level0_outside [OF _ a(2)] v(1) e(2) set_fs by (simp add: entry_visible_def)
      then show False using e(1) a(2) by (auto simp: entries_def)
    qed
  qed
qed

lemma files_to_search_above:
  assumes "version_ok user meta tbl files" "level < length files" "0 < level" "s \<le> kMaxSequenceNumber"
    and fs_def: "fs = files_to_search user meta level (files ! level) (LookupKey_new k s)"
  shows "set fs \<subseteq> set (files ! level)" "sorted_wrt (\<lambda>a b. newer_than (set (tbl a)) (set (tbl b))) fs"
    "lookup_in (entries tbl fs) k s r \<Longrightarrow> lookup_in (entries tbl (files ! level)) k s r"
proof -
  let ?F = "map meta (files ! level)"
  define i where "i = FindFile user ?F (InternalKey k s kTypeValue)"
  have fs: "fs = (if i < length ?F \<and> \<not> Compare user k (ExtractUserKey (smallest (?F ! i))) < 0 then [files ! level ! i] else [])"
    using assms(3) by (auto simp: fs_def files_to_search_def internal_key_LookupKey user_key_LookupKey Let_def i_def)
  then show "set fs \<subseteq> set (files ! level)" "sorted_wrt (\<lambda>a b. newer_than (set (tbl a)) (set (tbl b))) fs" by auto
  have F: "\<forall>m < length ?F. file_ok user (?F ! m) (tbl (files ! level ! m))" "level_ok user ?F"
    using assms(1-3) by (auto simp: version_ok_def)
  have found: "i < length ?F \<and> (\<exists>e' \<in> set (tbl (files ! level ! i)). entry_visible k s e' \<and> key_seq (fst e) \<le> key_seq (fst e'))"
    if e: "e \<in> entries tbl (files ! level)" "entry_visible k s e" for e
  proof -
    obtain b where "b \<in> set (files ! level)" "e \<in> set (tbl b)" using e(1) by (auto simp: entries_def)
    then obtain j where "j < length ?F" "e \<in> set (tbl (files ! level ! j))" by (metis in_set_conv_nth length_map)
    then show ?thesis using level_search [OF F assms(4) _ _ e(2) i_def] by blast
  qed
  assume l: "lookup_in (entries tbl fs) k s r"
  show "lookup_in (entries tbl (files ! level)) k s r"
  proof (cases "\<exists>e \<in> entries tbl (files ! level). entry_visible k s e")
    case True
    then obtain e' where i: "i < length ?F" and e': "e' \<in> set (tbl (files ! level ! i))" "entry_visible k s e'" using found by blast
    then have "\<not> Compare user k (ExtractUserKey (smallest (?F ! i))) < 0"
      using level0_outside(1) [OF F(1) [rule_format, OF i] e'(1)] e'(2) by (simp add: entry_visible_def)
    then have "entries tbl fs = set (tbl (files ! level ! i))" using fs i by (simp add: entries_def)
    then obtain e where e: "newest_visible (set (tbl (files ! level ! i))) k s e" "r = Some (entry_answer e)"
      using l e' by (cases r) (auto simp: lookup_in_def)
    have "key_seq (fst x) \<le> key_seq (fst e)" if "x \<in> entries tbl (files ! level)" "entry_visible k s x" for x
      using found [OF that] e(1) by (auto simp: newest_visible_def)
    moreover have "e \<in> entries tbl (files ! level)" using e(1) i by (auto simp: newest_visible_def entries_def)
    ultimately have "newest_visible (entries tbl (files ! level)) k s e" using e(1) by (simp add: newest_visible_def)
    then show ?thesis using e(2) lookup_in_SomeI by blast
  next
    case False
    moreover have "set fs \<subseteq> set (files ! level)" using fs by auto
    then have "entries tbl fs \<subseteq> entries tbl (files ! level)" by (auto simp: entries_def)
    ultimately have "r = None" using l unfolding lookup_in_def newest_visible_def by (cases r) auto
    then show ?thesis using False by (simp add: lookup_in_def)
  qed
qed


lemma search_levels_lookup:
  assumes "version_ok user meta tbl files" "has_files tc meta tbl (\<Union>l \<in> set files. set l)" "s \<le> kMaxSequenceNumber"
    and "level \<le> length files"
    and "search_levels user ops NewIterator DeleteIterator meta (LookupKey_new k s) level (drop level files) st tc = (r, st', tc')"
  shows "lookup_in (\<Union>l \<in> set (drop level files). entries tbl l) k s r \<and> (\<forall>m sz kvs. stored tc m sz kvs \<longrightarrow> stored tc' m sz kvs)"
  using assms(2,4,5)
proof (induction "drop level files" arbitrary: level st tc)
  case (Cons l ls)
  have level: "level < length files" "l = files ! level" "ls = drop (Suc level) files"
    using Cons.hyps(2) Cons.prems(2) by (metis drop_eq_Nil2 list.distinct(1) not_le, metis hd_drop_conv_nth drop_eq_Nil2 list.sel(1) list.distinct(1) not_le, metis drop_Suc list.sel(3) tl_drop)
  let ?fs = "files_to_search user meta level l (LookupKey_new k s)"
  have "set ?fs \<subseteq> set l \<and> sorted_wrt (\<lambda>a b. newer_than (set (tbl a)) (set (tbl b))) ?fs \<and>
    (\<forall>r'. lookup_in (entries tbl ?fs) k s r' \<longrightarrow> lookup_in (entries tbl l) k s r')"
  proof (cases "level = 0")
    case True
    then have "files \<noteq> []" using level(1) by auto
    then show ?thesis using files_to_search_0 [OF assms(1) _ refl] True level(2) by simp
  next
    case False
    then show ?thesis using files_to_search_above [OF assms(1) level(1) _ assms(3) refl] level(2) by simp
  qed
  then have fs: "set ?fs \<subseteq> set l" "sorted_wrt (\<lambda>a b. newer_than (set (tbl a)) (set (tbl b))) ?fs"
    "\<And>r'. lookup_in (entries tbl ?fs) k s r' \<Longrightarrow> lookup_in (entries tbl l) k s r'" by blast+
  have ent: "(\<Union>l \<in> set (drop level files). entries tbl l) = entries tbl l \<union> (\<Union>l \<in> set ls. entries tbl l)"
    by (simp add: Cons.hyps(2) [symmetric])
  show ?case
  proof (cases "l = []")
    case True
    then have "search_levels user ops NewIterator DeleteIterator meta (LookupKey_new k s) (Suc level) (drop (Suc level) files) st tc = (r, st', tc')"
      using Cons.prems(3) Cons.hyps(2) [symmetric] level(3) by simp
    then show ?thesis using Cons.hyps(1) [OF level(3)] Cons.prems(1) level True ent by (simp add: entries_def)
  next
    case False
    obtain r1 st1 tc1 where r1: "search_files ops NewIterator DeleteIterator meta (LookupKey_new k s) level ?fs st tc = (r1, st1, tc1)"
      by (metis prod_cases3)
    have "\<forall>a \<in> set ?fs. ordered_entries user (tbl a)"
      using assms(1) level fs(1) unfolding version_ok_def file_ok_def by blast
    moreover have "has_files tc meta tbl (set ?fs)" using Cons.prems(1) fs(1) level nth_mem [OF level(1)] by (fastforce simp: has_files_def)
    ultimately have l1: "lookup_in (entries tbl l) k s r1" and st1: "\<forall>m sz kvs. stored tc m sz kvs \<longrightarrow> stored tc1 m sz kvs"
      using search_files_lookup [OF _ fs(2) _ assms(3) r1] fs(3) by blast+
    have nt: "newer_than (entries tbl l) (\<Union>l \<in> set ls. entries tbl l)"
      unfolding newer_than_Union
    proof
      fix l' assume "l' \<in> set ls"
      then obtain j where "j < length files - Suc level" "l' = files ! (Suc level + j)" using level(3) by (auto simp: in_set_conv_nth)
      then have "level < Suc level + j" "Suc level + j < length files" by simp_all
      then show "newer_than (entries tbl l) (entries tbl l')"
        using assms(1) level(2) \<open>l' = _\<close> unfolding version_ok_def by blast
    qed
    show ?thesis
    proof (cases r1)
      case None
      then have "search_levels user ops NewIterator DeleteIterator meta (LookupKey_new k s) (Suc level) (drop (Suc level) files) st1 tc1 = (r, st', tc')"
        using Cons.prems(3) Cons.hyps(2) [symmetric] level(3) r1 False by simp
      moreover have "has_files tc1 meta tbl (\<Union>l \<in> set files. set l)" using Cons.prems(1) st1 by (simp add: has_files_def)
      ultimately show ?thesis using Cons.hyps(1) [OF level(3)] level(1,3) lookup_in_rest l1 None st1 ent by (simp add: Suc_le_eq)
    next
      case (Some a)
      then have "r = r1" "tc' = tc1" using Cons.prems(3) Cons.hyps(2) [symmetric] r1 False by simp_all
      then show ?thesis using lookup_in_first [OF _ nt] l1 Some st1 ent by simp
    qed
  qed
qed simp

lemma Version_Get_lookup:
  assumes "version_ok user meta tbl files" "has_files tc meta tbl (\<Union>l \<in> set files. set l)" "s \<le> kMaxSequenceNumber"
    and "Version_Get user ops NewIterator DeleteIterator meta files (LookupKey_new k s) tc = (a, seek, tc')"
  shows "\<exists>r. lookup_in (\<Union>l \<in> set files. entries tbl l) k s r \<and> a = (case r of None \<Rightarrow> Inl (NotFound [] []) | Some r \<Rightarrow> r)"
    "(\<forall>m sz kvs. stored tc m sz kvs \<longrightarrow> stored tc' m sz kvs)"
proof -
  obtain r st tc1 where r: "search_levels user ops NewIterator DeleteIterator meta (LookupKey_new k s) 0 (drop 0 files)
      \<lparr>seek_file = None, last_file_read = None\<rparr> tc = (r, st, tc1)" by (metis prod_cases3)
  then have "a = (case r of None \<Rightarrow> Inl (NotFound [] []) | Some r \<Rightarrow> r)" "tc' = tc1" using assms(4) by (auto simp: Version_Get_def)
  then show "\<exists>r. lookup_in (\<Union>l \<in> set files. entries tbl l) k s r \<and> a = (case r of None \<Rightarrow> Inl (NotFound [] []) | Some r \<Rightarrow> r)"
    "(\<forall>m sz kvs. stored tc m sz kvs \<longrightarrow> stored tc' m sz kvs)"
    using search_levels_lookup [OF assms(1-3) le0 r] by auto
qed

end

end
