(* ===== verification/Cache.thy ===== *)
theory Cache
  imports Util "HOL-Library.Multiset"
begin

text \<open>
  The sharded LRU cache of \<open>util/cache.cc\<close>. Handles live in a store from addresses to handles, so
  that a handle a client still holds and a freed one can be told apart. The circular list of handles
  is the list of their addresses from the oldest to the newest, and the chain of a bucket of the hash
  table is the list of the addresses that \<open>next_hash\<close> links. Sizes of the table and reference
  counts are numbers without bound, where the source has 32 bits; the charges are added as \<open>size_t\<close>.
\<close>

record 'v LRUHandle =
  h_value :: 'v
  h_charge :: uint64
  h_refs :: nat
  h_hash :: uint32
  h_key :: bytes

type_synonym 'v handles = "nat \<rightharpoonup> 'v LRUHandle"

subsection \<open>Hash table of handles\<close>

record HandleTable =
  ht_length :: nat
  ht_elems :: nat
  ht_list :: "nat list list"

definition slot :: "uint32 \<Rightarrow> nat \<Rightarrow> nat" where
  "slot hash n = unat (hash AND (of_nat n - 1))"

definition matches :: "'v handles \<Rightarrow> bytes \<Rightarrow> uint32 \<Rightarrow> nat \<Rightarrow> bool" where
  "matches hs key hash a \<longleftrightarrow> h_hash (the (hs a)) = hash \<and> key = h_key (the (hs a))"

text \<open>A slot is a bucket and a place in its chain; the place after the last one holds no handle.\<close>

definition FindPointer :: "'v handles \<Rightarrow> HandleTable \<Rightarrow> bytes \<Rightarrow> uint32 \<Rightarrow> nat \<times> nat" where
  "FindPointer hs t key hash =
     (let i = slot hash (ht_length t)
      in (i, length (takeWhile (\<lambda>a. \<not> matches hs key hash a) (ht_list t ! i))))"

function grow_length :: "nat \<Rightarrow> nat \<Rightarrow> nat" where
  "grow_length new_length elems =
     (if 0 < new_length \<and> new_length < elems then grow_length (new_length * 2) elems else new_length)"
  by pat_completeness auto
termination by (relation "measure (\<lambda>(n, e). e - n)") auto

declare grow_length.simps [simp del]

text \<open>\<open>Resize\<close> moves the handles to the front of their new chains.\<close>

definition move_handle :: "'v handles \<Rightarrow> nat \<Rightarrow> nat list list \<Rightarrow> nat \<Rightarrow> nat list list" where
  "move_handle hs n l a = (let i = slot (h_hash (the (hs a))) n in l[i := a # l ! i])"

definition Resize :: "'v handles \<Rightarrow> HandleTable \<Rightarrow> HandleTable" where
  "Resize hs t =
     (let new_length = grow_length 4 (ht_elems t);
          new_list = foldl (move_handle hs new_length) (replicate new_length []) (concat (ht_list t))
      in t\<lparr>ht_list := new_list, ht_length := new_length\<rparr>)"

definition HandleTable_new :: HandleTable where
  "HandleTable_new = Resize (Map.empty :: unit handles) \<lparr>ht_length = 0, ht_elems = 0, ht_list = []\<rparr>"

definition HandleTable_Lookup :: "'v handles \<Rightarrow> HandleTable \<Rightarrow> bytes \<Rightarrow> uint32 \<Rightarrow> nat option" where
  "HandleTable_Lookup hs t key hash =
     (let (i, p) = FindPointer hs t key hash; chain = ht_list t ! i
      in if p < length chain then Some (chain ! p) else None)"

definition HandleTable_Insert :: "'v handles \<Rightarrow> HandleTable \<Rightarrow> nat \<Rightarrow> nat option \<times> HandleTable" where
  "HandleTable_Insert hs t a =
     (let (i, p) = FindPointer hs t (h_key (the (hs a))) (h_hash (the (hs a)));
          chain = ht_list t ! i
      in if p < length chain then (Some (chain ! p), t\<lparr>ht_list := (ht_list t)[i := chain[p := a]]\<rparr>)
         else
           (let t = t\<lparr>ht_list := (ht_list t)[i := chain @ [a]], ht_elems := ht_elems t + 1\<rparr>
            in (None, if ht_elems t > ht_length t then Resize hs t else t)))"

definition HandleTable_Remove :: "'v handles \<Rightarrow> HandleTable \<Rightarrow> bytes \<Rightarrow> uint32 \<Rightarrow> nat option \<times> HandleTable" where
  "HandleTable_Remove hs t key hash =
     (let (i, p) = FindPointer hs t key hash; chain = ht_list t ! i
      in if p < length chain
         then (Some (chain ! p),
               t\<lparr>ht_list := (ht_list t)[i := take p chain @ drop (p + 1) chain], ht_elems := ht_elems t - 1\<rparr>)
         else (None, t))"

subsection \<open>A shard\<close>

record 'v LRUCache =
  capacity :: uint64
  usage :: uint64
  lru :: "nat list"
  ltable :: HandleTable
  lheap :: "'v handles"
  next_addr :: nat
  deleted :: "(bytes \<times> 'v) list"

definition LRUCache_new :: "uint64 \<Rightarrow> 'v LRUCache" where
  "LRUCache_new cap =
     \<lparr>capacity = cap, usage = 0, lru = [], ltable = HandleTable_new, lheap = Map.empty, next_addr = 0, deleted = []\<rparr>"

definition LRU_Remove :: "'v LRUCache \<Rightarrow> nat \<Rightarrow> 'v LRUCache" where
  "LRU_Remove c e = c\<lparr>lru := remove1 e (lru c)\<rparr>"

definition LRU_Append :: "'v LRUCache \<Rightarrow> nat \<Rightarrow> 'v LRUCache" where
  "LRU_Append c e = c\<lparr>lru := lru c @ [e]\<rparr>"

text \<open>The calls of the deleters are recorded in the order they are made.\<close>

definition LRU_Unref :: "'v LRUCache \<Rightarrow> nat \<Rightarrow> 'v LRUCache" where
  "LRU_Unref c e =
     (let h = the (lheap c e); h = h\<lparr>h_refs := h_refs h - 1\<rparr>
      in if h_refs h \<le> 0
         then c\<lparr>usage := usage c - h_charge h, deleted := deleted c @ [(h_key h, h_value h)],
                lheap := (lheap c)(e := None)\<rparr>
         else c\<lparr>lheap := (lheap c)(e \<mapsto> h)\<rparr>)"

definition LRU_Lookup :: "'v LRUCache \<Rightarrow> bytes \<Rightarrow> uint32 \<Rightarrow> nat option \<times> 'v LRUCache" where
  "LRU_Lookup c key hash =
     (case HandleTable_Lookup (lheap c) (ltable c) key hash of
        None \<Rightarrow> (None, c)
      | Some e \<Rightarrow>
          (let h = the (lheap c e)
           in (Some e, LRU_Append (LRU_Remove (c\<lparr>lheap := (lheap c)(e \<mapsto> h\<lparr>h_refs := h_refs h + 1\<rparr>)\<rparr>) e) e)))"

definition LRU_Release :: "'v LRUCache \<Rightarrow> nat \<Rightarrow> 'v LRUCache" where
  "LRU_Release c e = LRU_Unref c e"

definition LRU_drop :: "'v LRUCache \<Rightarrow> nat \<Rightarrow> 'v LRUCache" where
  "LRU_drop c e = LRU_Unref (LRU_Remove c e) e"

definition evict_oldest :: "'v LRUCache \<Rightarrow> 'v LRUCache" where
  "evict_oldest c =
     (let old = hd (lru c); h = the (lheap c old);
          c = LRU_Remove c old;
          (_, t) = HandleTable_Remove (lheap c) (ltable c) (h_key h) (h_hash h)
      in LRU_Unref (c\<lparr>ltable := t\<rparr>) old)"

lemma LRU_Unref_fields [simp]:
  "lru (LRU_Unref c e) = lru c" "ltable (LRU_Unref c e) = ltable c" "capacity (LRU_Unref c e) = capacity c"
  "next_addr (LRU_Unref c e) = next_addr c"
  by (simp_all add: LRU_Unref_def Let_def)

lemma lru_evict_oldest: "lru (evict_oldest c) = remove1 (hd (lru c)) (lru c)"
  by (simp add: evict_oldest_def LRU_Remove_def Let_def split: prod.split)

function evict_loop :: "'v LRUCache \<Rightarrow> 'v LRUCache" where
  "evict_loop c = (if usage c > capacity c \<and> lru c \<noteq> [] then evict_loop (evict_oldest c) else c)"
  by pat_completeness auto
termination
  by (relation "measure (length \<circ> lru)") (auto simp: lru_evict_oldest length_remove1)

declare evict_loop.simps [simp del]

definition LRU_Insert :: "'v LRUCache \<Rightarrow> bytes \<Rightarrow> uint32 \<Rightarrow> 'v \<Rightarrow> uint64 \<Rightarrow> nat \<times> 'v LRUCache" where
  "LRU_Insert c key hash value charge =
     (let e = next_addr c;
          h = \<lparr>h_value = value, h_charge = charge, h_refs = 2, h_hash = hash, h_key = key\<rparr>;
          c = LRU_Append (c\<lparr>lheap := (lheap c)(e \<mapsto> h), next_addr := e + 1\<rparr>) e;
          c = c\<lparr>usage := usage c + charge\<rparr>;
          (old, t) = HandleTable_Insert (lheap c) (ltable c) e;
          c = c\<lparr>ltable := t\<rparr>;
          c = (case old of None \<Rightarrow> c | Some old \<Rightarrow> LRU_drop c old)
      in (e, evict_loop c))"

definition LRU_Erase :: "'v LRUCache \<Rightarrow> bytes \<Rightarrow> uint32 \<Rightarrow> 'v LRUCache" where
  "LRU_Erase c key hash =
     (let (r, t) = HandleTable_Remove (lheap c) (ltable c) key hash; c = c\<lparr>ltable := t\<rparr>
      in case r of None \<Rightarrow> c | Some e \<Rightarrow> LRU_drop c e)"

definition LRUCache_destroy :: "'v LRUCache \<Rightarrow> 'v LRUCache" where
  "LRUCache_destroy c = foldl LRU_Unref c (lru c)"

subsection \<open>The sharded cache\<close>

definition kNumShardBits :: nat where "kNumShardBits = 4"
definition kNumShards :: nat where "kNumShards = 2 ^ kNumShardBits"

record 'v ShardedLRUCache =
  shards :: "'v LRUCache list"
  last_id :: uint64

definition HashSlice :: "bytes \<Rightarrow> uint32" where
  "HashSlice s = Hash s 0"

definition Shard :: "uint32 \<Rightarrow> nat" where
  "Shard hash = unat (drop_bit (32 - kNumShardBits) hash)"

definition NewLRUCache :: "uint64 \<Rightarrow> 'v ShardedLRUCache" where
  "NewLRUCache cap =
     (let per_shard = (cap + of_nat (kNumShards - 1)) div of_nat kNumShards
      in \<lparr>shards = replicate kNumShards (LRUCache_new per_shard), last_id = 0\<rparr>)"

text \<open>The address of a handle is that of its shard and the one in it; its hash names the shard.\<close>

type_synonym CacheHandle = "nat \<times> nat"

definition Cache_Insert :: "'v ShardedLRUCache \<Rightarrow> bytes \<Rightarrow> 'v \<Rightarrow> uint64 \<Rightarrow> CacheHandle \<times> 'v ShardedLRUCache" where
  "Cache_Insert c key value charge =
     (let hash = HashSlice key; s = Shard hash;
          (e, l) = LRU_Insert (shards c ! s) key hash value charge
      in ((s, e), c\<lparr>shards := (shards c)[s := l]\<rparr>))"

definition Cache_Lookup :: "'v ShardedLRUCache \<Rightarrow> bytes \<Rightarrow> CacheHandle option \<times> 'v ShardedLRUCache" where
  "Cache_Lookup c key =
     (let hash = HashSlice key; s = Shard hash;
          (r, l) = LRU_Lookup (shards c ! s) key hash
      in (map_option (Pair s) r, c\<lparr>shards := (shards c)[s := l]\<rparr>))"

definition Cache_Release :: "'v ShardedLRUCache \<Rightarrow> CacheHandle \<Rightarrow> 'v ShardedLRUCache" where
  "Cache_Release c handle =
     (let h = the (lheap (shards c ! fst handle) (snd handle)); s = Shard (h_hash h)
      in c\<lparr>shards := (shards c)[s := LRU_Release (shards c ! s) (snd handle)]\<rparr>)"

definition Cache_Erase :: "'v ShardedLRUCache \<Rightarrow> bytes \<Rightarrow> 'v ShardedLRUCache" where
  "Cache_Erase c key =
     (let hash = HashSlice key; s = Shard hash
      in c\<lparr>shards := (shards c)[s := LRU_Erase (shards c ! s) key hash]\<rparr>)"

definition Cache_Value :: "'v ShardedLRUCache \<Rightarrow> CacheHandle \<Rightarrow> 'v" where
  "Cache_Value c handle = h_value (the (lheap (shards c ! fst handle) (snd handle)))"

definition Cache_NewId :: "'v ShardedLRUCache \<Rightarrow> uint64 \<times> 'v ShardedLRUCache" where
  "Cache_NewId c = (last_id c + 1, c\<lparr>last_id := last_id c + 1\<rparr>)"


subsection \<open>The hash table holds a set of handles\<close>

lemma slot_less: "slot hash (2 ^ k) < 2 ^ k"
proof (cases "k < 32")
  case True
  have "(of_nat (2 ^ k) :: uint32) - 1 = mask k" by (simp add: mask_eq_exp_minus_1)
  then have "hash AND (of_nat (2 ^ k) - 1) = take_bit k hash" by (simp only: take_bit_eq_mask)
  then show ?thesis using True by (simp add: slot_def unsigned_take_bit_eq)
next
  case False
  have "slot hash (2 ^ k) < 2 ^ 32" unfolding slot_def using unat_lt [of "hash AND (of_nat (2 ^ k) - 1)"] by simp
  also have "(2 :: nat) ^ 32 \<le> 2 ^ k" using False by (intro power_increasing) auto
  finally show ?thesis .
qed

lemma grow_length_pow: "\<exists>j. grow_length (2 ^ k) elems = 2 ^ j"
proof (induction "2 ^ k :: nat" elems arbitrary: k rule: grow_length.induct)
  case (1 elems)
  show ?case
  proof (cases "2 ^ k < elems")
    case True
    have "(2 :: nat) ^ k * 2 = 2 ^ Suc k" by simp
    then have "\<exists>j. grow_length (2 ^ k * 2) elems = 2 ^ j" using 1 [of "Suc k"] True by (simp only: zero_less_power zero_less_numeral simp_thms)
    then show ?thesis using True by (subst grow_length.simps) simp
  qed (subst grow_length.simps, auto)
qed

lemma mset_concat_update:
  "i < length l \<Longrightarrow> mset (concat (l[i := c])) + mset (l ! i) = mset (concat l) + mset c"
  by (induction l arbitrary: i) (auto split: nat.splits simp: add_ac)

definition ht_wf :: "'v handles \<Rightarrow> HandleTable \<Rightarrow> nat set \<Rightarrow> bool" where
  "ht_wf hs t S \<longleftrightarrow> length (ht_list t) = ht_length t \<and> (\<exists>k. ht_length t = 2 ^ k) \<and> ht_elems t = card S \<and>
     distinct (concat (ht_list t)) \<and> set (concat (ht_list t)) = S \<and>
     (\<forall>i < length (ht_list t). \<forall>a \<in> set (ht_list t ! i). slot (h_hash (the (hs a))) (ht_length t) = i)"

lemma ht_wf_slot: "ht_wf hs t S \<Longrightarrow> slot hash (ht_length t) < length (ht_list t)"
  unfolding ht_wf_def by (elim conjE exE) (metis slot_less)

lemma ht_wf_chain:
  assumes "ht_wf hs t S"
  shows "set (ht_list t ! slot hash (ht_length t)) = {a \<in> S. slot (h_hash (the (hs a))) (ht_length t) = slot hash (ht_length t)}"
    (is "?A = ?B")
proof
  show "?A \<subseteq> ?B" using assms ht_wf_slot [OF assms, of hash] by (auto simp: ht_wf_def)
  show "?B \<subseteq> ?A"
  proof
    fix a assume a: "a \<in> ?B"
    then have "a \<in> set (concat (ht_list t))" using assms by (simp add: ht_wf_def)
    then obtain i where "i < length (ht_list t)" "a \<in> set (ht_list t ! i)"
      unfolding set_concat by (metis UN_E in_set_conv_nth)
    moreover from this have "slot (h_hash (the (hs a))) (ht_length t) = i" using assms by (auto simp: ht_wf_def)
    ultimately show "a \<in> ?A" using a by auto
  qed
qed

lemma takeWhile_first:
  assumes "p = length (takeWhile (\<lambda>a. \<not> P a) xs)"
  shows "p < length xs \<Longrightarrow> P (xs ! p)" "\<not> p < length xs \<Longrightarrow> \<forall>a \<in> set xs. \<not> P a"
proof -
  show "p < length xs \<Longrightarrow> P (xs ! p)" using nth_length_takeWhile [of "\<lambda>a. \<not> P a" xs] assms by auto
  show "\<forall>a \<in> set xs. \<not> P a" if "\<not> p < length xs"
  proof -
    have "length (takeWhile (\<lambda>a. \<not> P a) xs) = length xs"
      using that assms length_takeWhile_le [of "\<lambda>a. \<not> P a" xs] by simp
    then have "takeWhile (\<lambda>a. \<not> P a) xs = xs" by (metis takeWhile_eq_take take_all_iff order_refl)
    then show ?thesis using set_takeWhileD by metis
  qed
qed

lemma FindPointer_place:
  assumes "ht_wf hs t S" "FindPointer hs t key hash = (i, p)"
  shows "i = slot hash (ht_length t)" "i < length (ht_list t)"
    "p < length (ht_list t ! i) \<Longrightarrow> matches hs key hash (ht_list t ! i ! p) \<and> ht_list t ! i ! p \<in> S"
    "\<not> p < length (ht_list t ! i) \<Longrightarrow> \<forall>a \<in> S. \<not> matches hs key hash a"
proof -
  show i: "i = slot hash (ht_length t)" using assms(2) by (simp add: FindPointer_def Let_def)
  have p: "p = length (takeWhile (\<lambda>a. \<not> matches hs key hash a) (ht_list t ! i))"
    using assms(2) by (auto simp: FindPointer_def Let_def)
  note chain = ht_wf_chain [OF assms(1), of hash, folded i]
  show "i < length (ht_list t)" using ht_wf_slot [OF assms(1)] i by simp
  show "p < length (ht_list t ! i) \<Longrightarrow> matches hs key hash (ht_list t ! i ! p) \<and> ht_list t ! i ! p \<in> S"
    using takeWhile_first(1) [OF p] chain nth_mem by blast
  show "\<not> p < length (ht_list t ! i) \<Longrightarrow> \<forall>a \<in> S. \<not> matches hs key hash a"
    using takeWhile_first(2) [OF p] chain i by (auto simp: matches_def)
qed

text \<open>Keys and hashes identify the handles of a table.\<close>

definition keys_differ :: "'v handles \<Rightarrow> nat set \<Rightarrow> bool" where
  "keys_differ hs S \<longleftrightarrow> (\<forall>a \<in> S. \<forall>b \<in> S. h_hash (the (hs a)) = h_hash (the (hs b)) \<longrightarrow> h_key (the (hs a)) = h_key (the (hs b)) \<longrightarrow> a = b)"

lemma HandleTable_Lookup_iff:
  assumes "ht_wf hs t S" "keys_differ hs S"
  shows "HandleTable_Lookup hs t key hash = Some a \<longleftrightarrow> a \<in> S \<and> matches hs key hash a"
proof -
  obtain i p where ip: "FindPointer hs t key hash = (i, p)" by fastforce
  note f = FindPointer_place [OF assms(1) ip]
  show ?thesis
  proof (cases "p < length (ht_list t ! i)")
    case True
    then have "HandleTable_Lookup hs t key hash = Some (ht_list t ! i ! p)" by (simp add: HandleTable_Lookup_def ip)
    moreover have "b = ht_list t ! i ! p" if "b \<in> S" "matches hs key hash b" for b
      using f(3) [OF True] that assms(2) by (auto simp: keys_differ_def matches_def)
    ultimately show ?thesis using f(3) [OF True] by auto
  next
    case False
    then show ?thesis using f(4) by (auto simp: HandleTable_Lookup_def ip)
  qed
qed


lemma ht_wf_I:
  assumes wf: "ht_wf hs t S" and i: "i < length (ht_list t)" "\<forall>a \<in> set c. slot (h_hash (the (hs a))) (ht_length t) = i"
    and m: "mset (ht_list t ! i) + A = mset c + B" "mset_set S + A = mset_set S' + B" "finite S'"
  shows "ht_wf hs (t\<lparr>ht_list := (ht_list t)[i := c], ht_elems := card S'\<rparr>) S'"
proof -
  have fin: "finite S" and S: "set (concat (ht_list t)) = S" "distinct (concat (ht_list t))" using wf by (auto simp: ht_wf_def)
  have "mset (concat (ht_list t)) = mset_set S" using S by (metis mset_set_set)
  then have "mset (concat ((ht_list t)[i := c])) + (mset (ht_list t ! i) + A) = mset_set S + A + mset c"
    using mset_concat_update [OF i(1), of c] by (simp add: add_ac)
  then have "mset (concat ((ht_list t)[i := c])) + (mset c + B) = mset_set S' + B + mset c" using m(1,2) by simp
  then have ms: "mset (concat ((ht_list t)[i := c])) = mset_set S'" by (simp add: add_ac)
  then have set: "set (concat ((ht_list t)[i := c])) = S'" using m(3) by (metis finite_set_mset_mset_set set_mset_mset)
  moreover have "distinct (concat ((ht_list t)[i := c]))"
    unfolding distinct_count_atmost_1 ms set using m(3) by simp
  moreover have "\<exists>k. ht_length t = 2 ^ k" using wf unfolding ht_wf_def by blast
  moreover have "\<forall>j < length (ht_list t). \<forall>a \<in> set ((ht_list t)[i := c] ! j). slot (h_hash (the (hs a))) (ht_length t) = j"
    using wf i by (auto simp: ht_wf_def nth_list_update)
  moreover have "length (ht_list t) = ht_length t" using wf by (simp add: ht_wf_def)
  ultimately show ?thesis by (simp add: ht_wf_def)
qed


lemma Resize_fold:
  assumes "n = 2 ^ k" "length l = n" "\<forall>i < n. \<forall>a \<in> set (l ! i). slot (h_hash (the (hs a))) n = i"
  shows "length (foldl (move_handle hs n) l as) = n \<and> mset (concat (foldl (move_handle hs n) l as)) = mset (concat l) + mset as \<and>
    (\<forall>i < n. \<forall>a \<in> set (foldl (move_handle hs n) l as ! i). slot (h_hash (the (hs a))) n = i)"
  using assms(2,3)
proof (induction as arbitrary: l)
  case (Cons a as)
  define i where "i = slot (h_hash (the (hs a))) n"
  have i: "i < length l" using slot_less Cons.prems(1) assms(1) by (simp add: i_def)
  have step: "move_handle hs n l a = l[i := a # l ! i]" by (simp add: move_handle_def i_def Let_def)
  have "mset (concat (move_handle hs n l a)) = mset (concat l) + {#a#}"
    using mset_concat_update [OF i, of "a # l ! i"] by (simp add: step)
  moreover have "\<forall>j < n. \<forall>b \<in> set (move_handle hs n l a ! j). slot (h_hash (the (hs b))) n = j"
    using Cons.prems i by (auto simp: step nth_list_update i_def)
  moreover have "length (move_handle hs n l a) = n" using Cons.prems(1) by (simp add: step)
  ultimately show ?case using Cons.IH [of "move_handle hs n l a"] by simp
qed simp

lemma ht_wf_Resize:
  assumes "distinct (concat (ht_list t))" "set (concat (ht_list t)) = S" "ht_elems t = card S"
  shows "ht_wf hs (Resize hs t) S"
proof -
  obtain k where k: "grow_length 4 (ht_elems t) = 2 ^ k" using grow_length_pow [of 2] by auto
  define n l where "n = (2 :: nat) ^ k" and "l = foldl (move_handle hs n) (replicate n []) (concat (ht_list t))"
  have r: "Resize hs t = t\<lparr>ht_list := l, ht_length := n\<rparr>" by (simp add: Resize_def k Let_def l_def n_def)
  have f: "length l = n" "mset (concat l) = mset (concat (ht_list t))"
    "\<forall>i < n. \<forall>a \<in> set (l ! i). slot (h_hash (the (hs a))) n = i"
    using Resize_fold [OF n_def, of "replicate n []" hs "concat (ht_list t)"] by (simp_all add: l_def)
  have "set (concat l) = S" "distinct (concat l)"
    using assms(1,2) mset_eq_setD [OF f(2)] mset_eq_imp_distinct_iff [OF f(2)] by simp_all
  moreover have "\<exists>k. n = 2 ^ k" using n_def by blast
  ultimately show ?thesis using f(1,3) assms(3) by (simp add: ht_wf_def r)
qed

lemma ht_wf_new: "ht_wf hs HandleTable_new {}"
proof -
  have "HandleTable_new = Resize hs \<lparr>ht_length = 0, ht_elems = 0, ht_list = []\<rparr>"
    by (simp add: HandleTable_new_def Resize_def)
  then show ?thesis using ht_wf_Resize [of "\<lparr>ht_length = 0, ht_elems = 0, ht_list = []\<rparr>" "{}" hs] by simp
qed

lemma HandleTable_Insert_wf:
  assumes wf: "ht_wf hs t S" "keys_differ hs S" and a: "a \<notin> S" "HandleTable_Insert hs t a = (old, t')"
  shows "old = HandleTable_Lookup hs t (h_key (the (hs a))) (h_hash (the (hs a)))"
    "ht_wf hs t' (insert a (S - set_option old))"
proof -
  obtain i p where ip: "FindPointer hs t (h_key (the (hs a))) (h_hash (the (hs a))) = (i, p)" by fastforce
  note f = FindPointer_place [OF wf(1) ip]
  let ?c = "ht_list t ! i"
  show "old = HandleTable_Lookup hs t (h_key (the (hs a))) (h_hash (the (hs a)))"
    using a(2) by (auto simp: HandleTable_Insert_def HandleTable_Lookup_def ip Let_def split: if_splits)
  have fin: "finite S" using wf by (auto simp: ht_wf_def)
  have sl: "\<forall>b \<in> set ?c. slot (h_hash (the (hs b))) (ht_length t) = i" using wf(1) f(2) by (auto simp: ht_wf_def)
  show "ht_wf hs t' (insert a (S - set_option old))"
  proof (cases "p < length ?c")
    case True
    have old: "old = Some (?c ! p)" "t' = t\<lparr>ht_list := (ht_list t)[i := ?c[p := a]]\<rparr>"
      using a(2) True by (simp_all add: HandleTable_Insert_def ip Let_def)
    have in_S: "?c ! p \<in> S" using f(3) [OF True] by simp
    then have "0 < card S" using fin card_gt_0_iff by blast
    then have S: "card (insert a (S - {?c ! p})) = card S" "?c ! p \<in> S" using in_S a(1) fin by simp_all
    have "\<forall>b \<in> set (?c[p := a]). slot (h_hash (the (hs b))) (ht_length t) = i"
      using sl f(1) set_update_subset_insert [of ?c p a] by auto
    moreover have "mset ?c + {#a#} = mset (?c[p := a]) + {#?c ! p#}" using True nth_mem_mset [OF True] by (simp add: mset_update)
    moreover have "mset_set S + {#a#} = mset_set (insert a (S - {?c ! p})) + {#?c ! p#}"
      using a(1) fin S(2) by (simp add: mset_set.remove)
    ultimately have "ht_wf hs (t\<lparr>ht_list := (ht_list t)[i := ?c[p := a]], ht_elems := card S\<rparr>) (insert a (S - {?c ! p}))"
      using ht_wf_I [OF wf(1) f(2), of "?c[p := a]" "{#a#}" "{#?c ! p#}" "insert a (S - {?c ! p})"] fin S(1) by simp
    moreover have "ht_elems t = card S" using wf(1) by (simp add: ht_wf_def)
    ultimately show ?thesis using old by (simp add: ht_wf_def)
  next
    case False
    let ?t = "t\<lparr>ht_list := (ht_list t)[i := ?c @ [a]], ht_elems := ht_elems t + 1\<rparr>"
    have old: "old = None" "t' = (if ht_elems ?t > ht_length ?t then Resize hs ?t else ?t)"
      using a(2) False by (auto simp: HandleTable_Insert_def ip Let_def)
    have "ht_elems t + 1 = card (insert a S)" using wf(1) fin a(1) by (simp add: ht_wf_def)
    moreover have "\<forall>b \<in> set (?c @ [a]). slot (h_hash (the (hs b))) (ht_length t) = i" using sl f(1) by simp
    ultimately have "ht_wf hs ?t (insert a S)"
      using ht_wf_I [OF wf(1) f(2), of "?c @ [a]" "{#a#}" "{#}" "insert a S"] fin a(1) by simp
    moreover from this have "ht_wf hs (Resize hs ?t) (insert a S)" by (intro ht_wf_Resize) (auto simp: ht_wf_def)
    ultimately show ?thesis using old by simp
  qed
qed

lemma HandleTable_Remove_wf:
  assumes wf: "ht_wf hs t S" and r: "HandleTable_Remove hs t key hash = (r, t')"
  shows "r = HandleTable_Lookup hs t key hash" "ht_wf hs t' (S - set_option r)"
proof -
  obtain i p where ip: "FindPointer hs t key hash = (i, p)" by fastforce
  note f = FindPointer_place [OF wf(1) ip]
  let ?c = "ht_list t ! i"
  show "r = HandleTable_Lookup hs t key hash"
    using r by (auto simp: HandleTable_Remove_def HandleTable_Lookup_def ip Let_def split: if_splits)
  have fin: "finite S" using wf by (auto simp: ht_wf_def)
  show "ht_wf hs t' (S - set_option r)"
  proof (cases "p < length ?c")
    case True
    let ?c' = "take p ?c @ drop (p + 1) ?c"
    have c: "?c = take p ?c @ ?c ! p # drop (p + 1) ?c" using id_take_nth_drop [OF True] by simp
    have m: "mset ?c = mset ?c' + {#?c ! p#}" by (subst c) simp
    have "\<forall>b \<in> set ?c'. slot (h_hash (the (hs b))) (ht_length t) = i"
      using wf(1) f(2) by (auto simp: ht_wf_def dest: in_set_takeD in_set_dropD)
    then have "ht_wf hs (t\<lparr>ht_list := (ht_list t)[i := ?c'], ht_elems := card (S - {?c ! p})\<rparr>) (S - {?c ! p})"
      using ht_wf_I [OF wf(1) f(2), of ?c' "{#}" "{#?c ! p#}" "S - {?c ! p}"] m fin f(3) [OF True]
      by (simp add: mset_set.remove)
    moreover have "card (S - {?c ! p}) = ht_elems t - 1" using wf(1) fin f(3) [OF True] by (simp add: ht_wf_def)
    ultimately show ?thesis using r True by (auto simp: HandleTable_Remove_def ip Let_def)
  next
    case False
    then show ?thesis using r wf by (auto simp: HandleTable_Remove_def ip Let_def)
  qed
qed


subsection \<open>The invariant of a shard\<close>

text \<open>
  \<open>R\<close> counts the references to each handle. A handle is in the store exactly as long as it has
  references, and the usage is the sum of the charges of the handles in the store.
\<close>

definition refs_ok :: "'v LRUCache \<Rightarrow> nat multiset \<Rightarrow> bool" where
  "refs_ok c R \<longleftrightarrow> dom (lheap c) = set_mset R \<and> (\<forall>a \<in># R. a < next_addr c \<and> h_refs (the (lheap c a)) = count R a) \<and>
     usage c = (\<Sum>a \<in> set_mset R. h_charge (the (lheap c a)))"

text \<open>
  \<open>held\<close> counts the handles that clients have and have not released; the cache has one reference
  of its own to each handle in its table.
\<close>

definition lru_inv :: "'v LRUCache \<Rightarrow> nat multiset \<Rightarrow> bool" where
  "lru_inv c held \<longleftrightarrow>
     distinct (lru c) \<and> ht_wf (lheap c) (ltable c) (set (lru c)) \<and> keys_differ (lheap c) (set (lru c)) \<and>
     refs_ok c (mset (lru c) + held)"

lemma lru_inv_new: "lru_inv (LRUCache_new cap) {#}"
  by (simp add: lru_inv_def LRUCache_new_def ht_wf_new keys_differ_def refs_ok_def)

text \<open>The parts of a handle that stay the same while it lives.\<close>

definition same_keys :: "'v handles \<Rightarrow> 'v handles \<Rightarrow> nat set \<Rightarrow> bool" where
  "same_keys hs hs' S \<longleftrightarrow> (\<forall>a \<in> S. h_hash (the (hs' a)) = h_hash (the (hs a)) \<and>
     h_key (the (hs' a)) = h_key (the (hs a)) \<and> h_value (the (hs' a)) = h_value (the (hs a)) \<and>
     h_charge (the (hs' a)) = h_charge (the (hs a)))"

lemma same_keys_ht_wf:
  assumes "same_keys hs hs' S" "ht_wf hs t S"
  shows "ht_wf hs' t S"
proof -
  have "a \<in> S" if "i < length (ht_list t)" "a \<in> set (ht_list t ! i)" for i a
    using that assms(2) nth_mem by (fastforce simp: ht_wf_def)
  then have "\<forall>i < length (ht_list t). \<forall>a \<in> set (ht_list t ! i). slot (h_hash (the (hs' a))) (ht_length t) = i"
    using assms by (simp add: ht_wf_def same_keys_def)
  then show ?thesis using assms(2) unfolding ht_wf_def by blast
qed

lemma same_keys_differ: "same_keys hs hs' S \<Longrightarrow> keys_differ hs S \<Longrightarrow> keys_differ hs' S"
  by (simp add: same_keys_def keys_differ_def)

lemma keys_differ_subset: "keys_differ hs S \<Longrightarrow> T \<subseteq> S \<Longrightarrow> keys_differ hs T"
  by (auto simp: keys_differ_def)

lemma refs_ok_Unref:
  assumes R: "refs_ok c R" and e: "e \<in># R"
  shows "refs_ok (LRU_Unref c e) (R - {#e#})"
proof -
  obtain h where h: "lheap c e = Some h" using R e by (auto simp: refs_ok_def)
  have refs: "h_refs h = count R e" and fin: "finite (set_mset R)" using R e h by (auto simp: refs_ok_def)
  show ?thesis
  proof (cases "count R e = 1")
    case True
    then have S: "set_mset (R - {#e#}) = set_mset R - {e}"
      by (auto simp: set_eq_iff simp flip: count_greater_zero_iff)
    have "(\<Sum>a \<in> set_mset R - {e}. h_charge (the (((lheap c)(e := None)) a))) = (\<Sum>a \<in> set_mset R - {e}. h_charge (the (lheap c a)))"
      by (rule sum.cong) auto
    moreover have "usage c = h_charge h + (\<Sum>a \<in> set_mset R - {e}. h_charge (the (lheap c a)))"
      using R h sum.remove [OF fin e, of "\<lambda>a. h_charge (the (lheap c a))"] by (simp add: refs_ok_def)
    ultimately have "usage c - h_charge h = (\<Sum>a \<in> set_mset R - {e}. h_charge (the (((lheap c)(e := None)) a)))" by simp
    then show ?thesis using R True h refs S by (auto simp: refs_ok_def LRU_Unref_def simp del: fun_upd_apply) auto
  next
    case False
    then have "1 < count R e" using e count_greater_zero_iff [of R e] by linarith
    then have S: "set_mset (R - {#e#}) = set_mset R" "\<not> count R e - 1 \<le> 0"
      using e by (auto simp: set_eq_iff simp flip: count_greater_zero_iff)
    have "(\<Sum>a \<in> set_mset R. h_charge (the (((lheap c)(e \<mapsto> h\<lparr>h_refs := h_refs h - 1\<rparr>)) a))) = (\<Sum>a \<in> set_mset R. h_charge (the (lheap c a)))"
      by (rule sum.cong) (auto simp: h)
    then show ?thesis using R h refs S e by (auto simp: refs_ok_def LRU_Unref_def)
  qed
qed

lemma same_keys_Unref:
  assumes "refs_ok c R" "e \<in># R" "S \<subseteq> set_mset (R - {#e#})"
  shows "same_keys (lheap c) (lheap (LRU_Unref c e)) S"
proof -
  have "e \<notin> S \<or> 1 < count R e" using assms(2,3) by (auto simp flip: count_greater_zero_iff) 
  moreover obtain h where "lheap c e = Some h" using assms(1,2) by (auto simp: refs_ok_def)
  moreover from this have "h_refs h = count R e" using assms(1,2) by (auto simp: refs_ok_def)
  ultimately show ?thesis by (auto simp: same_keys_def LRU_Unref_def Let_def)
qed


lemma lru_inv_Release:
  assumes "lru_inv c held" "e \<in># held"
  shows "lru_inv (LRU_Release c e) (held - {#e#})"
proof -
  let ?R = "mset (lru c) + held"
  have R: "refs_ok c ?R" "e \<in># ?R" "?R - {#e#} = mset (lru c) + (held - {#e#})" using assms by (auto simp: lru_inv_def)
  have "same_keys (lheap c) (lheap (LRU_Unref c e)) (set (lru c))" by (rule same_keys_Unref [OF R(1,2)]) (auto simp: R(3))
  then show ?thesis using assms(1) refs_ok_Unref [OF R(1,2)] R(3)
    by (simp add: lru_inv_def LRU_Release_def same_keys_ht_wf same_keys_differ)
qed

text \<open>Taking a handle out of the list and dropping the reference of the cache, once the table has let it go.\<close>

lemma lru_inv_drop:
  assumes "distinct (lru c)" "ht_wf (lheap c) (ltable c) (set (lru c) - {e})" "keys_differ (lheap c) (set (lru c) - {e})"
    and R: "refs_ok c (mset (lru c) + held)" and e: "e \<in> set (lru c)"
  shows "lru_inv (LRU_drop c e) held"
proof -
  let ?c = "LRU_Remove c e"
  have lru: "lru ?c = remove1 e (lru c)" "set (lru ?c) = set (lru c) - {e}" "distinct (lru ?c)"
    using assms(1) by (simp_all add: LRU_Remove_def)
  have R': "refs_ok ?c (mset (lru c) + held)" using R by (simp add: refs_ok_def LRU_Remove_def)
  have ms: "mset (lru c) + held - {#e#} = mset (lru ?c) + held" using e lru(1) by simp
  have in_R: "e \<in># mset (lru c) + held" using e by simp
  have "same_keys (lheap ?c) (lheap (LRU_Unref ?c e)) (set (lru ?c))"
    by (rule same_keys_Unref [OF R' in_R]) (auto simp: ms)
  then show ?thesis using refs_ok_Unref [OF R' in_R] ms lru(2,3) assms(2,3)
    by (simp add: lru_inv_def LRU_drop_def same_keys_ht_wf same_keys_differ LRU_Remove_def)
qed

lemma lru_inv_Lookup:
  assumes inv: "lru_inv c held" and r: "LRU_Lookup c key hash = (r, c')"
  shows "lru_inv c' (held + (case r of None \<Rightarrow> {#} | Some e \<Rightarrow> {#e#}))"
proof (cases "HandleTable_Lookup (lheap c) (ltable c) key hash")
  case None
  then show ?thesis using assms by (simp add: LRU_Lookup_def)
next
  case (Some e)
  let ?R = "mset (lru c) + held"
  let ?h = "the (lheap c e)"
  let ?hs = "(lheap c)(e \<mapsto> ?h\<lparr>h_refs := h_refs ?h + 1\<rparr>)"
  have e: "e \<in> set (lru c)" using Some HandleTable_Lookup_iff inv by (fastforce simp: lru_inv_def)
  have c': "r = Some e" "lru c' = remove1 e (lru c) @ [e]" "lheap c' = ?hs" "ltable c' = ltable c" "usage c' = usage c"
      "next_addr c' = next_addr c"
    using r Some by (auto simp: LRU_Lookup_def LRU_Append_def LRU_Remove_def Let_def)
  have sets: "set (lru c') = set (lru c)" "distinct (lru c')" "mset (lru c') = mset (lru c)"
    using inv e c'(2) by (auto simp: lru_inv_def)
  have same: "same_keys (lheap c) ?hs (set (lru c))" by (simp add: same_keys_def)
  have "(\<Sum>a \<in> set_mset ?R. h_charge (the (?hs a))) = (\<Sum>a \<in> set_mset ?R. h_charge (the (lheap c a)))"
    by (rule sum.cong) auto
  moreover have R: "refs_ok c ?R" using inv by (simp add: lru_inv_def)
  moreover have S: "set_mset (?R + {#e#}) = set_mset ?R" using e by auto
  ultimately have "refs_ok c' (?R + {#e#})"
    unfolding refs_ok_def S c' using e by auto
  then show ?thesis using inv sets same c' by (simp add: lru_inv_def same_keys_ht_wf same_keys_differ)
qed

lemma lru_inv_Erase:
  assumes "lru_inv c held"
  shows "lru_inv (LRU_Erase c key hash) held"
proof -
  obtain r t where r: "HandleTable_Remove (lheap c) (ltable c) key hash = (r, t)" by fastforce
  have wf: "ht_wf (lheap c) (ltable c) (set (lru c))" "keys_differ (lheap c) (set (lru c))" using assms by (auto simp: lru_inv_def)
  note rm = HandleTable_Remove_wf [OF wf(1) r]
  show ?thesis
  proof (cases r)
    case None
    then show ?thesis using assms rm by (simp add: LRU_Erase_def r lru_inv_def refs_ok_def)
  next
    case (Some e)
    have "e \<in> set (lru c)" using rm(1) [symmetric] Some HandleTable_Lookup_iff [OF wf] by auto
    then have "lru_inv (LRU_drop (c\<lparr>ltable := t\<rparr>) e) held"
      using assms rm(2) Some keys_differ_subset [OF wf(2)] by (intro lru_inv_drop) (auto simp: lru_inv_def refs_ok_def)
    then show ?thesis by (simp add: LRU_Erase_def r Some)
  qed
qed

lemma evict_oldest_eq: "lru_inv c held \<Longrightarrow> lru c \<noteq> [] \<Longrightarrow>
  evict_oldest c = LRU_Erase c (h_key (the (lheap c (hd (lru c))))) (h_hash (the (lheap c (hd (lru c)))))"
proof -
  assume inv: "lru_inv c held" and ne: "lru c \<noteq> []"
  let ?e = "hd (lru c)"
  have wf: "ht_wf (lheap c) (ltable c) (set (lru c))" "keys_differ (lheap c) (set (lru c))" using inv by (auto simp: lru_inv_def)
  have "HandleTable_Lookup (lheap c) (ltable c) (h_key (the (lheap c ?e))) (h_hash (the (lheap c ?e))) = Some ?e"
    using HandleTable_Lookup_iff [OF wf] ne by (auto simp: matches_def)
  then obtain t where "HandleTable_Remove (lheap c) (ltable c) (h_key (the (lheap c ?e))) (h_hash (the (lheap c ?e))) = (Some ?e, t)"
    using HandleTable_Remove_wf(1) [OF wf(1)] by (metis surj_pair)
  moreover have "c\<lparr>lru := x, ltable := t\<rparr> = c\<lparr>ltable := t, lru := x\<rparr>" for x t by simp
  ultimately show ?thesis by (simp only: evict_oldest_def LRU_Erase_def LRU_drop_def LRU_Remove_def Let_def prod.case option.case) simp
qed

lemma lru_inv_evict_loop: "lru_inv c held \<Longrightarrow> lru_inv (evict_loop c) held"
proof (induction c rule: evict_loop.induct)
  case (1 c)
  then show ?case by (subst evict_loop.simps) (simp add: evict_oldest_eq lru_inv_Erase)
qed


text \<open>The cache after a new handle has been made and before the table has it.\<close>

definition LRU_add :: "'v LRUCache \<Rightarrow> bytes \<Rightarrow> uint32 \<Rightarrow> 'v \<Rightarrow> uint64 \<Rightarrow> 'v LRUCache" where
  "LRU_add c key hash value charge =
     c\<lparr>lheap := (lheap c)(next_addr c \<mapsto> \<lparr>h_value = value, h_charge = charge, h_refs = 2, h_hash = hash, h_key = key\<rparr>),
       next_addr := next_addr c + 1, lru := lru c @ [next_addr c], usage := usage c + charge\<rparr>"

lemma LRU_Insert_eq:
  "LRU_Insert c key hash value charge =
     (let c1 = LRU_add c key hash value charge; (old, t) = HandleTable_Insert (lheap c1) (ltable c) (next_addr c); c2 = c1\<lparr>ltable := t\<rparr>
      in (next_addr c, evict_loop (case old of None \<Rightarrow> c2 | Some old \<Rightarrow> LRU_drop c2 old)))"
  by (simp add: LRU_Insert_def LRU_add_def LRU_Append_def Let_def split: prod.split option.split)

lemma refs_ok_add:
  assumes "refs_ok c (mset (lru c) + held)"
  shows "refs_ok (LRU_add c key hash value charge)
     (mset (lru (LRU_add c key hash value charge)) + (held + {#next_addr c#}))"
proof -
  let ?e = "next_addr c" and ?R = "mset (lru c) + held" and ?c = "LRU_add c key hash value charge"
  have fresh: "?e \<notin># ?R" using assms by (auto simp: refs_ok_def)
  have R: "mset (lru ?c) + (held + {#?e#}) = ?R + {#?e, ?e#}" by (simp add: LRU_add_def)
  have "(\<Sum>a \<in> set_mset ?R. h_charge (the (lheap ?c a))) = (\<Sum>a \<in> set_mset ?R. h_charge (the (lheap c a)))"
    using fresh by (intro sum.cong) (auto simp: LRU_add_def)
  moreover have "set_mset (?R + {#?e, ?e#}) = insert ?e (set_mset ?R)" by auto
  moreover have "count ?R ?e = 0" using fresh by (simp only: not_in_iff)
  moreover have "dom (lheap ?c) = insert ?e (dom (lheap c))" by (auto simp: LRU_add_def)
  moreover have "\<forall>a \<in> set_mset ?R. a < next_addr ?c \<and> h_refs (the (lheap ?c a)) = count (?R + {#?e, ?e#}) a"
    using assms fresh by (auto simp: refs_ok_def LRU_add_def less_SucI)
  ultimately show ?thesis using assms fresh unfolding R refs_ok_def
    by (simp add: LRU_add_def add_ac)
qed

text \<open>The table takes the new handle in and lets an old one with its key go.\<close>

lemma Insert_old:
  assumes inv: "lru_inv c held" and ins: "HandleTable_Insert (lheap (LRU_add c key hash v charge)) (ltable c) (next_addr c) = (old, t)"
  shows "ht_wf (lheap (LRU_add c key hash v charge)) t (insert (next_addr c) (set (lru c) - set_option old))"
    "keys_differ (lheap (LRU_add c key hash v charge)) (insert (next_addr c) (set (lru c) - set_option old))"
    "old = Some b \<longleftrightarrow> b \<in> set (lru c) \<and> matches (lheap c) key hash b" "next_addr c \<notin> set (lru c)"
proof -
  let ?c = "LRU_add c key hash v charge" and ?S = "set (lru c)" and ?e = "next_addr c"
  show fresh: "?e \<notin> ?S" using inv by (auto simp: lru_inv_def refs_ok_def)
  have "same_keys (lheap c) (lheap ?c) ?S" using fresh by (auto simp: same_keys_def LRU_add_def)
  then have wf: "ht_wf (lheap ?c) (ltable c) ?S" "keys_differ (lheap ?c) ?S"
    using inv by (auto simp: lru_inv_def same_keys_ht_wf same_keys_differ)
  note ht = HandleTable_Insert_wf [OF wf fresh ins]
  show "ht_wf (lheap ?c) t (insert ?e (?S - set_option old))" by (rule ht(2))
  have key: "h_key (the (lheap ?c ?e)) = key" "h_hash (the (lheap ?c ?e)) = hash" by (simp_all add: LRU_add_def)
  have old: "old = Some b \<longleftrightarrow> b \<in> ?S \<and> matches (lheap ?c) key hash b" for b
    using HandleTable_Lookup_iff [OF wf] ht(1) key by simp
  then have "\<forall>b \<in> ?S - set_option old. \<not> matches (lheap ?c) key hash b" by fastforce
  then show "keys_differ (lheap ?c) (insert ?e (?S - set_option old))"
    using wf(2) key by (fastforce simp: keys_differ_def matches_def)
  show "old = Some b \<longleftrightarrow> b \<in> ?S \<and> matches (lheap c) key hash b"
    using old [of b] fresh by (auto simp: matches_def LRU_add_def)
qed

definition LRU_add_table :: "'v LRUCache \<Rightarrow> bytes \<Rightarrow> uint32 \<Rightarrow> 'v \<Rightarrow> uint64 \<Rightarrow> nat option \<Rightarrow> HandleTable \<Rightarrow> 'v LRUCache" where
  "LRU_add_table c key hash v charge old t =
     (let c2 = (LRU_add c key hash v charge)\<lparr>ltable := t\<rparr> in case old of None \<Rightarrow> c2 | Some old \<Rightarrow> LRU_drop c2 old)"

lemma lru_inv_add_table:
  assumes inv: "lru_inv c held" and ins: "HandleTable_Insert (lheap (LRU_add c key hash v charge)) (ltable c) (next_addr c) = (old, t)"
  shows "lru_inv (LRU_add_table c key hash v charge old t) (held + {#next_addr c#})"
proof -
  let ?c = "(LRU_add c key hash v charge)\<lparr>ltable := t\<rparr>" and ?S = "set (lru c)" and ?e = "next_addr c"
  note ht = Insert_old [OF inv ins]
  have lru: "lru ?c = lru c @ [?e]" by (simp add: LRU_add_def)
  have R: "refs_ok ?c (mset (lru ?c) + (held + {#?e#}))"
    using refs_ok_add [of c held key hash v charge] inv by (simp add: lru_inv_def refs_ok_def)
  show ?thesis
  proof (cases old)
    case None
    then show ?thesis using inv R ht(1,2,4) lru by (simp add: lru_inv_def LRU_add_table_def)
  next
    case (Some b)
    then have "b \<in> ?S" "set (lru ?c) - {b} = insert ?e (?S - {b})" using ht(3) [of b] ht(4) lru by auto
    then have "lru_inv (LRU_drop ?c b) (held + {#?e#})"
      using R ht Some inv lru by (intro lru_inv_drop) (auto simp: lru_inv_def)
    then show ?thesis using Some by (simp add: LRU_add_table_def)
  qed
qed

subsection \<open>The list of a shard and its entries\<close>

lemma lru_inv_subset: "lru_inv c held \<Longrightarrow> set (lru c) \<subseteq> dom (lheap c)" "lru_inv c held \<Longrightarrow> set_mset held \<subseteq> dom (lheap c)"
  by (auto simp: lru_inv_def refs_ok_def)

lemma lru_inv_Lookup_iff:
  "lru_inv c held \<Longrightarrow> HandleTable_Lookup (lheap c) (ltable c) key hash = Some a \<longleftrightarrow> a \<in> set (lru c) \<and> matches (lheap c) key hash a"
  by (rule HandleTable_Lookup_iff) (auto simp: lru_inv_def)

lemma same_keys_Unref': "e \<in> dom (lheap c) \<Longrightarrow> same_keys (lheap c) (lheap (LRU_Unref c e)) (dom (lheap (LRU_Unref c e)))"
  by (auto simp: same_keys_def LRU_Unref_def Let_def)

lemma dom_Unref: "e \<in> dom (lheap c) \<Longrightarrow> dom (lheap (LRU_Unref c e)) \<subseteq> dom (lheap c)"
  by (auto simp: LRU_Unref_def Let_def split: if_splits)

lemma same_keys_trans: "same_keys h1 h2 S \<Longrightarrow> same_keys h2 h3 T \<Longrightarrow> T \<subseteq> S \<Longrightarrow> same_keys h1 h3 T"
  by (auto simp: same_keys_def)

text \<open>An operation that keeps the keys and values of the handles and takes none into the store.\<close>

definition shrinks :: "'v LRUCache \<Rightarrow> 'v LRUCache \<Rightarrow> bool" where
  "shrinks c c' \<longleftrightarrow> dom (lheap c') \<subseteq> dom (lheap c) \<and> same_keys (lheap c) (lheap c') (dom (lheap c'))"

lemma shrinks_refl [simp]: "shrinks c c" by (simp add: shrinks_def same_keys_def)

lemma shrinks_trans: "shrinks c1 c2 \<Longrightarrow> shrinks c2 c3 \<Longrightarrow> shrinks c1 c3"
  unfolding shrinks_def using same_keys_trans by (metis order_trans)

lemma shrinks_Unref: "e \<in> dom (lheap c) \<Longrightarrow> shrinks c (LRU_Unref c e)"
  by (simp add: shrinks_def dom_Unref same_keys_Unref')

lemma shrinks_drop: "e \<in> dom (lheap c) \<Longrightarrow> shrinks c (LRU_drop c e)"
  using shrinks_Unref [of e "LRU_Remove c e"] by (simp add: LRU_drop_def LRU_Remove_def shrinks_def)

lemma lru_drop: "lru (LRU_drop c e) = remove1 e (lru c)"
  by (simp add: LRU_drop_def LRU_Remove_def)

lemma Erase_lru:
  assumes inv: "lru_inv c held"
  shows "shrinks c (LRU_Erase c key hash)" "lru (LRU_Erase c key hash) = [a \<leftarrow> lru c. \<not> matches (lheap c) key hash a]"
proof -
  obtain r t where r: "HandleTable_Remove (lheap c) (ltable c) key hash = (r, t)" by fastforce
  have wf: "ht_wf (lheap c) (ltable c) (set (lru c))" and d: "distinct (lru c)" and kd: "keys_differ (lheap c) (set (lru c))"
    using inv by (auto simp: lru_inv_def)
  note rm = HandleTable_Remove_wf(1) [OF wf r]
  have e: "r = Some e \<longleftrightarrow> e \<in> set (lru c) \<and> matches (lheap c) key hash e" for e using lru_inv_Lookup_iff [OF inv] rm by simp
  show "shrinks c (LRU_Erase c key hash)"
  proof (cases r)
    case (Some e)
    then have "e \<in> dom (lheap c)" using e lru_inv_subset(1) [OF inv] by blast
    then show ?thesis using Some shrinks_drop [of e "c\<lparr>ltable := t\<rparr>"] by (simp add: LRU_Erase_def r shrinks_def)
  qed (simp add: LRU_Erase_def r shrinks_def same_keys_def)
  show "lru (LRU_Erase c key hash) = [a \<leftarrow> lru c. \<not> matches (lheap c) key hash a]"
  proof (cases r)
    case None
    then show ?thesis using e by (simp add: LRU_Erase_def r filter_True)
  next
    case (Some b)
    then have b: "b \<in> set (lru c)" "matches (lheap c) key hash b" using e by auto
    have "[a \<leftarrow> lru c. b \<noteq> a] = [a \<leftarrow> lru c. \<not> matches (lheap c) key hash a]"
      using b kd by (intro filter_cong) (auto simp: keys_differ_def matches_def)
    then show ?thesis using Some d by (simp add: LRU_Erase_def r lru_drop distinct_remove1_removeAll removeAll_filter_not_eq)
  qed
qed

text \<open>The charges of the handles of a list and of those that clients have.\<close>

definition charges :: "'v handles \<Rightarrow> nat list \<Rightarrow> nat multiset \<Rightarrow> uint64" where
  "charges hs l held = (\<Sum>a \<in> set l \<union> set_mset held. h_charge (the (hs a)))"

lemma usage_charges: "lru_inv c held \<Longrightarrow> usage c = charges (lheap c) (lru c) held"
  by (simp add: lru_inv_def refs_ok_def charges_def)

lemma charges_shrinks:
  "shrinks c c' \<Longrightarrow> set l \<union> set_mset held \<subseteq> dom (lheap c') \<Longrightarrow> charges (lheap c') l held = charges (lheap c) l held"
  unfolding charges_def by (rule sum.cong) (auto simp: shrinks_def same_keys_def)

lemma evict_loop_lru:
  "lru_inv c held \<Longrightarrow> shrinks c (evict_loop c) \<and> (\<exists>n \<le> length (lru c). lru (evict_loop c) = drop n (lru c) \<and>
     (usage (evict_loop c) \<le> capacity c \<or> n = length (lru c)) \<and> (\<forall>m < n. capacity c < charges (lheap c) (drop m (lru c)) held))"
proof (induction c rule: evict_loop.induct)
  case (1 c)
  show ?case
  proof (cases "usage c > capacity c \<and> lru c \<noteq> []")
    case True
    let ?c = "evict_oldest c"
    have eq: "evict_loop c = evict_loop ?c" using True by (subst evict_loop.simps) simp
    have sh: "shrinks c ?c" using Erase_lru(1) [OF "1.prems"] evict_oldest_eq [OF "1.prems"] True by simp
    have lru: "lru ?c = drop 1 (lru c)" using True by (cases "lru c") (simp_all add: lru_evict_oldest)
    have cap: "capacity ?c = capacity c" by (simp add: evict_oldest_def LRU_Remove_def Let_def split: prod.split)
    have inv: "lru_inv ?c held" using evict_oldest_eq lru_inv_Erase "1.prems" True by metis
    obtain n where IH: "shrinks ?c (evict_loop ?c)" "n \<le> length (lru ?c)" "lru (evict_loop ?c) = drop n (lru ?c)"
        "usage (evict_loop ?c) \<le> capacity ?c \<or> n = length (lru ?c)" "\<forall>m < n. capacity ?c < charges (lheap ?c) (drop m (lru ?c)) held"
      using "1.IH" [OF True inv] by blast
    have "capacity c < charges (lheap c) (drop m (lru c)) held" if "m < Suc n" for m
    proof (cases m)
      case 0
      then show ?thesis using True usage_charges [OF "1.prems"] by simp
    next
      case (Suc k)
      have "set (drop k (lru ?c)) \<union> set_mset held \<subseteq> dom (lheap ?c)" using lru_inv_subset [OF inv] set_drop_subset by fastforce
      then have "charges (lheap ?c) (drop k (lru ?c)) held = charges (lheap c) (drop k (lru ?c)) held" by (rule charges_shrinks [OF sh])
      moreover have "capacity c < charges (lheap ?c) (drop k (lru ?c)) held" using IH(5) Suc that cap by simp
      ultimately show ?thesis using Suc by (simp add: lru)
    qed
    moreover have "Suc n \<le> length (lru c)" "lru (evict_loop c) = drop (Suc n) (lru c)" using IH(2,3) True by (auto simp: lru eq Suc_le_eq) (cases "lru c"; simp)
    moreover have "usage (evict_loop c) \<le> capacity c \<or> Suc n = length (lru c)" using IH(4) True by (cases "lru c") (auto simp: lru eq cap)
    ultimately show ?thesis using IH(1) sh shrinks_trans eq by (intro conjI exI [of _ "Suc n"]) auto
  next
    case False
    then have "evict_loop c = c" by (subst evict_loop.simps) (simp only: if_False)
    then show ?thesis using False by (auto intro: exI [of _ 0])
  qed
qed


lemma Insert_lru:
  assumes inv: "lru_inv c held" and r: "LRU_Insert c key hash v charge = (e, c')"
  shows "shrinks (LRU_add c key hash v charge) c'" "e = next_addr c"
    "\<exists>n. lru c' = drop n ([a \<leftarrow> lru c. \<not> matches (lheap c) key hash a] @ [e])"
    "usage c' \<le> capacity c \<or> lru c' = []" "lru_inv c' (held + {#e#})"
    "\<exists>n \<le> Suc (length [a \<leftarrow> lru c. \<not> matches (lheap c) key hash a]). lru c' = drop n ([a \<leftarrow> lru c. \<not> matches (lheap c) key hash a] @ [e]) \<and>
      (\<forall>m < n. capacity c < charges (lheap (LRU_add c key hash v charge)) (drop m ([a \<leftarrow> lru c. \<not> matches (lheap c) key hash a] @ [e])) (held + {#e#}))"
proof -
  let ?c = "LRU_add c key hash v charge"
  obtain old t where ins: "HandleTable_Insert (lheap ?c) (ltable c) (next_addr c) = (old, t)" by fastforce
  let ?m = "LRU_add_table c key hash v charge old t"
  show e: "e = next_addr c" using r ins by (simp add: LRU_Insert_eq Let_def)
  have c': "c' = evict_loop ?m" using r ins by (simp add: LRU_Insert_eq LRU_add_table_def Let_def)
  note ht = Insert_old [OF inv ins]
  have mid: "lru_inv ?m (held + {#e#})" using lru_inv_add_table [OF inv ins] e by simp
  then show "lru_inv c' (held + {#e#})" unfolding c' by (rule lru_inv_evict_loop)
  note ev = evict_loop_lru [OF mid, folded c']
  have cap: "capacity ?m = capacity c" by (simp add: LRU_add_table_def LRU_add_def LRU_drop_def LRU_Remove_def Let_def split: option.split)
  have in_dom: "b \<in> dom (lheap (?c\<lparr>ltable := t\<rparr>))" if "old = Some b" for b
    using that ht(3) [of b] lru_inv_subset(1) [OF inv] by (auto simp: LRU_add_def)
  have "shrinks ?c (?c\<lparr>ltable := t\<rparr>)" by (simp add: shrinks_def same_keys_def)
  then have "shrinks ?c ?m"
    using shrinks_drop [OF in_dom] shrinks_trans by (cases old) (auto simp: LRU_add_table_def Let_def)
  then have sm: "shrinks ?c ?m" .
  then show "shrinks ?c c'" using ev shrinks_trans by blast
  have d: "distinct (lru c)" and kd: "keys_differ (lheap c) (set (lru c))" using inv by (auto simp: lru_inv_def)
  have l: "lru ?m = [a \<leftarrow> lru c. \<not> matches (lheap c) key hash a] @ [e]" (is "_ = ?l")
  proof (cases old)
    case None
    then show ?thesis using ht(3) e by (simp add: LRU_add_table_def LRU_add_def filter_True)
  next
    case (Some b)
    then have b: "b \<in> set (lru c)" "matches (lheap c) key hash b" using ht(3) by auto
    have "[a \<leftarrow> lru c. b \<noteq> a] = [a \<leftarrow> lru c. \<not> matches (lheap c) key hash a]"
      using b kd by (intro filter_cong) (auto simp: keys_differ_def matches_def)
    then show ?thesis using Some d b(1) ht(4) e
      by (simp add: LRU_add_table_def LRU_add_def lru_drop remove1_append distinct_remove1_removeAll removeAll_filter_not_eq)
  qed
  obtain n where n: "n \<le> length ?l" "lru c' = drop n ?l" "usage c' \<le> capacity c \<or> n = length ?l"
      "\<forall>m < n. capacity c < charges (lheap ?m) (drop m ?l) (held + {#e#})"
    using ev unfolding cap l by blast
  have ch: "charges (lheap ?m) (drop m ?l) (held + {#e#}) = charges (lheap ?c) (drop m ?l) (held + {#e#})" for m
    using lru_inv_subset [OF mid] set_drop_subset [of m ?l] unfolding l by (intro charges_shrinks [OF sm]) auto
  have "n \<le> Suc (length [a \<leftarrow> lru c. \<not> matches (lheap c) key hash a])" using n(1) by simp
  then show "\<exists>n \<le> Suc (length [a \<leftarrow> lru c. \<not> matches (lheap c) key hash a]). lru c' = drop n ?l \<and>
      (\<forall>m < n. capacity c < charges (lheap ?c) (drop m ?l) (held + {#e#}))"
    using n(2) n(4) [unfolded ch] by blast
  show "\<exists>n. lru c' = drop n ?l" "usage c' \<le> capacity c \<or> lru c' = []" using n(2,3) by auto
qed


subsection \<open>The shards together\<close>

text \<open>
  What a shard keeps: besides its invariant, that its handles belong to it by their hashes and that
  the entries it can find are those a map of the last insertions has.
\<close>

definition shard_inv :: "nat \<Rightarrow> 'v LRUCache \<Rightarrow> nat multiset \<Rightarrow> (bytes \<rightharpoonup> 'v) \<Rightarrow> bool" where
  "shard_inv s c held m \<longleftrightarrow> lru_inv c held \<and>
     (\<forall>a \<in> dom (lheap c). h_hash (the (lheap c a)) = HashSlice (h_key (the (lheap c a))) \<and> Shard (HashSlice (h_key (the (lheap c a)))) = s) \<and>
     (\<forall>a \<in> set (lru c). m (h_key (the (lheap c a))) = Some (h_value (the (lheap c a))))"

lemma shard_inv_shrinks:
  assumes "shard_inv s c held m" "shrinks c c'" "lru_inv c' held'" "set (lru c') \<subseteq> set (lru c)"
    and "\<forall>a \<in> set (lru c'). m' (h_key (the (lheap c a))) = m (h_key (the (lheap c a)))"
  shows "shard_inv s c' held' m'"
proof -
  have "set (lru c') \<subseteq> dom (lheap c')" using lru_inv_subset(1) [OF assms(3)] .
  then have "\<forall>a \<in> set (lru c'). m' (h_key (the (lheap c' a))) = Some (h_value (the (lheap c' a)))"
    using assms(1,2,4,5) by (simp add: shard_inv_def shrinks_def same_keys_def subset_iff)
  moreover have "\<forall>a \<in> dom (lheap c'). h_hash (the (lheap c' a)) = HashSlice (h_key (the (lheap c' a))) \<and> Shard (HashSlice (h_key (the (lheap c' a)))) = s"
    using assms(1,2) by (simp add: shard_inv_def shrinks_def same_keys_def subset_iff)
  ultimately show ?thesis using assms(3) by (simp add: shard_inv_def)
qed

lemma shard_inv_Lookup:
  assumes inv: "shard_inv s c held m" and r: "LRU_Lookup c key hash = (r, c')"
  shows "shard_inv s c' (held + (case r of None \<Rightarrow> {#} | Some e \<Rightarrow> {#e#})) m"
    "r = Some e \<Longrightarrow> m key = Some (h_value (the (lheap c' e)))"
proof -
  have li: "lru_inv c held" using inv by (simp add: shard_inv_def)
  have sh: "shrinks c c' \<and> set (lru c') \<subseteq> set (lru c)"
  proof (cases "HandleTable_Lookup (lheap c) (ltable c) key hash")
    case (Some e)
    then have "e \<in> set (lru c)" "e \<in> dom (lheap c)" using lru_inv_Lookup_iff [OF li] lru_inv_subset(1) [OF li] by auto
    then have c': "lru c' = remove1 e (lru c) @ [e]" "lheap c' = (lheap c)(e \<mapsto> (the (lheap c e))\<lparr>h_refs := h_refs (the (lheap c e)) + 1\<rparr>)"
      using Some r by (auto simp: LRU_Lookup_def LRU_Append_def LRU_Remove_def Let_def)
    have "dom (lheap c') = dom (lheap c)" using c'(2) \<open>e \<in> dom (lheap c)\<close> by auto
    moreover have "same_keys (lheap c) (lheap c') (dom (lheap c))" using c'(2) by (simp add: same_keys_def)
    ultimately show ?thesis using c'(1) \<open>e \<in> set (lru c)\<close> set_remove1_subset [of e "lru c"] by (auto simp: shrinks_def)
  qed (use r in \<open>simp add: LRU_Lookup_def\<close>)
  then show "shard_inv s c' (held + (case r of None \<Rightarrow> {#} | Some e \<Rightarrow> {#e#})) m"
    using shard_inv_shrinks [OF inv] lru_inv_Lookup [OF li r] by blast
  assume e: "r = Some e"
  then have "HandleTable_Lookup (lheap c) (ltable c) key hash = Some e" and
    v: "h_value (the (lheap c' e)) = h_value (the (lheap c e))"
    using r by (auto simp: LRU_Lookup_def LRU_Append_def LRU_Remove_def Let_def split: option.splits)
  then have "e \<in> set (lru c)" "h_key (the (lheap c e)) = key" using lru_inv_Lookup_iff [OF li] by (auto simp: matches_def)
  then show "m key = Some (h_value (the (lheap c' e)))" using inv v by (auto simp: shard_inv_def)
qed

lemma shard_inv_Release:
  assumes "shard_inv s c held m" "e \<in># held"
  shows "shard_inv s (LRU_Release c e) (held - {#e#}) m"
proof -
  have li: "lru_inv c held" using assms(1) by (simp add: shard_inv_def)
  have "shrinks c (LRU_Release c e)"
    using lru_inv_subset(2) [OF li] assms(2) by (auto simp: LRU_Release_def intro!: shrinks_Unref)
  then show ?thesis using shard_inv_shrinks [OF assms(1)] lru_inv_Release [OF li assms(2)] by (simp add: LRU_Release_def)
qed

lemma matches_hash:
  "shard_inv s c held m \<Longrightarrow> a \<in> set (lru c) \<Longrightarrow> matches (lheap c) key (HashSlice key) a \<longleftrightarrow> h_key (the (lheap c a)) = key"
  using lru_inv_subset(1) [of c held] by (fastforce simp: shard_inv_def matches_def)

lemma shard_inv_Erase:
  assumes "shard_inv s c held m"
  shows "shard_inv s (LRU_Erase c key (HashSlice key)) held (m(key := None))"
proof -
  have li: "lru_inv c held" using assms by (simp add: shard_inv_def)
  note er = Erase_lru [OF li, of key "HashSlice key"]
  show ?thesis
    using er matches_hash [OF assms] by (intro shard_inv_shrinks [OF assms er(1) lru_inv_Erase [OF li]]) auto
qed

lemma shard_inv_Insert:
  assumes inv: "shard_inv s c held m" and s: "Shard (HashSlice key) = s"
    and r: "LRU_Insert c key (HashSlice key) v charge = (e, c')"
  shows "shard_inv s c' (held + {#e#}) (m(key \<mapsto> v))" "h_value (the (lheap c' e)) = v"
proof -
  have li: "lru_inv c held" using inv by (simp add: shard_inv_def)
  note ins = Insert_lru [OF li r]
  let ?c = "LRU_add c key (HashSlice key) v charge"
  have d: "dom (lheap c') \<subseteq> insert e (dom (lheap c))" using ins(1,2) by (auto simp: shrinks_def LRU_add_def subset_iff)
  have fresh: "e \<notin> dom (lheap c)" using li ins(2) by (auto simp: lru_inv_def refs_ok_def)
  have "e \<in> dom (lheap c')" using lru_inv_subset(2) [OF ins(5)] by simp
  then have e: "h_key (the (lheap c' e)) = key" "h_hash (the (lheap c' e)) = HashSlice key" "h_value (the (lheap c' e)) = v"
    using ins(1,2) by (auto simp: shrinks_def same_keys_def LRU_add_def)
  then show "h_value (the (lheap c' e)) = v" by simp
  have a: "h_key (the (lheap c' a)) = h_key (the (lheap c a)) \<and> h_hash (the (lheap c' a)) = h_hash (the (lheap c a)) \<and>
      h_value (the (lheap c' a)) = h_value (the (lheap c a))" if "a \<in> dom (lheap c')" "a \<noteq> e" for a
    using that ins(1,2) by (auto simp: shrinks_def same_keys_def LRU_add_def)
  have "set (lru c') \<subseteq> insert e {a \<in> set (lru c). h_key (the (lheap c a)) \<noteq> key}"
  proof
    fix x assume "x \<in> set (lru c')"
    then have "x \<in> set ([a \<leftarrow> lru c. \<not> matches (lheap c) key (HashSlice key) a] @ [e])" using ins(3) in_set_dropD by metis
    then show "x \<in> insert e {a \<in> set (lru c). h_key (the (lheap c a)) \<noteq> key}" using matches_hash [OF inv] by auto
  qed
  moreover have "set (lru c') \<subseteq> dom (lheap c')" using lru_inv_subset(1) [OF ins(5)] .
  ultimately have x: "x = e \<or> x \<in> set (lru c) \<and> h_key (the (lheap c x)) \<noteq> key" "x \<in> dom (lheap c')" if "x \<in> set (lru c')" for x
    using that by blast+
  have "(m(key \<mapsto> v)) (h_key (the (lheap c' x))) = Some (h_value (the (lheap c' x)))" if "x \<in> set (lru c')" for x
  proof (cases "x = e")
    case False
    then show ?thesis using x [OF that] a [of x] inv by (auto simp: shard_inv_def)
  qed (use e in simp)
  moreover have "\<forall>x \<in> dom (lheap c'). h_hash (the (lheap c' x)) = HashSlice (h_key (the (lheap c' x))) \<and> Shard (HashSlice (h_key (the (lheap c' x)))) = s"
  proof
    fix x assume x: "x \<in> dom (lheap c')"
    show "h_hash (the (lheap c' x)) = HashSlice (h_key (the (lheap c' x))) \<and> Shard (HashSlice (h_key (the (lheap c' x)))) = s"
    proof (cases "x = e")
      case False
      then have "x \<in> dom (lheap c)" using x d by blast
      then show ?thesis using inv a [OF x False] by (simp add: shard_inv_def)
    qed (use e s in simp)
  qed
  ultimately show "shard_inv s c' (held + {#e#}) (m(key \<mapsto> v))" using ins(5) by (simp add: shard_inv_def)
qed


lemma Shard_less: "Shard hash < kNumShards"
proof -
  have "unat (drop_bit 28 hash) = unat hash div 2 ^ 28" by (rule unat_drop_bit_pow)
  moreover have "unat hash < 2 ^ 32" using unat_lt [of hash] by simp
  ultimately show ?thesis by (simp add: Shard_def kNumShards_def kNumShardBits_def less_mult_imp_div_less)
qed

text \<open>The handles of a shard among those that clients have.\<close>

definition held_in :: "nat \<Rightarrow> CacheHandle multiset \<Rightarrow> nat multiset" where
  "held_in s held = image_mset snd (filter_mset (\<lambda>h. fst h = s) held)"

lemma held_in_add [simp]: "held_in s (add_mset h held) = (if fst h = s then add_mset (snd h) (held_in s held) else held_in s held)"
  by (simp add: held_in_def)

lemma held_in_empty [simp]: "held_in s {#} = {#}"
  by (simp add: held_in_def)

lemma held_in_diff: "h \<in># held \<Longrightarrow> held_in s (held - {#h#}) = (if fst h = s then held_in s held - {#snd h#} else held_in s held)"
  by (auto simp: held_in_def image_mset_Diff)

lemma held_in_mem: "h \<in># held \<Longrightarrow> snd h \<in># held_in (fst h) held"
  by (force simp: held_in_def)

definition cache_inv :: "'v ShardedLRUCache \<Rightarrow> CacheHandle multiset \<Rightarrow> (bytes \<rightharpoonup> 'v) \<Rightarrow> bool" where
  "cache_inv c held m \<longleftrightarrow> length (shards c) = kNumShards \<and> (\<forall>h \<in># held. fst h < kNumShards) \<and>
     (\<forall>s < kNumShards. shard_inv s (shards c ! s) (held_in s held) m)"

lemma shard_inv_other:
  assumes "shard_inv s c held m" "Shard (HashSlice key) \<noteq> s"
  shows "shard_inv s c held (m(key := x))"
proof -
  have "h_key (the (lheap c a)) \<noteq> key" if "a \<in> set (lru c)" for a
  proof
    assume "h_key (the (lheap c a)) = key"
    moreover have "a \<in> dom (lheap c)" using assms(1) that lru_inv_subset(1) [of c held] by (auto simp: shard_inv_def)
    ultimately show False using assms by (auto simp: shard_inv_def)
  qed
  then show ?thesis using assms(1) by (simp add: shard_inv_def)
qed

lemma cache_inv_update:
  assumes "cache_inv c held m" "s < kNumShards" "shard_inv s l (held_in s held') m'"
    and "\<And>s'. s' < kNumShards \<Longrightarrow> s' \<noteq> s \<Longrightarrow> held_in s' held' = held_in s' held"
    and "\<And>s' l h. s' \<noteq> s \<Longrightarrow> shard_inv s' l h m \<Longrightarrow> shard_inv s' l h m'"
    and "\<forall>h \<in># held'. fst h < kNumShards" "shards c' = (shards c)[s := l]"
  shows "cache_inv c' held' m'"
  using assms by (auto simp: cache_inv_def nth_list_update)

lemma cache_inv_new: "cache_inv (NewLRUCache cap) {#} Map.empty"
  by (auto simp: cache_inv_def NewLRUCache_def Let_def shard_inv_def lru_inv_new) (auto simp: LRUCache_new_def)

lemma cache_inv_Insert:
  assumes inv: "cache_inv c held m" and r: "Cache_Insert c key v charge = (h, c')"
  shows "cache_inv c' (held + {#h#}) (m(key \<mapsto> v))" "Cache_Value c' h = v"
proof -
  let ?s = "Shard (HashSlice key)"
  obtain e l where l: "LRU_Insert (shards c ! ?s) key (HashSlice key) v charge = (e, l)" by fastforce
  have h: "h = (?s, e)" "shards c' = (shards c)[?s := l]" using r l by (auto simp: Cache_Insert_def Let_def)
  have s: "?s < kNumShards" by (rule Shard_less)
  then have sh: "shard_inv ?s (shards c ! ?s) (held_in ?s held) m" using inv by (simp add: cache_inv_def)
  note ins = shard_inv_Insert [OF sh refl l]
  show "cache_inv c' (held + {#h#}) (m(key \<mapsto> v))"
    using inv ins(1) h s by (intro cache_inv_update [OF inv s]) (auto simp: cache_inv_def intro: shard_inv_other)
  show "Cache_Value c' h = v" using ins(2) h s inv by (simp add: Cache_Value_def cache_inv_def)
qed

lemma cache_inv_Lookup:
  assumes inv: "cache_inv c held m" and r: "Cache_Lookup c key = (r, c')"
  shows "cache_inv c' (held + (case r of None \<Rightarrow> {#} | Some h \<Rightarrow> {#h#})) m"
    "r = Some h \<Longrightarrow> m key = Some (Cache_Value c' h)"
proof -
  let ?s = "Shard (HashSlice key)"
  obtain e l where l: "LRU_Lookup (shards c ! ?s) key (HashSlice key) = (e, l)" by fastforce
  have h: "r = map_option (Pair ?s) e" "shards c' = (shards c)[?s := l]" using r l by (auto simp: Cache_Lookup_def Let_def)
  have s: "?s < kNumShards" by (rule Shard_less)
  then have sh: "shard_inv ?s (shards c ! ?s) (held_in ?s held) m" using inv by (simp add: cache_inv_def)
  note lk = shard_inv_Lookup [OF sh l]
  show "cache_inv c' (held + (case r of None \<Rightarrow> {#} | Some h \<Rightarrow> {#h#})) m"
    using inv lk(1) h s by (intro cache_inv_update [OF inv s]) (auto simp: cache_inv_def split: option.splits)
  show "r = Some h \<Longrightarrow> m key = Some (Cache_Value c' h)" using lk(2) h s inv by (auto simp: Cache_Value_def cache_inv_def)
qed

lemma cache_inv_Release:
  assumes inv: "cache_inv c held m" and h: "h \<in># held"
  shows "cache_inv (Cache_Release c h) (held - {#h#}) m"
proof -
  let ?s = "fst h" and ?l = "shards c ! fst h"
  have s: "?s < kNumShards" using inv h by (auto simp: cache_inv_def)
  then have sh: "shard_inv ?s ?l (held_in ?s held) m" using inv by (simp add: cache_inv_def)
  have "snd h \<in> dom (lheap ?l)" using sh held_in_mem [OF h] lru_inv_subset(2) by (auto simp: shard_inv_def)
  then have "Shard (h_hash (the (lheap ?l (snd h)))) = ?s" using sh by (auto simp: shard_inv_def)
  then have "shards (Cache_Release c h) = (shards c)[?s := LRU_Release ?l (snd h)]" by (simp add: Cache_Release_def Let_def)
  then show ?thesis
    using inv h s shard_inv_Release [OF sh held_in_mem [OF h]]
    by (intro cache_inv_update [OF inv s]) (auto simp: cache_inv_def held_in_diff dest: in_diffD)
qed

lemma cache_inv_Erase:
  assumes inv: "cache_inv c held m"
  shows "cache_inv (Cache_Erase c key) held (m(key := None))"
proof -
  let ?s = "Shard (HashSlice key)"
  have s: "?s < kNumShards" by (rule Shard_less)
  then have sh: "shard_inv ?s (shards c ! ?s) (held_in ?s held) m" using inv by (simp add: cache_inv_def)
  show ?thesis
    using inv shard_inv_Erase [OF sh] by (intro cache_inv_update [OF inv s])
      (auto simp: cache_inv_def Cache_Erase_def Let_def intro: shard_inv_other)
qed


subsection \<open>Clients\<close>

text \<open>
  The states that calls of the cache lead to: the handles that clients hold and have not released
  and the map of the last insertion for each key. A client releases only handles it holds.
\<close>

inductive cache_reachable :: "uint64 \<Rightarrow> 'v ShardedLRUCache \<Rightarrow> CacheHandle multiset \<Rightarrow> (bytes \<rightharpoonup> 'v) \<Rightarrow> bool" for cap where
  new: "cache_reachable cap (NewLRUCache cap) {#} Map.empty"
| insert: "cache_reachable cap c held m \<Longrightarrow> Cache_Insert c key v charge = (h, c') \<Longrightarrow>
     cache_reachable cap c' (held + {#h#}) (m(key \<mapsto> v))"
| hit: "cache_reachable cap c held m \<Longrightarrow> Cache_Lookup c key = (Some h, c') \<Longrightarrow> cache_reachable cap c' (held + {#h#}) m"
| miss: "cache_reachable cap c held m \<Longrightarrow> Cache_Lookup c key = (None, c') \<Longrightarrow> cache_reachable cap c' held m"
| release: "cache_reachable cap c held m \<Longrightarrow> h \<in># held \<Longrightarrow> cache_reachable cap (Cache_Release c h) (held - {#h#}) m"
| erase: "cache_reachable cap c held m \<Longrightarrow> cache_reachable cap (Cache_Erase c key) held (m(key := None))"
| new_id: "cache_reachable cap c held m \<Longrightarrow> Cache_NewId c = (n, c') \<Longrightarrow> cache_reachable cap c' held m"

lemma cache_reachable_inv: "cache_reachable cap c held m \<Longrightarrow> cache_inv c held m"
proof (induction rule: cache_reachable.induct)
  case (insert c held m key v charge h c') then show ?case by (intro cache_inv_Insert(1))
next
  case (hit c held m key h c') then show ?case using cache_inv_Lookup(1) by fastforce
next
  case (miss c held m key c') then show ?case using cache_inv_Lookup(1) by fastforce
next
  case (new_id c held m n c') then show ?case by (auto simp: cache_inv_def Cache_NewId_def)
qed (simp_all add: cache_inv_new cache_inv_Release cache_inv_Erase del: fun_upd_apply)

text \<open>C39: In every state that the clients of a cache can bring about, the handles they hold are in the store, so none of them has been freed; the usage of each shard is the sum of the charges of its handles, held or cached; and a lookup that finds an entry returns the value of the last insertion under its key, never an overwritten or an erased one.\<close>

theorem cache_refines_map:
  assumes "cache_reachable cap c held m"
  shows "(\<forall>h \<in># held. lheap (shards c ! fst h) (snd h) \<noteq> None) \<and>
    (\<forall>s < kNumShards. usage (shards c ! s) = (\<Sum>a \<in> dom (lheap (shards c ! s)). h_charge (the (lheap (shards c ! s) a)))) \<and>
    (\<forall>key h c'. Cache_Lookup c key = (Some h, c') \<longrightarrow> m key = Some (Cache_Value c' h))"
proof (intro conjI)
  have inv: "cache_inv c held m" using cache_reachable_inv assms .
  then have li: "lru_inv (shards c ! s) (held_in s held)" if "s < kNumShards" for s
    using that by (simp add: cache_inv_def shard_inv_def)
  show "\<forall>h \<in># held. lheap (shards c ! fst h) (snd h) \<noteq> None"
    using inv held_in_mem lru_inv_subset(2) [OF li] by (fastforce simp: cache_inv_def)
  show "\<forall>s < kNumShards. usage (shards c ! s) = (\<Sum>a \<in> dom (lheap (shards c ! s)). h_charge (the (lheap (shards c ! s) a)))"
    using li by (simp add: lru_inv_def refs_ok_def)
  show "\<forall>key h c'. Cache_Lookup c key = (Some h, c') \<longrightarrow> m key = Some (Cache_Value c' h)"
    using cache_inv_Lookup(2) [OF inv] by blast
qed

lemma Insert_found:
  assumes "lru_inv c held" "LRU_Insert c key hash v charge = (e, c')" "lru c' \<noteq> []"
  shows "fst (LRU_Lookup c' key hash) = Some e" "h_value (the (lheap c' e)) = v"
proof -
  note ins = Insert_lru [OF assms(1,2)]
  have "e \<in> dom (lheap c')" using lru_inv_subset(2) [OF ins(5)] by simp
  then have e: "matches (lheap c') key hash e" "h_value (the (lheap c' e)) = v"
    using ins(1,2) by (auto simp: matches_def shrinks_def same_keys_def LRU_add_def)
  then show "h_value (the (lheap c' e)) = v" by simp
  have "e \<in> set (lru c')" using ins(3) assms(3) by (metis last_drop last_in_set last_snoc drop_eq_Nil leI)
  then have "HandleTable_Lookup (lheap c') (ltable c') key hash = Some e"
    using lru_inv_Lookup_iff [OF ins(5), of key hash e] e by simp
  then show "fst (LRU_Lookup c' key hash) = Some e" by (simp add: LRU_Lookup_def Let_def)
qed

lemma Lookup_lru:
  assumes "lru_inv c held" "LRU_Lookup c k h = (r, c')"
  shows "case r of None \<Rightarrow> c' = c \<and> (\<forall>a \<in> set (lru c). \<not> matches (lheap c) k h a)
    | Some a \<Rightarrow> a \<in> set (lru c) \<and> matches (lheap c) k h a \<and> lru c' = remove1 a (lru c) @ [a]"
proof (cases "HandleTable_Lookup (lheap c) (ltable c) k h")
  case None
  then show ?thesis using assms(2) lru_inv_Lookup_iff [OF assms(1), of k h] by (auto simp: LRU_Lookup_def)
next
  case (Some a)
  have "r = Some a" "lru c' = remove1 a (lru c) @ [a]"
    using assms(2) Some by (auto simp: LRU_Lookup_def LRU_Append_def LRU_Remove_def Let_def)
  then show ?thesis using Some lru_inv_Lookup_iff [OF assms(1), of k h a] by simp
qed

lemma Insert_first:
  assumes "lru_inv c held" "LRU_Insert c key hash v charge = (e, c')" "lru c = []" "usage c + charge \<le> capacity c"
  shows "lru c' = [e]"
proof -
  obtain old t where ins: "HandleTable_Insert (lheap (LRU_add c key hash v charge)) (ltable c) (next_addr c) = (old, t)" by fastforce
  then have "old = None" using Insert_old(3) [OF assms(1) ins] assms(3) by (cases old) auto
  then have "e = next_addr c" "c' = evict_loop ((LRU_add c key hash v charge)\<lparr>ltable := t\<rparr>)"
    using assms(2) ins by (auto simp: LRU_Insert_eq)
  then show ?thesis using assms(3,4) by (subst (asm) evict_loop.simps) (auto simp: LRU_add_def not_less [symmetric])
qed

definition small_cache :: "nat ShardedLRUCache" where
  "small_cache = snd (Cache_Insert (NewLRUCache 160) [1] 7 1)"

theorem cache_refines_map_witness:
  "Cache_Value (snd (Cache_Lookup small_cache [1])) (the (fst (Cache_Lookup small_cache [1]))) = 7 \<and>
   fst (Cache_Lookup small_cache [1]) \<noteq> None"
proof -
  let ?s = "Shard (HashSlice [1])"
  have s: "?s < kNumShards" by (rule Shard_less)
  have shard: "shards (NewLRUCache 160 :: nat ShardedLRUCache) ! ?s = LRUCache_new 10" "?s < length (shards (NewLRUCache 160 :: nat ShardedLRUCache))"
    using s by (simp_all add: NewLRUCache_def kNumShards_def kNumShardBits_def)
  obtain e l where l: "LRU_Insert (LRUCache_new 10 :: nat LRUCache) [1] (HashSlice [1]) 7 1 = (e, l)" by fastforce
  have "lru l = [e]" by (rule Insert_first [OF lru_inv_new l]) (simp_all add: LRUCache_new_def)
  then have "fst (LRU_Lookup l [1] (HashSlice [1])) = Some e" by (intro Insert_found(1) [OF lru_inv_new l]) simp
  moreover have "shards small_cache ! ?s = l" using l shard by (simp add: small_cache_def Cache_Insert_def Let_def)
  ultimately have hit: "fst (Cache_Lookup small_cache [1]) \<noteq> None" by (auto simp: Cache_Lookup_def Let_def split: prod.split)
  have r: "cache_reachable 160 small_cache ({#} + {#fst (Cache_Insert (NewLRUCache 160 :: nat ShardedLRUCache) [1] 7 1)#}) (Map.empty([1] \<mapsto> 7))"
    by (rule cache_reachable.insert [OF cache_reachable.new, where charge = 1]) (simp add: small_cache_def)
  obtain h where h: "fst (Cache_Lookup small_cache [1]) = Some h" using hit by auto
  then have "Cache_Lookup small_cache [1] = (Some h, snd (Cache_Lookup small_cache [1]))" by (metis prod.collapse)
  then have "(Map.empty([1] \<mapsto> 7)) [1 :: byte] = Some (Cache_Value (snd (Cache_Lookup small_cache [1])) h)"
    using cache_refines_map [OF r] by blast
  then show ?thesis using h by simp
qed

text \<open>C40: Inserting an entry removes an older one with its key, and then the least recently used entries, the oldest
  first: as many as are needed and no more until the charges of what is left, with those of the handles that clients hold,
  fit into the capacity, or all of them. If anything is left, the entry itself is the newest, and the next
  lookup of its key finds it. A lookup finds the entry with its key, if there is one, and makes it the most recently used.\<close>

theorem cache_evicts_oldest:
  assumes "lru_inv c held" "LRU_Insert c key hash v charge = (e, c')"
  defines "entries \<equiv> [a \<leftarrow> lru c. \<not> matches (lheap c) key hash a] @ [e]"
    and "charge_left \<equiv> \<lambda>l. \<Sum>a \<in> set l \<union> set_mset held \<union> {e}. if a = e then charge else h_charge (the (lheap c a))"
  shows "(\<exists>n \<le> length entries. lru c' = drop n entries \<and> usage c' = charge_left (drop n entries) \<and>
      (charge_left (drop n entries) \<le> capacity c \<or> n = length entries) \<and> (\<forall>m < n. capacity c < charge_left (drop m entries))) \<and>
    (lru c' \<noteq> [] \<longrightarrow> fst (LRU_Lookup c' key hash) = Some e \<and> h_value (the (lheap c' e)) = v) \<and>
    (\<forall>k h r c''. LRU_Lookup c k h = (r, c'') \<longrightarrow>
      (case r of None \<Rightarrow> c'' = c \<and> (\<forall>a \<in> set (lru c). \<not> matches (lheap c) k h a)
       | Some a \<Rightarrow> a \<in> set (lru c) \<and> matches (lheap c) k h a \<and> lru c'' = remove1 a (lru c) @ [a]))"
proof (intro conjI)
  note I = Insert_lru [OF assms(1,2)]
  let ?h = "lheap (LRU_add c key hash v charge)"
  have tot: "charge_left l = charges ?h l (held + {#e#})" for l
    unfolding charge_left_def charges_def using I(2) by (intro sum.cong) (auto simp: LRU_add_def)
  obtain n where n: "n \<le> length entries" "lru c' = drop n entries" "usage c' \<le> capacity c \<or> lru c' = []"
    "\<forall>m < n. capacity c < charge_left (drop m entries)"
    using I(4,6) unfolding entries_def [symmetric] tot [symmetric] by (auto simp: entries_def)
  have "usage c' = charges (lheap c') (lru c') (held + {#e#})" by (rule usage_charges [OF I(5)])
  also have "\<dots> = charge_left (drop n entries)"
    unfolding tot n(2) [symmetric] using lru_inv_subset [OF I(5)] by (intro charges_shrinks [OF I(1)]) auto
  finally have u: "usage c' = charge_left (drop n entries)" .
  moreover have "charge_left (drop n entries) \<le> capacity c \<or> n = length entries" using n(1-3) u by auto
  ultimately show "\<exists>n \<le> length entries. lru c' = drop n entries \<and> usage c' = charge_left (drop n entries) \<and>
      (charge_left (drop n entries) \<le> capacity c \<or> n = length entries) \<and> (\<forall>m < n. capacity c < charge_left (drop m entries))"
    using n by blast
  show "lru c' \<noteq> [] \<longrightarrow> fst (LRU_Lookup c' key hash) = Some e \<and> h_value (the (lheap c' e)) = v"
    using Insert_found [OF assms(1,2)] by blast
  show "\<forall>k h r c''. LRU_Lookup c k h = (r, c'') \<longrightarrow>
      (case r of None \<Rightarrow> c'' = c \<and> (\<forall>a \<in> set (lru c). \<not> matches (lheap c) k h a)
       | Some a \<Rightarrow> a \<in> set (lru c) \<and> matches (lheap c) k h a \<and> lru c'' = remove1 a (lru c) @ [a])"
    using Lookup_lru [OF assms(1)] by blast
qed

text \<open>A shard for one entry: the second insertion evicts the first.\<close>

theorem cache_evicts_oldest_witness:
  "lru (snd (LRU_Insert (LRU_Release (snd (LRU_Insert (LRUCache_new 1 :: nat LRUCache) [1] 5 7 1)) 0) [2] 6 8 1)) = [1]"
proof -
  define c where "c = LRU_Release (snd (LRU_Insert (LRUCache_new 1 :: nat LRUCache) [1] 5 7 1)) 0"
  obtain e c1 where c1: "LRU_Insert (LRUCache_new 1 :: nat LRUCache) [1] 5 7 1 = (e, c1)" by fastforce
  have "e = 0" using c1 by (auto simp: LRU_Insert_def LRUCache_new_def Let_def split: prod.splits)
  then have inv: "lru_inv c {#}" using lru_inv_Release [OF Insert_lru(5) [OF lru_inv_new c1]] c1 by (simp add: c_def)
  have c: "lru c = [0]" "h_charge (the (lheap c 0)) = 1" "\<not> matches (lheap c) [2] 6 0" "next_addr c = 1" "capacity c = 1"
    unfolding c_def by code_simp+
  obtain e2 c2 where c2: "LRU_Insert c [2] 6 8 1 = (e2, c2)" by fastforce
  have e2: "e2 = 1" using Insert_lru(2) [OF inv c2] c(4) by simp
  have ent: "[a \<leftarrow> lru c. \<not> matches (lheap c) [2] 6 a] @ [e2] = [0, 1]" using c e2 by simp
  have "\<exists>n \<le> length [0, 1 :: nat]. lru c2 = drop n [0, 1] \<and>
      ((\<Sum>a \<in> set (drop n [0, 1]) \<union> set_mset {#} \<union> {e2}. if a = e2 then 1 else h_charge (the (lheap c a))) \<le> 1 \<or> n = length [0, 1 :: nat]) \<and>
      (\<forall>m < n. 1 < (\<Sum>a \<in> set (drop m [0, 1]) \<union> set_mset {#} \<union> {e2}. if a = e2 then 1 else h_charge (the (lheap c a))))"
    using cache_evicts_oldest [OF inv c2, unfolded ent c(5)] by blast
  then obtain n where n: "n \<le> 2" "lru c2 = drop n [0, 1]"
    "(\<Sum>a \<in> set (drop n [0, 1]) \<union> {1}. if a = 1 then 1 else h_charge (the (lheap c a))) \<le> 1 \<or> n = 2"
    "\<forall>m < n. 1 < (\<Sum>a \<in> set (drop m [0, 1]) \<union> {1}. if a = 1 then 1 else h_charge (the (lheap c a)))"
    unfolding e2 by (simp only: set_mset_empty Un_empty_right list.size numeral_2_eq_2 One_nat_def add_0 add_Suc) blast
  have "set (drop 0 [0, 1]) \<union> {1} = {0, 1 :: nat}" "\<not> (2 :: uint64) \<le> 1" by (auto simp: word_le_nat_alt)
  then have "n \<noteq> 0" using n(3) c(2) by (cases n) (simp_all del: drop_0)
  moreover have "n \<noteq> 2" using n(4) [rule_format, of 1] by auto
  ultimately have "n = 1" using n(1) by linarith
  then show ?thesis using n(2) c2 by (simp add: c_def)
qed

end
