(* ===== verification/Cache_Values.thy ===== *)
theory Cache_Values
  imports Cache
begin

text \<open>
  No value of the LRU cache is lost: a value that was inserted is in the store, or its deleter has
  been called, and it is called once.
\<close>

definition live_values :: "'v LRUCache \<Rightarrow> 'v multiset" where
  "live_values c = image_mset (\<lambda>a. h_value (the (lheap c a))) (mset_set (dom (lheap c)))"

definition all_values :: "'v LRUCache \<Rightarrow> 'v multiset" where
  "all_values c = live_values c + image_mset snd (mset (deleted c))"

lemma lru_inv_finite: "lru_inv c held \<Longrightarrow> finite (dom (lheap c))"
  by (simp add: lru_inv_def refs_ok_def)

lemma all_values_lru [simp]:
  "all_values (c\<lparr>lru := l\<rparr>) = all_values c" "all_values (c\<lparr>ltable := t\<rparr>) = all_values c" "all_values (c\<lparr>usage := u\<rparr>) = all_values c"
  by (simp_all add: all_values_def live_values_def)

lemma live_values_upd:
  assumes "finite (dom (lheap c))" "lheap c e = Some h" "h_value h' = h_value h"
  shows "live_values (c\<lparr>lheap := (lheap c)(e \<mapsto> h')\<rparr>) = live_values c"
proof -
  have "dom ((lheap c)(e \<mapsto> h')) = dom (lheap c)" using assms(2) by auto
  then show ?thesis unfolding live_values_def using assms by (auto intro!: image_mset_cong)
qed

lemma all_values_Unref:
  assumes "finite (dom (lheap c))" "e \<in> dom (lheap c)"
  shows "all_values (LRU_Unref c e) = all_values c"
proof -
  obtain h where h: "lheap c e = Some h" using assms(2) by blast
  show ?thesis
  proof (cases "h_refs h - 1 \<le> 0")
    case True
    have "mset_set (dom (lheap c)) = add_mset e (mset_set (dom (lheap c) - {e}))" using assms by (rule mset_set.remove)
    moreover have "image_mset (\<lambda>a. h_value (the (((lheap c)(e := None)) a))) (mset_set (dom (lheap c) - {e})) =
        image_mset (\<lambda>a. h_value (the (lheap c a))) (mset_set (dom (lheap c) - {e}))"
      using assms(1) by (auto intro!: image_mset_cong)
    ultimately show ?thesis using True h by (simp add: all_values_def live_values_def LRU_Unref_def)
  next
    case False
    have "live_values (c\<lparr>lheap := (lheap c)(e \<mapsto> h\<lparr>h_refs := h_refs h - 1\<rparr>)\<rparr>) = live_values c"
      by (rule live_values_upd [OF assms(1) h]) simp
    then show ?thesis using False h by (simp add: all_values_def LRU_Unref_def)
  qed
qed

lemma all_values_drop:
  "finite (dom (lheap c)) \<Longrightarrow> e \<in> dom (lheap c) \<Longrightarrow> all_values (LRU_drop c e) = all_values c"
  by (simp add: LRU_drop_def LRU_Remove_def all_values_Unref)

lemma all_values_Lookup:
  assumes "lru_inv c held" "LRU_Lookup c key hash = (r, c')"
  shows "all_values c' = all_values c"
proof (cases "HandleTable_Lookup (lheap c) (ltable c) key hash")
  case (Some e)
  then have "e \<in> dom (lheap c)" using lru_inv_Lookup_iff [OF assms(1)] lru_inv_subset(1) [OF assms(1)] by auto
  then obtain h where h: "lheap c e = Some h" by blast
  have "live_values (c\<lparr>lheap := (lheap c)(e \<mapsto> h\<lparr>h_refs := h_refs h + 1\<rparr>)\<rparr>) = live_values c"
    by (rule live_values_upd [OF lru_inv_finite [OF assms(1)] h]) simp
  then show ?thesis using assms(2) Some h by (auto simp: LRU_Lookup_def LRU_Append_def LRU_Remove_def all_values_def live_values_def)
qed (use assms(2) in \<open>simp add: LRU_Lookup_def\<close>)

lemma all_values_Erase:
  assumes "lru_inv c held"
  shows "all_values (LRU_Erase c key hash) = all_values c"
proof -
  obtain r t where r: "HandleTable_Remove (lheap c) (ltable c) key hash = (r, t)" by fastforce
  have "ht_wf (lheap c) (ltable c) (set (lru c))" using assms by (simp add: lru_inv_def)
  then have "r = HandleTable_Lookup (lheap c) (ltable c) key hash" using HandleTable_Remove_wf(1) r by blast
  then have "e \<in> dom (lheap c)" if "r = Some e" for e
    using that lru_inv_Lookup_iff [OF assms, of key hash e] lru_inv_subset(1) [OF assms] by auto
  then show ?thesis using lru_inv_finite [OF assms] by (cases r) (auto simp: LRU_Erase_def r all_values_drop)
qed

lemma all_values_evict_loop: "lru_inv c held \<Longrightarrow> all_values (evict_loop c) = all_values c"
proof (induction c rule: evict_loop.induct)
  case (1 c)
  then show ?case by (subst evict_loop.simps) (simp add: evict_oldest_eq lru_inv_Erase all_values_Erase)
qed

lemma all_values_Insert:
  assumes "lru_inv c held" "LRU_Insert c key hash v charge = (e, c')"
  shows "all_values c' = add_mset v (all_values c)"
proof -
  let ?c = "LRU_add c key hash v charge"
  obtain old t where ins: "HandleTable_Insert (lheap ?c) (ltable c) (next_addr c) = (old, t)" by fastforce
  have c': "c' = evict_loop (LRU_add_table c key hash v charge old t)"
    using assms(2) ins by (auto simp: LRU_Insert_eq LRU_add_table_def Let_def)
  have fresh: "next_addr c \<notin> dom (lheap c)" using assms(1) by (auto simp: lru_inv_def refs_ok_def)
  have fin: "finite (dom (lheap c))" by (rule lru_inv_finite [OF assms(1)])
  have d: "dom (lheap ?c) = insert (next_addr c) (dom (lheap c))" by (auto simp: LRU_add_def)
  have "image_mset (\<lambda>a. h_value (the (lheap ?c a))) (mset_set (dom (lheap c))) = live_values c"
    unfolding live_values_def using fin fresh by (intro image_mset_cong) (auto simp: LRU_add_def)
  then have "live_values ?c = add_mset v (live_values c)"
    using fin fresh unfolding live_values_def d by (simp add: LRU_add_def)
  then have add: "all_values ?c = add_mset v (all_values c)" by (simp add: all_values_def LRU_add_def)
  have "b \<in> dom (lheap ?c)" if "old = Some b" for b
    using Insert_old(3) [OF assms(1) ins] that lru_inv_subset(1) [OF assms(1)] d by auto
  then have "all_values (LRU_add_table c key hash v charge old t) = all_values ?c"
    using fin d by (cases old) (simp_all add: LRU_add_table_def all_values_drop)
  then show ?thesis using c' add all_values_evict_loop [OF lru_inv_add_table [OF assms(1) ins]] by simp
qed

subsection \<open>The sharded cache\<close>

definition cache_values :: "'v ShardedLRUCache \<Rightarrow> 'v multiset" where
  "cache_values c = (\<Sum>l \<leftarrow> shards c. all_values l)"

definition cache_deleted :: "'v ShardedLRUCache \<Rightarrow> 'v list" where
  "cache_deleted c = concat (map (\<lambda>l. map snd (deleted l)) (shards c))"

lemma sum_list_update_mset:
  fixes xs :: "'a multiset list"
  shows "s < length xs \<Longrightarrow> sum_list (xs[s := y]) + xs ! s = sum_list xs + y"
  by (induction xs arbitrary: s) (auto split: nat.splits simp: add_ac)

lemma cache_values_update:
  assumes "s < length (shards c)" "shards c' = (shards c)[s := l]" "all_values l = all_values (shards c ! s) + d"
  shows "cache_values c' = cache_values c + d"
proof -
  have "cache_values c' + all_values (shards c ! s) = cache_values c + all_values (shards c ! s) + d"
    using sum_list_update_mset [of s "map all_values (shards c)" "all_values l"] assms
    by (simp add: cache_values_def map_update add_ac)
  then show ?thesis by simp
qed

lemma cache_inv_shard: "cache_inv c held m \<Longrightarrow> s < kNumShards \<Longrightarrow> lru_inv (shards c ! s) (held_in s held) \<and> s < length (shards c)"
  by (simp add: cache_inv_def shard_inv_def)

lemma cache_values_ops:
  assumes inv: "cache_inv c held m"
  shows "Cache_Lookup c key = (r, c') \<Longrightarrow> cache_values c' = cache_values c"
    "Cache_Insert c key v charge = (h, c') \<Longrightarrow> cache_values c' = add_mset v (cache_values c)"
    "cache_values (Cache_Erase c key) = cache_values c"
    "h \<in># held \<Longrightarrow> cache_values (Cache_Release c h) = cache_values c"
proof -
  let ?s = "Shard (HashSlice key)"
  note s = cache_inv_shard [OF inv Shard_less, of "HashSlice key"]
  show "cache_values c' = cache_values c" if "Cache_Lookup c key = (r, c')"
  proof -
    obtain e l where l: "LRU_Lookup (shards c ! ?s) key (HashSlice key) = (e, l)" by fastforce
    then show ?thesis using s that all_values_Lookup [OF _ l]
      by (subst cache_values_update [of ?s c c' l "{#}"]) (auto simp: Cache_Lookup_def Let_def)
  qed
  show "cache_values c' = add_mset v (cache_values c)" if "Cache_Insert c key v charge = (h, c')"
  proof -
    obtain e l where l: "LRU_Insert (shards c ! ?s) key (HashSlice key) v charge = (e, l)" by fastforce
    then show ?thesis using s that all_values_Insert [OF _ l]
      by (subst cache_values_update [of ?s c c' l "{#v#}"]) (auto simp: Cache_Insert_def Let_def)
  qed
  show "cache_values (Cache_Erase c key) = cache_values c"
    using s all_values_Erase
    by (subst cache_values_update [of ?s c _ "LRU_Erase (shards c ! ?s) key (HashSlice key)" "{#}"]) (auto simp: Cache_Erase_def Let_def)
  show "cache_values (Cache_Release c h) = cache_values c" if h: "h \<in># held"
  proof -
    let ?f = "fst h" and ?l = "shards c ! fst h"
    have f: "?f < kNumShards" using inv h by (auto simp: cache_inv_def)
    note li = cache_inv_shard [OF inv f]
    have e: "snd h \<in> dom (lheap ?l)" using li held_in_mem [OF h] lru_inv_subset(2) by blast
    then have "Shard (h_hash (the (lheap ?l (snd h)))) = ?f" using inv f by (auto simp: cache_inv_def shard_inv_def)
    then have "shards (Cache_Release c h) = (shards c)[?f := LRU_Release ?l (snd h)]" by (simp add: Cache_Release_def Let_def)
    moreover have "all_values (LRU_Release ?l (snd h)) = all_values ?l"
      using all_values_Unref [OF lru_inv_finite [OF conjunct1 [OF li]] e] by (simp add: LRU_Release_def)
    ultimately show ?thesis using li by (subst cache_values_update [of ?f c _ "LRU_Release ?l (snd h)" "{#}"]) auto
  qed
qed

end
