(* ===== verification/Memenv.thy ===== *)
theory Memenv
  imports Files "HOL-Library.Char_ord" "HOL-Library.List_Lexorder"
begin

text \<open>
  The in-memory environment of \<open>helpers/memenv/memenv.cc\<close>: a map from file names to
  reference-counted files. The files live in a heap of their own, because a file that is
  deleted or replaced stays alive while a handle refers to it.
\<close>

subsection \<open>State\<close>

text \<open>
  \<open>file_map\<close> is the ordered map of the source; \<open>handles\<close> lists the address each open
  handle object refers to, once per handle.
\<close>

record MemEnv =
  heap :: "nat \<Rightarrow> FileState option"
  next_addr :: nat
  file_map :: "(string \<times> nat) list"
  handles :: "nat list"

definition NewMemEnv :: MemEnv where
  "NewMemEnv = \<lparr>heap = (\<lambda>_. None), next_addr = 0, file_map = [], handles = []\<rparr>"

fun map_put :: "'k::linorder \<Rightarrow> 'v \<Rightarrow> ('k \<times> 'v) list \<Rightarrow> ('k \<times> 'v) list" where
  "map_put k v [] = [(k, v)]"
| "map_put k v ((k', v') # m) =
     (if k < k' then (k, v) # (k', v') # m
      else if k = k' then (k, v) # m
      else (k', v') # map_put k v m)"

definition map_erase :: "'k \<Rightarrow> ('k \<times> 'v) list \<Rightarrow> ('k \<times> 'v) list" where
  "map_erase k m = filter (\<lambda>e. fst e \<noteq> k) m"

definition heap_Ref :: "nat \<Rightarrow> MemEnv \<Rightarrow> MemEnv" where
  "heap_Ref a env = env\<lparr>heap := (heap env)(a := map_option FileState_Ref (heap env a))\<rparr>"

definition heap_Unref :: "nat \<Rightarrow> MemEnv \<Rightarrow> MemEnv" where
  "heap_Unref a env =
     env\<lparr>heap := (heap env)(a := (case heap env a of None \<Rightarrow> None | Some f \<Rightarrow> FileState_Unref f))\<rparr>"

subsection \<open>Operations\<close>

text \<open>
  Opening for sequential and for random access differ only in the class of the handle. A
  handle is the address it refers to.
\<close>

definition NewReadableFile :: "MemEnv \<Rightarrow> string \<Rightarrow> Status \<times> nat option \<times> MemEnv" where
  "NewReadableFile env fname =
     (case map_of (file_map env) fname of
        None \<Rightarrow> (IOError fname ''File not found'', None, env)
      | Some a \<Rightarrow> (OK, Some a, heap_Ref a (env\<lparr>handles := a # handles env\<rparr>)))"

definition DeleteFileInternal :: "MemEnv \<Rightarrow> string \<Rightarrow> MemEnv" where
  "DeleteFileInternal env fname =
     (case map_of (file_map env) fname of
        None \<Rightarrow> env
      | Some a \<Rightarrow> (let env' = heap_Unref a env in env'\<lparr>file_map := map_erase fname (file_map env')\<rparr>))"

definition NewWritableFile :: "MemEnv \<Rightarrow> string \<Rightarrow> Status \<times> nat option \<times> MemEnv" where
  "NewWritableFile env fname =
     (let env1 = (if map_of (file_map env) fname \<noteq> None then DeleteFileInternal env fname else env);
          a = next_addr env1;
          env2 = env1\<lparr>heap := (heap env1)(a \<mapsto> FileState_Ref FileState_new),
                      next_addr := a + 1, file_map := map_put fname a (file_map env1),
                      handles := a # handles env1\<rparr>
      in (OK, Some a, heap_Ref a env2))"

definition FileExists :: "MemEnv \<Rightarrow> string \<Rightarrow> bool" where
  "FileExists env fname \<longleftrightarrow> map_of (file_map env) fname \<noteq> None"

definition GetChildren :: "MemEnv \<Rightarrow> string \<Rightarrow> string list" where
  "GetChildren env dir =
     map (\<lambda>(filename, _). drop (length dir + 1) filename)
       (filter (\<lambda>(filename, _). length filename \<ge> length dir + 1 \<and>
          filename ! length dir = CHR ''/'' \<and> take (length dir) filename = dir) (file_map env))"

definition DeleteFile :: "MemEnv \<Rightarrow> string \<Rightarrow> Status \<times> MemEnv" where
  "DeleteFile env fname =
     (case map_of (file_map env) fname of
        None \<Rightarrow> (IOError fname ''File not found'', env)
      | Some _ \<Rightarrow> (OK, DeleteFileInternal env fname))"

definition GetFileSize :: "MemEnv \<Rightarrow> string \<Rightarrow> Status \<times> nat option" where
  "GetFileSize env fname =
     (case map_of (file_map env) fname of
        None \<Rightarrow> (IOError fname ''File not found'', None)
      | Some a \<Rightarrow> (OK, map_option fsize (heap env a)))"

text \<open>
  \<open>file_map_[src]\<close> is read after the target has been deleted. When the two names are the
  same that read creates a null entry, which the following \<open>erase\<close> removes again.
\<close>

definition RenameFile :: "MemEnv \<Rightarrow> string \<Rightarrow> string \<Rightarrow> Status \<times> MemEnv" where
  "RenameFile env src target =
     (case map_of (file_map env) src of
        None \<Rightarrow> (IOError src ''File not found'', env)
      | Some _ \<Rightarrow>
          (let env1 = DeleteFileInternal env target;
               fm = (case map_of (file_map env1) src of
                       None \<Rightarrow> file_map env1
                     | Some a \<Rightarrow> map_put target a (file_map env1))
           in (OK, env1\<lparr>file_map := map_erase src fm\<rparr>)))"

text \<open>Writing through a handle, and the destructor of a handle.\<close>

definition AppendHandle :: "MemEnv \<Rightarrow> nat \<Rightarrow> bytes \<Rightarrow> Status \<times> MemEnv" where
  "AppendHandle env a data =
     (case heap env a of
        None \<Rightarrow> (OK, env)
      | Some f \<Rightarrow> (let (s, f') = FileState_Append f data in (s, env\<lparr>heap := (heap env)(a \<mapsto> f')\<rparr>)))"

definition CloseHandle :: "MemEnv \<Rightarrow> nat \<Rightarrow> MemEnv" where
  "CloseHandle env a = heap_Unref a (env\<lparr>handles := remove1 a (handles env)\<rparr>)"

subsection \<open>The environment as its clients see it\<close>

text \<open>The operations of \<open>Env\<close> on files that are written, any of which may fail; \<open>'e\<close> is the state of the
  environment and an open file is its handle in this state.  The last one is the destructor of the file.\<close>

record 'e EnvOps =
  env_NewWritableFile :: "'e \<Rightarrow> string \<Rightarrow> Status \<times> nat option \<times> 'e"
  env_DeleteFile :: "'e \<Rightarrow> string \<Rightarrow> Status \<times> 'e"
  env_RenameFile :: "'e \<Rightarrow> string \<Rightarrow> string \<Rightarrow> Status \<times> 'e"
  env_file :: "('e \<times> nat) WritableFile"
  env_delete_file :: "'e \<Rightarrow> nat \<Rightarrow> 'e"

definition EnvFileOps :: "(MemEnv \<times> nat) WritableFile" where
  "EnvFileOps =
     \<lparr>wf_Append = (\<lambda>(env, a) data. let (s, env) = AppendHandle env a data in (s, (env, a))),
      wf_Flush = (\<lambda>w. (OK, w)), wf_Sync = (\<lambda>w. (OK, w)), wf_Close = (\<lambda>w. (OK, w))\<rparr>"

definition MemEnvOps :: "MemEnv EnvOps" where
  "MemEnvOps =
     \<lparr>env_NewWritableFile = NewWritableFile, env_DeleteFile = DeleteFile, env_RenameFile = RenameFile,
      env_file = EnvFileOps, env_delete_file = CloseHandle\<rparr>"

subsection \<open>Reference counts\<close>

text \<open>
  The reference count of a file is the number of names plus the number of handles that refer
  to it; a file without references is gone; names are sorted and distinct.
\<close>

definition ref_count :: "MemEnv \<Rightarrow> nat \<Rightarrow> nat" where
  "ref_count env a = count_list (map snd (file_map env)) a + count_list (handles env) a"

definition cell_ok :: "MemEnv \<Rightarrow> nat \<Rightarrow> bool" where
  "cell_ok env a \<longleftrightarrow>
     (case heap env a of
        None \<Rightarrow> ref_count env a = 0
      | Some f \<Rightarrow> a < next_addr env \<and> 0 < ref_count env a \<and> refs f = int (ref_count env a) \<and> file_wf f)"

definition env_inv :: "MemEnv \<Rightarrow> bool" where
  "env_inv env \<longleftrightarrow> sorted_wrt (<) (map fst (file_map env)) \<and> (\<forall>a. cell_ok env a)"

lemma map_of_map_put [simp]: "map_of (map_put k v m) = (map_of m)(k \<mapsto> v)"
  by (induction k v m rule: map_put.induct) (auto simp: fun_eq_iff)

lemma map_of_map_erase [simp]: "map_of (map_erase k m) = (map_of m)(k := None)"
  by (induction m) (auto simp: map_erase_def fun_eq_iff)

lemma sorted_map_put [simp]:
  "sorted_wrt (<) (map fst m) \<Longrightarrow> sorted_wrt (<) (map fst (map_put k v m))"
proof (induction k v m rule: map_put.induct)
  case (2 k v k' v' m)
  have "set (map fst (map_put k v m)) = insert k (set (map fst m))"
    by (simp flip: dom_map_of_conv_image_fst)
  with 2 show ?case by auto
qed simp

lemma sorted_map_erase [simp]:
  "sorted_wrt (<) (map fst m) \<Longrightarrow> sorted_wrt (<) (map fst (map_erase k m))"
  by (induction m) (auto simp: map_erase_def)

lemma count_map_erase:
  "sorted_wrt (<) (map fst m) \<Longrightarrow>
    count_list (map snd m) a = count_list (map snd (map_erase (k :: 'k::linorder) m)) a +
      (if map_of m k = Some a then 1 else 0)"
proof (induction m)
  case (Cons e m)
  show ?case
  proof (cases "fst e = k")
    case True
    then have "k \<notin> set (map fst m)" using Cons.prems by auto
    then have "map_erase k m = m" "map_of m k = None"
      by (auto simp: map_erase_def filter_id_conv map_of_eq_None_iff)
    with True show ?thesis by (cases e) (auto simp: map_erase_def)
  next
    case False
    with Cons show ?thesis by (cases e) (auto simp: map_erase_def)
  qed
qed (simp add: map_erase_def)

lemma count_map_put:
  "map_of m k = None \<Longrightarrow>
    count_list (map snd (map_put k v m)) a = count_list (map snd m) a + (if v = a then 1 else 0)"
  by (induction k v m rule: map_put.induct) (auto split: if_splits)

lemma ref_count_heap [simp]: "ref_count (env\<lparr>heap := h\<rparr>) a = ref_count env a"
  by (simp add: ref_count_def)

lemma env_inv_new: "env_inv NewMemEnv"
  by (simp add: env_inv_def cell_ok_def NewMemEnv_def ref_count_def)

lemma env_invD:
  assumes "env_inv env"
  shows "sorted_wrt (<) (map fst (file_map env))"
    and "heap env a = None \<Longrightarrow> ref_count env a = 0"
    and "heap env a = Some f \<Longrightarrow> a < next_addr env \<and> 0 < ref_count env a \<and>
      refs f = int (ref_count env a) \<and> file_wf f"
  using assms by (auto simp: env_inv_def cell_ok_def dest: spec [of _ a])

lemma named_file_alive:
  assumes "env_inv env" "map_of (file_map env) fname = Some a"
  obtains f where "heap env a = Some f"
proof -
  from assms(2) have "(fname, a) \<in> set (file_map env)" by (rule map_of_SomeD)
  then have "a \<in> set (map snd (file_map env))" by force
  then have "0 < count_list (map snd (file_map env)) a"
    by (metis count_list_0_iff gr0I)
  with env_invD(2) [OF assms(1), of a] that show ?thesis
    by (cases "heap env a") (auto simp: ref_count_def)
qed

lemma handle_alive:
  assumes "env_inv env" "a \<in> set (handles env)"
  obtains f where "heap env a = Some f" "file_wf f"
proof -
  from assms(2) have "0 < count_list (handles env) a"
    by (metis count_list_0_iff gr0I)
  with env_invD(2,3) [OF assms(1), of a] that show ?thesis
    by (cases "heap env a") (auto simp: ref_count_def)
qed

subsection \<open>Every operation keeps the reference counts\<close>

text \<open>Adding a reference to a live file, and dropping one.\<close>

lemma env_inv_cell:
  assumes "env_inv env" "sorted_wrt (<) (map fst (file_map env'))" "next_addr env \<le> next_addr env'"
    and other: "\<And>b. b \<noteq> a \<Longrightarrow> heap env' b = heap env b \<and> ref_count env' b = ref_count env b"
    and "cell_ok env' a"
  shows "env_inv env'"
proof -
  have "cell_ok env' b" for b
  proof (cases "b = a")
    case False
    have "cell_ok env b" using assms(1) by (simp add: env_inv_def)
    then show ?thesis using other [OF False] assms(3) by (auto simp: cell_ok_def split: option.splits)
  qed (use assms(5) in simp)
  then show ?thesis using assms(2) by (simp add: env_inv_def)
qed

lemma heap_Ref_inv:
  assumes "env_inv env" "heap env a = Some f" "file_map env' = file_map env"
    "handles env' = a # handles env" "heap env' = heap env" "next_addr env' = next_addr env"
  shows "env_inv (heap_Ref a env')"
  using assms env_invD(1) [OF assms(1)] env_invD(3) [OF assms(1,2)]
  by (intro env_inv_cell [OF assms(1), of _ a])
    (auto simp: heap_Ref_def ref_count_def FileState_Ref_def file_wf_def cell_ok_def)

lemma heap_Unref_inv:
  assumes "env_inv env" and "heap env a = Some f" and "sorted_wrt (<) (map fst (file_map env'))"
    and cnt: "\<And>b. ref_count env b = ref_count env' b + (if a = b then 1 else 0)"
    and "heap env' = heap env" "next_addr env' = next_addr env"
  shows "env_inv (heap_Unref a env')"
proof (rule env_inv_cell [OF assms(1), of _ a])
  have [simp]: "ref_count (heap_Unref a env') b = ref_count env' b" for b
    by (simp add: heap_Unref_def ref_count_def)
  show "heap (heap_Unref a env') b = heap env b \<and> ref_count (heap_Unref a env') b = ref_count env b"
    if "b \<noteq> a" for b
    using that cnt [of b] assms(5) by (simp, simp add: heap_Unref_def)
  show "cell_ok (heap_Unref a env') a"
    using env_invD(3) [OF assms(1,2)] cnt [of a] assms(2,5,6)
    by (auto simp: cell_ok_def) (auto simp: heap_Unref_def FileState_Unref_def Let_def file_wf_def split: if_splits)
qed (use assms in \<open>simp_all add: heap_Unref_def\<close>)

lemma NewReadableFile_inv [preserves]:
  assumes "env_inv env" "NewReadableFile env fname = (s, h, env')"
  shows "env_inv env'"
proof (cases "map_of (file_map env) fname")
  case None
  with assms show ?thesis by (simp add: NewReadableFile_def)
next
  case (Some a)
  from named_file_alive [OF assms(1) Some] obtain f where "heap env a = Some f" .
  then have "env_inv (heap_Ref a (env\<lparr>handles := a # handles env\<rparr>))"
    by (rule heap_Ref_inv [OF assms(1)]) simp_all
  with Some assms(2) show ?thesis by (simp add: NewReadableFile_def)
qed

lemma DeleteFileInternal_inv [preserves]:
  assumes "env_inv env"
  shows "env_inv (DeleteFileInternal env fname)"
proof (cases "map_of (file_map env) fname")
  case None
  with assms show ?thesis by (simp add: DeleteFileInternal_def)
next
  case (Some a)
  let ?env = "env\<lparr>file_map := map_erase fname (file_map env)\<rparr>"
  from named_file_alive [OF assms Some] obtain f where f: "heap env a = Some f" .
  note sorted = env_invD(1) [OF assms]
  have "env_inv (heap_Unref a ?env)"
    by (rule heap_Unref_inv [OF assms f])
      (use sorted Some count_map_erase [OF sorted, of _ fname] in \<open>auto simp: ref_count_def\<close>)
  moreover have "DeleteFileInternal env fname = heap_Unref a ?env"
    using Some by (simp add: DeleteFileInternal_def heap_Unref_def)
  ultimately show ?thesis by simp
qed

lemma DeleteFileInternal_map [simp]:
  "map_of (file_map (DeleteFileInternal env fname)) = (map_of (file_map env))(fname := None)"
  by (auto simp: DeleteFileInternal_def heap_Unref_def Let_def fun_eq_iff split: option.splits)

lemma DeleteFile_inv [preserves]:
  "env_inv env \<Longrightarrow> DeleteFile env fname = (s, env') \<Longrightarrow> env_inv env'"
  by (auto simp: DeleteFile_def DeleteFileInternal_inv split: option.splits)

lemma next_addr_free:
  assumes "env_inv env"
  shows "heap env (next_addr env) = None" "ref_count env (next_addr env) = 0"
  using env_invD(2,3) [OF assms, of "next_addr env"] by (cases "heap env (next_addr env)"; auto)+

lemma NewWritableFile_inv [preserves]:
  assumes "env_inv env" "NewWritableFile env fname = (s, h, env')"
  shows "env_inv env'"
proof -
  define e where "e = (if map_of (file_map env) fname \<noteq> None then DeleteFileInternal env fname else env)"
  define a where "a = next_addr e"
  have e: "env_inv e" "map_of (file_map e) fname = None"
    using assms(1) by (auto simp: e_def DeleteFileInternal_inv)
  have cnt: "count_list (map snd (map_put fname a (file_map e))) b =
      count_list (map snd (file_map e)) b + (if a = b then 1 else 0)" for b
    using count_map_put [OF e(2)] .
  have free: "ref_count e a = 0" using next_addr_free [OF e(1)] by (simp add: a_def)
  have env': "env' = heap_Ref a (e\<lparr>heap := (heap e)(a \<mapsto> FileState_Ref FileState_new),
      next_addr := a + 1, file_map := map_put fname a (file_map e), handles := a # handles e\<rparr>)"
    using assms(2) by (simp add: NewWritableFile_def Let_def e_def a_def)
  show ?thesis
    by (rule env_inv_cell [OF e(1), of _ a])
      (use free cnt env_invD(1) [OF e(1)] in \<open>auto simp: env' heap_Ref_def FileState_Ref_def
        FileState_new_def ref_count_def file_wf_def cell_ok_def a_def\<close>)
qed

lemma CloseHandle_inv [preserves]:
  assumes "env_inv env" "a \<in> set (handles env)"
  shows "env_inv (CloseHandle env a)"
proof -
  from handle_alive [OF assms] obtain f where f: "heap env a = Some f" .
  have "count_list xs b = count_list (remove1 a xs) b + (if a = b then 1 else 0)" if "a \<in> set xs" for xs b
    using that by (induction xs) auto
  then show ?thesis
    unfolding CloseHandle_def
    by (intro heap_Unref_inv [OF assms(1) f])
      (use assms env_invD(1) [OF assms(1)] in \<open>auto simp: ref_count_def\<close>)
qed

lemma AppendHandle_inv [preserves]:
  assumes "env_inv env" "AppendHandle env a data = (s, env')"
  shows "env_inv env'"
proof (cases "heap env a")
  case None
  with assms show ?thesis by (simp add: AppendHandle_def)
next
  case (Some f)
  then have "env_inv (env\<lparr>heap := (heap env)(a \<mapsto> FileState_Append_loop f data)\<rparr>)"
    using env_invD(1) [OF assms(1)] env_invD(3) [OF assms(1) Some] FileState_Append_loop_ok [of f data]
    by (intro env_inv_cell [OF assms(1), of _ a]) (auto simp: cell_ok_def ref_count_def)
  with Some assms(2) show ?thesis by (simp add: AppendHandle_def FileState_Append_def)
qed

lemma RenameFile_inv [preserves]:
  assumes "env_inv env" "RenameFile env src target = (s, env')"
  shows "env_inv env'"
proof (cases "map_of (file_map env) src")
  case None
  with assms show ?thesis by (simp add: RenameFile_def)
next
  case (Some a)
  define e where "e = DeleteFileInternal env target"
  have inv: "env_inv e" using assms(1) by (simp add: e_def DeleteFileInternal_inv)
  have sorted: "sorted_wrt (<) (map fst (file_map e))" using env_invD(1) [OF inv] .
  show ?thesis
  proof (cases "src = target")
    case True
    then have "map_of (file_map e) src = None" by (simp add: e_def)
    then have "map_erase src (file_map e) = file_map e"
      by (auto simp: map_erase_def filter_id_conv map_of_eq_None_iff)
    with \<open>map_of (file_map e) src = None\<close> True Some assms(2) have "env' = e"
      by (simp add: RenameFile_def Let_def e_def [symmetric])
    with inv show ?thesis by simp
  next
    case False
    then have m: "map_of (file_map e) src = Some a" "map_of (file_map e) target = None"
      using Some by (simp_all add: e_def)
    define fm where "fm = map_erase src (map_put target a (file_map e))"
    have "sorted_wrt (<) (map fst fm)" using sorted by (simp add: fm_def)
    moreover have "count_list (map snd fm) b = count_list (map snd (file_map e)) b" for b
      using count_map_erase [of "map_put target a (file_map e)" b src] sorted count_map_put [OF m(2)] m False
      by (simp add: fm_def)
    then have "cell_ok (e\<lparr>file_map := fm\<rparr>) b = cell_ok e b" for b
      by (simp add: cell_ok_def ref_count_def split: option.split)
    ultimately have "env_inv (e\<lparr>file_map := fm\<rparr>)"
      using inv by (simp add: env_inv_def)
    with Some m assms(2) show ?thesis
      by (simp add: RenameFile_def Let_def e_def [symmetric] fm_def)
  qed
qed

subsection \<open>Histories of an environment\<close>

text \<open>
  One operation on the environment: opening, deleting, renaming, and appending through or closing
  a handle that is open.
\<close>

inductive env_step :: "MemEnv \<Rightarrow> MemEnv \<Rightarrow> bool" where
  open_read: "NewReadableFile env fname = (s, h, env') \<Longrightarrow> env_step env env'"
| open_write: "NewWritableFile env fname = (s, h, env') \<Longrightarrow> env_step env env'"
| delete: "DeleteFile env fname = (s, env') \<Longrightarrow> env_step env env'"
| rename: "RenameFile env src target = (s, env') \<Longrightarrow> env_step env env'"
| append: "a \<in> set (handles env) \<Longrightarrow> AppendHandle env a data = (s, env') \<Longrightarrow> env_step env env'"
| close: "a \<in> set (handles env) \<Longrightarrow> env_step env (CloseHandle env a)"

text \<open>C29: After any sequence of operations on a new in-memory environment the reference count of every
  file is the number of its names plus the number of open handles on it, no file without
  references is left and none with a reference is gone, every file is well formed, and the names
  are sorted and distinct.\<close>

theorem env_invariant: "env_step\<^sup>*\<^sup>* NewMemEnv env \<Longrightarrow> env_inv env"
proof (induction rule: rtranclp_induct)
  case (step env env')
  from step(2,3) show ?case by cases (auto dest: preserves)
qed (rule env_inv_new)

theorem env_invariant_witness:
  "env_inv (snd (DeleteFile (snd (snd (NewWritableFile NewMemEnv ''/a''))) ''/a''))"
proof (rule env_invariant)
  let ?e1 = "snd (snd (NewWritableFile NewMemEnv ''/a''))"
  have "env_step NewMemEnv ?e1" "env_step ?e1 (snd (DeleteFile ?e1 ''/a''))"
    by (metis prod.collapse open_write, metis prod.collapse delete)
  then show "env_step\<^sup>*\<^sup>* NewMemEnv (snd (DeleteFile ?e1 ''/a''))" by simp
qed

lemma DeleteFileInternal_open:
  assumes "env_inv env" "a \<in> set (handles env)" "heap env a = Some f"
  shows "\<exists>f'. heap (DeleteFileInternal env fname) a = Some f' \<and> file_content f' = file_content f"
    "handles (DeleteFileInternal env fname) = handles env" "next_addr (DeleteFileInternal env fname) = next_addr env"
proof -
  have refs: "1 < refs f" if "map_of (file_map env) fname = Some a"
  proof -
    have "(fname, a) \<in> set (file_map env)" using that by (rule map_of_SomeD)
    then have "a \<in> set (map snd (file_map env))" by force
    then have "count_list (map snd (file_map env)) a \<noteq> 0" "count_list (handles env) a \<noteq> 0"
      using assms(2) by (simp_all add: count_list_0_iff)
    then show ?thesis using env_invD(3) [OF assms(1,3)] by (simp add: ref_count_def)
  qed
  then show "\<exists>f'. heap (DeleteFileInternal env fname) a = Some f' \<and> file_content f' = file_content f"
    using assms(3)
    by (auto simp: DeleteFileInternal_def Let_def heap_Unref_def FileState_Unref_def split: option.split)
qed (simp_all add: DeleteFileInternal_def Let_def heap_Unref_def split: option.split)

text \<open>C30: A file that is deleted, replaced by a new file of its name or renamed stays what it was
  for those who have it open.\<close>

theorem open_file_survives:
  assumes "env_inv env" "a \<in> set (handles env)"
    and "env' = snd (DeleteFile env fname) \<or> env' = snd (snd (NewWritableFile env fname)) \<or> env' = snd (RenameFile env fname fname')"
  shows "\<exists>f f'. heap env a = Some f \<and> heap env' a = Some f' \<and> file_content f' = file_content f"
proof -
  obtain f where f: "heap env a = Some f" by (rule handle_alive [OF assms(1,2)])
  have "a < next_addr env" using env_invD(3) [OF assms(1) f] by simp
  then show ?thesis
    using assms(3) f DeleteFileInternal_open [OF assms(1,2) f, of fname] DeleteFileInternal_open [OF assms(1,2) f, of fname']
    by (auto simp: DeleteFile_def RenameFile_def NewWritableFile_def Let_def heap_Ref_def split: option.splits)
qed

theorem open_file_survives_witness:
  "\<exists>f'. heap (snd (DeleteFile (snd (AppendHandle (snd (snd (NewWritableFile NewMemEnv ''/a''))) 0 [5, 6])) ''/a'')) 0 = Some f' \<and>
     file_content f' = [5, 6]"
proof -
  let ?e1 = "snd (snd (NewWritableFile NewMemEnv ''/a''))" and ?e2 = "snd (AppendHandle (snd (snd (NewWritableFile NewMemEnv ''/a''))) 0 [5, 6])"
  have e1: "NewWritableFile NewMemEnv ''/a'' = (OK, Some 0, ?e1)" by (simp add: NewWritableFile_def NewMemEnv_def)
  have i1: "env_inv ?e1" by (rule NewWritableFile_inv [OF env_inv_new e1])
  have i2: "env_inv ?e2" using AppendHandle_inv [OF i1 prod.collapse [symmetric]] .
  have h: "heap ?e1 0 = Some (FileState_Ref (FileState_Ref FileState_new))" "handles ?e1 = [0]"
    by (simp_all add: NewWritableFile_def NewMemEnv_def heap_Ref_def Let_def)
  have wf: "file_wf (FileState_Ref (FileState_Ref FileState_new))" using env_invD(3) [OF i1 h(1)] by simp
  have "\<exists>f. heap ?e2 0 = Some f \<and> file_content f = [5, 6]" "0 \<in> set (handles ?e2)"
    using FileState_Append_loop_ok [OF wf, of "[5, 6]"] h
    by (auto simp: AppendHandle_def FileState_Append_def FileState_Ref_def FileState_new_def)
  then show ?thesis using open_file_survives [OF i2 _ disjI1 [OF refl], of 0 "''/a''"] by auto
qed

text \<open>Renaming a file to its own name reports success and removes the file.\<close>

theorem RenameFile_self:
  assumes "FileExists env f"
  shows "fst (RenameFile env f f) = OK \<and> \<not> FileExists (snd (RenameFile env f f)) f"
  using assms by (auto simp: RenameFile_def FileExists_def Let_def)

theorem RenameFile_self_witness:
  "FileExists (snd (snd (NewWritableFile NewMemEnv ''/a''))) ''/a'' \<and>
   \<not> FileExists (snd (RenameFile (snd (snd (NewWritableFile NewMemEnv ''/a''))) ''/a'' ''/a'')) ''/a''"
proof -
  have "FileExists (snd (snd (NewWritableFile NewMemEnv ''/a''))) ''/a''"
    by (simp add: FileExists_def NewWritableFile_def NewMemEnv_def heap_Ref_def)
  then show ?thesis using RenameFile_self by blast
qed

end
