(* ===== verification/Filename.thy ===== *)
theory Filename
  imports Logging Memenv
begin

text \<open>
  File names of a database, \<open>db/filename.cc\<close>, and the two helpers of \<open>util/env.cc\<close> that write
  and read a whole file, here over the in-memory environment.
\<close>

subsection \<open>Names\<close>

datatype FileType =
  kLogFile | kDBLockFile | kTableFile | kDescriptorFile | kCurrentFile | kTempFile | kInfoLogFile

text \<open>The conversion \<open>%06llu\<close>; the buffer of 100 bytes holds every result.\<close>

definition decimal6 :: "uint64 \<Rightarrow> string" where
  "decimal6 n = (let s = decimal (unat n) in replicate (6 - length s) (CHR ''0'') @ s)"

definition MakeFileName :: "string \<Rightarrow> uint64 \<Rightarrow> string \<Rightarrow> string" where
  "MakeFileName name number suffix = name @ ''/'' @ decimal6 number @ ''.'' @ suffix"

definition LogFileName :: "string \<Rightarrow> uint64 \<Rightarrow> string" where
  "LogFileName name number = MakeFileName name number ''log''"

definition TableFileName :: "string \<Rightarrow> uint64 \<Rightarrow> string" where
  "TableFileName name number = MakeFileName name number ''sst''"

definition DescriptorFileName :: "string \<Rightarrow> uint64 \<Rightarrow> string" where
  "DescriptorFileName dbname number = dbname @ ''/MANIFEST-'' @ decimal6 number"

definition CurrentFileName :: "string \<Rightarrow> string" where
  "CurrentFileName dbname = dbname @ ''/CURRENT''"

definition LockFileName :: "string \<Rightarrow> string" where
  "LockFileName dbname = dbname @ ''/LOCK''"

definition TempFileName :: "string \<Rightarrow> uint64 \<Rightarrow> string" where
  "TempFileName dbname number = MakeFileName dbname number ''dbtmp''"

definition InfoLogFileName :: "string \<Rightarrow> string" where
  "InfoLogFileName dbname = dbname @ ''/LOG''"

definition OldInfoLogFileName :: "string \<Rightarrow> string" where
  "OldInfoLogFileName dbname = dbname @ ''/LOG.old''"

definition ParseFileName :: "string \<Rightarrow> (uint64 \<times> FileType) option" where
  "ParseFileName fname =
     (if fname = ''CURRENT'' then Some (0, kCurrentFile)
      else if fname = ''LOCK'' then Some (0, kDBLockFile)
      else if fname = ''LOG'' \<or> fname = ''LOG.old'' then Some (0, kInfoLogFile)
      else if take 9 fname = ''MANIFEST-'' then
        (case ConsumeDecimalNumber (drop 9 fname) of
           None \<Rightarrow> None
         | Some (num, rest) \<Rightarrow> if rest \<noteq> [] then None else Some (num, kDescriptorFile))
      else
        (case ConsumeDecimalNumber fname of
           None \<Rightarrow> None
         | Some (num, suffix) \<Rightarrow>
             if suffix = ''.log'' then Some (num, kLogFile)
             else if suffix = ''.sst'' then Some (num, kTableFile)
             else if suffix = ''.dbtmp'' then Some (num, kTempFile)
             else None))"

subsection \<open>Whole files\<close>

text \<open>Writing works on any environment; reading on the one in memory.\<close>

definition string_bytes :: "string \<Rightarrow> bytes" where
  "string_bytes s = map (\<lambda>c. of_nat (of_char c)) s"

definition WriteStringToFile :: "'e EnvOps \<Rightarrow> 'e \<Rightarrow> bytes \<Rightarrow> string \<Rightarrow> Status \<times> 'e" where
  "WriteStringToFile ops env data fname =
     (case env_NewWritableFile ops env fname of
        (s, None, env) \<Rightarrow> (s, env)
      | (s, Some f, env) \<Rightarrow>
          if \<not> ok s then (s, env)
          else
            (let (s, w) = wf_Append (env_file ops) (env, f) data;
                 (s, w) = (if ok s then wf_Close (env_file ops) w else (s, w));
                 env = env_delete_file ops (fst w) (snd w)
             in if \<not> ok s then (s, snd (env_DeleteFile ops env fname)) else (s, env)))"

definition kBufferSize :: nat where "kBufferSize = 8192"

partial_function (option) ReadFileToString_loop ::
  "'f SequentialFile \<Rightarrow> 'f \<Rightarrow> bytes \<Rightarrow> (Status \<times> bytes) option" where
  "ReadFileToString_loop ops f data =
     (let (s, fragment, f) = sf_Read ops f kBufferSize in
      if \<not> ok s then Some (s, data)
      else
        (let data = data @ fragment in
         if fragment = [] then Some (s, data) else ReadFileToString_loop ops f data))"

definition ReadFileToString :: "MemEnv \<Rightarrow> string \<Rightarrow> (Status \<times> bytes \<times> MemEnv) option" where
  "ReadFileToString env fname =
     (case NewReadableFile env fname of
        (s, None, env) \<Rightarrow> Some (s, [], env)
      | (s, Some a, env) \<Rightarrow>
          (case heap env a of
             None \<Rightarrow> None
           | Some f \<Rightarrow>
               (case ReadFileToString_loop SequentialFileOps (f, 0) [] of
                  None \<Rightarrow> None
                | Some (s, data) \<Rightarrow> Some (s, data, CloseHandle env a))))"

definition SetCurrentFile :: "'e EnvOps \<Rightarrow> 'e \<Rightarrow> string \<Rightarrow> uint64 \<Rightarrow> Status \<times> 'e" where
  "SetCurrentFile ops env dbname descriptor_number =
     (let manifest = DescriptorFileName dbname descriptor_number;
          contents = drop (length dbname + 1) manifest;
          tmp = TempFileName dbname descriptor_number;
          (s, env) = WriteStringToFile ops env (string_bytes (contents @ [CHR 0x0A])) tmp;
          (s, env) = (if ok s then env_RenameFile ops env tmp (CurrentFileName dbname) else (s, env))
      in if \<not> ok s then (s, snd (env_DeleteFile ops env tmp)) else (s, env))"

text \<open>On the in-memory environment.\<close>

lemma MemEnvOps_simps [simp]:
  "env_NewWritableFile MemEnvOps = NewWritableFile" "env_DeleteFile MemEnvOps = DeleteFile" "env_RenameFile MemEnvOps = RenameFile"
  "env_file MemEnvOps = EnvFileOps" "env_delete_file MemEnvOps = CloseHandle"
  by (simp_all add: MemEnvOps_def)

subsection \<open>Names are parsed back\<close>

lemma decimal6_parse:
  assumes "rest = [] \<or> \<not> is_digit (hd rest)"
  shows "ConsumeDecimalNumber (decimal6 n @ rest) = Some (n, rest)"
proof -
  let ?z = "replicate (6 - length (decimal (unat n))) (CHR ''0'')"
  have z: "decimal_value 0 (replicate k (CHR ''0'')) = 0" for k by (induction k) simp_all
  have "ConsumeDecimalNumber ((?z @ decimal (unat n)) @ rest) = Some (n, rest)"
    using decimal_ok [of "unat n"] z unat_lt [of n]
    by (subst ConsumeDecimalNumber_eq [OF _ _ assms]) (auto simp: is_digit_def)
  then show ?thesis by (simp add: decimal6_def Let_def)
qed

lemma TableFileName_inj: "TableFileName db n = TableFileName db m \<longleftrightarrow> n = m"
proof
  assume "TableFileName db n = TableFileName db m"
  then have "decimal6 n @ ''.sst'' = decimal6 m @ ''.sst''" by (simp add: TableFileName_def MakeFileName_def)
  then have "ConsumeDecimalNumber (decimal6 n @ ''.sst'') = ConsumeDecimalNumber (decimal6 m @ ''.sst'')" by simp
  then show "n = m" using decimal6_parse [of "''.sst''"] by (simp add: is_digit_def)
qed simp

lemma decimal6_hd: "\<exists>c s. decimal6 n = c # s \<and> is_digit c"
proof -
  have "\<forall>c\<in>set (decimal6 n). is_digit c" "decimal6 n \<noteq> []"
    using decimal_ok [of "unat n"] by (auto simp: decimal6_def Let_def is_digit_def)
  then show ?thesis by (cases "decimal6 n") auto
qed

lemma ParseFileName_number:
  assumes "\<not> is_digit (hd suffix)"
  shows "ParseFileName (decimal6 n @ suffix) =
    (if suffix = ''.log'' then Some (n, kLogFile)
     else if suffix = ''.sst'' then Some (n, kTableFile)
     else if suffix = ''.dbtmp'' then Some (n, kTempFile) else None)"
proof -
  obtain c s where c: "decimal6 n = c # s" "is_digit c" using decimal6_hd by blast
  then have "c \<noteq> CHR ''C''" "c \<noteq> CHR ''L''" "c \<noteq> CHR ''M''" by (auto simp: is_digit_def)
  then have "ParseFileName (decimal6 n @ suffix) = (case ConsumeDecimalNumber (decimal6 n @ suffix) of None \<Rightarrow> None
     | Some (num, suffix) \<Rightarrow> if suffix = ''.log'' then Some (num, kLogFile)
             else if suffix = ''.sst'' then Some (num, kTableFile)
             else if suffix = ''.dbtmp'' then Some (num, kTempFile) else None)"
    using c(1) by (simp add: ParseFileName_def)
  then show ?thesis using decimal6_parse [of suffix n] assms by simp
qed

text \<open>C35: The name of every kind of file of a database, without the directory, is parsed to its kind and its number.\<close>

theorem filename_roundtrip:
  "ParseFileName (drop (length db + 1) (LogFileName db n)) = Some (n, kLogFile) \<and>
   ParseFileName (drop (length db + 1) (TableFileName db n)) = Some (n, kTableFile) \<and>
   ParseFileName (drop (length db + 1) (TempFileName db n)) = Some (n, kTempFile) \<and>
   ParseFileName (drop (length db + 1) (DescriptorFileName db n)) = Some (n, kDescriptorFile) \<and>
   ParseFileName (drop (length db + 1) (CurrentFileName db)) = Some (0, kCurrentFile) \<and>
   ParseFileName (drop (length db + 1) (LockFileName db)) = Some (0, kDBLockFile) \<and>
   ParseFileName (drop (length db + 1) (InfoLogFileName db)) = Some (0, kInfoLogFile) \<and>
   ParseFileName (drop (length db + 1) (OldInfoLogFileName db)) = Some (0, kInfoLogFile)"
proof -
  have "ParseFileName (''MANIFEST-'' @ decimal6 n) = Some (n, kDescriptorFile)"
    using decimal6_parse [of "[]" n] by (simp add: ParseFileName_def)
  moreover have "ParseFileName (decimal6 n @ ''.log'') = Some (n, kLogFile)"
    "ParseFileName (decimal6 n @ ''.sst'') = Some (n, kTableFile)"
    "ParseFileName (decimal6 n @ ''.dbtmp'') = Some (n, kTempFile)"
    by (simp_all add: ParseFileName_number is_digit_def)
  ultimately show ?thesis
    by (simp add: LogFileName_def TableFileName_def TempFileName_def MakeFileName_def DescriptorFileName_def
        CurrentFileName_def LockFileName_def InfoLogFileName_def OldInfoLogFileName_def ParseFileName_def)
qed

subsection \<open>What the named files hold\<close>

definition file_bytes :: "MemEnv \<Rightarrow> string \<Rightarrow> bytes option" where
  "file_bytes env fname =
     (case map_of (file_map env) fname of None \<Rightarrow> None | Some a \<Rightarrow> map_option file_content (heap env a))"

text \<open>Dropping references does not change the files that are left.\<close>

lemma heap_Unref_blocks: "heap (heap_Unref a env) b = Some f' \<Longrightarrow> \<exists>f. heap env b = Some f \<and> blocks f' = blocks f"
  by (auto simp: heap_Unref_def FileState_Unref_def Let_def split: if_splits option.splits)

lemma file_bytes_Unref:
  assumes "env_inv env'" "heap env' = heap (heap_Unref a env)" "map_of (file_map env') g = map_of (file_map env) g"
  shows "file_bytes env' g = file_bytes env g"
proof (cases "map_of (file_map env') g")
  case (Some b)
  then obtain f' where f': "heap env' b = Some f'" using named_file_alive [OF assms(1), of g b] by auto
  then obtain f where "heap env b = Some f" "blocks f' = blocks f" using heap_Unref_blocks [of a env b f'] assms(2) by auto
  then show ?thesis using Some f' assms(2,3) by (simp add: file_bytes_def)
qed (use assms(2,3) in \<open>simp add: file_bytes_def\<close>)

lemma file_bytes_DeleteFileInternal:
  assumes "env_inv env"
  shows "file_bytes (DeleteFileInternal env fname) g = (if g = fname then None else file_bytes env g)"
proof (cases "map_of (file_map env) fname")
  case (Some a)
  have "file_bytes (DeleteFileInternal env fname) g = file_bytes env g" if "g \<noteq> fname"
    by (rule file_bytes_Unref [OF DeleteFileInternal_inv [OF assms]])
      (use Some that in \<open>auto simp: DeleteFileInternal_def heap_Unref_def Let_def\<close>)
  then show ?thesis using DeleteFileInternal_map [of env fname] by (simp add: file_bytes_def)
next
  case None
  then show ?thesis by (simp add: DeleteFileInternal_def file_bytes_def)
qed

lemma file_bytes_CloseHandle:
  assumes "env_inv env" "a \<in> set (handles env)"
  shows "file_bytes (CloseHandle env a) g = file_bytes env g"
  by (rule file_bytes_Unref [OF CloseHandle_inv [OF assms]]) (auto simp: CloseHandle_def heap_Unref_def)

lemma NewWritableFile_ok:
  assumes "env_inv env"
  shows "\<exists>env' a. NewWritableFile env fname = (OK, Some a, env') \<and> env_inv env' \<and> a \<in> set (handles env') \<and>
    map_of (file_map env') fname = Some a \<and> count_list (map snd (file_map env')) a = 1 \<and>
    file_bytes env' = (file_bytes env)(fname := Some [])"
proof -
  define e where "e = (if map_of (file_map env) fname \<noteq> None then DeleteFileInternal env fname else env)"
  obtain env' where n: "NewWritableFile env fname = (OK, Some (next_addr e), env')"
    by (simp add: NewWritableFile_def Let_def e_def)
  have e: "env_inv e" "map_of (file_map e) fname = None" using assms by (auto simp: e_def DeleteFileInternal_inv)
  have eb: "file_bytes e g = (if g = fname then None else file_bytes env g)" for g
    using file_bytes_DeleteFileInternal [OF assms, of fname g] by (auto simp: e_def file_bytes_def)
  have env': "env' = heap_Ref (next_addr e) (e\<lparr>heap := (heap e)(next_addr e \<mapsto> FileState_Ref FileState_new),
      next_addr := next_addr e + 1, file_map := map_put fname (next_addr e) (file_map e), handles := next_addr e # handles e\<rparr>)"
    using n by (simp add: NewWritableFile_def Let_def e_def)
  have free: "b \<noteq> next_addr e" if "map_of (file_map e) g = Some b" for g b
    by (rule named_file_alive [OF e(1) that]) (use next_addr_free(1) [OF e(1)] in auto)
  have "file_bytes env' g = ((file_bytes env)(fname := Some [])) g" for g
  proof (cases "g = fname")
    case True
    then show ?thesis by (simp add: file_bytes_def env' heap_Ref_def FileState_Ref_def FileState_new_def)
  next
    case False
    then have "file_bytes env' g = file_bytes e g"
      using free [of g] by (cases "map_of (file_map e) g") (simp_all add: file_bytes_def env' heap_Ref_def)
    then show ?thesis using False eb [of g] by simp
  qed
  moreover have "count_list (map snd (file_map env')) (next_addr e) = 1"
    using next_addr_free(2) [OF e(1)] count_map_put [OF e(2), of "next_addr e" "next_addr e"]
    by (simp add: env' heap_Ref_def ref_count_def)
  ultimately show ?thesis
    using n NewWritableFile_inv [OF assms n] by (intro exI [of _ env'] exI [of _ "next_addr e"])
      (auto simp: env' heap_Ref_def)
qed

lemma count_map_snd_one:
  assumes "count_list (map snd m) a = 1" "(k, a) \<in> set m" "(k', a) \<in> set m"
  shows "k = k'"
  using assms
proof (induction m)
  case (Cons e m)
  show ?case
  proof (cases "snd e = a")
    case True
    then have "a \<notin> set (map snd m)" using Cons(2) by (simp add: count_list_0_iff)
    then have "\<And>k. (k, a) \<notin> set m" by force
    then show ?thesis using Cons(3,4) by auto
  qed (use Cons in auto)
qed simp

lemma AppendHandle_ok:
  assumes "env_inv env" "a \<in> set (handles env)" "map_of (file_map env) fname = Some a" "count_list (map snd (file_map env)) a = 1"
  shows "\<exists>env'. AppendHandle env a data = (OK, env') \<and> env_inv env' \<and> handles env' = handles env \<and>
    file_bytes env' = (file_bytes env)(fname := map_option (\<lambda>c. c @ data) (file_bytes env fname))"
proof -
  obtain f where f: "heap env a = Some f" "file_wf f" by (rule handle_alive [OF assms(1,2)])
  obtain env' where a: "AppendHandle env a data = (OK, env')" by (simp add: AppendHandle_def f(1) FileState_Append_def)
  have only: "g = fname" if "map_of (file_map env) g = Some a" for g
    using count_map_snd_one [OF assms(4)] map_of_SomeD [OF that] map_of_SomeD [OF assms(3)] by blast
  have "file_bytes env' g = ((file_bytes env)(fname := map_option (\<lambda>c. c @ data) (file_bytes env fname))) g" for g
  proof (cases "map_of (file_map env) g = Some a")
    case True
    then have "g = fname" by (rule only)
    then show ?thesis
      using True f a FileState_Append_loop_ok [OF f(2), of data] by (auto simp: AppendHandle_def FileState_Append_def file_bytes_def)
  next
    case False
    then have "g \<noteq> fname" using assms(3) by auto
    then show ?thesis
      using False f(1) a by (cases "map_of (file_map env) g") (auto simp: AppendHandle_def FileState_Append_def file_bytes_def)
  qed
  then show ?thesis using a AppendHandle_inv [OF assms(1) a] f(1) by (auto simp: AppendHandle_def FileState_Append_def)
qed

lemma WriteStringToFile_ok:
  assumes "env_inv env"
  shows "\<exists>env'. WriteStringToFile MemEnvOps env data fname = (OK, env') \<and> env_inv env' \<and> file_bytes env' = (file_bytes env)(fname := Some data)"
proof -
  obtain e1 a where e1: "NewWritableFile env fname = (OK, Some a, e1)" "env_inv e1" "a \<in> set (handles e1)"
    "map_of (file_map e1) fname = Some a" "count_list (map snd (file_map e1)) a = 1"
    "file_bytes e1 = (file_bytes env)(fname := Some [])" using NewWritableFile_ok [OF assms] by blast
  obtain e2 where e2: "AppendHandle e1 a data = (OK, e2)" "env_inv e2" "handles e2 = handles e1"
    "file_bytes e2 = (file_bytes e1)(fname := map_option (\<lambda>c. c @ data) (file_bytes e1 fname))"
    using AppendHandle_ok [OF e1(2-5)] by blast
  have h: "a \<in> set (handles e2)" using e1(3) e2(3) by simp
  have "file_bytes (CloseHandle e2 a) = (file_bytes env)(fname := Some data)"
    using file_bytes_CloseHandle [OF e2(2) h] e2(4) e1(6) by (simp add: fun_eq_iff)
  then show ?thesis using e1(1) e2(1) CloseHandle_inv [OF e2(2) h] by (simp add: WriteStringToFile_def EnvFileOps_def Let_def)
qed

lemma RenameFile_ok:
  assumes "env_inv env" "file_bytes env src = Some c" "src \<noteq> target"
  shows "\<exists>env'. RenameFile env src target = (OK, env') \<and> env_inv env' \<and>
    file_bytes env' = (file_bytes env)(target := Some c, src := None)"
proof -
  obtain a where a: "map_of (file_map env) src = Some a" using assms(2) by (auto simp: file_bytes_def split: option.splits)
  define e where "e = DeleteFileInternal env target"
  have e: "file_bytes e g = (if g = target then None else file_bytes env g)" for g
    by (simp add: e_def file_bytes_DeleteFileInternal [OF assms(1)])
  have m: "map_of (file_map e) src = Some a" using a assms(3) by (simp add: e_def)
  obtain env' where r: "RenameFile env src target = (OK, env')" by (simp add: RenameFile_def a Let_def)
  have env': "env' = e\<lparr>file_map := map_erase src (map_put target a (file_map e))\<rparr>"
    using r a m by (simp add: RenameFile_def e_def [symmetric])
  have "file_bytes env' g = ((file_bytes env)(target := Some c, src := None)) g" for g
    using e [of g] e [of src] assms(2,3) m by (auto simp: file_bytes_def env' split: option.split)
  then show ?thesis using r RenameFile_inv [OF assms(1) r] by auto
qed

subsection \<open>Reading a whole file\<close>

context sequential_file begin

lemma ReadFileToString_loop_ok:
  assumes "invar f"
  shows "ReadFileToString_loop ops f data = Some (OK, data @ remaining f)"
  using assms
proof (induction "remaining f" arbitrary: f data rule: length_induct)
  case (1 f)
  obtain s r f' where rd: "sf_Read ops f kBufferSize = (s, r, f')" by (cases "sf_Read ops f kBufferSize") auto
  note ok = read_ok [OF 1(2) rd]
  show ?case
  proof (cases "r = []")
    case True
    then have "remaining f = []" using ok by (simp add: kBufferSize_def)
    then show ?thesis using True ok rd by (subst ReadFileToString_loop.simps) simp
  next
    case False
    then have "length (remaining f') < length (remaining f)" using ok by (auto simp: kBufferSize_def)
    then have "ReadFileToString_loop ops f' (data @ r) = Some (OK, (data @ r) @ remaining f')" using 1(1) ok by blast
    then show ?thesis using False ok rd by (subst ReadFileToString_loop.simps) (simp add: append_take_drop_id)
  qed
qed

end

lemma ReadFileToString_ok:
  assumes "env_inv env" "file_bytes env fname = Some c"
  shows "\<exists>env'. ReadFileToString env fname = Some (OK, c, env') \<and> env_inv env' \<and> file_bytes env' = file_bytes env"
proof -
  obtain a f where a: "map_of (file_map env) fname = Some a" "heap env a = Some f" "c = file_content f"
    using assms(2) by (auto simp: file_bytes_def split: option.splits)
  let ?e = "heap_Ref a (env\<lparr>handles := a # handles env\<rparr>)"
  have n: "NewReadableFile env fname = (OK, Some a, ?e)" using a by (simp add: NewReadableFile_def)
  have inv: "env_inv ?e" by (rule NewReadableFile_inv [OF assms(1) n])
  have h: "heap ?e a = Some (FileState_Ref f)" "a \<in> set (handles ?e)" using a by (simp_all add: heap_Ref_def)
  have "seq_wf (FileState_Ref f, 0)" using env_invD(3) [OF inv h(1)] by (simp add: seq_wf_def)
  then have "ReadFileToString_loop SequentialFileOps (FileState_Ref f, 0) [] = Some (OK, c)"
    using mem_seq.ReadFileToString_loop_ok [of "(FileState_Ref f, 0)" "[]"] a(3) by (simp add: seq_remaining_def FileState_Ref_def)
  moreover have "file_bytes (CloseHandle ?e a) g = file_bytes env g" for g
    using file_bytes_CloseHandle [OF inv h(2), of g] a(2)
    by (auto simp: file_bytes_def heap_Ref_def FileState_Ref_def split: option.split)
  ultimately show ?thesis using n h(1) CloseHandle_inv [OF inv h(2)] by (simp add: ReadFileToString_def fun_eq_iff)
qed

text \<open>C36: Making a manifest the current one, in any state of the environment in memory, succeeds, after which
  CURRENT holds the name of the manifest, which is parsed to its number, and a line end; the
  temporary file is gone and every other file is unchanged.\<close>

theorem SetCurrentFile_ok:
  assumes "env_inv env"
  shows "\<exists>env'. SetCurrentFile MemEnvOps env db n = (OK, env') \<and> env_inv env' \<and>
    (\<exists>env''. ReadFileToString env' (CurrentFileName db) = Some (OK, string_bytes (''MANIFEST-'' @ decimal6 n @ [CHR 0x0A]), env'')) \<and>
    ParseFileName (''MANIFEST-'' @ decimal6 n) = Some (n, kDescriptorFile) \<and>
    file_bytes env' (TempFileName db n) = None \<and>
    (\<forall>g. g \<noteq> CurrentFileName db \<longrightarrow> g \<noteq> TempFileName db n \<longrightarrow> file_bytes env' g = file_bytes env g)"
proof -
  let ?tmp = "TempFileName db n" and ?c = "string_bytes (''MANIFEST-'' @ decimal6 n @ [CHR 0x0A])"
  have drop: "drop (length db + 1) (DescriptorFileName db n) @ [CHR 0x0A] = ''MANIFEST-'' @ decimal6 n @ [CHR 0x0A]"
    by (simp add: DescriptorFileName_def)
  have ne: "?tmp \<noteq> CurrentFileName db"
  proof -
    obtain c s where "decimal6 n = c # s" "is_digit c" using decimal6_hd by blast
    then show ?thesis by (auto simp: TempFileName_def MakeFileName_def CurrentFileName_def is_digit_def)
  qed
  obtain e1 where e1: "WriteStringToFile MemEnvOps env ?c ?tmp = (OK, e1)" "env_inv e1" "file_bytes e1 = (file_bytes env)(?tmp := Some ?c)"
    using WriteStringToFile_ok [OF assms] by blast
  then obtain e2 where e2: "RenameFile e1 ?tmp (CurrentFileName db) = (OK, e2)" "env_inv e2"
    "file_bytes e2 = (file_bytes e1)(CurrentFileName db := Some ?c, ?tmp := None)"
    using RenameFile_ok [OF e1(2) _ ne, of ?c] by auto
  have "SetCurrentFile MemEnvOps env db n = (OK, e2)"
    using e1(1) e2(1) drop by (simp add: SetCurrentFile_def Let_def)
  moreover have "file_bytes e2 (CurrentFileName db) = Some ?c" using e2(3) ne by simp
  then have "\<exists>e3. ReadFileToString e2 (CurrentFileName db) = Some (OK, ?c, e3)" using ReadFileToString_ok [OF e2(2)] by blast
  moreover have "ParseFileName (''MANIFEST-'' @ decimal6 n) = Some (n, kDescriptorFile)"
    using decimal6_parse [of "[]" n] by (simp add: ParseFileName_def)
  ultimately show ?thesis using e2 e1(3) by simp
qed

theorem SetCurrentFile_ok_witness:
  "\<exists>env'. SetCurrentFile MemEnvOps NewMemEnv ''/db'' 5 = (OK, env') \<and> file_bytes env' (TempFileName ''/db'' 5) = None"
  using SetCurrentFile_ok [OF env_inv_new, of "''/db''" 5] by blast

end
