(* ===== verification/Table_Cache.thy ===== *)
theory Table_Cache
  imports Version Cache_Values Table_Roundtrip Filename
begin

text \<open>
  The cache of open tables of \<open>db/table_cache.cc\<close>, over the LRU cache, the reader of table files
  and the in-memory environment. A table file is never written to once it has been opened, so a table
  holds the contents of its file; the handle of the file, which the deleter of a cache entry closes, is
  an address of the environment. The options have no block cache. \<open>NewIterator\<close> also hands out
  the table, which here is a part of the iterator.
\<close>

record TableAndFile =
  tf_file :: nat
  tf_table :: "FileState Table"

record TableCache =
  tc_env :: MemEnv
  tc_dbname :: string
  tc_options :: Options
  tc_cache :: "TableAndFile ShardedLRUCache"

definition TableCache_new :: "string \<Rightarrow> Options \<Rightarrow> MemEnv \<Rightarrow> uint64 \<Rightarrow> TableCache" where
  "TableCache_new dbname options env n =
     \<lparr>tc_env = env, tc_dbname = dbname, tc_options = options, tc_cache = NewLRUCache n\<rparr>"

definition DeleteEntry :: "MemEnv \<Rightarrow> TableAndFile \<Rightarrow> MemEnv" where
  "DeleteEntry env tf = CloseHandle env (tf_file tf)"

text \<open>The deleters that an operation of the cache has called.\<close>

definition run_deleters :: "TableCache \<Rightarrow> TableCache" where
  "run_deleters tc =
     tc\<lparr>tc_env := foldl DeleteEntry (tc_env tc) (cache_deleted (tc_cache tc)),
        tc_cache := (tc_cache tc)\<lparr>shards := map (\<lambda>l. l\<lparr>deleted := []\<rparr>) (shards (tc_cache tc))\<rparr>\<rparr>"

text \<open>An iterator that only has an error, or one over a table, with the handle its deletion releases.\<close>

datatype TableCacheIter = TError Status | TTable "FileState Table" TableIter CacheHandle

primrec table_map :: "(FileState Table \<Rightarrow> TableIter \<Rightarrow> TableIter) \<Rightarrow> TableCacheIter \<Rightarrow> TableCacheIter" where
  "table_map f (TError s) = TError s"
| "table_map f (TTable t it h) = TTable t (f t it) h"

definition TableCacheOps :: "Snappy \<Rightarrow> ReadOptions \<Rightarrow> TableCacheIter Iterator" where
  "TableCacheOps sn options =
     (let ops = (\<lambda>t. TableOps sn RandomAccessFileOps t None options)
      in \<lparr>it_Valid = case_TableCacheIter (it_Valid EmptyIterator) (\<lambda>t it h. it_Valid (ops t) it),
          it_SeekToFirst = table_map (\<lambda>t. it_SeekToFirst (ops t)),
          it_SeekToLast = table_map (\<lambda>t. it_SeekToLast (ops t)),
          it_Seek = (\<lambda>it target. table_map (\<lambda>t it. it_Seek (ops t) it target) it),
          it_Next = table_map (\<lambda>t. it_Next (ops t)),
          it_Prev = table_map (\<lambda>t. it_Prev (ops t)),
          it_key = case_TableCacheIter (it_key EmptyIterator) (\<lambda>t it h. it_key (ops t) it),
          it_value = case_TableCacheIter (it_value EmptyIterator) (\<lambda>t it h. it_value (ops t) it),
          it_status = case_TableCacheIter (it_status EmptyIterator) (\<lambda>t it h. it_status (ops t) it)\<rparr>)"

definition cached_iterator :: "TableCache \<Rightarrow> CacheHandle \<Rightarrow> TableCacheIter" where
  "cached_iterator tc h = (let t = tf_table (Cache_Value (tc_cache tc) h) in TTable t (Table_NewIterator t) h)"

definition TableCache_NewIterator :: "Snappy \<Rightarrow> uint64 \<Rightarrow> uint64 \<Rightarrow> TableCache \<Rightarrow> TableCacheIter \<times> TableCache" where
  "TableCache_NewIterator sn file_number sz tc =
     (let key = EncodeFixed64 file_number; (handle, c) = Cache_Lookup (tc_cache tc) key; tc = tc\<lparr>tc_cache := c\<rparr>
      in case handle of
           Some h \<Rightarrow> (cached_iterator tc h, tc)
         | None \<Rightarrow>
             (let (s, f, env) = NewReadableFile (tc_env tc) (TableFileName (tc_dbname tc) file_number)
              in case f of
                   None \<Rightarrow> (TError (NewErrorIterator s), tc)
                 | Some a \<Rightarrow>
                     (case Table_Open sn RandomAccessFileOps (opt_comparator (tc_options tc)) 0 (the (heap env a)) (unat sz) of
                        Inl s \<Rightarrow> (TError (NewErrorIterator s), tc\<lparr>tc_env := CloseHandle env a\<rparr>)
                      | Inr t \<Rightarrow>
                          (let (h, c) = Cache_Insert (tc_cache tc) key \<lparr>tf_file = a, tf_table = t\<rparr> 1;
                               tc = run_deleters (tc\<lparr>tc_env := env, tc_cache := c\<rparr>)
                           in (cached_iterator tc h, tc)))))"

text \<open>The destructor of an iterator runs the clean-up function that \<open>NewIterator\<close> registered.\<close>

definition UnrefEntry :: "TableCache \<Rightarrow> CacheHandle \<Rightarrow> TableCache" where
  "UnrefEntry tc h = run_deleters (tc\<lparr>tc_cache := Cache_Release (tc_cache tc) h\<rparr>)"

definition delete_iterator :: "TableCacheIter \<Rightarrow> TableCache \<Rightarrow> TableCache" where
  "delete_iterator it tc = (case it of TError s \<Rightarrow> tc | TTable t i h \<Rightarrow> UnrefEntry tc h)"

definition Evict :: "TableCache \<Rightarrow> uint64 \<Rightarrow> TableCache" where
  "Evict tc file_number = run_deleters (tc\<lparr>tc_cache := Cache_Erase (tc_cache tc) (EncodeFixed64 file_number)\<rparr>)"

definition TableCache_destroy :: "TableCache \<Rightarrow> TableCache" where
  "TableCache_destroy tc =
     run_deleters (tc\<lparr>tc_cache := (tc_cache tc)\<lparr>shards := map LRUCache_destroy (shards (tc_cache tc))\<rparr>\<rparr>)"


subsection \<open>Iterators over tables\<close>

definition table_pos ::
  "Snappy \<Rightarrow> ReadOptions \<Rightarrow> Comparator \<Rightarrow> (bytes \<Rightarrow> bool) \<Rightarrow> FileState Table \<Rightarrow> TableIter \<Rightarrow> (bytes \<times> bytes) list \<Rightarrow> nat \<Rightarrow> bool" where
  "table_pos sn options cmp valid t =
     (let bf = (\<lambda>h. fst (BlockReader sn RandomAccessFileOps t None options h))
      in two_level_pos (Compare cmp) valid (readable cmp valid bf) BlockItOps BlockItOps (blockit_pos cmp valid)
           (blockit_pos cmp valid) (pairs_of cmp valid bf))"

lemma table_pos_iterator:
  assumes "key_order (Compare cmp) valid"
  shows "iterator (Compare cmp) valid (TableOps sn RandomAccessFileOps t None options) (table_pos sn options cmp valid t)"
  using two_level.two_level_iterator [OF table_two_level [OF assms]] by (simp add: TableOps_def table_pos_def Let_def)

definition cached_pos ::
  "Snappy \<Rightarrow> ReadOptions \<Rightarrow> Comparator \<Rightarrow> (bytes \<Rightarrow> bool) \<Rightarrow> TableCacheIter \<Rightarrow> (bytes \<times> bytes) list \<Rightarrow> nat \<Rightarrow> bool" where
  "cached_pos sn options cmp valid it kvs i =
     (case it of TError s \<Rightarrow> empty_pos s kvs i | TTable t it h \<Rightarrow> table_pos sn options cmp valid t it kvs i)"

lemma cached_pos_iterator:
  assumes "key_order (Compare cmp) valid"
  shows "iterator (Compare cmp) valid (TableCacheOps sn options) (cached_pos sn options cmp valid)"
proof -
  note T = table_pos_iterator [OF assms]
  note ops = cached_pos_def TableCacheOps_def empty_pos_def EmptyIterator_def seek_index_def sorted_pairs_def
  show ?thesis
  proof (intro iterator.intro assms iterator_axioms.intro, goal_cases)
    case (1 it kvs i) then show ?case
      using iterator.pos_sorted [OF T] by (cases it) (auto simp: cached_pos_def empty_pos_def sorted_pairs_def)
  next
    case (2 it kvs i) then show ?case using iterator.pos_le [OF T] by (cases it) (auto simp: cached_pos_def empty_pos_def)
  next
    case (3 it kvs i) then show ?case using iterator.Valid_pos [OF T] by (cases it) (auto simp: ops)
  next
    case (4 it kvs i) then show ?case using iterator.key_pos [OF T] by (cases it) (auto simp: ops)
  next
    case (5 it kvs i) then show ?case using iterator.value_pos [OF T] by (cases it) (auto simp: ops)
  next
    case (6 it kvs i) then show ?case using iterator.status_pos [OF T] by (cases it) (auto simp: ops)
  next
    case (7 it kvs i) then show ?case using iterator.SeekToFirst_pos [OF T] by (cases it) (auto simp: ops)
  next
    case (8 it kvs i) then show ?case using iterator.SeekToLast_pos [OF T] by (cases it) (auto simp: ops)
  next
    case (9 it kvs i target) then show ?case
      using iterator.Seek_pos [OF T] by (cases it) (auto simp: cached_pos_def TableCacheOps_def empty_pos_def seek_index_def)
  next
    case (10 it kvs i) then show ?case using iterator.Next_pos [OF T] by (cases it) (auto simp: ops)
  next
    case (11 it kvs i) then show ?case using iterator.Prev_pos [OF T] by (cases it) (auto simp: ops)
  qed
qed

subsection \<open>Files of the environment\<close>

definition named :: "MemEnv \<Rightarrow> string \<Rightarrow> bytes \<Rightarrow> bool" where
  "named env fname content \<longleftrightarrow> (\<exists>a f. map_of (file_map env) fname = Some a \<and> heap env a = Some f \<and> file_content f = content)"

lemma named_file_bytes: "named env fname content \<longleftrightarrow> file_bytes env fname = Some content"
  by (auto simp: named_def file_bytes_def split: option.split)

lemma named_unique: "named env fname c \<Longrightarrow> named env fname c' \<Longrightarrow> c = c'"
  by (auto simp: named_def)

lemma CloseHandle_named:
  assumes "env_inv env" "a \<in> set (handles env)" "named env fname c"
  shows "named (CloseHandle env a) fname c"
proof -
  obtain b f where b: "map_of (file_map env) fname = Some b" "heap env b = Some f" "file_content f = c"
    using assms(3) by (auto simp: named_def)
  have m: "map_of (file_map (CloseHandle env a)) fname = Some b" using b(1) by (simp add: CloseHandle_def heap_Unref_def)
  obtain f' where f': "heap (CloseHandle env a) b = Some f'"
    by (rule named_file_alive [OF CloseHandle_inv [OF assms(1,2)] m])
  have "file_content f' = file_content f"
    using f' b(2) by (auto simp: CloseHandle_def heap_Unref_def FileState_Unref_def Let_def split: if_splits option.splits)
  then show ?thesis using m f' b(3) by (auto simp: named_def)
qed

lemma NewReadableFile_named:
  assumes "env_inv env" "NewReadableFile env fname = (s, r, env')"
  shows "named env g c \<Longrightarrow> named env' g c" "named env fname c \<Longrightarrow> r \<noteq> None"
    "r = Some a \<Longrightarrow> named env' fname (file_content (the (heap env' a))) \<and> file_wf (the (heap env' a)) \<and> handles env' = a # handles env"
    "r = None \<Longrightarrow> env' = env"
proof -
  show "r = None \<Longrightarrow> env' = env" using assms(2) by (auto simp: NewReadableFile_def split: option.splits)
  show "r \<noteq> None" if n: "named env fname c"
  proof -
    obtain b where "map_of (file_map env) fname = Some b" using n by (auto simp: named_def)
    then show ?thesis using assms(2) by (cases r) (simp_all add: NewReadableFile_def)
  qed
  show "named env' g c" if "named env g c"
    using that assms(2) by (auto simp: NewReadableFile_def named_def heap_Ref_def FileState_Ref_def split: option.splits)
  assume "r = Some a"
  then have r: "map_of (file_map env) fname = Some a" "env' = heap_Ref a (env\<lparr>handles := a # handles env\<rparr>)"
    using assms(2) by (auto simp: NewReadableFile_def split: option.splits)
  obtain f where f: "heap env a = Some f" by (rule named_file_alive [OF assms(1) r(1)])
  then have "heap env' a = Some (FileState_Ref f)" using r(2) by (simp add: heap_Ref_def)
  moreover have "file_wf (FileState_Ref f)" using env_invD(3) [OF assms(1) f] by (simp add: file_wf_def FileState_Ref_def)
  ultimately show "named env' fname (file_content (the (heap env' a))) \<and> file_wf (the (heap env' a)) \<and> handles env' = a # handles env"
    using r by (auto simp: named_def heap_Ref_def)
qed

text \<open>The deleters close handles that are open.\<close>

lemma DeleteEntries:
  assumes "env_inv env" "mset (map tf_file ds) \<subseteq># mset (handles env)"
  shows "env_inv (foldl DeleteEntry env ds)" "named env g c \<Longrightarrow> named (foldl DeleteEntry env ds) g c"
    "mset (handles (foldl DeleteEntry env ds)) = mset (handles env) - mset (map tf_file ds)"
proof -
  have "env_inv (foldl DeleteEntry env ds) \<and> (named env g c \<longrightarrow> named (foldl DeleteEntry env ds) g c) \<and>
    mset (handles (foldl DeleteEntry env ds)) = mset (handles env) - mset (map tf_file ds)"
    using assms
  proof (induction ds arbitrary: env)
    case (Cons d ds)
    let ?env = "DeleteEntry env d"
    have d: "tf_file d \<in> set (handles env)" using mset_subset_eq_insertD [of "tf_file d"] Cons.prems(2) by fastforce
    have h: "mset (handles ?env) = mset (handles env) - {#tf_file d#}"
      using d by (simp add: DeleteEntry_def CloseHandle_def heap_Unref_def)
    have "mset (map tf_file ds) \<subseteq># mset (handles ?env)"
      using Cons.prems(2) d unfolding h by (simp add: insert_subset_eq_iff)
    then show ?case
      using Cons.IH [of ?env] CloseHandle_inv [OF Cons.prems(1) d] CloseHandle_named [OF Cons.prems(1) d] h
      by (auto simp: DeleteEntry_def)
  qed simp
  then show "env_inv (foldl DeleteEntry env ds)" "named env g c \<Longrightarrow> named (foldl DeleteEntry env ds) g c"
    "mset (handles (foldl DeleteEntry env ds)) = mset (handles env) - mset (map tf_file ds)" by blast+
qed


subsection \<open>The invariant\<close>

lemma cache_deleted_Lookup:
  assumes "Cache_Lookup c key = (r, c')"
  shows "cache_deleted c' = cache_deleted c"
proof -
  let ?s = "Shard (HashSlice key)"
  obtain e l where l: "LRU_Lookup (shards c ! ?s) key (HashSlice key) = (e, l)" by fastforce
  then have "map snd (deleted l) = map (\<lambda>l. map snd (deleted l)) (shards c) ! ?s" if "?s < length (shards c)"
    using that by (auto simp: LRU_Lookup_def LRU_Append_def LRU_Remove_def Let_def split: option.splits)
  then have "map (\<lambda>l. map snd (deleted l)) ((shards c)[?s := l]) = map (\<lambda>l. map snd (deleted l)) (shards c)"
    by (cases "?s < length (shards c)") (simp_all add: map_update list_update_same_conv list_update_beyond)
  then show ?thesis using assms l by (auto simp: Cache_Lookup_def cache_deleted_def Let_def)
qed

lemma cache_inv_clear: "cache_inv (c\<lparr>shards := map (\<lambda>l. l\<lparr>deleted := []\<rparr>) (shards c)\<rparr>) held m = cache_inv c held m"
proof -
  have "shard_inv s (l\<lparr>deleted := []\<rparr>) h m = shard_inv s l h m" for s l h
    by (simp add: shard_inv_def lru_inv_def refs_ok_def)
  then show ?thesis by (cases "length (shards c) = kNumShards") (simp_all add: cache_inv_def)
qed

lemma cache_values_split:
  "cache_values c = cache_values (c\<lparr>shards := map (\<lambda>l. l\<lparr>deleted := []\<rparr>) (shards c)\<rparr>) + mset (cache_deleted c)"
proof -
  have "(\<Sum>l \<leftarrow> xs. all_values l) = (\<Sum>l \<leftarrow> map (\<lambda>l. l\<lparr>deleted := []\<rparr>) xs. all_values l) + mset (concat (map (\<lambda>l. map snd (deleted l)) xs))"
    for xs :: "'a LRUCache list"
    by (induction xs) (simp_all add: all_values_def live_values_def)
  then show ?thesis by (simp add: cache_values_def cache_deleted_def)
qed

text \<open>
  A table in the cache is the one in the file of its number; every table that the cache has not deleted
  has an open handle. \<open>held\<close> are the handles of the iterators that exist.
\<close>

definition table_of :: "Snappy \<Rightarrow> TableCache \<Rightarrow> uint64 \<Rightarrow> FileState Table \<Rightarrow> bool" where
  "table_of sn tc n t \<longleftrightarrow> named (tc_env tc) (TableFileName (tc_dbname tc) n) (file_content (t_file t)) \<and> file_wf (t_file t) \<and>
     Table_Open sn RandomAccessFileOps (opt_comparator (tc_options tc)) 0 (t_file t) (length (file_content (t_file t))) = Inr t"

definition cached_tables :: "Snappy \<Rightarrow> TableCache \<Rightarrow> CacheHandle multiset \<Rightarrow> bool" where
  "cached_tables sn tc held \<longleftrightarrow> (\<exists>m. cache_inv (tc_cache tc) held m \<and>
     (\<forall>n tf. m (EncodeFixed64 n) = Some tf \<longrightarrow> table_of sn tc n (tf_table tf)))"

definition handles_open :: "TableCache \<Rightarrow> bool" where
  "handles_open tc \<longleftrightarrow> env_inv (tc_env tc) \<and> image_mset tf_file (cache_values (tc_cache tc)) \<subseteq># mset (handles (tc_env tc))"

definition tc_inv :: "Snappy \<Rightarrow> TableCache \<Rightarrow> CacheHandle multiset \<Rightarrow> bool" where
  "tc_inv sn tc held \<longleftrightarrow> cached_tables sn tc held \<and> handles_open tc \<and> cache_deleted (tc_cache tc) = []"

lemma run_deleters_inv:
  assumes "cached_tables sn tc held" "handles_open tc"
  shows "tc_inv sn (run_deleters tc) held" "named (tc_env tc) g c \<Longrightarrow> named (tc_env (run_deleters tc)) g c"
    "tc_dbname (run_deleters tc) = tc_dbname tc" "tc_options (run_deleters tc) = tc_options tc"
proof -
  let ?ds = "cache_deleted (tc_cache tc)"
  let ?c = "(tc_cache tc)\<lparr>shards := map (\<lambda>l. l\<lparr>deleted := []\<rparr>) (shards (tc_cache tc))\<rparr>"
  have env: "env_inv (tc_env tc)" and
    sub: "image_mset tf_file (cache_values ?c) + mset (map tf_file ?ds) \<subseteq># mset (handles (tc_env tc))"
    using assms(2) cache_values_split [of "tc_cache tc"] by (simp_all add: handles_open_def)
  then have ds: "mset (map tf_file ?ds) \<subseteq># mset (handles (tc_env tc))" by (meson mset_subset_eq_add_right subset_mset.order_trans)
  note D = DeleteEntries [OF env ds]
  show n: "named (tc_env tc) g c \<Longrightarrow> named (tc_env (run_deleters tc)) g c" for g c using D(2) by (simp add: run_deleters_def)
  show "tc_dbname (run_deleters tc) = tc_dbname tc" "tc_options (run_deleters tc) = tc_options tc" by (simp_all add: run_deleters_def)
  have "table_of sn tc m t \<Longrightarrow> table_of sn (run_deleters tc) m t" for m t
    using n by (simp add: table_of_def run_deleters_def)
  then have "cached_tables sn (run_deleters tc) held"
    using assms(1) unfolding cached_tables_def by (auto simp: run_deleters_def cache_inv_clear)
  moreover have "handles_open (run_deleters tc)"
    using D(1,3) sub by (simp add: handles_open_def run_deleters_def) (metis add_diff_cancel_right' mset_map subset_eq_diff_conv subset_mset.add_diff_assoc2 subset_mset.le_diff_conv2 ds)
  moreover have "cache_deleted (tc_cache (run_deleters tc)) = []" by (simp add: run_deleters_def cache_deleted_def)
  ultimately show "tc_inv sn (run_deleters tc) held" by (simp add: tc_inv_def)
qed

lemma UnrefEntry_inv:
  assumes "tc_inv sn tc held" "h \<in># held"
  shows "tc_inv sn (UnrefEntry tc h) (held - {#h#})" "named (tc_env tc) g c \<Longrightarrow> named (tc_env (UnrefEntry tc h)) g c"
    "tc_dbname (UnrefEntry tc h) = tc_dbname tc" "tc_options (UnrefEntry tc h) = tc_options tc"
proof -
  let ?tc = "tc\<lparr>tc_cache := Cache_Release (tc_cache tc) h\<rparr>"
  obtain m where m: "cache_inv (tc_cache tc) held m" "\<forall>n tf. m (EncodeFixed64 n) = Some tf \<longrightarrow> table_of sn tc n (tf_table tf)"
    using assms(1) by (auto simp: tc_inv_def cached_tables_def)
  have "cached_tables sn ?tc (held - {#h#})"
    using cache_inv_Release [OF m(1) assms(2)] m(2) by (auto simp: cached_tables_def table_of_def)
  moreover have "handles_open ?tc" using assms(1) cache_values_ops(4) [OF m(1) assms(2)] by (simp add: tc_inv_def handles_open_def)
  ultimately show "tc_inv sn (UnrefEntry tc h) (held - {#h#})" "named (tc_env tc) g c \<Longrightarrow> named (tc_env (UnrefEntry tc h)) g c"
    "tc_dbname (UnrefEntry tc h) = tc_dbname tc" "tc_options (UnrefEntry tc h) = tc_options tc"
    using run_deleters_inv [of sn ?tc "held - {#h#}"] by (simp_all add: UnrefEntry_def)
qed

lemma Evict_inv:
  assumes "tc_inv sn tc held"
  shows "tc_inv sn (Evict tc n) held" "named (tc_env tc) g c \<Longrightarrow> named (tc_env (Evict tc n)) g c"
proof -
  let ?tc = "tc\<lparr>tc_cache := Cache_Erase (tc_cache tc) (EncodeFixed64 n)\<rparr>"
  obtain m where m: "cache_inv (tc_cache tc) held m" "\<forall>n tf. m (EncodeFixed64 n) = Some tf \<longrightarrow> table_of sn tc n (tf_table tf)"
    using assms(1) by (auto simp: tc_inv_def cached_tables_def)
  have "cached_tables sn ?tc held"
    using cache_inv_Erase [OF m(1), of "EncodeFixed64 n"] m(2) unfolding cached_tables_def
    by (intro exI [of _ "m(EncodeFixed64 n := None)"]) (auto simp: table_of_def)
  moreover have "handles_open ?tc" using assms(1) cache_values_ops(3) [OF m(1)] by (simp add: tc_inv_def handles_open_def)
  ultimately show "tc_inv sn (Evict tc n) held" "named (tc_env tc) g c \<Longrightarrow> named (tc_env (Evict tc n)) g c"
    using run_deleters_inv [of sn ?tc held] by (simp_all add: Evict_def)
qed


text \<open>A new iterator adds its handle to those that are held, unless it has an error.\<close>

primrec iter_handle :: "TableCacheIter \<Rightarrow> CacheHandle multiset" where
  "iter_handle (TError s) = {#}"
| "iter_handle (TTable t it h) = {#h#}"

lemma Table_Open_fields: "Table_Open sn ops cmp cid f sz = Inr t \<Longrightarrow> t_file t = f \<and> t_comparator t = cmp \<and> cache_id t = cid"
  by (auto simp: Table_Open_def Let_def split: if_splits prod.splits sum.splits)

lemma EncodeFixed64_inj: "EncodeFixed64 a = EncodeFixed64 b \<longleftrightarrow> a = b"
  by (metis DecodeFixed64_EncodeFixed64 append_Nil2)

lemma cached_iterator_clear: "cached_iterator (run_deleters tc) h = cached_iterator tc h" if "fst h < length (shards (tc_cache tc))"
  using that by (simp add: cached_iterator_def run_deleters_def Cache_Value_def)

text \<open>What opening a file leaves: the invariant, the files, and the table of the file or the error of opening it.\<close>

definition opened :: "Snappy \<Rightarrow> TableCache \<Rightarrow> CacheHandle multiset \<Rightarrow> uint64 \<Rightarrow> bytes \<Rightarrow> TableCacheIter \<Rightarrow> TableCache \<Rightarrow> bool" where
  "opened sn tc held n content it tc' \<longleftrightarrow> tc_inv sn tc' (held + iter_handle it) \<and>
     (\<forall>g c. named (tc_env tc) g c \<longrightarrow> named (tc_env tc') g c) \<and> tc_dbname tc' = tc_dbname tc \<and> tc_options tc' = tc_options tc \<and>
     (case it of
        TTable t i h \<Rightarrow> table_of sn tc' n t \<and> i = Table_NewIterator t
      | TError s \<Rightarrow> \<exists>f. file_wf f \<and> file_content f = content \<and>
          Table_Open sn RandomAccessFileOps (opt_comparator (tc_options tc)) 0 f (length content) = Inl s)"

lemma NewIterator_hit:
  assumes inv: "tc_inv sn tc held" and l: "Cache_Lookup (tc_cache tc) (EncodeFixed64 n) = (Some h, c)"
  shows "opened sn tc held n content (cached_iterator (tc\<lparr>tc_cache := c\<rparr>) h) (tc\<lparr>tc_cache := c\<rparr>)"
proof -
  let ?tc = "tc\<lparr>tc_cache := c\<rparr>"
  obtain m where m: "cache_inv (tc_cache tc) held m" "\<forall>n tf. m (EncodeFixed64 n) = Some tf \<longrightarrow> table_of sn tc n (tf_table tf)"
    using inv by (auto simp: tc_inv_def cached_tables_def)
  have c: "cache_inv c (held + {#h#}) m" "m (EncodeFixed64 n) = Some (Cache_Value c h)"
    using cache_inv_Lookup [OF m(1) l] by simp_all
  have t: "table_of sn ?tc k x = table_of sn tc k x" for k x by (simp add: table_of_def)
  have "cache_deleted c = []" using l inv by (auto simp: cache_deleted_Lookup tc_inv_def)
  moreover have "handles_open ?tc" using inv cache_values_ops(1) [OF m(1) l] by (simp add: handles_open_def tc_inv_def)
  ultimately show ?thesis using c m(2) t by (auto simp: opened_def tc_inv_def cached_tables_def cached_iterator_def Let_def)
qed


lemma NewIterator_miss:
  assumes inv: "tc_inv sn tc held" and size: "named (tc_env tc) (TableFileName (tc_dbname tc) n) content" "unat sz = length content"
    and l: "Cache_Lookup (tc_cache tc) (EncodeFixed64 n) = (None, c)"
    and f: "NewReadableFile (tc_env tc) (TableFileName (tc_dbname tc) n) = (s, Some a, env)"
  shows "Table_Open sn RandomAccessFileOps (opt_comparator (tc_options tc)) 0 (the (heap env a)) (unat sz) = Inl s' \<Longrightarrow>
      opened sn tc held n content (TError s') (tc\<lparr>tc_cache := c, tc_env := CloseHandle env a\<rparr>)"
    "Table_Open sn RandomAccessFileOps (opt_comparator (tc_options tc)) 0 (the (heap env a)) (unat sz) = Inr t \<Longrightarrow>
      Cache_Insert c (EncodeFixed64 n) \<lparr>tf_file = a, tf_table = t\<rparr> 1 = (h, c') \<Longrightarrow>
      tc' = run_deleters (tc\<lparr>tc_env := env, tc_cache := c'\<rparr>) \<Longrightarrow>
      opened sn tc held n content (cached_iterator tc' h) tc'"
proof -
  obtain m where m: "cache_inv (tc_cache tc) held m" "\<forall>n tf. m (EncodeFixed64 n) = Some tf \<longrightarrow> table_of sn tc n (tf_table tf)"
    using inv by (auto simp: tc_inv_def cached_tables_def)
  have c: "cache_inv c held m" using cache_inv_Lookup [OF m(1) l] by simp
  have del: "cache_deleted c = []" "cache_values c = cache_values (tc_cache tc)"
    using cache_deleted_Lookup [OF l] inv cache_values_ops(1) [OF m(1) l] by (simp_all add: tc_inv_def)
  have env: "env_inv (tc_env tc)" and sub: "image_mset tf_file (cache_values c) \<subseteq># mset (handles (tc_env tc))"
    using inv del by (simp_all add: tc_inv_def handles_open_def)
  note nf = NewReadableFile_named [OF env f]
  let ?f = "the (heap env a)"
  have f': "file_content ?f = content" "file_wf ?f" "handles env = a # handles (tc_env tc)" "env_inv env"
    using nf(3) [OF refl] nf(1) [OF size(1)] named_unique NewReadableFile_inv [OF env f] by blast+
  have keep: "table_of sn tc k x \<Longrightarrow> table_of sn (tc\<lparr>tc_cache := c2, tc_env := env2\<rparr>) k x"
    if "\<And>g c. named (tc_env tc) g c \<Longrightarrow> named env2 g c" for c2 env2 k x
    using that by (simp add: table_of_def)
  show "opened sn tc held n content (TError s') (tc\<lparr>tc_cache := c, tc_env := CloseHandle env a\<rparr>)"
    if o: "Table_Open sn RandomAccessFileOps (opt_comparator (tc_options tc)) 0 ?f (unat sz) = Inl s'"
  proof -
    have n: "named (tc_env tc) g c \<Longrightarrow> named (CloseHandle env a) g c" for g c
      using CloseHandle_named [OF f'(4)] nf(1) f'(3) by simp
    have "handles_open (tc\<lparr>tc_cache := c, tc_env := CloseHandle env a\<rparr>)"
      using CloseHandle_inv [OF f'(4), of a] f'(3) sub by (simp add: handles_open_def CloseHandle_def heap_Unref_def)
    then show ?thesis using c m(2) keep [OF n] n del(1) o size(2) f'(1,2)
      by (auto simp: opened_def tc_inv_def cached_tables_def)
  qed
  show "opened sn tc held n content (cached_iterator tc' h) tc'"
    if o: "Table_Open sn RandomAccessFileOps (opt_comparator (tc_options tc)) 0 ?f (unat sz) = Inr t"
      and i: "Cache_Insert c (EncodeFixed64 n) \<lparr>tf_file = a, tf_table = t\<rparr> 1 = (h, c')"
      and tc': "tc' = run_deleters (tc\<lparr>tc_env := env, tc_cache := c'\<rparr>)"
  proof -
    let ?tc = "tc\<lparr>tc_env := env, tc_cache := c'\<rparr>" and ?tf = "\<lparr>tf_file = a, tf_table = t\<rparr>"
    note ci = cache_inv_Insert [OF c i]
    have t: "table_of sn ?tc n t"
      using o Table_Open_fields [OF o] f'(1,2) nf(1) [OF size(1)] size(2) by (simp add: table_of_def)
    have "table_of sn ?tc k (tf_table tf)" if "(m(EncodeFixed64 n \<mapsto> ?tf)) (EncodeFixed64 k) = Some tf" for k tf
      using that t m(2) keep [of env k _ c'] nf(1) by (auto simp: EncodeFixed64_inj table_of_def split: if_splits)
    then have ct: "cached_tables sn ?tc (held + {#h#})" using ci(1) by (auto simp: cached_tables_def)
    have ho: "handles_open ?tc" using f'(3,4) sub cache_values_ops(2) [OF c i] by (simp add: handles_open_def)
    note rd = run_deleters_inv [OF ct ho]
    have "fst h < length (shards c')" using ci(1) by (simp add: cache_inv_def)
    then have it: "cached_iterator tc' h = TTable t (Table_NewIterator t) h"
      using ci(2) cached_iterator_clear [of h ?tc] tc' by (simp add: cached_iterator_def)
    have "table_of sn tc' n t" using t rd(2-4) tc' by (simp add: table_of_def)
    then show ?thesis unfolding it using rd nf(1) tc' by (simp add: opened_def)
  qed
qed

lemma NewIterator_opened:
  assumes inv: "tc_inv sn tc held" and size: "named (tc_env tc) (TableFileName (tc_dbname tc) n) content" "unat sz = length content"
    and r: "TableCache_NewIterator sn n sz tc = (it, tc')"
  shows "opened sn tc held n content it tc'"
proof -
  obtain l c where l: "Cache_Lookup (tc_cache tc) (EncodeFixed64 n) = (l, c)" by fastforce
  show ?thesis
  proof (cases l)
    case (Some h)
    then show ?thesis using NewIterator_hit [OF inv l [unfolded Some], of content] l r by (auto simp: TableCache_NewIterator_def Let_def)
  next
    case None
    obtain s f env where f: "NewReadableFile (tc_env tc) (TableFileName (tc_dbname tc) n) = (s, f, env)" by (metis prod_cases3)
    have "env_inv (tc_env tc)" using inv by (simp add: tc_inv_def handles_open_def)
    then obtain a where a: "f = Some a" using NewReadableFile_named(2) [OF _ f size(1)] by auto
    note miss = NewIterator_miss [OF inv size l [unfolded None] f [unfolded a]]
    show ?thesis
    proof (cases "Table_Open sn RandomAccessFileOps (opt_comparator (tc_options tc)) 0 (the (heap env a)) (unat sz)")
      case (Inl s')
      then show ?thesis using miss(1) r l None f a by (auto simp: TableCache_NewIterator_def NewErrorIterator_def)
    next
      case (Inr t)
      obtain h c' where "Cache_Insert c (EncodeFixed64 n) \<lparr>tf_file = a, tf_table = t\<rparr> 1 = (h, c')" by fastforce
      then show ?thesis using miss(2) [OF Inr _ refl] r l None f a Inr by (auto simp: TableCache_NewIterator_def Let_def)
    qed
  qed
qed



subsection \<open>The contract of a table store\<close>

text \<open>A file whose contents open as a table with the given pairs.\<close>

definition table_file :: "Snappy \<Rightarrow> ReadOptions \<Rightarrow> Comparator \<Rightarrow> (bytes \<Rightarrow> bool) \<Rightarrow> bytes \<Rightarrow> (bytes \<times> bytes) list \<Rightarrow> bool" where
  "table_file sn options cmp valid content kvs \<longleftrightarrow>
     (\<forall>f. file_wf f \<and> file_content f = content \<longrightarrow>
        (\<exists>t i. Table_Open sn RandomAccessFileOps cmp 0 f (length content) = Inr t \<and>
           table_pos sn options cmp valid t (Table_NewIterator t) kvs i))"

definition tc_stored :: "Snappy \<Rightarrow> ReadOptions \<Rightarrow> Comparator \<Rightarrow> TableCache \<Rightarrow> uint64 \<Rightarrow> uint64 \<Rightarrow> (bytes \<times> bytes) list \<Rightarrow> bool" where
  "tc_stored sn options user tc n sz kvs \<longleftrightarrow> opt_comparator (tc_options tc) = InternalKeyComparator user \<and>
     (\<exists>held content. tc_inv sn tc held \<and> named (tc_env tc) (TableFileName (tc_dbname tc) n) content \<and> unat sz = length content \<and>
        table_file sn options (InternalKeyComparator user) valid_ikey content kvs)"

lemma iter_handle_Seek: "iter_handle (it_Seek (TableCacheOps sn options) it target) = iter_handle it"
  by (cases it) (simp_all add: TableCacheOps_def Let_def)

lemma delete_iterator_inv:
  assumes "tc_inv sn tc (held + iter_handle it)"
  shows "tc_inv sn (delete_iterator it tc) held" "named (tc_env tc) g c \<Longrightarrow> named (tc_env (delete_iterator it tc)) g c"
    "tc_dbname (delete_iterator it tc) = tc_dbname tc" "tc_options (delete_iterator it tc) = tc_options tc"
proof -
  have "tc_inv sn (delete_iterator it tc) held \<and> (named (tc_env tc) g c \<longrightarrow> named (tc_env (delete_iterator it tc)) g c) \<and>
    tc_dbname (delete_iterator it tc) = tc_dbname tc \<and> tc_options (delete_iterator it tc) = tc_options tc"
  proof (cases it)
    case (TTable t i h)
    then have inv: "tc_inv sn tc (held + {#h#})" using assms by simp
    have h: "h \<in># held + {#h#}" by simp
    show ?thesis using UnrefEntry_inv(1,3,4) [OF inv h] UnrefEntry_inv(2) [OF inv h, of g c] TTable by (simp add: delete_iterator_def)
  qed (use assms in \<open>simp add: delete_iterator_def\<close>)
  then show "tc_inv sn (delete_iterator it tc) held" "named (tc_env tc) g c \<Longrightarrow> named (tc_env (delete_iterator it tc)) g c"
    "tc_dbname (delete_iterator it tc) = tc_dbname tc" "tc_options (delete_iterator it tc) = tc_options tc" by blast+
qed

lemma table_cache_store:
  assumes "strict_ikey_order user"
  shows "table_store user (TableCacheOps sn options) (cached_pos sn options (InternalKeyComparator user) valid_ikey)
    (TableCache_NewIterator sn) delete_iterator (tc_stored sn options user)"
proof (intro table_store.intro assms table_store_axioms.intro)
  have cmp: "Compare (InternalKeyComparator user) = InternalKey_Compare user" by (simp add: InternalKeyComparator_def)
  have "key_order (Compare (InternalKeyComparator user)) valid_ikey"
    using ikey_order.ikey_key_order [OF strict_ikey_order.axioms(1) [OF assms]] by (simp add: cmp)
  then show "iterator (InternalKey_Compare user) valid_ikey (TableCacheOps sn options)
      (cached_pos sn options (InternalKeyComparator user) valid_ikey)"
    using cached_pos_iterator [of "InternalKeyComparator user" valid_ikey sn options] by (simp add: cmp)
next
  fix tc n sz kvs it tc'
  assume st: "tc_stored sn options user tc n sz kvs" and r: "TableCache_NewIterator sn n sz tc = (it, tc')"
  obtain held content where h: "tc_inv sn tc held" "named (tc_env tc) (TableFileName (tc_dbname tc) n) content"
      "unat sz = length content" "table_file sn options (InternalKeyComparator user) valid_ikey content kvs"
      "opt_comparator (tc_options tc) = InternalKeyComparator user"
    using st by (auto simp: tc_stored_def)
  note o = NewIterator_opened [OF h(1-3) r, unfolded opened_def]
  show "\<exists>i. cached_pos sn options (InternalKeyComparator user) valid_ikey it kvs i"
  proof (cases it)
    case (TError s)
    then show ?thesis using o h(4,5) by (auto simp: table_file_def)
  next
    case (TTable t i hd)
    then have t: "table_of sn tc' n t" "i = Table_NewIterator t" using o by simp_all
    have "named (tc_env tc') (TableFileName (tc_dbname tc') n) content" using o h(2) by simp
    then have "file_content (t_file t) = content" using t(1) named_unique unfolding table_of_def by blast
    then show ?thesis using t o h(4,5) TTable unfolding table_of_def table_file_def cached_pos_def by force
  qed
next
  fix tc n sz kvs0 it tc' m sz' kvs target
  assume s0: "tc_stored sn options user tc n sz kvs0" and r: "TableCache_NewIterator sn n sz tc = (it, tc')"
    and st: "tc_stored sn options user tc m sz' kvs"
  show "tc_stored sn options user (delete_iterator (it_Seek (TableCacheOps sn options) it target) tc') m sz' kvs"
  proof -
    obtain held content where h: "tc_inv sn tc held" "named (tc_env tc) (TableFileName (tc_dbname tc) n) content" "unat sz = length content"
      using s0 by (auto simp: tc_stored_def)
    note o = NewIterator_opened [OF h r, unfolded opened_def]
    let ?it = "it_Seek (TableCacheOps sn options) it target"
    have "tc_inv sn tc' (held + iter_handle ?it)" using o iter_handle_Seek by simp
    note d = delete_iterator_inv [OF this]
    show ?thesis using st d(1,3,4) o d(2) unfolding tc_stored_def by fastforce
  qed
qed

interpretation table_cache: table_store BytewiseComparator "TableCacheOps sn options"
    "cached_pos sn options (InternalKeyComparator BytewiseComparator) valid_ikey"
    "TableCache_NewIterator sn" delete_iterator "tc_stored sn options BytewiseComparator"
  for sn options
  by (rule table_cache_store) unfold_locales


text \<open>What a table builder writes, to any kind of file, is the contents of a table file.\<close>

lemma table_file_built:
  assumes "comparator cmp valid" "writable_file wops wcontent winvar" "snappy_ok sn"
    and "opt_comparator opts = cmp" "0 < opt_restart_interval opts" "winvar f" "wcontent f = []"
    and "sorted_pairs (Compare cmp) valid kvs"
    and "TableBuilder_Finish sn wops (foldl (\<lambda>r (k, v). TableBuilder_Add sn wops r k v) (TableBuilder_new opts f) kvs) = (s, r)"
    and "length (wcontent (tb_file r)) < 2 ^ 32"
  shows "table_file sn options cmp valid (wcontent (tb_file r)) kvs"
  unfolding table_file_def
proof (intro allI impI)
  fix g assume g: "file_wf g \<and> file_content g = wcontent (tb_file r)"
  note opens = table_opens [OF assms(1,2) mem_ra.random_access_file_axioms assms(3-10), of g 0]
  obtain t I q where t: "Table_Open sn RandomAccessFileOps cmp 0 g (length (file_content g)) = Inr t"
    and q: "blockit_pos cmp valid (BlockIt_new (t_comparator t) (t_index_block t)) I q"
    and wf: "\<forall>options block_cache. cache_coherent sn RandomAccessFileOps t options block_cache \<longrightarrow>
      (let bf = (\<lambda>h. fst (BlockReader sn RandomAccessFileOps t block_cache options h))
       in index_wf (Compare cmp) valid (readable cmp valid bf) (pairs_of cmp valid bf) I \<and> all_pairs (pairs_of cmp valid bf) I = kvs)"
    using opens g by blast
  have "cache_coherent sn RandomAccessFileOps t options None" by (simp add: cache_coherent_def)
  note wf = wf [rule_format, OF this, unfolded Let_def]
  have "table_pos sn options cmp valid t (Table_NewIterator t) kvs (length kvs)"
    using two_level.new_pos [OF table_two_level [OF comparator.axioms(1) [OF assms(1)]], OF q conjunct1 [OF wf]] wf
    by (simp add: table_pos_def Table_NewIterator_def Let_def)
  then show "\<exists>t i. Table_Open sn RandomAccessFileOps cmp 0 g (length (wcontent (tb_file r))) = Inr t \<and>
      table_pos sn options cmp valid t (Table_NewIterator t) kvs i" using t g by auto
qed

text \<open>C7: A read of a version through the table cache answers with the newest entry for the user key that the
  snapshot sees in any file of the version, whatever is cached, and says not found for a deletion or no
  entry, provided that the files hold well-formed tables, that those of a level above zero do not overlap,
  and that for each user key newer entries are in lower levels and, within level zero, in files with higher
  numbers. The files can still be read afterwards.\<close>

theorem Version_Get_newest:
  assumes "strict_ikey_order user" "version_ok user meta tbl files" "s \<le> kMaxSequenceNumber"
    and "\<forall>level \<in> set files. \<forall>a \<in> set level. tc_stored sn options user tc (fm_number (meta a)) (file_size (meta a)) (tbl a)"
    and "Version_Get user (TableCacheOps sn options) (TableCache_NewIterator sn) delete_iterator meta files (LookupKey_new k s) tc =
      (answer, seek, tc')"
  shows "(\<exists>r. lookup_in (\<Union>level \<in> set files. entries tbl level) k s r \<and>
      answer = (case r of None \<Rightarrow> Inl (NotFound [] []) | Some r \<Rightarrow> r)) \<and>
    (\<forall>level \<in> set files. \<forall>a \<in> set level. tc_stored sn options user tc' (fm_number (meta a)) (file_size (meta a)) (tbl a))"
proof -
  note store = table_cache_store [OF assms(1), of sn options]
  have "table_store.has_files (tc_stored sn options user) tc meta tbl (\<Union>l \<in> set files. set l)"
    using assms(4) by (auto simp: table_store.has_files_def [OF store])
  note get = table_store.Version_Get_lookup [OF store assms(2) this assms(3,5)]
  then show ?thesis using assms(4) by blast
qed


text \<open>
  Two table files: one in level zero with the deletion of a key, and one in level one with an older value.
\<close>

definition read_options :: Options where
  "read_options = \<lparr>opt_comparator = InternalKeyComparator BytewiseComparator, block_size = 1, opt_restart_interval = 16,
     compression = kNoCompression\<rparr>"

definition read_entries :: "nat \<Rightarrow> (bytes \<times> bytes) list" where
  "read_entries a = (if a = 0 then [(InternalKey [1] 8 kTypeDeletion, [])] else [(InternalKey [1] 5 kTypeValue, [7])])"

definition read_table :: "nat \<Rightarrow> bytes" where
  "read_table a = tb_file (snd (TableBuilder_Finish NoSnappy StringSink
     (foldl (\<lambda>r (k, v). TableBuilder_Add NoSnappy StringSink r k v) (TableBuilder_new read_options []) (read_entries a))))"

definition read_meta :: "nat \<Rightarrow> FileMetaData" where
  "read_meta a = \<lparr>fm_refs = 1, allowed_seeks = 100, fm_number = (if a = 0 then 9 else 4), file_size = of_nat (length (read_table a)),
     smallest = fst (hd (read_entries a)), largest = fst (last (read_entries a))\<rparr>"

definition read_cache :: TableCache where
  "read_cache = TableCache_new ''d'' read_options
     (snd (WriteStringToFile MemEnvOps (snd (WriteStringToFile MemEnvOps NewMemEnv (read_table 0) (TableFileName ''d'' 9))) (read_table 1) (TableFileName ''d'' 4))) 100"

lemma read_table_size: "length (read_table a) < 2 ^ 32"
  by (simp add: read_table_def read_entries_def read_options_def table_eval Let_def Footer_read_back [THEN conjunct1] InternalKey_eq
      InternalKey_FindShortSuccessor_def ExtractUserKey_def PutFixed64_def)

lemma read_entries_ordered: "ordered_entries BytewiseComparator (read_entries a)"
  by (simp add: read_entries_def ordered_entries_def sorted_pairs_def ParseInternalKey_InternalKey kMaxSequenceNumber_def)


lemma tc_inv_new:
  assumes "env_inv env"
  shows "tc_inv sn (TableCache_new dbname opts env n) {#}"
proof -
  have "cached_tables sn (TableCache_new dbname opts env n) {#}"
    unfolding cached_tables_def by (intro exI [of _ Map.empty]) (simp add: TableCache_new_def cache_inv_new)
  moreover have "sum_list (replicate k {#}) = ({#} :: TableAndFile multiset)" for k by (induction k) simp_all
  then have "cache_values (NewLRUCache n :: TableAndFile ShardedLRUCache) = {#}" "cache_deleted (NewLRUCache n :: TableAndFile ShardedLRUCache) = []"
    by (simp_all add: cache_values_def cache_deleted_def NewLRUCache_def LRUCache_new_def all_values_def live_values_def map_replicate kNumShards_def kNumShardBits_def)
  ultimately show ?thesis using assms by (simp add: tc_inv_def handles_open_def TableCache_new_def)
qed

lemma read_env:
  "env_inv (tc_env read_cache)"
  "file_bytes (tc_env read_cache) = [TableFileName ''d'' 9 \<mapsto> read_table 0, TableFileName ''d'' 4 \<mapsto> read_table 1]"
  "tc_inv NoSnappy read_cache {#}"
proof -
  let ?e0 = "snd (WriteStringToFile MemEnvOps NewMemEnv (read_table 0) (TableFileName ''d'' 9))"
  let ?e1 = "snd (WriteStringToFile MemEnvOps ?e0 (read_table 1) (TableFileName ''d'' 4))"
  have e0: "env_inv ?e0" "file_bytes ?e0 = (file_bytes NewMemEnv)(TableFileName ''d'' 9 := Some (read_table 0))"
    using WriteStringToFile_ok [OF env_inv_new, of "read_table 0" "TableFileName ''d'' 9"] by auto
  have e1: "env_inv ?e1" "file_bytes ?e1 = (file_bytes ?e0)(TableFileName ''d'' 4 := Some (read_table 1))"
    using WriteStringToFile_ok [OF e0(1), of "read_table 1" "TableFileName ''d'' 4"] by auto
  have "file_bytes NewMemEnv = Map.empty" by (simp add: fun_eq_iff file_bytes_def NewMemEnv_def)
  then show "env_inv (tc_env read_cache)"
    "file_bytes (tc_env read_cache) = [TableFileName ''d'' 9 \<mapsto> read_table 0, TableFileName ''d'' 4 \<mapsto> read_table 1]"
    using e0 e1 by (simp_all add: read_cache_def TableCache_new_def)
  show "tc_inv NoSnappy read_cache {#}" unfolding read_cache_def using e1(1) by (rule tc_inv_new)
qed

lemma read_files: "tc_stored NoSnappy ReadOptions_new BytewiseComparator read_cache (fm_number (read_meta a)) (file_size (read_meta a)) (read_entries a)"
proof -
  have name: "TableFileName ''d'' 4 \<noteq> TableFileName ''d'' 9" by (simp add: TableFileName_inj)
  obtain s r where built: "TableBuilder_Finish NoSnappy StringSink
      (foldl (\<lambda>r (k, v). TableBuilder_Add NoSnappy StringSink r k v) (TableBuilder_new read_options []) (read_entries a)) = (s, r)"
    by fastforce
  then have r: "read_table a = tb_file r" by (simp add: read_table_def)
  have tab: "read_table a = read_table 1" if "a \<noteq> 0" using that by (simp add: read_table_def read_entries_def)
  have "named (tc_env read_cache) (TableFileName (tc_dbname read_cache) (fm_number (read_meta a))) (read_table a)"
    unfolding named_file_bytes read_env(2) using name tab by (simp add: read_meta_def read_cache_def TableCache_new_def)
  moreover have "unat (file_size (read_meta a)) = length (read_table a)"
    using read_table_size [of a] by (simp add: read_meta_def unat_of_nat_small64)
  moreover note read_env(3)
  moreover have "table_file NoSnappy ReadOptions_new (InternalKeyComparator BytewiseComparator) valid_ikey (read_table a) (read_entries a)"
    unfolding r
    using read_table_size [of a] r
    by (intro table_file_built [OF bytewise_internal.comparator_axioms string_sink.writable_file_axioms NoSnappy_ok _ _ _ _ _ built])
      (simp_all add: read_options_def read_entries_def sorted_pairs_def)
  ultimately show ?thesis unfolding tc_stored_def by (auto simp: read_cache_def TableCache_new_def read_options_def)
qed

lemma read_version: "version_ok BytewiseComparator read_meta read_entries [[0], [1]]"
  using read_entries_ordered
  by (auto simp: version_ok_def file_ok_def level_ok_def newer_than_def entries_def less_Suc_eq nth_Cons' read_meta_def)
    (auto simp: read_entries_def key_parts_InternalKey kMaxSequenceNumber_def)

theorem Version_Get_newest_witness:
  "fst (Version_Get BytewiseComparator (TableCacheOps NoSnappy ReadOptions_new) (TableCache_NewIterator NoSnappy) delete_iterator
      read_meta [[0], [1]] (LookupKey_new [1] 6) read_cache) = Inr [7]"
proof -
  obtain answer seek tc' where r: "Version_Get BytewiseComparator (TableCacheOps NoSnappy ReadOptions_new) (TableCache_NewIterator NoSnappy)
      delete_iterator read_meta [[0], [1]] (LookupKey_new [1] 6) read_cache = (answer, seek, tc')" by (metis prod_cases3)
  have "\<exists>r. lookup_in (\<Union>level \<in> set [[0], [1]]. entries read_entries level) [1] 6 r \<and>
      answer = (case r of None \<Rightarrow> Inl (NotFound [] []) | Some r \<Rightarrow> r)"
    using Version_Get_newest [OF bytewise_strict.strict_ikey_order_axioms read_version _ _ r] read_files
    by (simp add: kMaxSequenceNumber_def)
  then obtain r where l: "lookup_in {(InternalKey [1] 8 kTypeDeletion, []), (InternalKey [1] 5 kTypeValue, [7])} [1] 6 r"
    and a: "answer = (case r of None \<Rightarrow> Inl (NotFound [] []) | Some r \<Rightarrow> r)"
    unfolding entries_def read_entries_def by (simp add: insert_commute) blast
  then have "answer = Inr [7]"
    by (cases r) (auto simp: lookup_in_def newest_visible_def entry_visible_def entry_answer_def key_parts_InternalKey kMaxSequenceNumber_def)
  then show ?thesis using r by simp
qed

end
