(* ===== verification/Table_Bytes.thy ===== *)
theory Table_Bytes
  imports Table_Roundtrip
begin

text \<open>
  The bytes of a table file do not depend on the kind of file they are written to: a builder over any
  file that meets the contract writes what one over a string writes.
\<close>

definition sink_of :: "('w \<Rightarrow> bytes) \<Rightarrow> 'w TableBuilder \<Rightarrow> bytes TableBuilder" where
  "sink_of content r =
     \<lparr>tb_options = tb_options r, tb_file = content (tb_file r), tb_offset = tb_offset r, tb_status = tb_status r,
      data_block = data_block r, index_block = index_block r, tb_last_key = tb_last_key r, num_entries = num_entries r,
      closed = closed r, pending_index_entry = pending_index_entry r, pending_handle = pending_handle r\<rparr>"

lemma sink_of_fields [simp]:
  "tb_options (sink_of c r) = tb_options r" "tb_file (sink_of c r) = c (tb_file r)" "tb_offset (sink_of c r) = tb_offset r"
  "tb_status (sink_of c r) = tb_status r" "data_block (sink_of c r) = data_block r" "index_block (sink_of c r) = index_block r"
  "tb_last_key (sink_of c r) = tb_last_key r" "num_entries (sink_of c r) = num_entries r" "closed (sink_of c r) = closed r"
  "pending_index_entry (sink_of c r) = pending_index_entry r" "pending_handle (sink_of c r) = pending_handle r"
  by (simp_all add: sink_of_def)

context writable_file
begin

lemma appendE:
  assumes "invar w"
  obtains w' where "wf_Append ops w data = (OK, w')" "content w' = content w @ data" "invar w'"
  using append_ok [OF assms, of data] that by (metis prod.collapse)

lemma flushE:
  assumes "invar w"
  obtains w' where "wf_Flush ops w = (OK, w')" "content w' = content w" "invar w'"
  using flush_ok [OF assms] that by (metis prod.collapse)

lemma WriteBlock_sink:
  assumes "invar (tb_file r)" "WriteBlock sn ops r b = (h, b', r')"
  shows "WriteBlock sn StringSink (sink_of content r) b = (h, b', sink_of content r') \<and> invar (tb_file r')"
proof -
  obtain raw b1 contents type where c: "BlockBuilder_Finish b = (raw, b1)" "compress_block sn (compression (tb_options r)) raw = (contents, type)"
    by fastforce
  obtain w1 where w1: "wf_Append ops (tb_file r) contents = (OK, w1)" "content w1 = content (tb_file r) @ contents" "invar w1"
    by (rule appendE [OF assms(1)])
  obtain w2 where w2: "wf_Append ops w1 (block_trailer contents type) = (OK, w2)" "content w2 = content w1 @ block_trailer contents type" "invar w2"
    by (rule appendE [OF w1(3)])
  show ?thesis using assms(2) w1 w2 by (auto simp: WriteBlock_def c Let_def StringSink_def sink_of_def)
qed

lemma Flush_sink:
  assumes "invar (tb_file r)"
  shows "TableBuilder_Flush sn StringSink (sink_of content r) = sink_of content (TableBuilder_Flush sn ops r) \<and>
    invar (tb_file (TableBuilder_Flush sn ops r))"
proof (cases "tb_status r \<noteq> OK \<or> BlockBuilder_empty (data_block r)")
  case True
  then show ?thesis using assms by (auto simp: TableBuilder_Flush_def)
next
  case False
  obtain h b r' where wb: "WriteBlock sn ops r (data_block r) = (h, b, r')" by (metis prod_cases3)
  note ws = WriteBlock_sink [OF assms wb]
  obtain w' where w': "wf_Flush ops (tb_file r') = (OK, w')" "content w' = content (tb_file r')" "invar w'" by (rule flushE) (use ws in blast)
  show ?thesis using False wb ws w' by (auto simp: TableBuilder_Flush_def Let_def StringSink_def sink_of_def)
qed

lemma Add_sink:
  assumes "invar (tb_file r)"
  shows "TableBuilder_Add sn StringSink (sink_of content r) k v = sink_of content (TableBuilder_Add sn ops r k v) \<and>
    invar (tb_file (TableBuilder_Add sn ops r k v))"
proof (cases "tb_status r = OK")
  case True
  define r1 where "r1 = (if pending_index_entry r then add_index_entry r (FindShortestSeparator (opt_comparator (tb_options r)) (tb_last_key r) k) else r)"
  define r2 where "r2 = r1\<lparr>tb_last_key := k, num_entries := num_entries r1 + 1, data_block := BlockBuilder_Add (data_block r1) k v\<rparr>"
  have i2: "invar (tb_file r2)" using assms by (simp add: r2_def r1_def add_index_entry_def)
  have "TableBuilder_Add sn ops r k v = (if CurrentSizeEstimate (data_block r2) \<ge> block_size (tb_options r2) then TableBuilder_Flush sn ops r2 else r2)"
    using True by (simp add: TableBuilder_Add_def r2_def r1_def Let_def)
  moreover have "TableBuilder_Add sn StringSink (sink_of content r) k v =
      (if CurrentSizeEstimate (data_block r2) \<ge> block_size (tb_options r2) then TableBuilder_Flush sn StringSink (sink_of content r2) else sink_of content r2)"
    using True by (cases "pending_index_entry r") (simp_all add: TableBuilder_Add_def r2_def r1_def add_index_entry_def sink_of_def Let_def)
  ultimately show ?thesis using Flush_sink [OF i2] i2 by simp
qed (use assms in \<open>simp add: TableBuilder_Add_def\<close>)

lemma Adds_sink:
  assumes "invar (tb_file r)"
  shows "foldl (\<lambda>r (k, v). TableBuilder_Add sn StringSink r k v) (sink_of content r) kvs =
      sink_of content (foldl (\<lambda>r (k, v). TableBuilder_Add sn ops r k v) r kvs) \<and>
    invar (tb_file (foldl (\<lambda>r (k, v). TableBuilder_Add sn ops r k v) r kvs))"
  using assms
proof (induction kvs arbitrary: r)
  case (Cons kv kvs)
  then show ?case using Add_sink [OF Cons.prems, of sn "fst kv" "snd kv"] by (cases kv) simp
qed simp


lemma Finish_sink:
  assumes "invar (tb_file r)" "TableBuilder_Finish sn ops r = (s, r')"
  shows "TableBuilder_Finish sn StringSink (sink_of content r) = (s, sink_of content r') \<and> invar (tb_file r')"
proof -
  define r1 where "r1 = (TableBuilder_Flush sn ops r)\<lparr>closed := True\<rparr>"
  have f: "(TableBuilder_Flush sn StringSink (sink_of content r))\<lparr>closed := True\<rparr> = sink_of content r1" "invar (tb_file r1)"
    using Flush_sink [OF assms(1), of sn] by (simp_all add: r1_def sink_of_def)
  show ?thesis
  proof (cases "tb_status r1 = OK")
    case False
    then show ?thesis using assms(2) f by (auto simp: TableBuilder_Finish_def r1_def [symmetric] Let_def)
  next
    case ok1: True
    obtain m b2 r2 where w2: "WriteBlock sn ops r1 (BlockBuilder_new (opt_restart_interval (tb_options r1))) = (m, b2, r2)" by (metis prod_cases3)
    note s2 = WriteBlock_sink [OF f(2) w2]
    show ?thesis
    proof (cases "tb_status r2 = OK")
      case False
      then show ?thesis using assms(2) f ok1 w2 s2 by (auto simp: TableBuilder_Finish_def r1_def [symmetric] Let_def)
    next
      case ok2: True
      define r3 where "r3 = (if pending_index_entry r2 then add_index_entry r2 (FindShortSuccessor (opt_comparator (tb_options r2)) (tb_last_key r2)) else r2)"
      have s3: "(if pending_index_entry r2 then add_index_entry (sink_of content r2) (FindShortSuccessor (opt_comparator (tb_options r2)) (tb_last_key r2))
          else sink_of content r2) = sink_of content r3" "invar (tb_file r3)"
        using s2 by (simp_all add: r3_def add_index_entry_def sink_of_def)
      obtain h b4 r4 where w4: "WriteBlock sn ops r3 (index_block r3) = (h, b4, r4)" by (metis prod_cases3)
      note s4 = WriteBlock_sink [OF s3(2) w4]
      let ?footer = "Footer_EncodeTo \<lparr>metaindex_handle = m, index_handle = h\<rparr> []"
      obtain w5 where w5: "wf_Append ops (tb_file r4) ?footer = (OK, w5)" "content w5 = content (tb_file r4) @ ?footer" "invar w5"
        by (rule appendE) (use s4 in blast)
      have "(sink_of content r4)\<lparr>index_block := b4\<rparr> = sink_of content (r4\<lparr>index_block := b4\<rparr>)" by (simp add: sink_of_def)
      then show ?thesis
        using assms(2) f ok1 w2 s2 ok2 s3 s4 w4 w5
        by (auto simp: TableBuilder_Finish_def r1_def [symmetric] r3_def [symmetric] Let_def StringSink_def sink_of_def)
    qed
  qed
qed

end

definition table_bytes :: "Snappy \<Rightarrow> Options \<Rightarrow> (bytes \<times> bytes) list \<Rightarrow> bytes" where
  "table_bytes sn opts kvs = tb_file (snd (TableBuilder_Finish sn StringSink
     (foldl (\<lambda>r (k, v). TableBuilder_Add sn StringSink r k v) (TableBuilder_new opts []) kvs)))"

lemma table_bytes_written:
  assumes "writable_file ops content invar" "invar f" "content f = []"
    and "TableBuilder_Finish sn ops (foldl (\<lambda>r (k, v). TableBuilder_Add sn ops r k v) (TableBuilder_new opts f) kvs) = (s, r)"
  shows "content (tb_file r) = table_bytes sn opts kvs"
proof -
  have "TableBuilder_new opts [] = sink_of content (TableBuilder_new opts f)" "invar (tb_file (TableBuilder_new opts f))"
    using assms(2,3) by (simp_all add: TableBuilder_new_def sink_of_def)
  then show ?thesis
    using writable_file.Finish_sink [OF assms(1) _ assms(4)] writable_file.Adds_sink [OF assms(1), of "TableBuilder_new opts f" sn kvs]
    by (simp add: table_bytes_def)
qed

end
