(* ===== verification/Builder.thy ===== *)
theory Builder
  imports Table_Cache Table_Bytes
begin

text \<open>
  Building a table file from an iterator, \<open>db/builder.cc\<close>, in the in-memory environment and
  with the table cache, which checks that the new file can be opened.
\<close>

subsection \<open>Writing through a handle of the environment\<close>

text \<open>The handle is the only one on its file, which has one name; the other files are those of \<open>B\<close>.\<close>

definition handle_content :: "string \<Rightarrow> MemEnv \<times> nat \<Rightarrow> bytes" where
  "handle_content fname w = the (file_bytes (fst w) fname)"

definition handle_on :: "(string \<Rightarrow> bytes option) \<Rightarrow> nat list \<Rightarrow> nat \<Rightarrow> string \<Rightarrow> MemEnv \<times> nat \<Rightarrow> bool" where
  "handle_on B H a fname w \<longleftrightarrow> (let (env, b) = w in b = a \<and>
     env_inv env \<and> handles env = H \<and> a \<in> set H \<and> map_of (file_map env) fname = Some a \<and>
     count_list (map snd (file_map env)) a = 1 \<and> (\<exists>c. file_bytes env = B(fname \<mapsto> c)))"

lemma handle_on_append:
  assumes "handle_on B H a fname w" "wf_Append EnvFileOps w data = (s, w')"
  shows "s = OK \<and> handle_content fname w' = handle_content fname w @ data \<and> handle_on B H a fname w'"
proof -
  obtain env where w: "w = (env, a)" using assms(1) by (auto simp: handle_on_def)
  have h: "env_inv env" "handles env = H" "a \<in> set H" "map_of (file_map env) fname = Some a"
    "count_list (map snd (file_map env)) a = 1" using assms(1) by (simp_all add: handle_on_def w)
  obtain c where c: "file_bytes env = B(fname \<mapsto> c)" using assms(1) by (auto simp: handle_on_def w)
  obtain env' where e: "AppendHandle env a data = (OK, env')" "env_inv env'" "handles env' = handles env"
    "file_bytes env' = (file_bytes env)(fname := map_option (\<lambda>c. c @ data) (file_bytes env fname))"
    using AppendHandle_ok [OF h(1) _ h(4,5)] h(2,3) by blast
  have "file_map env' = file_map env" using e(1) by (auto simp: AppendHandle_def FileState_Append_def split: option.splits)
  moreover have "file_bytes env' = B(fname \<mapsto> c @ data)" using e(4) c by (simp add: fun_eq_iff)
  ultimately show ?thesis using assms(2) e(1-3) h c by (auto simp: EnvFileOps_def w handle_on_def handle_content_def)
qed

interpretation env_file: writable_file EnvFileOps "handle_content fname" "handle_on B H a fname" for B H a fname
proof
  show "s = OK \<and> handle_content fname w' = handle_content fname w @ data \<and> handle_on B H a fname w'"
    if "handle_on B H a fname w" "wf_Append EnvFileOps w data = (s, w')" for w data s w'
    using handle_on_append [OF that] .
qed (auto simp: EnvFileOps_def)

subsection \<open>Building\<close>

partial_function (option) build_loop ::
  "Snappy \<Rightarrow> 'it Iterator \<Rightarrow> 'it \<Rightarrow> FileMetaData \<Rightarrow> (MemEnv \<times> nat) TableBuilder \<Rightarrow>
   ('it \<times> FileMetaData \<times> (MemEnv \<times> nat) TableBuilder) option" where
  "build_loop sn ops iter meta b =
     (if it_Valid ops iter then
        (let key = it_key ops iter
         in build_loop sn ops (it_Next ops iter) (meta\<lparr>largest := key\<rparr>) (TableBuilder_Add sn EnvFileOps b key (it_value ops iter)))
      else Some (iter, meta, b))"

text \<open>Closing the file that was built, and opening it again to see that the table can be used.\<close>

definition verify_table :: "Snappy \<Rightarrow> FileMetaData \<Rightarrow> TableCache \<Rightarrow> Status \<times> TableCache" where
  "verify_table sn meta tc =
     (let (it, tc) = TableCache_NewIterator sn (fm_number meta) (file_size meta) tc
      in (it_status (TableCacheOps sn ReadOptions_new) it, delete_iterator it tc))"

definition finish_table ::
  "Snappy \<Rightarrow> FileMetaData \<Rightarrow> (MemEnv \<times> nat) TableBuilder \<Rightarrow> TableCache \<Rightarrow> Status \<times> FileMetaData \<times> TableCache" where
  "finish_table sn meta b tc =
     (let (s, b) = TableBuilder_Finish sn EnvFileOps b;
          meta = (if ok s then meta\<lparr>file_size := TableBuilder_FileSize b\<rparr> else meta);
          (s, w) = (if ok s then wf_Sync EnvFileOps (tb_file b) else (s, tb_file b));
          (s, w) = (if ok s then wf_Close EnvFileOps w else (s, w));
          tc = tc\<lparr>tc_env := CloseHandle (fst w) (snd w)\<rparr>;
          (s, tc) = (if ok s then verify_table sn meta tc else (s, tc))
      in (s, meta, tc))"

definition BuildTable ::
  "Snappy \<Rightarrow> string \<Rightarrow> Options \<Rightarrow> 'it Iterator \<Rightarrow> TableCache \<Rightarrow> 'it \<Rightarrow> FileMetaData \<Rightarrow>
   (Status \<times> 'it \<times> FileMetaData \<times> TableCache) option" where
  "BuildTable sn dbname options ops tc iter meta =
     (let meta = meta\<lparr>file_size := 0\<rparr>;
          iter = it_SeekToFirst ops iter;
          fname = TableFileName dbname (fm_number meta);
          keep = (\<lambda>(s, iter, meta, tc).
            (let s = (if \<not> ok (it_status ops iter) then it_status ops iter else s)
             in if ok s \<and> file_size meta > 0 then (s, iter, meta, tc)
                else (s, iter, meta, tc\<lparr>tc_env := snd (DeleteFile (tc_env tc) fname)\<rparr>)))
      in if it_Valid ops iter then
           (case NewWritableFile (tc_env tc) fname of
              (s, None, env) \<Rightarrow> Some (s, iter, meta, tc\<lparr>tc_env := env\<rparr>)
            | (s, Some a, env) \<Rightarrow>
                Option.bind (build_loop sn ops iter (meta\<lparr>smallest := it_key ops iter\<rparr>) (TableBuilder_new options (env, a)))
                  (\<lambda>(iter, meta, b). let (s, meta, tc) = finish_table sn meta b tc in Some (keep (s, iter, meta, tc))))
         else Some (keep (OK, iter, meta, tc)))"


subsection \<open>The file that is built\<close>

text \<open>The loop adds the pairs of the iterator from where it stands.\<close>

lemma build_loop_adds:
  assumes it: "iterator compare valid ops pos" and "pos iter kvs i"
  shows "\<exists>iter'. build_loop sn ops iter meta b =
      Some (iter', if i < length kvs then meta\<lparr>largest := fst (last kvs)\<rparr> else meta,
        foldl (\<lambda>r (k, v). TableBuilder_Add sn EnvFileOps r k v) b (drop i kvs)) \<and> pos iter' kvs (length kvs)"
  using assms(2)
proof (induction "length kvs - i" arbitrary: iter i meta b)
  case 0
  then have "i = length kvs" using iterator.pos_le [OF it 0(2)] by simp
  moreover from this have "\<not> it_Valid ops iter" using iterator.Valid_pos [OF it 0(2)] by simp
  ultimately show ?case using 0(2) by (subst build_loop.simps) simp
next
  case (Suc n)
  then have i: "i < length kvs" by simp
  let ?it = "it_Next ops iter" and ?kv = "kvs ! i"
  let ?m = "meta\<lparr>largest := fst ?kv\<rparr>" and ?b = "TableBuilder_Add sn EnvFileOps b (fst ?kv) (snd ?kv)"
  have n: "pos ?it kvs (Suc i)" using iterator.Next_pos [OF it Suc.prems i] by simp
  have len: "n = length kvs - Suc i" using Suc.hyps(2) by simp
  obtain iter' where "build_loop sn ops ?it ?m ?b =
      Some (iter', if Suc i < length kvs then ?m\<lparr>largest := fst (last kvs)\<rparr> else ?m,
        foldl (\<lambda>r (k, v). TableBuilder_Add sn EnvFileOps r k v) ?b (drop (Suc i) kvs)) \<and> pos iter' kvs (length kvs)"
    using Suc.hyps(1) [OF len n, of ?m ?b] by blast
  moreover have "(if Suc i < length kvs then ?m\<lparr>largest := fst (last kvs)\<rparr> else ?m) = meta\<lparr>largest := fst (last kvs)\<rparr>"
  proof (cases "Suc i < length kvs")
    case False
    then have "length kvs = Suc i" using i by simp
    then have "last kvs = ?kv" by (subst last_conv_nth) auto
    then show ?thesis using False by simp
  qed simp
  moreover have "drop i kvs = (fst ?kv, snd ?kv) # drop (Suc i) kvs" using i by (simp add: Cons_nth_drop_Suc)
  ultimately show ?case
    using iterator.Valid_pos [OF it Suc.prems] iterator.key_pos [OF it Suc.prems i] iterator.value_pos [OF it Suc.prems i] i
    by (subst build_loop.simps) (auto simp: split_beta)
qed


lemma NewWritableFile_handle:
  assumes "env_inv env" "NewWritableFile env fname = (s, r, env')"
  shows "\<exists>a. s = OK \<and> r = Some a \<and> handle_on (file_bytes env) (a # handles env) a fname (env', a) \<and> handle_content fname (env', a) = []"
proof -
  obtain e1 a where e1: "NewWritableFile env fname = (OK, Some a, e1)" "env_inv e1" "a \<in> set (handles e1)"
    "map_of (file_map e1) fname = Some a" "count_list (map snd (file_map e1)) a = 1"
    "file_bytes e1 = (file_bytes env)(fname := Some [])" using NewWritableFile_ok [OF assms(1)] by blast
  have "handles e1 = a # handles env"
    using e1(1) by (auto simp: NewWritableFile_def DeleteFileInternal_def heap_Ref_def heap_Unref_def Let_def split: if_splits option.splits)
  then show ?thesis using e1 assms(2) by (auto simp: handle_on_def handle_content_def)
qed

text \<open>New files and other handles do not touch the cached tables.\<close>

lemma tc_inv_env:
  assumes "tc_inv sn tc held" "env_inv env'" "mset (handles (tc_env tc)) \<subseteq># mset (handles env')"
    and "\<And>g c. named (tc_env tc) g c \<Longrightarrow> named env' g c"
  shows "tc_inv sn (tc\<lparr>tc_env := env'\<rparr>) held"
proof -
  have "table_of sn tc n t \<Longrightarrow> table_of sn (tc\<lparr>tc_env := env'\<rparr>) n t" for n t using assms(4) by (simp add: table_of_def)
  then have "cached_tables sn (tc\<lparr>tc_env := env'\<rparr>) held" using assms(1) by (auto simp: tc_inv_def cached_tables_def)
  moreover have "handles_open (tc\<lparr>tc_env := env'\<rparr>)"
    using assms(1-3) by (auto simp: tc_inv_def handles_open_def intro: subset_mset.order_trans)
  ultimately show ?thesis using assms(1) by (simp add: tc_inv_def)
qed

lemma handle_on_close:
  assumes "handle_on B (a # H) a fname w"
  shows "env_inv (CloseHandle (fst w) (snd w))" "handles (CloseHandle (fst w) (snd w)) = H"
    "file_bytes (CloseHandle (fst w) (snd w)) = B(fname \<mapsto> handle_content fname w)"
proof -
  obtain env where w: "w = (env, a)" using assms by (auto simp: handle_on_def)
  have h: "env_inv env" "handles env = a # H" "a \<in> set (handles env)" using assms by (simp_all add: handle_on_def w)
  show "env_inv (CloseHandle (fst w) (snd w))" using CloseHandle_inv [OF h(1,3)] by (simp add: w)
  show "handles (CloseHandle (fst w) (snd w)) = H" using h(2) by (simp add: w CloseHandle_def heap_Unref_def)
  show "file_bytes (CloseHandle (fst w) (snd w)) = B(fname \<mapsto> handle_content fname w)"
    using file_bytes_CloseHandle [OF h(1,3)] assms by (auto simp: w handle_on_def handle_content_def)
qed

text \<open>Opening a stored file and closing it at once.\<close>

lemma verify_table_ok:
  assumes "strict_ikey_order user" "tc_stored sn ReadOptions_new user tc (fm_number meta) (file_size meta) kvs"
  shows "\<exists>tc'. verify_table sn meta tc = (OK, tc') \<and>
    (\<forall>options m sz kvs. tc_stored sn options user tc m sz kvs \<longrightarrow> tc_stored sn options user tc' m sz kvs)"
proof -
  note store = table_cache_store [OF assms(1), of sn ReadOptions_new]
  obtain it tc1 where it: "TableCache_NewIterator sn (fm_number meta) (file_size meta) tc = (it, tc1)" by fastforce
  obtain i where "cached_pos sn ReadOptions_new (InternalKeyComparator user) valid_ikey it kvs i"
    using table_store.open_pos [OF store assms(2) it] by blast
  then have "it_status (TableCacheOps sn ReadOptions_new) it = OK"
    using iterator.status_pos [OF table_store.axioms(2) [OF store]] by blast
  then have "verify_table sn meta tc = (OK, delete_iterator it tc1)" by (simp add: verify_table_def it)
  moreover have "tc_stored sn options user (delete_iterator it tc1) m sz k" if "tc_stored sn options user tc m sz k" for options m sz k
  proof -
    obtain held content where h: "tc_inv sn tc held" "named (tc_env tc) (TableFileName (tc_dbname tc) (fm_number meta)) content"
        "unat (file_size meta) = length content"
      using assms(2) by (auto simp: tc_stored_def)
    note o = NewIterator_opened [OF h it, unfolded opened_def]
    have "tc_inv sn tc1 (held + iter_handle it)" using o by simp
    note d = delete_iterator_inv [OF this]
    show ?thesis using that d(1,3,4) o d(2) unfolding tc_stored_def by fastforce
  qed
  ultimately show ?thesis by blast
qed

lemma table_file_nonempty:
  assumes "table_file sn options cmp valid content kvs"
  shows "length content \<noteq> 0"
proof
  assume "length content = 0"
  moreover have "file_wf FileState_new" "file_content FileState_new = []" by (simp_all add: FileState_new_def file_wf_def)
  ultimately obtain t where "Table_Open sn RandomAccessFileOps cmp 0 FileState_new 0 = Inr t"
    using assms unfolding table_file_def by (metis length_0_conv)
  then show False by (simp add: Table_Open_def kEncodedLength_def kMaxEncodedLength_def)
qed

text \<open>C8: A table built from an iterator over entries in order, under a number that no file has, is written without
  error; its metadata has the first and the last key, and the table cache then reads the entries of the
  iterator from it; the other files can be read as before. The table is smaller than 4 GB, and the comparators of user and internal keys meet
  their contracts.\<close>

theorem BuildTable_stores:
  assumes "strict_ikey_order user" "comparator (InternalKeyComparator user) valid_ikey" "snappy_ok sn"
    and "iterator (InternalKey_Compare user) valid_ikey ops pos" "pos iter kvs i" "kvs \<noteq> []"
    and "opt_comparator opts = InternalKeyComparator user" "0 < opt_restart_interval opts"
    and "tc_inv sn tc held" "opt_comparator (tc_options tc) = InternalKeyComparator user"
    and "fname = TableFileName (tc_dbname tc) (fm_number meta)" "file_bytes (tc_env tc) fname = None"
    and "length (table_bytes sn opts kvs) < 2 ^ 32"
  shows "\<exists>iter' meta' tc'. BuildTable sn (tc_dbname tc) opts ops tc iter meta = Some (OK, iter', meta', tc') \<and>
    fm_number meta' = fm_number meta \<and> smallest meta' = fst (hd kvs) \<and> largest meta' = fst (last kvs) \<and>
    (\<forall>options. tc_stored sn options user tc' (fm_number meta) (file_size meta') kvs) \<and>
    (\<forall>options n sz kvs'. tc_stored sn options user tc n sz kvs' \<longrightarrow> tc_stored sn options user tc' n sz kvs')"
proof -
  let ?icmp = "InternalKeyComparator user" and ?B = "file_bytes (tc_env tc)" and ?H = "handles (tc_env tc)"
  have cmp: "Compare ?icmp = InternalKey_Compare user" by (simp add: InternalKeyComparator_def)
  have inv: "env_inv (tc_env tc)" using assms(9) by (simp add: tc_inv_def handles_open_def)
  obtain s0 a' env where nw0: "NewWritableFile (tc_env tc) fname = (s0, a', env)" by (metis prod_cases3)
  then obtain a where nw: "NewWritableFile (tc_env tc) fname = (OK, Some a, env)"
    and w: "handle_on ?B (a # ?H) a fname (env, a)" "handle_content fname (env, a) = []"
    using NewWritableFile_handle [OF inv nw0] by auto
  let ?b = "foldl (\<lambda>r (k, v). TableBuilder_Add sn EnvFileOps r k v) (TableBuilder_new opts (env, a)) kvs"
  obtain s1 r where fin0: "TableBuilder_Finish sn EnvFileOps ?b = (s1, r)" by fastforce
  have bytes: "handle_content fname (tb_file r) = table_bytes sn opts kvs"
    by (rule table_bytes_written [OF env_file.writable_file_axioms w fin0])
  have sorted: "sorted_pairs (Compare ?icmp) valid_ikey kvs" using iterator.pos_sorted [OF assms(4,5)] by (simp add: cmp)
  have tf: "table_file sn options ?icmp valid_ikey (handle_content fname (tb_file r)) kvs" for options
    by (rule table_file_built [OF assms(2) env_file.writable_file_axioms assms(3,7,8) w sorted fin0]) (use assms(13) bytes in simp)
  have fin: "s1 = OK" "handle_on ?B (a # ?H) a fname (tb_file r)" "tb_offset r = of_nat (length (handle_content fname (tb_file r)))"
    using table_written [OF assms(2) env_file.writable_file_axioms assms(8,7) w sorted fin0] by blast+
  note close = handle_on_close [OF fin(2)]
  let ?env = "CloseHandle (fst (tb_file r)) (snd (tb_file r))"
  define m1 where "m1 = meta\<lparr>file_size := 0, smallest := fst (hd kvs), largest := fst (last kvs)\<rparr>"
  define m2 where "m2 = m1\<lparr>file_size := tb_offset r\<rparr>"
  define tc1 where "tc1 = tc\<lparr>tc_env := ?env\<rparr>"
  have named1: "named (tc_env tc) g c \<Longrightarrow> named ?env g c" for g c
    using close(3) assms(12) by (auto simp: named_file_bytes)
  have inv1: "tc_inv sn tc1 held" unfolding tc1_def by (rule tc_inv_env [OF assms(9) close(1) _ named1]) (simp add: close(2))
  have st1: "tc_stored sn options user tc1 (fm_number m2) (file_size m2) kvs" for options
    using inv1 tf [of options] close(3) assms(10,11,13) fin(3) bytes
    by (auto simp: tc_stored_def tc1_def m2_def m1_def named_file_bytes unat_of_nat_small64 intro!: exI [of _ held])
  have keep1: "tc_stored sn options user tc1 n sz kvs'" if "tc_stored sn options user tc n sz kvs'" for options n sz kvs'
    using that inv1 named1 by (auto simp: tc_stored_def tc1_def)
  obtain tc' where v: "verify_table sn m2 tc1 = (OK, tc')"
    "\<forall>options m sz kvs. tc_stored sn options user tc1 m sz kvs \<longrightarrow> tc_stored sn options user tc' m sz kvs"
    using verify_table_ok [OF assms(1) st1] by blast
  have ft: "finish_table sn m1 ?b tc = (OK, m2, tc')"
    using fin0 fin(1) v(1)
    by (simp add: finish_table_def TableBuilder_FileSize_def m2_def [symmetric] EnvFileOps_def ok_def tc1_def [symmetric])
  have p0: "pos (it_SeekToFirst ops iter) kvs 0" using iterator.SeekToFirst_pos [OF assms(4,5)] .
  then have v0: "it_Valid ops (it_SeekToFirst ops iter)" "it_key ops (it_SeekToFirst ops iter) = fst (hd kvs)"
    using iterator.Valid_pos [OF assms(4)] iterator.key_pos [OF assms(4) p0] assms(6) by (simp_all add: hd_conv_nth)
  obtain iter' where loop: "build_loop sn ops (it_SeekToFirst ops iter) (meta\<lparr>file_size := 0, smallest := fst (hd kvs)\<rparr>)
      (TableBuilder_new opts (env, a)) = Some (iter', m1, ?b)" and p': "pos iter' kvs (length kvs)"
    using build_loop_adds [OF assms(4) p0, of sn "meta\<lparr>file_size := 0, smallest := fst (hd kvs)\<rparr>" "TableBuilder_new opts (env, a)"] assms(6)
    by (auto simp: m1_def)
  have st: "it_status ops iter' = OK" using iterator.status_pos [OF assms(4) p'] .
  have "0 < file_size m2"
  proof -
    have "length (handle_content fname (tb_file r)) \<noteq> 0" using table_file_nonempty [OF tf] .
    then show ?thesis using fin(3) assms(13) bytes by (simp add: m2_def word_less_nat_alt unat_of_nat_small64)
  qed
  then have "BuildTable sn (tc_dbname tc) opts ops tc iter meta = Some (OK, iter', m2, tc')"
    using v0 assms(11) nw loop ft st by (simp add: BuildTable_def Let_def ok_def)
  then show ?thesis using v(2) st1 keep1 by (intro exI [of _ iter'] exI [of _ m2] exI [of _ tc']) (auto simp: m2_def m1_def)
qed


definition read_block :: BlockIt where
  "read_block = BlockIt_new (InternalKeyComparator BytewiseComparator) (Block_new (block_of 16 (read_entries 1)))"

lemma read_block_pos: "\<exists>q. blockit_pos (InternalKeyComparator BytewiseComparator) valid_ikey read_block (read_entries 1) q"
  unfolding read_block_def
  by (rule BlockIt_new_built) (simp_all add: read_entries_def sorted_pairs_def block_eval InternalKey_eq valid_ikey_def)

theorem BuildTable_stores_witness:
  "\<exists>iter' meta' tc'. BuildTable NoSnappy ''d'' read_options BlockItOps read_cache read_block (FileMetaData_new\<lparr>fm_number := 12\<rparr>) =
      Some (OK, iter', meta', tc') \<and> tc_stored NoSnappy ReadOptions_new BytewiseComparator tc' 12 (file_size meta') (read_entries 1)"
proof -
  obtain q where q: "blockit_pos (InternalKeyComparator BytewiseComparator) valid_ikey read_block (read_entries 1) q" using read_block_pos by blast
  have rc: "tc_dbname read_cache = ''d''" "tc_options read_cache = read_options" by (simp_all add: read_cache_def TableCache_new_def)
  have it: "iterator (InternalKey_Compare BytewiseComparator) valid_ikey BlockItOps (blockit_pos (InternalKeyComparator BytewiseComparator) valid_ikey)"
    using db_iterator.axioms(2) [OF block_db.db_iterator_axioms] .
  have "length (table_bytes NoSnappy read_options (read_entries 1)) < 2 ^ 32"
    using read_table_size [of 1] by (simp add: table_bytes_def read_table_def)
  from BuildTable_stores [OF bytewise_strict.strict_ikey_order_axioms bytewise_internal.comparator_axioms NoSnappy_ok it q _ _ _
      read_env(3) _ refl _ this, of "FileMetaData_new\<lparr>fm_number := 12\<rparr>"]
  show ?thesis unfolding read_env(2) rc by (auto simp: read_entries_def read_options_def TableFileName_inj)
qed

end
