(* ===== verification/Log.thy ===== *)
theory Log
  imports Crc32c Files
begin

text \<open>
  The write-ahead log, \<open>db/log_format.h\<close>, \<open>db/log_writer.cc\<close> and
  \<open>db/log_reader.cc\<close>: records are cut into fragments that never cross a 32 KiB block, each
  fragment carries a masked checksum, its length and its type, and the reader puts the
  records together again, reporting what it has to drop. Writer and reader are parameters of
  the file operations they use.
\<close>

subsection \<open>Format\<close>

datatype RecordType = kZeroType | kFullType | kFirstType | kMiddleType | kLastType

fun rtype_code :: "RecordType \<Rightarrow> byte" where
  "rtype_code kZeroType = 0"
| "rtype_code kFullType = 1"
| "rtype_code kFirstType = 2"
| "rtype_code kMiddleType = 3"
| "rtype_code kLastType = 4"

definition kMaxRecordType :: nat where "kMaxRecordType = 4"
definition kBlockSize :: nat where "kBlockSize = 32768"
definition kHeaderSize :: nat where "kHeaderSize = 4 + 1 + 2"

lemmas log_consts = kBlockSize_def kHeaderSize_def kMaxRecordType_def

subsection \<open>Writer\<close>

record 'w Writer =
  dest :: 'w
  block_offset :: nat
  type_crc :: "uint32 list"

definition Writer_new :: "'w \<Rightarrow> 'w Writer" where
  "Writer_new d =
     \<lparr>dest = d, block_offset = 0,
      type_crc = map (\<lambda>i. Value [of_nat i]) [0..<kMaxRecordType + 1]\<rparr>"

definition EmitPhysicalRecord ::
  "'w WritableFile \<Rightarrow> 'w Writer \<Rightarrow> RecordType \<Rightarrow> bytes \<Rightarrow> Status \<times> 'w Writer" where
  "EmitPhysicalRecord ops w t p =
     (let n = length p;
          crc = Mask (Extend (type_crc w ! unat (rtype_code t)) p);
          buf = EncodeFixed32 crc @
            [of_nat n AND 0xff, of_nat (n div 256), rtype_code t];
          (s, d) = wf_Append ops (dest w) buf;
          (s, d) = (if ok s then
                      (let (s, d) = wf_Append ops d p in
                       if ok s then wf_Flush ops d else (s, d))
                    else (s, d))
      in (s, w\<lparr>dest := d, block_offset := block_offset w + kHeaderSize + n\<rparr>))"

definition fragment_type :: "bool \<Rightarrow> bool \<Rightarrow> RecordType" where
  "fragment_type begin end =
     (if begin \<and> end then kFullType else if begin then kFirstType
      else if end then kLastType else kMiddleType)"

text \<open>Switching to a new block when fewer than a header's bytes are left in this one.\<close>

definition NewBlock :: "'w WritableFile \<Rightarrow> 'w Writer \<Rightarrow> 'w Writer" where
  "NewBlock ops w =
     (let leftover = kBlockSize - block_offset w in
      if leftover < kHeaderSize then
        (if leftover > 0
         then w\<lparr>dest := snd (wf_Append ops (dest w) (replicate leftover 0)), block_offset := 0\<rparr>
         else w\<lparr>block_offset := 0\<rparr>)
      else w)"

lemma NewBlock_offset: "block_offset (NewBlock ops w) =
    (if kBlockSize - block_offset w < kHeaderSize then 0 else block_offset w)"
  by (simp add: NewBlock_def Let_def)

lemma Emit_offset: "EmitPhysicalRecord ops w t p = (s, w') \<Longrightarrow>
    block_offset w' = block_offset w + kHeaderSize + length p \<and> type_crc w' = type_crc w"
  by (auto simp: EmitPhysicalRecord_def Let_def split: prod.splits if_splits)

function AddRecord_loop ::
  "'w WritableFile \<Rightarrow> bool \<Rightarrow> bytes \<Rightarrow> 'w Writer \<Rightarrow> Status \<times> 'w Writer" where
  "AddRecord_loop ops begin data w =
     (let w1 = NewBlock ops w;
          avail = kBlockSize - block_offset w1 - kHeaderSize;
          fragment_length = (if length data < avail then length data else avail);
          end = (length data = fragment_length);
          (s, w2) = EmitPhysicalRecord ops w1 (fragment_type begin end) (take fragment_length data);
          left = drop fragment_length data
      in if ok s \<and> left \<noteq> [] then AddRecord_loop ops False left w2 else (s, w2))"
  by pat_completeness auto
termination
proof (relation "measure (\<lambda>(ops, begin, data, w). 2 * length data +
    (if block_offset w = kBlockSize - kHeaderSize then 1 else 0))", goal_cases)
  case (2 ops bg data w w1 avail fl e pr s w2 left)
  then have off: "block_offset w2 = block_offset w1 + kHeaderSize + length (take fl data)"
    using Emit_offset [of ops w1 "fragment_type bg e" "take fl data" s w2] by simp
  show ?case
  proof (cases "avail = 0")
    case True
    then show ?thesis
      using 2 off by (auto simp: NewBlock_offset log_consts split: if_splits)
  next
    case False
    then have "length (drop fl data) < length data" using 2 by (auto split: if_splits)
    then show ?thesis using 2 by auto
  qed
qed simp

declare AddRecord_loop.simps [simp del]

definition AddRecord :: "'w WritableFile \<Rightarrow> 'w Writer \<Rightarrow> bytes \<Rightarrow> Status \<times> 'w Writer" where
  "AddRecord ops w data = AddRecord_loop ops True data w"

subsection \<open>Reader\<close>

text \<open>
  Offsets are unsigned 64-bit numbers, as in the source, because \<open>ReportDrop\<close> subtracts
  them. The reports the reader makes are recorded in the order it makes them.
\<close>

record 'f Reader =
  sfile :: 'f
  has_reporter :: bool
  reports :: "(nat \<times> Status) list"
  checksum :: bool
  buffer :: bytes
  eof :: bool
  last_record_offset :: uint64
  end_of_buffer_offset :: uint64
  initial_offset :: uint64

definition Reader_new :: "'f \<Rightarrow> bool \<Rightarrow> bool \<Rightarrow> uint64 \<Rightarrow> 'f Reader" where
  "Reader_new f rep chk init =
     \<lparr>sfile = f, has_reporter = rep, reports = [], checksum = chk, buffer = [], eof = False,
      last_record_offset = 0, end_of_buffer_offset = 0, initial_offset = init\<rparr>"

definition ReportDrop :: "'f Reader \<Rightarrow> nat \<Rightarrow> Status \<Rightarrow> 'f Reader" where
  "ReportDrop r n reason =
     (if has_reporter r \<and>
         end_of_buffer_offset r - of_nat (length (buffer r)) - of_nat n \<ge> initial_offset r
      then r\<lparr>reports := reports r @ [(n, reason)]\<rparr> else r)"

definition ReportCorruption :: "'f Reader \<Rightarrow> nat \<Rightarrow> string \<Rightarrow> 'f Reader" where
  "ReportCorruption r n reason = ReportDrop r n (Corruption reason [])"

definition SkipToInitialBlock :: "'f SequentialFile \<Rightarrow> 'f Reader \<Rightarrow> bool \<times> 'f Reader" where
  "SkipToInitialBlock ops r =
     (let offset_in_block = unat (initial_offset r) mod kBlockSize;
          block_start_location = initial_offset r - of_nat offset_in_block;
          block_start_location =
            (if offset_in_block > kBlockSize - 6 then block_start_location + of_nat kBlockSize
             else block_start_location);
          r = r\<lparr>end_of_buffer_offset := block_start_location\<rparr>
      in if block_start_location > 0 then
           (let (s, f) = sf_Skip ops (sfile r) (unat block_start_location);
                r = r\<lparr>sfile := f\<rparr>
            in if \<not> ok s then (False, ReportDrop r (unat block_start_location) s) else (True, r))
         else (True, r))"

text \<open>The result of \<open>ReadPhysicalRecord\<close>: the type field as it is in the header, or one of the
  two special values \<open>kEof = 5\<close> and \<open>kBadRecord = 6\<close>.\<close>

definition kEof :: uint32 where "kEof = 5"
definition kBadRecord :: uint32 where "kBadRecord = 6"

text \<open>
  The header is parsed when the buffer holds one. The type is read through a signed
  \<open>char\<close>.
\<close>

definition ParsePhysicalRecord :: "'f Reader \<Rightarrow> uint32 \<times> bytes \<times> 'f Reader" where
  "ParsePhysicalRecord r =
     (let header = buffer r;
          a = ucast (header ! 4) AND (0xff :: uint32);
          b = ucast (header ! 5) AND (0xff :: uint32);
          type = scast (header ! 6) :: uint32;
          len = unat (a OR push_bit 8 b)
      in if kHeaderSize + len > length (buffer r) then
           (kBadRecord, [],
            ReportCorruption (r\<lparr>buffer := []\<rparr>) (length (buffer r)) ''bad record length'')
         else if type = 0 \<and> len = 0 then (kBadRecord, [], r\<lparr>buffer := []\<rparr>)
         else if checksum r \<and>
            Value (take (1 + len) (drop 6 header)) \<noteq> Unmask (DecodeFixed32 header) then
           (kBadRecord, [],
            ReportCorruption (r\<lparr>buffer := []\<rparr>) (length (buffer r)) ''checksum mismatch'')
         else
           (let r = r\<lparr>buffer := drop (kHeaderSize + len) (buffer r)\<rparr> in
            if end_of_buffer_offset r - of_nat (length (buffer r)) - of_nat kHeaderSize - of_nat len
                 < initial_offset r
            then (kBadRecord, [], r)
            else (type, take len (drop kHeaderSize header), r)))"

function ReadPhysicalRecord :: "'f SequentialFile \<Rightarrow> 'f Reader \<Rightarrow> uint32 \<times> bytes \<times> 'f Reader" where
  "ReadPhysicalRecord ops r =
     (if length (buffer r) < kHeaderSize then
        (if \<not> eof r then
           (let (s, buf, f) = sf_Read ops (sfile r) kBlockSize;
                r1 = r\<lparr>sfile := f, buffer := buf,
                       end_of_buffer_offset := end_of_buffer_offset r + of_nat (length buf)\<rparr>
            in if \<not> ok s then
                 (kEof, [], (ReportDrop (r1\<lparr>buffer := []\<rparr>) kBlockSize s)\<lparr>eof := True\<rparr>)
               else if length buf < kBlockSize then ReadPhysicalRecord ops (r1\<lparr>eof := True\<rparr>)
               else ReadPhysicalRecord ops r1)
         else if length (buffer r) = 0 then (kEof, [], r)
         else
           (kEof, [], ReportCorruption (r\<lparr>buffer := []\<rparr>) (length (buffer r))
              ''truncated record at end of file''))
      else ParsePhysicalRecord r)"
  by pat_completeness auto
termination
  by (relation "measure (\<lambda>(ops, r). if \<not> eof r \<and> length (buffer r) < kHeaderSize then 1 else 0)")
    (auto simp: log_consts)

declare ReadPhysicalRecord.simps [simp del]

text \<open>
  The loop of \<open>ReadRecord\<close> runs until a record is complete or the file ends; on a file that
  never ends it would not return, so its model is a partial function.
\<close>

partial_function (option) ReadRecord_loop ::
  "'f SequentialFile \<Rightarrow> bool \<Rightarrow> uint64 \<Rightarrow> bytes \<Rightarrow> 'f Reader \<Rightarrow> (bytes option \<times> 'f Reader) option" where
  "ReadRecord_loop ops in_frag prospective scratch r =
     (let physical_record_offset = end_of_buffer_offset r - of_nat (length (buffer r));
          (record_type, fragment, r) = ReadPhysicalRecord ops r
      in if record_type = 1 then
           (let r = (if in_frag \<and> scratch \<noteq> []
                     then ReportCorruption r (length scratch) ''partial record without end(1)''
                     else r)
            in Some (Some fragment, r\<lparr>last_record_offset := physical_record_offset\<rparr>))
         else if record_type = 2 then
           (let r = (if in_frag \<and> scratch \<noteq> []
                     then ReportCorruption r (length scratch) ''partial record without end(2)''
                     else r)
            in ReadRecord_loop ops True physical_record_offset fragment r)
         else if record_type = 3 then
           (if \<not> in_frag
            then ReadRecord_loop ops in_frag prospective scratch
                   (ReportCorruption r (length fragment) ''missing start of fragmented record(1)'')
            else ReadRecord_loop ops in_frag prospective (scratch @ fragment) r)
         else if record_type = 4 then
           (if \<not> in_frag
            then ReadRecord_loop ops in_frag prospective scratch
                   (ReportCorruption r (length fragment) ''missing start of fragmented record(2)'')
            else Some (Some (scratch @ fragment), r\<lparr>last_record_offset := prospective\<rparr>))
         else if record_type = kEof then
           Some (None,
             if in_frag then ReportCorruption r (length scratch) ''partial record without end(3)''
             else r)
         else if record_type = kBadRecord then
           (if in_frag
            then ReadRecord_loop ops False prospective []
                   (ReportCorruption r (length scratch) ''error in middle of record'')
            else ReadRecord_loop ops in_frag prospective scratch r)
         else
           ReadRecord_loop ops False prospective []
             (ReportCorruption r (length fragment + (if in_frag then length scratch else 0))
                (''unknown record type '' @ decimal (unat record_type))))"

definition ReadRecord :: "'f SequentialFile \<Rightarrow> 'f Reader \<Rightarrow> (bytes option \<times> 'f Reader) option" where
  "ReadRecord ops r =
     (let (cont, r) = (if last_record_offset r < initial_offset r then SkipToInitialBlock ops r
                       else (True, r))
      in if \<not> cont then Some (None, r) else ReadRecord_loop ops False 0 [] r)"

definition LastRecordOffset :: "'f Reader \<Rightarrow> uint64" where
  "LastRecordOffset r = last_record_offset r"

end
