(* ===== verification/Log_Roundtrip.thy ===== *)
theory Log_Roundtrip
  imports Log
begin

text \<open>
  The log reader undoes the log writer. The bytes a record occupies are given by
  \<open>log_bytes\<close>; the writer appends exactly them, and the reader, positioned anywhere in a file
  at the place where they start, returns the record. From this follow the round trip of a whole
  log, that a log cut off at any byte gives back exactly the records that are complete in it, and
  that reading returns on every file.
\<close>

subsection \<open>The bytes of a record\<close>

definition pad :: "nat \<Rightarrow> bytes" where
  "pad off = (if kBlockSize - off < kHeaderSize then replicate (kBlockSize - off) 0 else [])"

definition start_off :: "nat \<Rightarrow> nat" where
  "start_off off = (if kBlockSize - off < kHeaderSize then 0 else off)"

definition phys :: "RecordType \<Rightarrow> bytes \<Rightarrow> bytes" where
  "phys t frag = EncodeFixed32 (Mask (Value (rtype_code t # frag))) @
     [of_nat (length frag) AND 0xff, of_nat (length frag div 256), rtype_code t] @ frag"

definition frag_len :: "nat \<Rightarrow> bytes \<Rightarrow> nat" where
  "frag_len off data = min (length data) (kBlockSize - start_off off - kHeaderSize)"

definition frag_end :: "nat \<Rightarrow> bytes \<Rightarrow> nat" where
  "frag_end off data = start_off off + kHeaderSize + frag_len off data"

definition frag_bytes :: "bool \<Rightarrow> nat \<Rightarrow> bytes \<Rightarrow> bytes" where
  "frag_bytes bg off data =
     phys (fragment_type bg (length data = frag_len off data)) (take (frag_len off data) data)"

function log_bytes :: "bool \<Rightarrow> bytes \<Rightarrow> nat \<Rightarrow> bytes \<times> nat" where
  "log_bytes bg data off =
     (let b = pad off @ frag_bytes bg off data in
      if drop (frag_len off data) data \<noteq> [] then
        apfst ((@) b) (log_bytes False (drop (frag_len off data) data) (frag_end off data))
      else (b, frag_end off data))"
  by pat_completeness auto
termination
proof (relation "measure (\<lambda>(bg, data, off). 2 * length data +
    (if off = kBlockSize - kHeaderSize then 1 else 0))", goal_cases)
  case (2 bg data off b)
  then show ?case
    by (cases "kBlockSize - start_off off - kHeaderSize = 0")
      (auto simp: frag_len_def frag_end_def start_off_def log_consts split: if_splits)
qed simp

declare log_bytes.simps [simp del]

lemma phys_length [simp]: "length (phys t frag) = kHeaderSize + length frag"
  by (simp add: phys_def kHeaderSize_def)

lemma start_off_le: "off \<le> kBlockSize \<Longrightarrow> start_off off + kHeaderSize \<le> kBlockSize"
  by (auto simp: start_off_def log_consts)

lemma frag_end_le: "off \<le> kBlockSize \<Longrightarrow> frag_end off data \<le> kBlockSize"
  using start_off_le [of off] by (auto simp: frag_end_def frag_len_def)

lemma fragment_type_not_zero [simp]: "fragment_type bg e \<noteq> kZeroType"
  by (simp add: fragment_type_def)

lemma frag_len_le [simp]: "frag_len off data \<le> length data"
  by (simp add: frag_len_def)

lemma frag_bytes_length [simp]:
  "length (frag_bytes bg off data) = kHeaderSize + frag_len off data"
  by (simp add: frag_bytes_def)

lemma pad_mod: "off \<le> kBlockSize \<Longrightarrow> (off + length (pad off)) mod kBlockSize = start_off off mod kBlockSize"
  by (auto simp: pad_def start_off_def)

lemma frag_mod: "off \<le> kBlockSize \<Longrightarrow>
    (off + length (pad off) + length (frag_bytes bg off data)) mod kBlockSize = frag_end off data mod kBlockSize"
  using pad_mod [of off] by (simp add: frag_end_def add.assoc) (metis mod_add_left_eq add.assoc)

lemma log_bytes_last: "frag_len off data = length data \<Longrightarrow>
    log_bytes bg data off = (pad off @ phys (fragment_type bg True) data, frag_end off data)"
  by (simp add: log_bytes.simps [of bg data off] frag_bytes_def)

lemma log_bytes_more: "frag_len off data < length data \<Longrightarrow>
    log_bytes bg data off = apfst ((@) (pad off @ phys (fragment_type bg False) (take (frag_len off data) data)))
      (log_bytes False (drop (frag_len off data) data) (frag_end off data))"
  by (simp add: log_bytes.simps [of bg data off] frag_bytes_def)

text \<open>Induction over the fragments of a record.\<close>

lemma log_bytes_induct [case_names last more]:
  assumes "\<And>bg data off. frag_len off data = length data \<Longrightarrow> P bg data off"
    and "\<And>bg data off. frag_len off data < length data \<Longrightarrow>
      P False (drop (frag_len off data) data) (frag_end off data) \<Longrightarrow> P bg data off"
  shows "P bg data off"
proof (induction bg data off rule: log_bytes.induct)
  case (1 bg data off)
  show ?case
  proof (cases "frag_len off data = length data")
    case False
    then have "frag_len off data < length data" using frag_len_le [of off data] by linarith
    then show ?thesis using assms(2) 1 by simp
  qed (rule assms(1))
qed

lemma log_bytes_offset:
  "off \<le> kBlockSize \<Longrightarrow> snd (log_bytes bg data off) \<le> kBlockSize \<and>
    snd (log_bytes bg data off) mod kBlockSize = (off + length (fst (log_bytes bg data off))) mod kBlockSize"
proof (induction bg data off rule: log_bytes_induct)
  case (last bg data off)
  then show ?case
    using frag_mod [OF last(2), of bg data] frag_end_le [OF last(2)] by (simp add: log_bytes_last add.assoc)
next
  case (more bg data off)
  let ?b = "fst (log_bytes False (drop (frag_len off data) data) (frag_end off data))"
  have "(off + length (pad off) + length (frag_bytes bg off data) + length ?b) mod kBlockSize =
      (frag_end off data + length ?b) mod kBlockSize"
    using frag_mod [OF more(3), of bg data] by (metis mod_add_left_eq)
  then show ?case
    using more(1) more(2) [OF frag_end_le [OF more(3)]]
    by (simp add: log_bytes_more add.assoc)
qed

text \<open>The position in the file decides the bytes: a full block and a fresh one are the same.\<close>

lemma frag_cong: "start_off off = start_off off' \<Longrightarrow>
    frag_len off = frag_len off' \<and> frag_end off = frag_end off'"
  by (auto simp: frag_len_def frag_end_def fun_eq_iff)

lemma log_bytes_block_end: "log_bytes bg data kBlockSize = log_bytes bg data 0"
proof -
  have "start_off kBlockSize = start_off 0" "pad kBlockSize = pad 0"
    by (simp_all add: start_off_def pad_def log_consts)
  then show ?thesis
    using frag_cong [of kBlockSize 0]
    by (subst (1 2) log_bytes.simps) (simp add: frag_bytes_def Let_def)
qed

subsection \<open>What the writer appends\<close>

definition type_crc_ok :: "'w Writer \<Rightarrow> bool" where
  "type_crc_ok w \<longleftrightarrow> type_crc w = map (\<lambda>i. Value [of_nat i]) [0..<kMaxRecordType + 1]"

lemma type_crc_nth: "type_crc_ok w \<Longrightarrow> type_crc w ! unat (rtype_code t) = Value [rtype_code t]"
  by (cases t) (simp_all add: type_crc_ok_def kMaxRecordType_def nth_append upt_rec [of 0])

context writable_file begin

lemma Emit_appends:
  assumes "invar (dest w)" "type_crc_ok w" "EmitPhysicalRecord ops w t p = (s, w')"
  shows "s = OK \<and> content (dest w') = content (dest w) @ phys t p \<and> invar (dest w')"
proof -
  have crc: "Extend (type_crc w ! unat (rtype_code t)) p = Value (rtype_code t # p)"
    using type_crc_nth [OF assms(2), of t] Extend_Value [of "[rtype_code t]" p] by simp
  obtain s1 d1 where a1: "wf_Append ops (dest w) (EncodeFixed32 (Mask (Value (rtype_code t # p))) @
      [of_nat (length p) AND 0xff, of_nat (length p div 256), rtype_code t]) = (s1, d1)" by fastforce
  obtain s2 d2 where a2: "wf_Append ops d1 p = (s2, d2)" by fastforce
  obtain s3 d3 where a3: "wf_Flush ops d2 = (s3, d3)" by fastforce
  note o1 = append_ok [OF assms(1) a1]
  then have o2: "s2 = OK \<and> content d2 = content d1 @ p \<and> invar d2" using append_ok [OF _ a2] by blast
  then have o3: "s3 = OK \<and> content d3 = content d2 \<and> invar d3" using flush_ok [OF _ a3] by blast
  have "EmitPhysicalRecord ops w t p = (OK, w\<lparr>dest := d3, block_offset := block_offset w + kHeaderSize + length p\<rparr>)"
    unfolding EmitPhysicalRecord_def Let_def crc a1 using o1 o2 o3 by (simp add: a2 a3)
  then show ?thesis using assms(3) o1 o2 o3 by (auto simp: phys_def)
qed

lemma NewBlock_appends:
  assumes "invar (dest w)" "block_offset w \<le> kBlockSize"
  shows "content (dest (NewBlock ops w)) = content (dest w) @ pad (block_offset w) \<and>
    invar (dest (NewBlock ops w)) \<and> block_offset (NewBlock ops w) = start_off (block_offset w) \<and>
    type_crc (NewBlock ops w) = type_crc w"
proof (cases "0 < kBlockSize - block_offset w \<and> kBlockSize - block_offset w < kHeaderSize")
  case True
  obtain s1 d1 where a1: "wf_Append ops (dest w) (replicate (kBlockSize - block_offset w) 0) = (s1, d1)"
    by fastforce
  show ?thesis
    using True append_ok [OF assms(1) a1] by (auto simp: NewBlock_def Let_def pad_def start_off_def a1)
next
  case False
  then show ?thesis using assms by (auto simp: NewBlock_def Let_def pad_def start_off_def)
qed

definition writing :: "'w Writer \<Rightarrow> bool" where
  "writing w \<longleftrightarrow> invar (dest w) \<and> type_crc_ok w \<and> block_offset w \<le> kBlockSize"

lemma Fragment_appends:
  assumes "writing w"
  shows "\<exists>w2. EmitPhysicalRecord ops (NewBlock ops w)
        (fragment_type bg (length data = frag_len (block_offset w) data))
        (take (frag_len (block_offset w) data) data) = (OK, w2) \<and> writing w2 \<and>
      content (dest w2) = content (dest w) @ pad (block_offset w) @ frag_bytes bg (block_offset w) data \<and>
      block_offset w2 = frag_end (block_offset w) data"
proof -
  have nb: "content (dest (NewBlock ops w)) = content (dest w) @ pad (block_offset w)"
    "invar (dest (NewBlock ops w))" "block_offset (NewBlock ops w) = start_off (block_offset w)"
    "type_crc_ok (NewBlock ops w)"
    using assms NewBlock_appends [of w] by (auto simp: writing_def type_crc_ok_def)
  obtain s w2 where e: "EmitPhysicalRecord ops (NewBlock ops w)
      (fragment_type bg (length data = frag_len (block_offset w) data))
      (take (frag_len (block_offset w) data) data) = (s, w2)" by fastforce
  show ?thesis
    using Emit_appends [OF nb(2,4) e] Emit_offset [OF e] e nb assms frag_end_le [of "block_offset w" data]
    by (auto simp: writing_def type_crc_ok_def frag_bytes_def frag_end_def)
qed

lemma AddRecord_loop_unfold:
  assumes "writing w"
  shows "AddRecord_loop ops bg data w = (let (s, w2) = EmitPhysicalRecord ops (NewBlock ops w)
        (fragment_type bg (length data = frag_len (block_offset w) data))
        (take (frag_len (block_offset w) data) data)
      in if ok s \<and> drop (frag_len (block_offset w) data) data \<noteq> []
         then AddRecord_loop ops False (drop (frag_len (block_offset w) data) data) w2 else (s, w2))"
proof -
  have "block_offset (NewBlock ops w) = start_off (block_offset w)"
    using assms NewBlock_appends [of w] by (auto simp: writing_def)
  then have "(if length data < kBlockSize - block_offset (NewBlock ops w) - kHeaderSize
    then length data else kBlockSize - block_offset (NewBlock ops w) - kHeaderSize) =
    frag_len (block_offset w) data" by (simp add: frag_len_def min_def)
  then show ?thesis by (subst AddRecord_loop.simps) (simp only: Let_def)
qed

lemma AddRecord_loop_appends:
  assumes "writing w"
  shows "\<exists>w'. AddRecord_loop ops bg data w = (OK, w') \<and> writing w' \<and>
    content (dest w') = content (dest w) @ fst (log_bytes bg data (block_offset w)) \<and>
    block_offset w' = snd (log_bytes bg data (block_offset w))"
  using assms
proof (induction bg data "block_offset w" arbitrary: w rule: log_bytes_induct)
  case (last bg data w)
  then show ?case using Fragment_appends [OF last(2), of bg data]
    by (auto simp: AddRecord_loop_unfold log_bytes_last frag_bytes_def)
next
  case (more bg data w)
  obtain w2 where w2: "EmitPhysicalRecord ops (NewBlock ops w)
      (fragment_type bg (length data = frag_len (block_offset w) data))
      (take (frag_len (block_offset w) data) data) = (OK, w2)" "writing w2"
    "content (dest w2) = content (dest w) @ pad (block_offset w) @ frag_bytes bg (block_offset w) data"
    "block_offset w2 = frag_end (block_offset w) data"
    using Fragment_appends [OF more(3), of bg data] by blast
  show ?case using more(1) more(2) [OF w2(4) [symmetric] w2(2)] w2
    by (auto simp: AddRecord_loop_unfold [OF more(3)] log_bytes_more frag_bytes_def)
qed

end

subsection \<open>What the reader finds\<close>

context sequential_file begin

text \<open>The reader has consumed the first \<open>p\<close> bytes of the file \<open>C\<close> and buffers the bytes up
  to \<open>E\<close>, at most the rest of the block.\<close>

definition buffers :: "bytes \<Rightarrow> nat \<Rightarrow> nat \<Rightarrow> 'f Reader \<Rightarrow> bool" where
  "buffers C p E r \<longleftrightarrow> invar (sfile r) \<and> initial_offset r = 0 \<and> p \<le> E \<and> E \<le> length C \<and>
     buffer r = take (E - p) (drop p C) \<and> remaining (sfile r) = drop E C \<and>
     end_of_buffer_offset r = of_nat E \<and>
     (if eof r then E = length C else E mod kBlockSize = 0) \<and> E \<le> p + (kBlockSize - p mod kBlockSize)"

definition reader_at :: "bytes \<Rightarrow> nat \<Rightarrow> 'f Reader \<Rightarrow> bool" where
  "reader_at C p r \<longleftrightarrow> (\<exists>E. buffers C p E r)"

text \<open>What a read leaves alone.\<close>

definition quiet :: "'f Reader \<Rightarrow> 'f Reader \<Rightarrow> bool" where
  "quiet r r' \<longleftrightarrow> reports r' = reports r \<and> last_record_offset r' = last_record_offset r"

lemma quiet_refl [simp]: "quiet r r"
  by (simp add: quiet_def)

lemma quiet_trans: "quiet r1 r2 \<Longrightarrow> quiet r2 r3 \<Longrightarrow> quiet r1 r3"
  by (simp add: quiet_def)

lemma next_multiple:
  fixes E p K :: nat
  assumes "0 < K" "E mod K = 0" "p < E" "E \<le> p + (K - p mod K)"
  shows "E = p + (K - p mod K)"
proof -
  obtain k where k: "E = K * k" using assms(2) by blast
  define q where "q = p div K"
  have p: "p = K * q + p mod K" and less: "p mod K < K" using assms(1) by (simp_all add: q_def)
  have "q < k" using assms(3) k p by (metis add_leD1 le_trans linorder_not_less mult_le_mono2 less_imp_le_nat)
  moreover have "k \<le> q + 1"
  proof (rule ccontr)
    assume "\<not> k \<le> q + 1"
    then have "K * (q + 2) \<le> K * k" by (intro mult_le_mono2) simp
    then show False using assms(1,4) p less k by (simp add: algebra_simps)
  qed
  ultimately have "k = q + 1" by simp
  then show ?thesis using k p less by (simp add: algebra_simps)
qed

lemma buffers_length: "buffers C p E r \<Longrightarrow> length (buffer r) = E - p"
  by (auto simp: buffers_def min_def)

lemma Read_parse: "kHeaderSize \<le> length (buffer r) \<Longrightarrow> ReadPhysicalRecord ops r = ParsePhysicalRecord r"
  by (subst ReadPhysicalRecord.simps) simp

text \<open>A block is read when nothing is buffered at its start.\<close>

lemma fill_block:
  assumes "buffers C p p r" "\<not> eof r"
  obtains r' where "buffers C p (min (p + kBlockSize) (length C)) r'" "quiet r r'"
    "eof r' \<longleftrightarrow> length C < p + kBlockSize"
    "ReadPhysicalRecord ops r = ReadPhysicalRecord ops r'"
proof -
  obtain s buf f where rd: "sf_Read ops (sfile r) kBlockSize = (s, buf, f)" by (metis prod_cases3)
  have r: "invar (sfile r)" "initial_offset r = 0" "p \<le> length C" "buffer r = []"
    "remaining (sfile r) = drop p C" "end_of_buffer_offset r = of_nat p" "p mod kBlockSize = 0"
    using assms by (simp_all add: buffers_def)
  note rd' = read_ok [OF r(1) rd]
  have buf: "buf = take kBlockSize (drop p C)" and len: "length buf = min kBlockSize (length C - p)"
    using rd' r by simp_all
  define r' where "r' = r\<lparr>sfile := f, buffer := buf,
      end_of_buffer_offset := end_of_buffer_offset r + of_nat (length buf), eof := length buf < kBlockSize\<rparr>"
  have E: "p + length buf = min (p + kBlockSize) (length C)" using len r(3) by simp
  have "buffers C p (p + length buf) r'"
    using r rd' buf E by (auto simp: buffers_def r'_def min_def ac_simps split: if_splits)
  moreover have "eof r' \<longleftrightarrow> length C < p + kBlockSize" using len r(3) by (auto simp: r'_def)
  moreover have "ReadPhysicalRecord ops r = ReadPhysicalRecord ops r'"
    using assms(2) r(4) rd conjunct1 [OF rd']
    by (cases r, subst ReadPhysicalRecord.simps) (simp add: r'_def kHeaderSize_def Let_def)
  moreover have "quiet r r'" by (simp add: quiet_def r'_def)
  ultimately show ?thesis using that E by simp
qed

text \<open>Before a header, the buffer is filled to the end of the block or of the file.\<close>

lemma ready:
  assumes "reader_at C p r" "p + kHeaderSize \<le> length C" "p mod kBlockSize + kHeaderSize \<le> kBlockSize"
  obtains r' where "buffers C p (min (p + (kBlockSize - p mod kBlockSize)) (length C)) r'" "quiet r r'"
    "ReadPhysicalRecord ops r = ParsePhysicalRecord r'"
proof -
  obtain E where b: "buffers C p E r" using assms(1) by (auto simp: reader_at_def)
  then have E: "p \<le> E" "if eof r then E = length C else E mod kBlockSize = 0"
    "E \<le> p + (kBlockSize - p mod kBlockSize)" "E \<le> length C" by (auto simp: buffers_def)
  have K: "0 < kBlockSize" by (simp add: kBlockSize_def)
  show ?thesis
  proof (cases "E < p + kHeaderSize")
    case True
    have "\<not> eof r" using True E assms(2) by auto
    moreover have "E = p"
      using next_multiple [OF K _ _ E(3)] True E assms(3) \<open>\<not> eof r\<close> by (cases "p = E") auto
    moreover have "p mod kBlockSize = 0" using E calculation by simp
    ultimately obtain r' where r': "buffers C p (min (p + (kBlockSize - p mod kBlockSize)) (length C)) r'"
      "quiet r r'" "ReadPhysicalRecord ops r = ReadPhysicalRecord ops r'"
      using fill_block [of C p r] b by auto
    moreover have "ReadPhysicalRecord ops r' = ParsePhysicalRecord r'"
      using assms(2,3) buffers_length [OF r'(1)] by (intro Read_parse) (auto simp: min_def)
    ultimately show ?thesis using that by simp
  next
    case False
    then have "p < E" by (simp add: kHeaderSize_def)
    then have "E = min (p + (kBlockSize - p mod kBlockSize)) (length C)"
      using next_multiple [OF K _ _ E(3)] E by (auto split: if_splits)
    moreover have "ReadPhysicalRecord ops r = ParsePhysicalRecord r"
      using False buffers_length [OF b] by (intro Read_parse) simp
    ultimately show ?thesis using that b by auto
  qed
qed

text \<open>The trailer of a block is passed over.\<close>

lemma skip_trailer:
  assumes "reader_at C p r" "kBlockSize - p mod kBlockSize < kHeaderSize"
    "p + (kBlockSize - p mod kBlockSize) < length C"
  obtains r' where "reader_at C (p + (kBlockSize - p mod kBlockSize)) r'" "quiet r r'"
    "ReadPhysicalRecord ops r = ReadPhysicalRecord ops r'"
proof -
  obtain E where b: "buffers C p E r" using assms(1) by (auto simp: reader_at_def)
  have K: "0 < kBlockSize" by (simp add: kBlockSize_def)
  have "p mod kBlockSize \<noteq> 0" using assms(2) by (auto simp: log_consts)
  then have E: "E = p + (kBlockSize - p mod kBlockSize)" "\<not> eof r" "E mod kBlockSize = 0"
    using b assms(3) next_multiple [OF K, of E p] by (auto simp: buffers_def order_le_less split: if_splits)
  define r' where "r' = r\<lparr>buffer := []\<rparr>"
  have "buffers C E E r'" using b E(2,3) by (auto simp: buffers_def r'_def)
  moreover have "ReadPhysicalRecord ops r = ReadPhysicalRecord ops r'"
    using buffers_length [OF b] E assms(2) by (subst (1 2) ReadPhysicalRecord.simps) (simp add: r'_def kHeaderSize_def)
  moreover have "quiet r r'" by (simp add: quiet_def r'_def)
  ultimately show ?thesis using that E(1) unfolding reader_at_def by blast
qed

end

lemma header_length:
  assumes "n < 65536"
  shows "unat (ucast (of_nat n AND 0xff :: byte) AND (0xff :: uint32) OR
    push_bit 8 (ucast (of_nat (n div 256) :: byte) AND 0xff)) = n"
proof -
  have n: "take_bit 16 n = n" using assms by (simp add: take_bit_nat_eq_self_iff)
  have d: "n div 256 = drop_bit 8 n" by (simp add: drop_bit_eq_div)
  have m: "(0xff :: uint32) = mask 8" "(0xff :: byte) = mask 8" by (simp_all add: mask_eq_exp_minus_1)
  have high: "bit n i \<Longrightarrow> i < 16" for i using n by (metis bit_take_bit_iff)
  have "ucast (of_nat n AND 0xff :: byte) AND (0xff :: uint32) OR
    push_bit 8 (ucast (of_nat (n div 256) :: byte) AND 0xff) = of_nat n"
    unfolding d m
    by (rule bit_word_eqI) (auto simp: bit_simps dest: high)
  then show ?thesis using assms by (simp add: unat_of_nat_small32)
qed

lemma parse_phys:
  assumes "buffer r = phys t frag @ Z" "initial_offset r = 0" "t \<noteq> kZeroType" "length frag < 65536"
  shows "ParsePhysicalRecord r = (ucast (rtype_code t), frag, r\<lparr>buffer := Z\<rparr>)"
proof -
  have nth: "buffer r ! 4 = of_nat (length frag) AND 0xff" "buffer r ! 5 = of_nat (length frag div 256)"
    "buffer r ! 6 = rtype_code t" "drop 6 (buffer r) = rtype_code t # frag @ Z"
    "drop 7 (buffer r) = frag @ Z" "length (buffer r) = 7 + length frag + length Z"
    by (simp_all add: assms(1) phys_def EncodeFixed32_def nth_append)
  have crc: "Unmask (DecodeFixed32 (buffer r)) = Value (rtype_code t # frag)"
    by (simp add: assms(1) phys_def roundtrip Unmask_Mask)
  have ty: "(scast (rtype_code t) :: uint32) = ucast (rtype_code t)" "(ucast (rtype_code t) :: uint32) \<noteq> 0"
    using assms(3) by (cases t; simp)+
  have dr: "drop (7 + length frag) (buffer r) = Z" by (simp add: assms(1) kHeaderSize_def)
  show ?thesis
    unfolding ParsePhysicalRecord_def Let_def nth(1,2) header_length [OF assms(4)]
    using assms(2) by (simp add: nth crc ty kHeaderSize_def dr)
qed

context sequential_file begin

lemma same_block:
  fixes p p' K :: nat
  assumes "0 < K" "p \<le> p'" "p' < p + (K - p mod K)"
  shows "p' + (K - p' mod K) = p + (K - p mod K)"
proof -
  obtain d where d: "p' = p + d" using assms(2) le_Suc_ex by blast
  then have "p mod K + d < K" using assms by simp
  then have "p' mod K = p mod K + d" unfolding d by (metis mod_add_left_eq mod_less)
  then show ?thesis using d \<open>p mod K + d < K\<close> by simp
qed

lemma consume:
  assumes "buffers C p E r" "buffer r = a @ b"
  shows "buffers C (p + length a) E (r\<lparr>buffer := b\<rparr>)"
proof -
  have len: "length a + length b = E - p" using buffers_length [OF assms(1)] assms(2) by simp
  have E: "p \<le> E" "E \<le> length C" "E \<le> p + (kBlockSize - p mod kBlockSize)"
    using assms(1) by (auto simp: buffers_def)
  have "b = drop (length a) (take (E - p) (drop p C))"
    using assms by (simp add: buffers_def) (metis append_eq_conv_conj)
  then have b: "b = take (E - (p + length a)) (drop (p + length a) C)"
    by (simp add: drop_take add.commute)
  have "E \<le> p + length a + (kBlockSize - (p + length a) mod kBlockSize)"
  proof (cases "p + length a < E")
    case True
    then show ?thesis using same_block [of kBlockSize p "p + length a"] E(3) by (simp add: kBlockSize_def)
  qed simp
  moreover have "p + length a \<le> E" using len E by linarith
  ultimately show ?thesis using assms(1) b by (simp add: buffers_def)
qed

lemma skip_pad:
  assumes "reader_at C (length X) r" "off \<le> kBlockSize" "off mod kBlockSize = length X mod kBlockSize"
    "length X + length (pad off) < length C"
  obtains r' where "reader_at C (length X + length (pad off)) r'" "quiet r r'"
    "ReadPhysicalRecord ops r = ReadPhysicalRecord ops r'"
proof (cases "pad off = []")
  case False
  then have short: "kBlockSize - off < kHeaderSize" and "off \<noteq> kBlockSize"
    by (auto simp: pad_def split: if_splits)
  then have "length X mod kBlockSize = off" "length (pad off) = kBlockSize - off"
    using assms(2,3) by (auto simp: pad_def)
  then show ?thesis using skip_trailer [OF assms(1)] short assms(4) that by auto
qed (use that assms(1) in simp)

text \<open>A fragment of the writer is read back, the trailer before it included.\<close>

lemma read_fragment:
  assumes "reader_at C (length X) r" "C = X @ pad off @ phys t frag @ Y"
    "off \<le> kBlockSize" "off mod kBlockSize = length X mod kBlockSize"
    "start_off off + kHeaderSize + length frag \<le> kBlockSize" "t \<noteq> kZeroType"
  obtains r' where "ReadPhysicalRecord ops r = (ucast (rtype_code t), frag, r')" "quiet r r'"
    "reader_at C (length X + length (pad off) + (kHeaderSize + length frag)) r'"
proof -
  let ?p = "length X + length (pad off)"
  have pm: "?p mod kBlockSize = start_off off mod kBlockSize"
    using pad_mod [OF assms(3)] assms(4) by (metis mod_add_left_eq)
  have so: "start_off off < kBlockSize" using assms(5) by (simp add: kHeaderSize_def)
  have fl: "length frag < 65536" using assms(5) by (simp add: log_consts)
  have C: "length C = ?p + (kHeaderSize + length frag) + length Y" by (simp add: assms(2))
  obtain r1 where r1: "reader_at C ?p r1" "quiet r r1" "ReadPhysicalRecord ops r = ReadPhysicalRecord ops r1"
    using skip_pad [OF assms(1,3,4)] C by (auto simp: kHeaderSize_def)
  obtain r2 where r2: "buffers C ?p (min (?p + (kBlockSize - ?p mod kBlockSize)) (length C)) r2"
    "quiet r1 r2" "ReadPhysicalRecord ops r1 = ParsePhysicalRecord r2"
    using ready [OF r1(1)] C so assms(5) by (auto simp: pm)
  obtain E where E: "E = min (?p + (kBlockSize - ?p mod kBlockSize)) (length C)" by simp
  have "?p + (kHeaderSize + length frag) \<le> E" using assms(5) C so by (simp add: pm E)
  moreover have "buffer r2 = take (E - ?p) (phys t frag @ Y)"
    using r2(1) by (simp add: buffers_def assms(2) E)
  ultimately have buf: "buffer r2 = phys t frag @ take (E - ?p - (kHeaderSize + length frag)) Y"
    by simp
  have "initial_offset r2 = 0" using r2(1) by (simp add: buffers_def)
  then show ?thesis
    using that parse_phys [OF buf _ assms(6) fl] consume [OF r2(1) buf] r1 r2
    by (auto simp: reader_at_def quiet_def)
qed

lemma record_start: "reader_at C p r \<Longrightarrow>
    end_of_buffer_offset r - of_nat (length (buffer r)) = of_nat p"
  by (auto simp: reader_at_def buffers_length) (auto simp: buffers_def of_nat_diff)

lemma last_offset_reader_at [simp]:
  "reader_at C p (r\<lparr>last_record_offset := x\<rparr>) = reader_at C p r"
  by (simp add: reader_at_def buffers_def)

text \<open>What a whole record leaves behind in the reader.\<close>

definition after_record :: "bytes \<Rightarrow> nat \<Rightarrow> uint64 \<Rightarrow> 'f Reader \<Rightarrow> 'f Reader \<Rightarrow> bool" where
  "after_record C p start r r' \<longleftrightarrow>
     reader_at C p r' \<and> reports r' = reports r \<and> last_record_offset r' = start"

lemma read_record:
  assumes "reader_at C (length X) r" "C = X @ fst (log_bytes bg data off) @ Y"
    "off \<le> kBlockSize" "off mod kBlockSize = length X mod kBlockSize" "bg \<Longrightarrow> scr = []"
  shows "\<exists>r'. ReadRecord_loop ops (\<not> bg) pro scr r = Some (Some (scr @ data), r') \<and>
    after_record C (length X + length (fst (log_bytes bg data off)))
      (if bg then of_nat (length X) else pro) r r'"
  using assms
proof (induction bg data off arbitrary: X r scr pro rule: log_bytes_induct)
  case (last bg data off)
  have C: "C = X @ pad off @ phys (fragment_type bg True) data @ Y"
    using last(1,3) by (simp add: log_bytes_last)
  have fe: "start_off off + kHeaderSize + length data \<le> kBlockSize"
    using frag_end_le [OF last(4), of data] last(1) by (simp add: frag_end_def)
  obtain r' where r': "ReadPhysicalRecord ops r = (ucast (rtype_code (fragment_type bg True)), data, r')"
    "quiet r r'" "reader_at C (length X + length (pad off) + (kHeaderSize + length data)) r'"
    using read_fragment [OF last(2) C last(4,5) fe] by auto
  show ?case
    using last(1,6) r' record_start [OF last(2)]
    by (subst ReadRecord_loop.simps)
      (auto simp: after_record_def quiet_def fragment_type_def log_bytes_last add.assoc)
next
  case (more bg data off)
  let ?n = "frag_len off data" and ?t = "fragment_type bg False"
  let ?rest = "fst (log_bytes False (drop ?n data) (frag_end off data))"
  let ?X = "X @ pad off @ phys ?t (take ?n data)"
  have C: "C = X @ pad off @ phys ?t (take ?n data) @ ?rest @ Y"
    using more(1,4) by (simp add: log_bytes_more)
  have fe: "start_off off + kHeaderSize + length (take ?n data) \<le> kBlockSize"
    using frag_end_le [OF more(5), of data] by (simp add: frag_end_def)
  obtain r' where r': "ReadPhysicalRecord ops r = (ucast (rtype_code ?t), take ?n data, r')" "quiet r r'"
    "reader_at C (length X + length (pad off) + (kHeaderSize + length (take ?n data))) r'"
    using read_fragment [OF more(3) C more(5,6) fe] by auto
  have mod: "frag_end off data mod kBlockSize = length ?X mod kBlockSize"
    using frag_mod [OF more(5), of bg data] more(6) by simp (metis add.assoc mod_add_left_eq)
  have X: "reader_at C (length ?X) r'" using r'(3) by (simp add: add.assoc)
  note IH = more(2) [OF X _ frag_end_le [OF more(5)] mod, of "scr @ take ?n data"]
  show ?case
    using IH more(1,7) C r' record_start [OF more(3)]
    by (subst ReadRecord_loop.simps)
      (auto simp: after_record_def quiet_def fragment_type_def log_bytes_more add.assoc)
qed

text \<open>The end of the file, and what is left when fewer bytes than a header remain.\<close>

lemma short_tail:
  assumes "reader_at C p r" "length C < p + kHeaderSize"
  shows "\<exists>r'. ReadPhysicalRecord ops r = (kEof, [], r')"
proof -
  obtain E where b: "buffers C p E r" using assms(1) by (auto simp: reader_at_def)
  then have E: "p \<le> E" "E \<le> length C" "invar (sfile r)" "remaining (sfile r) = drop E C"
    by (auto simp: buffers_def)
  have at_eof: "\<exists>r'. ReadPhysicalRecord ops r = (kEof, [], r')"
    if "eof r" "length (buffer r) < kHeaderSize" for r
    using that by (subst ReadPhysicalRecord.simps) simp
  obtain s buf f where rd: "sf_Read ops (sfile r) kBlockSize = (s, buf, f)" by (metis prod_cases3)
  have rd': "s = OK" "length buf < kHeaderSize" "length buf < kBlockSize"
    using read_ok [OF E(3) rd] E assms(2) by (auto simp: log_consts)
  have "length (buffer r) < kHeaderSize" using buffers_length [OF b] E assms(2) by simp
  then show ?thesis
    using at_eof rd rd' at_eof [of "r\<lparr>sfile := f, buffer := buf,
        end_of_buffer_offset := end_of_buffer_offset r + of_nat (length buf), eof := True\<rparr>"]
    by (cases "eof r") (simp, subst ReadPhysicalRecord.simps, simp)
qed

lemma read_end:
  assumes "reader_at C (length C) r"
  shows "\<exists>r'. ReadPhysicalRecord ops r = (kEof, [], r') \<and> quiet r r'"
proof -
  have at_eof: "ReadPhysicalRecord ops r = (kEof, [], r)" if "eof r" "buffers C (length C) E r" for r E
    using that by (subst ReadPhysicalRecord.simps) (auto simp: buffers_def kHeaderSize_def)
  obtain E where b: "buffers C (length C) E r" using assms by (auto simp: reader_at_def)
  then have E: "E = length C" by (simp add: buffers_def)
  show ?thesis
  proof (cases "eof r")
    case False
    then obtain r' where "buffers C (length C) (length C) r'" "quiet r r'" "eof r'"
      "ReadPhysicalRecord ops r = ReadPhysicalRecord ops r'"
      using fill_block [of C "length C" r] b E by (auto simp: kBlockSize_def)
    then show ?thesis using at_eof by auto
  qed (use at_eof b in auto)
qed

lemma ReportCorruption_reader_at [simp]:
  "reader_at C p (ReportCorruption r n m) = reader_at C p r"
  by (simp add: reader_at_def buffers_def ReportCorruption_def ReportDrop_def)

text \<open>A fragment whose end is missing is dropped.\<close>

lemma truncated_body:
  assumes "reader_at C (length X) r" "C = X @ take m (phys t frag)" "kHeaderSize \<le> m" "m < kHeaderSize + length frag"
    "length X mod kBlockSize + kHeaderSize + length frag \<le> kBlockSize"
  shows "\<exists>r'. ReadPhysicalRecord ops r = (kBadRecord, [], r') \<and> reader_at C (length C) r'"
proof -
  have C: "length C = length X + m" using assms(2,4) by simp
  have fl: "length frag < 65536" using assms(5) by (simp add: log_consts)
  obtain r1 where r1: "buffers C (length X) (min (length X + (kBlockSize - length X mod kBlockSize)) (length C)) r1"
    "ReadPhysicalRecord ops r = ParsePhysicalRecord r1"
    using ready [OF assms(1)] C assms(3,5) by auto
  have "min (length X + (kBlockSize - length X mod kBlockSize)) (length C) = length C"
    using C assms(4,5) by simp
  then have b: "buffers C (length X) (length C) r1" using r1(1) by simp
  have buf: "buffer r1 = take m (phys t frag)" using b C by (simp add: buffers_def assms(2))
  have nth: "buffer r1 ! 4 = of_nat (length frag) AND 0xff" "buffer r1 ! 5 = of_nat (length frag div 256)"
    using assms(3) unfolding buf by (simp_all add: phys_def EncodeFixed32_def nth_append kHeaderSize_def)
  have "length (buffer r1) < kHeaderSize + length frag" using assms(4) buf by simp
  then have "ParsePhysicalRecord r1 = (kBadRecord, [],
      ReportCorruption (r1\<lparr>buffer := []\<rparr>) (length (buffer r1)) ''bad record length'')"
    unfolding ParsePhysicalRecord_def Let_def nth header_length [OF fl] by simp
  moreover have "reader_at C (length C) (r1\<lparr>buffer := []\<rparr>)"
    using consume [OF b, of "buffer r1" "[]"] C buf assms(4) unfolding reader_at_def by auto
  ultimately show ?thesis using r1(2) by simp
qed

lemma truncated_fragment:
  assumes "reader_at C (length X) r" "C = X @ take m (pad off @ phys t frag)"
    "m < length (pad off) + (kHeaderSize + length frag)"
    "off \<le> kBlockSize" "off mod kBlockSize = length X mod kBlockSize"
    "start_off off + kHeaderSize + length frag \<le> kBlockSize"
  shows "\<exists>ty r'. ReadPhysicalRecord ops r = (ty, [], r') \<and>
    (ty = kEof \<or> ty = kBadRecord \<and> reader_at C (length C) r')"
proof (cases "m < kHeaderSize")
  case True
  then have "length C < length X + kHeaderSize" using assms(2) by simp
  then show ?thesis using short_tail [OF assms(1)] by blast
next
  case False
  let ?X = "X @ pad off"
  have "length (pad off) < kHeaderSize" by (auto simp: pad_def kHeaderSize_def)
  then have m: "length (pad off) < m" using False by simp
  then have C: "C = ?X @ take (m - length (pad off)) (phys t frag)" using assms(2) by simp
  have lenC: "length C = length X + m" using assms(2,3) by simp
  have pm: "length ?X mod kBlockSize = start_off off mod kBlockSize"
    using pad_mod [OF assms(4)] assms(5) by simp (metis mod_add_left_eq)
  have so: "start_off off < kBlockSize" using assms(6) by (simp add: kHeaderSize_def)
  obtain r1 where r1: "reader_at C (length ?X) r1" "ReadPhysicalRecord ops r = ReadPhysicalRecord ops r1"
    using skip_pad [OF assms(1,4,5)] lenC m by auto
  show ?thesis
  proof (cases "m - length (pad off) < kHeaderSize")
    case True
    then have "length C < length ?X + kHeaderSize" using lenC m by simp
    then show ?thesis using short_tail [OF r1(1)] r1(2) by auto
  next
    case False
    then show ?thesis
      using truncated_body [OF r1(1) C _ _] m assms(3,6) r1(2) so unfolding pm by fastforce
  qed
qed

lemma loop_end: "reader_at C (length C) r \<Longrightarrow> \<exists>r'. ReadRecord_loop ops in_frag pro scr r = Some (None, r')"
  using read_end [of C r] by (subst ReadRecord_loop.simps) (auto simp: kEof_def kBadRecord_def)

lemma truncated_record:
  assumes "reader_at C (length X) r" "C = X @ take m (fst (log_bytes bg data off))"
    "m < length (fst (log_bytes bg data off))" "off \<le> kBlockSize" "off mod kBlockSize = length X mod kBlockSize"
  shows "\<exists>r'. ReadRecord_loop ops (\<not> bg) pro scr r = Some (None, r')"
proof -
  have dropped: "\<exists>r'. ReadRecord_loop ops inf pro scr r = Some (None, r')"
    if "ReadPhysicalRecord ops r = (ty, [], r')" "ty = kEof \<or> ty = kBadRecord \<and> reader_at C (length C) r'"
    for inf pro scr r ty r'
    using that loop_end [of C] by (subst ReadRecord_loop.simps) (auto simp: kEof_def kBadRecord_def)
  show ?thesis
    using assms
  proof (induction bg data off arbitrary: X r scr pro m rule: log_bytes_induct)
    case (last bg data off)
    then show ?case
      using truncated_fragment [OF last(2) _ _ last(5,6), of m "fragment_type bg True" data]
        frag_end_le [OF last(5), of data] dropped by (simp add: log_bytes_last frag_end_def) blast
  next
    case (more bg data off)
    let ?n = "frag_len off data" and ?t = "fragment_type bg False"
    let ?rest = "fst (log_bytes False (drop ?n data) (frag_end off data))"
    let ?b = "pad off @ phys ?t (take ?n data)"
    have C: "C = X @ take m (?b @ ?rest)" using more(1,4) by (simp add: log_bytes_more)
    have fe: "start_off off + kHeaderSize + length (take ?n data) \<le> kBlockSize"
      using frag_end_le [OF more(6), of data] by (simp add: frag_end_def)
    show ?case
    proof (cases "m < length ?b")
      case True
      then show ?thesis
        using truncated_fragment [OF more(3) _ _ more(6,7) fe, of m ?t] C dropped by auto
    next
      case False
      then have C': "C = X @ pad off @ phys ?t (take ?n data) @ take (m - length ?b) ?rest"
        using C by simp
      obtain r' where r': "ReadPhysicalRecord ops r = (ucast (rtype_code ?t), take ?n data, r')"
        "reader_at C (length (X @ ?b)) r'"
        using read_fragment [OF more(3) C' more(6,7) fe] by (auto simp: add.assoc)
      have mod: "frag_end off data mod kBlockSize = length (X @ ?b) mod kBlockSize"
        using frag_mod [OF more(6), of bg data] more(7) by simp (metis add.assoc mod_add_left_eq)
      have "m - length ?b < length ?rest" using more(1,5) False by (simp add: log_bytes_more)
      note IH = more(2) [OF r'(2) _ this frag_end_le [OF more(6)] mod]
      show ?thesis
        using IH C' r'(1) by (subst ReadRecord_loop.simps) (auto simp: fragment_type_def)
    qed
  qed
qed

end

subsection \<open>A log of several records\<close>

fun log_file :: "nat \<Rightarrow> bytes list \<Rightarrow> bytes" where
  "log_file off [] = []"
| "log_file off (d # ds) = fst (log_bytes True d off) @ log_file (snd (log_bytes True d off)) ds"

fun AddRecords :: "'w WritableFile \<Rightarrow> 'w Writer \<Rightarrow> bytes list \<Rightarrow> Status \<times> 'w Writer" where
  "AddRecords ops w [] = (OK, w)"
| "AddRecords ops w (d # ds) =
     (let (s, w') = AddRecord ops w d in if ok s then AddRecords ops w' ds else (s, w'))"

fun ReadRecords :: "nat \<Rightarrow> 'f SequentialFile \<Rightarrow> 'f Reader \<Rightarrow> (bytes list \<times> 'f Reader) option" where
  "ReadRecords 0 ops r = None"
| "ReadRecords (Suc n) ops r =
     (case ReadRecord ops r of
        None \<Rightarrow> None
      | Some (None, r') \<Rightarrow> Some ([], r')
      | Some (Some x, r') \<Rightarrow> map_option (apfst ((#) x)) (ReadRecords n ops r'))"

context writable_file begin

lemma AddRecords_appends:
  "writing w \<Longrightarrow> \<exists>w'. AddRecords ops w ds = (OK, w') \<and> writing w' \<and>
    content (dest w') = content (dest w) @ log_file (block_offset w) ds"
proof (induction ds arbitrary: w)
  case (Cons d ds)
  then show ?case
    using AddRecord_loop_appends [of w True d] by (fastforce simp: AddRecord_def)
qed simp

lemma writing_new: "invar d \<Longrightarrow> writing (Writer_new d) \<and> block_offset (Writer_new d) = 0 \<and> dest (Writer_new d) = d"
  by (simp add: writing_def Writer_new_def type_crc_ok_def)

end

context sequential_file begin

lemma reader_at_initial: "reader_at C p r \<Longrightarrow> ReadRecord ops r = ReadRecord_loop ops False 0 [] r"
  by (auto simp: reader_at_def buffers_def ReadRecord_def)

lemma reader_new: "invar f \<Longrightarrow> reader_at (remaining f) 0 (Reader_new f rep chk 0)"
  unfolding reader_at_def by (rule exI [of _ 0]) (simp add: buffers_def Reader_new_def)

lemma read_all:
  assumes "reader_at C (length X) r" "C = X @ log_file off ds" "off \<le> kBlockSize"
    "off mod kBlockSize = length X mod kBlockSize"
  shows "\<exists>r'. ReadRecords (Suc (length ds)) ops r = Some (ds, r') \<and> reports r' = reports r"
  using assms
proof (induction ds arbitrary: X r off)
  case Nil
  then have "reader_at C (length C) r" by simp
  then show ?case
    using read_end [of C r] reader_at_initial [OF Nil(1)] ReadRecord_loop.simps [of ops False 0 "[]" r]
    by (auto simp: kEof_def quiet_def)
next
  case (Cons d ds)
  let ?X = "X @ fst (log_bytes True d off)"
  obtain r' where r': "ReadRecord_loop ops False 0 [] r = Some (Some d, r')"
    "reader_at C (length ?X) r'" "reports r' = reports r"
    using read_record [OF Cons(2) _ Cons(4,5), of True d "log_file (snd (log_bytes True d off)) ds" "[]" 0]
      Cons(3) by (auto simp: after_record_def)
  have off: "snd (log_bytes True d off) \<le> kBlockSize"
    "snd (log_bytes True d off) mod kBlockSize = length ?X mod kBlockSize"
    using log_bytes_offset [OF Cons(4), of True d] Cons(5) by (simp_all, metis mod_add_left_eq)
  show ?case
    using Cons(1) [OF r'(2) _ off] Cons(3) r' reader_at_initial [OF Cons(2)] by auto
qed

lemma read_prefix:
  assumes "reader_at C (length X) r" "C = X @ take n (log_file off ds)" "off \<le> kBlockSize"
    "off mod kBlockSize = length X mod kBlockSize"
  shows "\<exists>k r'. ReadRecords (Suc (length ds)) ops r = Some (take k ds, r') \<and> k \<le> length ds \<and>
    length (log_file off (take k ds)) \<le> n \<and>
    (k = length ds \<or> n < length (log_file off (take (Suc k) ds)))"
  using assms
proof (induction ds arbitrary: X r off n)
  case Nil
  then show ?case using read_all [of C X r off "[]"] by auto
next
  case (Cons d ds)
  let ?b = "fst (log_bytes True d off)"
  show ?case
  proof (cases "n < length ?b")
    case True
    then have "\<exists>r'. ReadRecord_loop ops False 0 [] r = Some (None, r')"
      using truncated_record [OF Cons(2) _ True Cons(4,5), of 0 "[]"] Cons(3) by simp
    then show ?thesis using True reader_at_initial [OF Cons(2)] by (intro exI [of _ 0]) auto
  next
    case False
    let ?X = "X @ ?b"
    have C: "C = X @ ?b @ take (n - length ?b) (log_file (snd (log_bytes True d off)) ds)"
      using Cons(3) False by simp
    obtain r' where r': "ReadRecord_loop ops False 0 [] r = Some (Some d, r')" "reader_at C (length ?X) r'"
      using read_record [OF Cons(2) C Cons(4,5), of "[]" 0] by (auto simp: after_record_def)
    have off: "snd (log_bytes True d off) \<le> kBlockSize"
      "snd (log_bytes True d off) mod kBlockSize = length ?X mod kBlockSize"
      using log_bytes_offset [OF Cons(4), of True d] Cons(5) by (simp_all, metis mod_add_left_eq)
    obtain k r'' where k: "ReadRecords (Suc (length ds)) ops r' = Some (take k ds, r'')" "k \<le> length ds"
      "length (log_file (snd (log_bytes True d off)) (take k ds)) \<le> n - length ?b"
      "k = length ds \<or> n - length ?b < length (log_file (snd (log_bytes True d off)) (take (Suc k) ds))"
      using Cons(1) [OF r'(2) _ off, of "n - length ?b"] C by auto
    have "ReadRecords (Suc (length (d # ds))) ops r = Some (take (Suc k) (d # ds), r'')"
      using k(1) r'(1) reader_at_initial [OF Cons(2)] by simp
    then show ?thesis using k(2-4) False by (intro exI [of _ "Suc k"]) auto
  qed
qed

end

text \<open>On the in-memory files.\<close>

definition log_of :: "bytes list \<Rightarrow> FileState" where
  "log_of recs = dest (snd (AddRecords WritableFileOps (Writer_new FileState_new) recs))"

definition file_of :: "bytes \<Rightarrow> FileState" where
  "file_of b = snd (FileState_Append FileState_new b)"

lemma FileState_new_ok: "file_wf FileState_new \<and> file_content FileState_new = []"
  by (simp add: file_wf_def FileState_new_def)

lemma log_of_ok: "file_wf (log_of recs) \<and> file_content (log_of recs) = log_file 0 recs"
proof -
  have "mem_w.writing (Writer_new FileState_new)" "block_offset (Writer_new FileState_new) = 0"
    "dest (Writer_new FileState_new) = FileState_new"
    using mem_w.writing_new [of FileState_new] FileState_new_ok by simp_all
  with mem_w.AddRecords_appends [of "Writer_new FileState_new" recs] FileState_new_ok
  obtain w' where "AddRecords WritableFileOps (Writer_new FileState_new) recs = (OK, w')"
    "mem_w.writing w'" "file_content (dest w') = log_file 0 recs" by (auto simp only: append_Nil)
  then show ?thesis by (simp add: log_of_def mem_w.writing_def)
qed

lemma file_of_ok: "file_wf (file_of b) \<and> file_content (file_of b) = b"
  using FileState_Append_ok [of FileState_new b] FileState_new_ok
  by (cases "FileState_Append FileState_new b") (simp add: file_of_def)

lemma seq_start: "file_wf f \<Longrightarrow> seq_wf (f, 0) \<and> seq_remaining (f, 0) = file_content f"
  by (simp add: seq_wf_def seq_remaining_def)

text \<open>C1: A log written record by record to a new file is read back as the same list of records, with nothing reported as dropped, whether or not checksums are verified.\<close>

theorem log_roundtrip:
  "\<exists>r. ReadRecords (Suc (length recs)) SequentialFileOps (Reader_new (log_of recs, 0) rep chk 0) =
     Some (recs, r) \<and> reports r = []"
  using mem_seq.read_all [of "log_file 0 recs" "[]" "Reader_new (log_of recs, 0) rep chk 0" 0 recs]
    mem_seq.reader_new [of "(log_of recs, 0)" rep chk] seq_start [of "log_of recs"] log_of_ok [of recs]
  by (simp add: Reader_new_def)

text \<open>C11: A log whose file was cut off after any number \<open>n\<close> of bytes, as a crash may leave it, is read back as exactly those records that lie completely in the first \<open>n\<close> bytes: no record is lost that was complete and none is invented from the torn tail.\<close>

theorem log_crash_prefix:
  "\<exists>k r. k \<le> length recs \<and>
     ReadRecords (Suc (length recs)) SequentialFileOps
       (Reader_new (file_of (take n (file_content (log_of recs))), 0) rep chk 0) = Some (take k recs, r) \<and>
     length (file_content (log_of (take k recs))) \<le> n \<and>
     (k = length recs \<or> n < length (file_content (log_of (take (Suc k) recs))))"
proof -
  let ?f = "file_of (take n (file_content (log_of recs)))"
  have "mem_seq.reader_at (take n (log_file 0 recs)) 0 (Reader_new (?f, 0) rep chk 0)"
    using mem_seq.reader_new [of "(?f, 0)" rep chk] seq_start [of ?f]
      file_of_ok [of "take n (file_content (log_of recs))"] log_of_ok [of recs] by simp
  then show ?thesis
    using mem_seq.read_prefix [of "take n (log_file 0 recs)" "[]" _ n 0 recs]
    by (fastforce simp only: log_of_ok append_Nil list.size)
qed

context sequential_file begin

definition unread :: "'f Reader \<Rightarrow> nat" where
  "unread r = length (remaining (sfile r)) + length (buffer r)"

lemma Report_simps [simp]:
  "sfile (ReportCorruption r n m) = sfile r" "buffer (ReportCorruption r n m) = buffer r"
  "sfile (ReportDrop r n s) = sfile r" "buffer (ReportDrop r n s) = buffer r"
  by (simp_all add: ReportCorruption_def ReportDrop_def)

lemma Parse_consumes:
  assumes "ParsePhysicalRecord r = (ty, frag, r')" "kHeaderSize \<le> length (buffer r)"
  shows "sfile r' = sfile r \<and> length (buffer r') < length (buffer r)"
  using assms by (auto simp: ParsePhysicalRecord_def Let_def kHeaderSize_def split: if_splits)

lemma Read_at_eof: "eof r \<Longrightarrow> length (buffer r) < kHeaderSize \<Longrightarrow>
    \<exists>r'. ReadPhysicalRecord ops r = (kEof, [], r')"
  by (subst ReadPhysicalRecord.simps) simp

lemma Read_consumes:
  assumes "ReadPhysicalRecord ops r = (ty, frag, r')" "invar (sfile r)" "ty \<noteq> kEof"
  shows "invar (sfile r') \<and> unread r' < unread r"
proof (cases "kHeaderSize \<le> length (buffer r)")
  case True
  then have "ParsePhysicalRecord r = (ty, frag, r')" using assms(1) by (simp add: Read_parse)
  then show ?thesis using Parse_consumes [OF _ True] assms(2) by (simp add: unread_def)
next
  case False
  then have "\<not> eof r" using assms Read_at_eof [of r] by auto
  obtain s buf f where rd: "sf_Read ops (sfile r) kBlockSize = (s, buf, f)" by (metis prod_cases3)
  note rd' = read_ok [OF assms(2) rd]
  define x where "x = r\<lparr>sfile := f, buffer := buf,
      end_of_buffer_offset := end_of_buffer_offset r + of_nat (length buf)\<rparr>"
  define r1 where "r1 = (if length buf < kBlockSize then x\<lparr>eof := True\<rparr> else x)"
  have "ReadPhysicalRecord ops r = ReadPhysicalRecord ops r1"
    using False \<open>\<not> eof r\<close> rd rd' by (subst ReadPhysicalRecord.simps) (simp add: r1_def x_def Let_def)
  then have r1: "ReadPhysicalRecord ops r = ReadPhysicalRecord ops r1" "sfile r1 = f" "buffer r1 = buf"
    "length buf < kBlockSize \<longrightarrow> eof r1" by (simp_all add: r1_def x_def)
  have len: "kHeaderSize \<le> length (buffer r1)"
    using assms(1,3) r1 Read_at_eof [of r1] by (force simp: log_consts)
  then have "ParsePhysicalRecord r1 = (ty, frag, r')" using assms(1) r1(1) by (simp add: Read_parse)
  then show ?thesis using Parse_consumes [OF _ len] r1 rd' by (auto simp: unread_def)
qed

text \<open>The loop returns on every file, whatever its bytes are.\<close>

lemma ReadRecord_loop_returns:
  "invar (sfile r) \<Longrightarrow> \<exists>y. ReadRecord_loop ops in_frag pro scr r = Some y"
proof (induction "unread r" arbitrary: in_frag pro scr r rule: less_induct)
  case less
  obtain ty frag r1 where rd: "ReadPhysicalRecord ops r = (ty, frag, r1)" by (metis prod_cases3)
  have "\<exists>y. ReadRecord_loop ops in_frag' pro' scr' r2 = Some y"
    if "ty \<noteq> kEof" "sfile r2 = sfile r1" "buffer r2 = buffer r1" for in_frag' pro' scr' r2
    using Read_consumes [OF rd less(2) that(1)] less(1) [of r2] that(2,3) by (simp add: unread_def)
  then show ?case
    by (subst ReadRecord_loop.simps) (auto simp: rd Let_def kEof_def)
qed

lemma ReadRecord_returns: "invar (sfile r) \<Longrightarrow> \<exists>y. ReadRecord ops r = Some y"
proof -
  assume inv: "invar (sfile r)"
  obtain c r1 where sk: "SkipToInitialBlock ops r = (c, r1)" by fastforce
  then have "c \<Longrightarrow> invar (sfile r1)"
    using inv skip_ok by (auto simp: SkipToInitialBlock_def Let_def split: prod.splits if_splits)
  then show ?thesis
    using sk inv ReadRecord_loop_returns by (auto simp: ReadRecord_def)
qed

end

text \<open>C12: On a file of arbitrary bytes, from any initial offset, the loop of \<open>ReadRecord\<close> returns.\<close>

theorem ReadRecord_terminates:
  "\<exists>y. ReadRecord SequentialFileOps (Reader_new (file_of b, 0) rep chk init) = Some y"
  using mem_seq.ReadRecord_returns [of "Reader_new (file_of b, 0) rep chk init"]
    seq_start [of "file_of b"] file_of_ok [of b] by (simp add: Reader_new_def)

lemma header_length_bytes:
  fixes b4 b5 :: byte
  shows "unat (ucast b4 AND (0xff :: uint32) OR push_bit 8 (ucast b5 AND 0xff)) = unat b4 + 256 * unat b5"
proof -
  define n where "n = unat b4 + 256 * unat b5"
  have b: "unat b4 < 256" "unat b5 < 256" using unat_lt [of b4] unat_lt [of b5] by simp_all
  then have n: "n div 256 = unat b5" "n < 65536" by (simp_all add: n_def)
  have w: "(256 :: byte) = 0" "(0xff :: byte) = - 1" by simp_all
  have "of_nat n = b4 + 256 * b5" by (simp add: n_def)
  then have "of_nat n AND 0xff = b4" unfolding w by simp
  then show ?thesis using header_length [OF n(2)] by (simp add: n(1)) (simp add: n_def)
qed

text \<open>C33: With checksums on, a fragment is handed out only when the stored checksum is that of its type byte and its
  payload. The seven bytes of the header are the checksum, in four bytes, the length of the payload, in two bytes
  with the low one first, and the type, in the last byte; the payload stands right behind it.\<close>

theorem Parse_sound:
  assumes "ParsePhysicalRecord r = (ty, frag, r')" "checksum r" "ty \<noteq> kBadRecord" "kHeaderSize \<le> length (buffer r)"
  shows "ty = scast (buffer r ! 6) \<and>
    buffer r = take 6 (buffer r) @ (buffer r ! 6) # frag @ buffer r' \<and>
    length frag = unat (buffer r ! 4) + 256 * unat (buffer r ! 5) \<and>
    Value ((buffer r ! 6) # frag) = Unmask (DecodeFixed32 (buffer r))"
proof -
  define len where "len = unat (ucast (buffer r ! 4) AND (0xff :: uint32) OR push_bit 8 (ucast (buffer r ! 5) AND 0xff))"
  have p: "ty = scast (buffer r ! 6)" "frag = take len (drop kHeaderSize (buffer r))"
    "buffer r' = drop (kHeaderSize + len) (buffer r)" "kHeaderSize + len \<le> length (buffer r)"
    "Value (take (1 + len) (drop 6 (buffer r))) = Unmask (DecodeFixed32 (buffer r))"
    using assms(1) [unfolded ParsePhysicalRecord_def Let_def, folded len_def] assms(2,3)
    by (auto split: if_splits)
  have six: "drop 6 (buffer r) = buffer r ! 6 # drop kHeaderSize (buffer r)"
    using assms(4) Cons_nth_drop_Suc [of 6 "buffer r"] by (simp add: kHeaderSize_def)
  have "frag @ buffer r' = drop kHeaderSize (buffer r)"
    unfolding p(2,3) by (metis add.commute append_take_drop_id drop_drop)
  then have "buffer r = take 6 (buffer r) @ (buffer r ! 6) # frag @ buffer r'"
    using six append_take_drop_id [of 6 "buffer r"] by simp
  moreover have "length frag = unat (buffer r ! 4) + 256 * unat (buffer r ! 5)"
    using p(2,4) header_length_bytes [of "buffer r ! 4" "buffer r ! 5"] unfolding len_def [symmetric] by simp
  ultimately show ?thesis using p six by simp
qed

theorem Parse_sound_witness:
  "fst (ParsePhysicalRecord ((Reader_new () True True 0)\<lparr>buffer := phys kFullType [7, 8]\<rparr>)) = 1 \<and>
   Value [1, 7, 8] = Unmask (DecodeFixed32 (phys kFullType [7, 8]))"
proof -
  let ?r = "(Reader_new () True True 0)\<lparr>buffer := phys kFullType [7, 8]\<rparr>"
  have p: "ParsePhysicalRecord ?r = (1, [7, 8], ?r\<lparr>buffer := []\<rparr>)"
    using parse_phys [of ?r kFullType "[7, 8]" "[]"] by (simp add: Reader_new_def)
  have "phys kFullType [7, 8] ! 6 = 1" "length (phys kFullType [7, 8]) = 9"
    by (simp_all add: phys_def nth_append)
  then show ?thesis using Parse_sound [OF p] p by (simp add: Reader_new_def kHeaderSize_def kBadRecord_def)
qed

end
