(* ===== verification/Version_Set.thy ===== *)
theory Version_Set
  imports Builder Log_Roundtrip Complex_Main
begin

text \<open>
  The set of versions of \<open>db/version_set.cc\<close>: versions and the metadata of their files in explicit
  stores with their reference counts, the builder that applies edits, and the descriptor log. The
  circular list of versions is the list of their addresses, the oldest first. The environment is
  passed along, since the table cache and the database share it; \<open>LogAndApply\<close> works on any environment, whose operations
  may fail, and recovery reads from the one in memory. Reference counts and the seeks that a file is allowed are integers
  without bound, where the source has \<open>int\<close>. Scores of levels are exact
  rational numbers instead of doubles.
\<close>

subsection \<open>State\<close>

record Version =
  v_refs :: int
  v_files :: "nat list list"
  file_to_compact :: "(nat \<times> nat) option"
  compaction_score :: rat
  compaction_level :: int

definition Version_new :: Version where
  "Version_new = \<lparr>v_refs = 0, v_files = replicate kNumLevels [], file_to_compact = None, compaction_score = -1, compaction_level = -1\<rparr>"

record VersionSet =
  vs_user :: Comparator
  vs_dbname :: string
  vs_next_file_number :: uint64
  manifest_file_number :: uint64
  vs_last_sequence :: SequenceNumber
  vs_log_number :: uint64
  vs_prev_log_number :: uint64
  descriptor :: "(nat \<times> nat \<times> uint32 list) option"
  metas :: "nat \<rightharpoonup> FileMetaData"
  next_meta :: nat
  versions :: "nat \<rightharpoonup> Version"
  next_version :: nat
  version_list :: "nat list"
  current :: "nat option"
  compact_pointer :: "bytes list"

abbreviation the_version :: "VersionSet \<Rightarrow> nat \<Rightarrow> Version" where
  "the_version vs v \<equiv> the (versions vs v)"

abbreviation the_meta :: "VersionSet \<Rightarrow> nat \<Rightarrow> FileMetaData" where
  "the_meta vs f \<equiv> the (metas vs f)"

abbreviation current_files :: "VersionSet \<Rightarrow> nat list list" where
  "current_files vs \<equiv> v_files (the_version vs (the (current vs)))"

subsection \<open>References\<close>

definition file_unref :: "VersionSet \<Rightarrow> nat \<Rightarrow> VersionSet" where
  "file_unref vs f =
     (let m = the_meta vs f; m = m\<lparr>fm_refs := fm_refs m - 1\<rparr>
      in if fm_refs m \<le> 0 then vs\<lparr>metas := (metas vs)(f := None)\<rparr> else vs\<lparr>metas := (metas vs)(f \<mapsto> m)\<rparr>)"

definition file_ref :: "VersionSet \<Rightarrow> nat \<Rightarrow> VersionSet" where
  "file_ref vs f = vs\<lparr>metas := (metas vs)(f \<mapsto> (the_meta vs f)\<lparr>fm_refs := fm_refs (the_meta vs f) + 1\<rparr>)\<rparr>"

text \<open>The destructor of a version.\<close>

definition delete_version :: "VersionSet \<Rightarrow> nat \<Rightarrow> VersionSet" where
  "delete_version vs v =
     (let files = concat (v_files (the_version vs v));
          vs = vs\<lparr>version_list := remove1 v (version_list vs)\<rparr>;
          vs = foldl file_unref vs files
      in vs\<lparr>versions := (versions vs)(v := None)\<rparr>)"

definition Version_Ref :: "VersionSet \<Rightarrow> nat \<Rightarrow> VersionSet" where
  "Version_Ref vs v = vs\<lparr>versions := (versions vs)(v \<mapsto> (the_version vs v)\<lparr>v_refs := v_refs (the_version vs v) + 1\<rparr>)\<rparr>"

definition Version_Unref :: "VersionSet \<Rightarrow> nat \<Rightarrow> VersionSet" where
  "Version_Unref vs v =
     (let ver = the_version vs v; ver = ver\<lparr>v_refs := v_refs ver - 1\<rparr>;
          vs = vs\<lparr>versions := (versions vs)(v \<mapsto> ver)\<rparr>
      in if v_refs ver = 0 then delete_version vs v else vs)"

text \<open>\<open>seek\<close> is the file to charge and its level.\<close>

definition UpdateStats :: "VersionSet \<Rightarrow> nat \<Rightarrow> (nat \<times> nat) option \<Rightarrow> bool \<times> VersionSet" where
  "UpdateStats vs v seek =
     (case seek of
        None \<Rightarrow> (False, vs)
      | Some (f, level) \<Rightarrow>
          (let m = the_meta vs f; m = m\<lparr>allowed_seeks := allowed_seeks m - 1\<rparr>;
               vs = vs\<lparr>metas := (metas vs)(f \<mapsto> m)\<rparr>
           in if allowed_seeks m \<le> 0 \<and> file_to_compact (the_version vs v) = None
              then (True, vs\<lparr>versions := (versions vs)(v \<mapsto> (the_version vs v)\<lparr>file_to_compact := Some (f, level)\<rparr>)\<rparr>)
              else (False, vs)))"

subsection \<open>The builder of versions\<close>

definition BySmallestKey :: "Comparator \<Rightarrow> FileMetaData \<Rightarrow> FileMetaData \<Rightarrow> bool" where
  "BySmallestKey user f1 f2 =
     (let r = InternalKey_Compare user (smallest f1) (smallest f2)
      in if r \<noteq> 0 then r < 0 else fm_number f1 < fm_number f2)"

record LevelState =
  deleted_numbers :: "uint64 set"
  added_files :: "nat list"

record VersionBuilder =
  b_base :: nat
  b_levels :: "LevelState list"

definition Builder_new :: "VersionSet \<Rightarrow> nat \<Rightarrow> VersionBuilder \<times> VersionSet" where
  "Builder_new vs base =
     (\<lparr>b_base = base, b_levels = replicate kNumLevels \<lparr>deleted_numbers = {}, added_files = []\<rparr>\<rparr>, Version_Ref vs base)"

text \<open>Insertion into the ordered set of added files; an element that is equal in the order stays.\<close>

fun fileset_insert :: "(nat \<Rightarrow> nat \<Rightarrow> bool) \<Rightarrow> nat \<Rightarrow> nat list \<Rightarrow> nat list" where
  "fileset_insert lt f [] = [f]"
| "fileset_insert lt f (g # gs) =
     (if lt f g then f # g # gs else if lt g f then g # fileset_insert lt f gs else g # gs)"

definition apply_deletion :: "VersionBuilder \<Rightarrow> nat \<times> uint64 \<Rightarrow> VersionBuilder" where
  "apply_deletion b d =
     (let (level, number) = d; l = b_levels b ! level
      in b\<lparr>b_levels := (b_levels b)[level := l\<lparr>deleted_numbers := insert number (deleted_numbers l)\<rparr>]\<rparr>)"

text \<open>The quotient of the unsigned file size is converted to an \<open>int\<close>.\<close>

definition seeks_allowed :: "FileMetaData \<Rightarrow> int" where
  "seeks_allowed f =
     (let n = sint (ucast (file_size f div 16384) :: uint32) in if n < 100 then 100 else n)"

definition apply_addition :: "VersionSet \<times> VersionBuilder \<Rightarrow> nat \<times> FileMetaData \<Rightarrow> VersionSet \<times> VersionBuilder" where
  "apply_addition st p =
     (let (vs, b) = st; (level, f) = p;
          f = f\<lparr>fm_refs := 1\<rparr>;
          f = f\<lparr>allowed_seeks := seeks_allowed f\<rparr>;
          a = next_meta vs;
          vs = vs\<lparr>metas := (metas vs)(a \<mapsto> f), next_meta := a + 1\<rparr>;
          l = b_levels b ! level;
          l = l\<lparr>deleted_numbers := deleted_numbers l - {fm_number f},
                added_files := fileset_insert (\<lambda>x y. BySmallestKey (vs_user vs) (the_meta vs x) (the_meta vs y)) a (added_files l)\<rparr>
      in (vs, b\<lparr>b_levels := (b_levels b)[level := l]\<rparr>))"

definition Builder_Apply :: "VersionSet \<Rightarrow> VersionBuilder \<Rightarrow> VersionEdit \<Rightarrow> VersionSet \<times> VersionBuilder" where
  "Builder_Apply vs b edit =
     (let vs = vs\<lparr>compact_pointer := foldl (\<lambda>cp (level, key). cp[level := key]) (compact_pointer vs) (compact_pointers edit)\<rparr>;
          b = foldl apply_deletion b (deleted_files edit)
      in foldl apply_addition (vs, b) (new_files edit))"

text \<open>Merging the added files of a level into its base files, which are in the same order.\<close>

fun merge_files :: "(nat \<Rightarrow> nat \<Rightarrow> bool) \<Rightarrow> nat list \<Rightarrow> nat list \<Rightarrow> nat list" where
  "merge_files lt base [] = base"
| "merge_files lt base (a # as) =
     takeWhile (\<lambda>x. \<not> lt a x) base @ a # merge_files lt (dropWhile (\<lambda>x. \<not> lt a x) base) as"

definition level_files :: "VersionSet \<Rightarrow> VersionBuilder \<Rightarrow> nat \<Rightarrow> nat list" where
  "level_files vs b level =
     (let l = b_levels b ! level
      in filter (\<lambda>f. fm_number (the_meta vs f) \<notin> deleted_numbers l)
           (merge_files (\<lambda>x y. BySmallestKey (vs_user vs) (the_meta vs x) (the_meta vs y))
              (v_files (the_version vs (b_base b)) ! level) (added_files l)))"

text \<open>The new version, which is not in the list of versions yet.\<close>

definition Builder_SaveTo :: "VersionSet \<Rightarrow> VersionBuilder \<Rightarrow> Version \<Rightarrow> VersionSet \<times> Version" where
  "Builder_SaveTo vs b v =
     (let files = map (level_files vs b) [0..<kNumLevels]
      in (foldl file_ref vs (concat files), v\<lparr>v_files := files\<rparr>))"

definition delete_builder :: "VersionSet \<Rightarrow> VersionBuilder \<Rightarrow> VersionSet" where
  "delete_builder vs b = Version_Unref (foldl file_unref vs (concat (map added_files (b_levels b)))) (b_base b)"

subsection \<open>Scores\<close>

definition kTargetFileSize :: nat where "kTargetFileSize = 2 * 1048576"
definition kMaxGrandParentOverlapBytes :: int where "kMaxGrandParentOverlapBytes = 10 * int kTargetFileSize"

definition MaxBytesForLevel :: "nat \<Rightarrow> rat" where
  "MaxBytesForLevel level = 10 * 1048576 * 10 ^ (level - 1)"

definition MaxFileSizeForLevel :: "nat \<Rightarrow> uint64" where
  "MaxFileSizeForLevel level = of_nat kTargetFileSize"

definition TotalFileSize :: "FileMetaData list \<Rightarrow> int" where
  "TotalFileSize files = sint (sum_list (map file_size files))"

definition level_score :: "(nat \<Rightarrow> FileMetaData) \<Rightarrow> nat list list \<Rightarrow> nat \<Rightarrow> rat" where
  "level_score meta files level =
     (if level = 0 then of_nat (length (files ! level)) / of_nat kL0_CompactionTrigger
      else of_nat (unat (sum_list (map (file_size \<circ> meta) (files ! level)))) / MaxBytesForLevel level)"

definition best_level :: "(nat \<Rightarrow> FileMetaData) \<Rightarrow> nat list list \<Rightarrow> int \<times> rat" where
  "best_level meta files =
     foldl (\<lambda>(best_level, best_score) level.
         let score = level_score meta files level
         in if score > best_score then (int level, score) else (best_level, best_score))
       (-1, -1) [0..<kNumLevels - 1]"

definition Finalize :: "VersionSet \<Rightarrow> Version \<Rightarrow> Version" where
  "Finalize vs v = (let (l, s) = best_level (the_meta vs) (v_files v) in v\<lparr>compaction_level := l, compaction_score := s\<rparr>)"

subsection \<open>Versions of the set\<close>

definition AppendVersion :: "VersionSet \<Rightarrow> Version \<Rightarrow> VersionSet" where
  "AppendVersion vs v =
     (let a = next_version vs;
          vs = vs\<lparr>versions := (versions vs)(a \<mapsto> v), next_version := a + 1\<rparr>;
          vs = (case current vs of None \<Rightarrow> vs | Some c \<Rightarrow> Version_Unref vs c);
          vs = Version_Ref (vs\<lparr>current := Some a\<rparr>) a
      in vs\<lparr>version_list := version_list vs @ [a]\<rparr>)"

definition VersionSet_new :: "string \<Rightarrow> Comparator \<Rightarrow> VersionSet" where
  "VersionSet_new dbname user =
     AppendVersion
       \<lparr>vs_user = user, vs_dbname = dbname, vs_next_file_number = 2, manifest_file_number = 0, vs_last_sequence = 0,
        vs_log_number = 0, vs_prev_log_number = 0, descriptor = None, metas = Map.empty, next_meta = 0,
        versions = Map.empty, next_version = 0, version_list = [], current = None, compact_pointer = replicate kNumLevels []\<rparr>
       Version_new"

definition NewFileNumber :: "VersionSet \<Rightarrow> uint64 \<times> VersionSet" where
  "NewFileNumber vs = (vs_next_file_number vs, vs\<lparr>vs_next_file_number := vs_next_file_number vs + 1\<rparr>)"

definition MarkFileNumberUsed :: "VersionSet \<Rightarrow> uint64 \<Rightarrow> VersionSet" where
  "MarkFileNumberUsed vs number =
     (if vs_next_file_number vs \<le> number then vs\<lparr>vs_next_file_number := number + 1\<rparr> else vs)"

definition VersionSet_SetLastSequence :: "VersionSet \<Rightarrow> SequenceNumber \<Rightarrow> VersionSet" where
  "VersionSet_SetLastSequence vs s = vs\<lparr>vs_last_sequence := s\<rparr>"

definition NumLevelFiles :: "VersionSet \<Rightarrow> nat \<Rightarrow> nat" where
  "NumLevelFiles vs level = length (current_files vs ! level)"

definition NumLevelBytes :: "VersionSet \<Rightarrow> nat \<Rightarrow> int" where
  "NumLevelBytes vs level = TotalFileSize (map (the_meta vs) (current_files vs ! level))"

definition NeedsCompaction :: "VersionSet \<Rightarrow> bool" where
  "NeedsCompaction vs =
     (let v = the_version vs (the (current vs)) in compaction_score v \<ge> 1 \<or> file_to_compact v \<noteq> None)"

definition AddLiveFiles :: "VersionSet \<Rightarrow> uint64 set" where
  "AddLiveFiles vs =
     set (concat (map (\<lambda>v. map (\<lambda>f. fm_number (the_meta vs f)) (concat (v_files (the_version vs v)))) (version_list vs)))"

definition LevelSummary :: "VersionSet \<Rightarrow> string" where
  "LevelSummary vs = ''files[ '' @ concat (map (\<lambda>l. decimal (length l) @ '' '') (current_files vs)) @ '']''"

subsection \<open>The descriptor log\<close>

text \<open>The edit that describes the whole current version.\<close>

definition snapshot_edit :: "VersionSet \<Rightarrow> VersionEdit" where
  "snapshot_edit vs =
     (let e = SetComparatorName (string_bytes (Name (vs_user vs))) VersionEdit_new;
          e = foldl (\<lambda>e level. if compact_pointer vs ! level \<noteq> [] then SetCompactPointer level (compact_pointer vs ! level) e else e)
                e [0..<kNumLevels]
      in foldl (\<lambda>e (level, f). AddFile level (fm_number f) (file_size f) (smallest f) (largest f) e) e
           (concat (map (\<lambda>level. map (\<lambda>a. (level, the_meta vs a)) (current_files vs ! level)) [0..<kNumLevels])))"

text \<open>The descriptor file is a handle of the environment; its writer keeps the offset in the block.\<close>

definition open_writer :: "'e \<Rightarrow> nat \<times> nat \<times> uint32 list \<Rightarrow> ('e \<times> nat) Writer" where
  "open_writer env d = (let (a, offset, crc) = d in \<lparr>dest = (env, a), block_offset = offset, type_crc = crc\<rparr>)"

definition close_writer :: "('e \<times> nat) Writer \<Rightarrow> 'e \<times> nat \<times> nat \<times> uint32 list" where
  "close_writer w = (fst (dest w), snd (dest w), block_offset w, type_crc w)"

definition WriteSnapshot :: "'e EnvOps \<Rightarrow> VersionSet \<Rightarrow> ('e \<times> nat) Writer \<Rightarrow> Status \<times> ('e \<times> nat) Writer" where
  "WriteSnapshot ops vs w = AddRecord (env_file ops) w (VersionEdit_EncodeTo (snapshot_edit vs) [])"

text \<open>A new descriptor log with a snapshot of the current version, if there is none yet.\<close>

definition new_descriptor :: "'e EnvOps \<Rightarrow> VersionSet \<Rightarrow> 'e \<Rightarrow> Status \<times> VersionSet \<times> 'e" where
  "new_descriptor ops vs env =
     (case env_NewWritableFile ops env (DescriptorFileName (vs_dbname vs) (manifest_file_number vs)) of
        (s, None, env) \<Rightarrow> (s, vs, env)
      | (s, Some a, env) \<Rightarrow>
          if ok s then
            (let (s, w) = WriteSnapshot ops vs (Writer_new (env, a)); (env, d) = close_writer w
             in (s, vs\<lparr>descriptor := Some d\<rparr>, env))
          else (s, vs, env))"

text \<open>Appending an edit to the descriptor log and writing it through.\<close>

definition log_edit :: "'e EnvOps \<Rightarrow> VersionSet \<Rightarrow> 'e \<Rightarrow> VersionEdit \<Rightarrow> Status \<times> VersionSet \<times> 'e" where
  "log_edit ops vs env edit =
     (let (s, w) = AddRecord (env_file ops) (open_writer env (the (descriptor vs))) (VersionEdit_EncodeTo edit []);
          (s, f) = (if ok s then wf_Sync (env_file ops) (dest w) else (s, dest w));
          (env, d) = close_writer (w\<lparr>dest := f\<rparr>)
      in (s, vs\<lparr>descriptor := Some d\<rparr>, env))"

definition LogAndApply :: "'e EnvOps \<Rightarrow> VersionSet \<Rightarrow> 'e \<Rightarrow> VersionEdit \<Rightarrow> Status \<times> VersionSet \<times> 'e \<times> VersionEdit" where
  "LogAndApply ops vs env edit =
     (let edit = (if has_log_number edit then edit else SetLogNumber (vs_log_number vs) edit);
          edit = (if has_prev_log_number edit then edit else SetPrevLogNumber (vs_prev_log_number vs) edit);
          edit = SetLastSequence (vs_last_sequence vs) (SetNextFile (vs_next_file_number vs) edit);
          (b, vs) = Builder_new vs (the (current vs));
          (vs, b) = Builder_Apply vs b edit;
          (vs, v) = Builder_SaveTo vs b Version_new;
          vs = delete_builder vs b;
          v = Finalize vs v;
          fresh = (descriptor vs = None);
          manifest = DescriptorFileName (vs_dbname vs) (manifest_file_number vs);
          (s, vs, env) = (if fresh then new_descriptor ops vs env else (OK, vs, env));
          (s, vs, env) = (if ok s then log_edit ops vs env edit else (s, vs, env));
          (s, env) = (if ok s \<and> fresh then SetCurrentFile ops env (vs_dbname vs) (manifest_file_number vs) else (s, env))
      in if ok s then
           (s, (AppendVersion vs v)\<lparr>vs_log_number := log_number edit, vs_prev_log_number := prev_log_number edit\<rparr>, env, edit)
         else
           (let vs = foldl file_unref vs (concat (v_files v))
            in if fresh then
                 (let env = (case descriptor vs of None \<Rightarrow> env | Some d \<Rightarrow> env_delete_file ops env (fst d))
                  in (s, vs\<lparr>descriptor := None\<rparr>, snd (env_DeleteFile ops env manifest), edit))
               else (s, vs, env, edit)))"


subsection \<open>Recovery\<close>

text \<open>What the records of the descriptor log have set so far; the status is also set by the reporter of the log reader.\<close>

record Recovered =
  rc_status :: Status
  rc_log_number :: "uint64 option"
  rc_prev_log_number :: "uint64 option"
  rc_next_file :: "uint64 option"
  rc_last_sequence :: "uint64 option"

definition note_reports :: "'f Reader \<Rightarrow> Recovered \<Rightarrow> Recovered" where
  "note_reports r st = (if ok (rc_status st) \<and> reports r \<noteq> [] then st\<lparr>rc_status := snd (hd (reports r))\<rparr> else st)"

definition recover_record :: "VersionSet \<Rightarrow> VersionBuilder \<Rightarrow> Recovered \<Rightarrow> bytes \<Rightarrow> VersionSet \<times> VersionBuilder \<times> Recovered" where
  "recover_record vs b st record =
     (let (s, edit) = VersionEdit_DecodeFrom VersionEdit_new record;
          name = string_bytes (Name (vs_user vs));
          s = (if ok s \<and> has_comparator edit \<and> ve_comparator edit \<noteq> name
               then InvalidArgument (bytes_string (ve_comparator edit) @ ''does not match existing comparator '') (Name (vs_user vs)) else s);
          (vs, b) = (if ok s then Builder_Apply vs b edit else (vs, b))
      in (vs, b, st\<lparr>rc_status := s,
            rc_log_number := (if has_log_number edit then Some (log_number edit) else rc_log_number st),
            rc_prev_log_number := (if has_prev_log_number edit then Some (prev_log_number edit) else rc_prev_log_number st),
            rc_next_file := (if has_next_file_number edit then Some (next_file_number edit) else rc_next_file st),
            rc_last_sequence := (if has_last_sequence edit then Some (last_sequence edit) else rc_last_sequence st)\<rparr>))"

partial_function (option) recover_loop ::
  "'f SequentialFile \<Rightarrow> 'f Reader \<Rightarrow> VersionSet \<Rightarrow> VersionBuilder \<Rightarrow> Recovered \<Rightarrow> (VersionSet \<times> VersionBuilder \<times> Recovered) option" where
  "recover_loop ops r vs b st =
     (case ReadRecord ops r of
        None \<Rightarrow> None
      | Some (record, r) \<Rightarrow>
          (let st = note_reports r st
           in case record of
                None \<Rightarrow> Some (vs, b, st)
              | Some record \<Rightarrow>
                  if ok (rc_status st)
                  then (case recover_record vs b st record of (vs, b, st) \<Rightarrow> recover_loop ops r vs b st)
                  else Some (vs, b, st)))"

text \<open>The checks after the log has been read, and the new state.\<close>

definition recover_install :: "VersionSet \<Rightarrow> VersionBuilder \<Rightarrow> Recovered \<Rightarrow> Status \<times> VersionSet" where
  "recover_install vs b st =
     (let prev = (case rc_prev_log_number st of None \<Rightarrow> 0 | Some n \<Rightarrow> n);
          lognum = (case rc_log_number st of None \<Rightarrow> 0 | Some n \<Rightarrow> n);
          s = (if \<not> ok (rc_status st) then rc_status st
               else if rc_next_file st = None then Corruption ''no meta-nextfile entry in descriptor'' []
               else if rc_log_number st = None then Corruption ''no meta-lognumber entry in descriptor'' []
               else if rc_last_sequence st = None then Corruption ''no last-sequence-number entry in descriptor'' []
               else OK);
          vs = (if ok (rc_status st) then MarkFileNumberUsed (MarkFileNumberUsed vs prev) lognum else vs)
      in if ok s then
           (let (vs, v) = Builder_SaveTo vs b Version_new;
                vs = AppendVersion vs (Finalize vs v);
                next_file = the (rc_next_file st)
            in (s, vs\<lparr>manifest_file_number := next_file, vs_next_file_number := next_file + 1,
                      vs_last_sequence := the (rc_last_sequence st), vs_log_number := lognum, vs_prev_log_number := prev\<rparr>))
         else (s, vs))"

definition VersionSet_Recover :: "VersionSet \<Rightarrow> MemEnv \<Rightarrow> (Status \<times> VersionSet \<times> MemEnv) option" where
  "VersionSet_Recover vs env =
     (case ReadFileToString env (CurrentFileName (vs_dbname vs)) of
        None \<Rightarrow> None
      | Some (s, contents, env) \<Rightarrow>
          if \<not> ok s then Some (s, vs, env)
          else if contents = [] \<or> last contents \<noteq> 10 then Some (Corruption ''CURRENT file does not end with newline'' [], vs, env)
          else
            (case NewReadableFile env (vs_dbname vs @ ''/'' @ bytes_string (butlast contents)) of
               (s, None, env) \<Rightarrow> Some (s, vs, env)
             | (s, Some a, env) \<Rightarrow>
                 (let (b, vs) = Builder_new vs (the (current vs))
                  in case recover_loop SequentialFileOps (Reader_new (the (heap env a), 0) True True 0) vs b
                         \<lparr>rc_status = OK, rc_log_number = None, rc_prev_log_number = None, rc_next_file = None, rc_last_sequence = None\<rparr> of
                       None \<Rightarrow> None
                     | Some (vs, b, st) \<Rightarrow>
                         (let env = CloseHandle env a; (s, vs) = recover_install vs b st
                          in Some (s, delete_builder vs b, env)))))"

end
