(* ===== verification/Version_Refs.thy ===== *)
theory Version_Refs
  imports Version_Set
begin

text \<open>
  The reference counts of the set of versions: a version is in the store as long as it is referred
  to, and the metadata of a file as long as a version or a builder has it.
\<close>

subsection \<open>Files\<close>

definition file_info :: "FileMetaData \<Rightarrow> uint64 \<times> uint64 \<times> bytes \<times> bytes" where
  "file_info f = (fm_number f, file_size f, smallest f, largest f)"

text \<open>The references from the versions; \<open>R\<close> are further references, such as those of a builder.\<close>

definition file_refs :: "VersionSet \<Rightarrow> nat multiset" where
  "file_refs vs = (\<Sum>v\<in>dom (versions vs). mset (concat (v_files (the_version vs v))))"

definition metas_ok :: "VersionSet \<Rightarrow> nat multiset \<Rightarrow> bool" where
  "metas_ok vs R \<longleftrightarrow> dom (metas vs) = set_mset (file_refs vs + R) \<and>
     (\<forall>f \<in># file_refs vs + R. fm_refs (the_meta vs f) = int (count (file_refs vs + R) f) \<and> f < next_meta vs)"

text \<open>What no operation on references changes.\<close>

definition keeps_files :: "VersionSet \<Rightarrow> VersionSet \<Rightarrow> bool" where
  "keeps_files vs vs' \<longleftrightarrow> (\<forall>f \<in> dom (metas vs'). f \<in> dom (metas vs) \<longrightarrow> file_info (the_meta vs' f) = file_info (the_meta vs f))"

lemma keeps_files_refl [simp]: "keeps_files vs vs"
  by (simp add: keeps_files_def)

lemma file_refs_metas [simp]: "file_refs (vs\<lparr>metas := m\<rparr>) = file_refs vs"
  by (simp add: file_refs_def)

lemma file_unref_ok:
  assumes "metas_ok vs R" "f \<in># R"
  shows "metas_ok (file_unref vs f) (R - {#f#})"
proof -
  let ?T = "file_refs vs + R" and ?m = "the_meta vs f"
  have T: "file_refs vs + (R - {#f#}) = ?T - {#f#}" using assms(2) by simp
  have f: "f \<in># ?T" using assms(2) by simp
  have m: "fm_refs ?m = int (count ?T f)" "dom (metas vs) = set_mset ?T" "metas vs f \<noteq> None"
    using assms f by (auto simp: metas_ok_def)
  have rest: "\<forall>g \<in># ?T. fm_refs (the_meta vs g) = int (count ?T g) \<and> g < next_meta vs" using assms(1) by (simp add: metas_ok_def)
  show ?thesis
  proof (cases "count ?T f = 1")
    case True
    then have "set_mset (?T - {#f#}) = set_mset ?T - {f}" by (auto simp: set_eq_iff simp flip: count_greater_zero_iff)
    moreover have "file_unref vs f = vs\<lparr>metas := (metas vs)(f := None)\<rparr>" using True m(1) by (simp add: file_unref_def)
    ultimately show ?thesis using m rest unfolding metas_ok_def by (simp add: T)
  next
    case False
    then have c: "1 < count ?T f" using f count_greater_zero_iff [of ?T f] by linarith
    then have S: "set_mset (?T - {#f#}) = set_mset ?T" by (auto simp: set_eq_iff simp flip: count_greater_zero_iff)
    have u: "file_unref vs f = vs\<lparr>metas := (metas vs)(f \<mapsto> ?m\<lparr>fm_refs := fm_refs ?m - 1\<rparr>)\<rparr>" using c m(1) by (simp add: file_unref_def)
    have "fm_refs ?m - 1 = int (count ?T f - 1)" using c m(1) by (simp add: of_nat_diff)
    moreover have "dom ((metas vs)(f \<mapsto> x)) = set_mset ?T" for x using m(2) f by auto
    ultimately have "\<forall>g \<in># ?T. fm_refs (the_meta (file_unref vs f) g) = int (count (?T - {#f#}) g) \<and> g < next_meta vs"
      using rest unfolding u by simp
    moreover have "next_meta (file_unref vs f) = next_meta vs" "dom (metas (file_unref vs f)) = set_mset ?T"
      using m(2) f unfolding u by auto
    ultimately show ?thesis unfolding metas_ok_def T S [symmetric] by (simp add: u S T)
  qed
qed

lemma file_unref_keeps: "keeps_files vs (file_unref vs f)"
  by (auto simp: keeps_files_def file_unref_def file_info_def Let_def split: if_splits)

definition others where
  "others vs = (vs_user vs, vs_dbname vs, vs_next_file_number vs, manifest_file_number vs, vs_last_sequence vs, vs_log_number vs,
     vs_prev_log_number vs, descriptor vs, compact_pointer vs, next_meta vs, next_version vs)"

lemma file_unref_fields [simp]:
  "versions (file_unref vs f) = versions vs" "version_list (file_unref vs f) = version_list vs"
  "current (file_unref vs f) = current vs" "others (file_unref vs f) = others vs"
  by (simp_all add: file_unref_def others_def Let_def)

lemma foldl_unref_fields [simp]:
  "versions (foldl file_unref vs fs) = versions vs" "version_list (foldl file_unref vs fs) = version_list vs"
  "current (foldl file_unref vs fs) = current vs" "others (foldl file_unref vs fs) = others vs"
  by (induction fs arbitrary: vs) simp_all

lemma file_unref_dom: "dom (metas (file_unref vs f)) \<subseteq> insert f (dom (metas vs))"
  by (auto simp: file_unref_def Let_def split: if_splits)

lemma keeps_files_trans:
  "keeps_files vs1 vs2 \<Longrightarrow> keeps_files vs2 vs3 \<Longrightarrow> dom (metas vs3) \<subseteq> dom (metas vs2) \<Longrightarrow> keeps_files vs1 vs3"
  unfolding keeps_files_def by (metis subsetD)

lemma foldl_unref_ok:
  assumes "metas_ok vs R" "mset fs \<subseteq># R"
  shows "metas_ok (foldl file_unref vs fs) (R - mset fs) \<and> keeps_files vs (foldl file_unref vs fs) \<and>
    dom (metas (foldl file_unref vs fs)) \<subseteq> dom (metas vs)"
  using assms
proof (induction fs arbitrary: vs R)
  case (Cons f fs)
  have f: "f \<in># R" using Cons.prems(2) mset_subset_eq_insertD [of f "mset fs" R] by simp
  note ok = file_unref_ok [OF Cons.prems(1) f]
  have "mset fs \<subseteq># R - {#f#}" using Cons.prems(2) f by (simp add: insert_subset_eq_iff)
  note IH = Cons.IH [OF ok this]
  have "f \<in> dom (metas vs)" using Cons.prems(1) f by (auto simp: metas_ok_def)
  then have d: "dom (metas (file_unref vs f)) \<subseteq> dom (metas vs)" using file_unref_dom [of vs f] by blast
  have "keeps_files vs (foldl file_unref (file_unref vs f) fs)"
    using IH file_unref_keeps keeps_files_trans by blast
  moreover have "dom (metas (foldl file_unref (file_unref vs f) fs)) \<subseteq> dom (metas vs)" using IH d by blast
  ultimately show ?case using IH by simp
qed simp

lemma file_ref_ok:
  assumes "metas_ok vs R" "f \<in> dom (metas vs)"
  shows "metas_ok (file_ref vs f) (add_mset f R)"
proof -
  let ?T = "file_refs vs + R"
  have "f \<in># ?T" using assms by (auto simp: metas_ok_def)
  then have "set_mset (?T + {#f#}) = set_mset ?T" by auto
  then show ?thesis using assms by (auto simp: metas_ok_def file_ref_def)
qed

lemma file_ref_fields [simp]:
  "versions (file_ref vs f) = versions vs" "version_list (file_ref vs f) = version_list vs"
  "current (file_ref vs f) = current vs" "others (file_ref vs f) = others vs"
  "file_refs (file_ref vs f) = file_refs vs"
  by (simp_all add: file_ref_def others_def)

lemma file_ref_dom: "f \<in> dom (metas vs) \<Longrightarrow> dom (metas (file_ref vs f)) = dom (metas vs)"
  by (auto simp: file_ref_def)

lemma file_ref_keeps: "keeps_files vs (file_ref vs f)"
  by (auto simp: keeps_files_def file_ref_def file_info_def)

lemma foldl_ref_fields [simp]:
  "versions (foldl file_ref vs fs) = versions vs" "version_list (foldl file_ref vs fs) = version_list vs"
  "current (foldl file_ref vs fs) = current vs" "others (foldl file_ref vs fs) = others vs"
  by (induction fs arbitrary: vs) simp_all

lemma foldl_ref_ok:
  assumes "metas_ok vs R" "set fs \<subseteq> dom (metas vs)"
  shows "metas_ok (foldl file_ref vs fs) (R + mset fs) \<and> keeps_files vs (foldl file_ref vs fs) \<and>
    dom (metas (foldl file_ref vs fs)) = dom (metas vs)"
  using assms
proof (induction fs arbitrary: vs R)
  case (Cons f fs)
  have f: "f \<in> dom (metas vs)" using Cons.prems(2) by simp
  note d = file_ref_dom [OF f]
  have "set fs \<subseteq> dom (metas (file_ref vs f))" using Cons.prems(2) d by simp
  note IH = Cons.IH [OF file_ref_ok [OF Cons.prems(1) f] this]
  have "keeps_files vs (foldl file_ref (file_ref vs f) fs)"
    using IH d keeps_files_trans [OF file_ref_keeps [of vs f]] by simp
  then show ?case using IH d by simp
qed simp

subsection \<open>Versions\<close>

text \<open>\<open>VR\<close> counts the references to each version.\<close>

definition versions_ok :: "VersionSet \<Rightarrow> nat multiset \<Rightarrow> bool" where
  "versions_ok vs VR \<longleftrightarrow> dom (versions vs) = set_mset VR \<and> distinct (version_list vs) \<and> set (version_list vs) = dom (versions vs) \<and>
     (\<forall>v \<in># VR. v_refs (the_version vs v) = int (count VR v) \<and> v < next_version vs \<and> length (v_files (the_version vs v)) = kNumLevels)"

definition vs_ok :: "VersionSet \<Rightarrow> nat multiset \<Rightarrow> nat multiset \<Rightarrow> bool" where
  "vs_ok vs VR R \<longleftrightarrow> versions_ok vs VR \<and> metas_ok vs R"

text \<open>The files of a version and what is known of them stay the same as long as it is in the store.\<close>

definition keeps :: "VersionSet \<Rightarrow> VersionSet \<Rightarrow> bool" where
  "keeps vs vs' \<longleftrightarrow> keeps_files vs vs' \<and> (\<forall>v \<in> dom (versions vs'). v \<in> dom (versions vs) \<longrightarrow>
     v_files (the_version vs' v) = v_files (the_version vs v))"

lemma file_refs_version:
  assumes "versions vs v = Some ver" "v_files ver' = v_files ver"
  shows "file_refs (vs\<lparr>versions := (versions vs)(v \<mapsto> ver')\<rparr>) = file_refs vs"
proof -
  have "dom ((versions vs)(v \<mapsto> ver')) = dom (versions vs)" using assms(1) by auto
  then show ?thesis using assms unfolding file_refs_def by (auto intro!: sum.cong)
qed

lemma Version_Ref_ok:
  assumes "vs_ok vs VR R" "v \<in> dom (versions vs)"
  shows "vs_ok (Version_Ref vs v) (add_mset v VR) R" "keeps vs (Version_Ref vs v)" "metas (Version_Ref vs v) = metas vs"
    "others (Version_Ref vs v) = others vs" "current (Version_Ref vs v) = current vs"
proof -
  obtain ver where ver: "versions vs v = Some ver" using assms(2) by blast
  have fr: "file_refs (Version_Ref vs v) = file_refs vs" unfolding Version_Ref_def by (rule file_refs_version [OF ver]) (simp add: ver)
  then have "metas_ok (Version_Ref vs v) R" using assms(1) by (simp add: vs_ok_def metas_ok_def) (simp add: Version_Ref_def)
  moreover have "versions_ok (Version_Ref vs v) (add_mset v VR)"
    using assms by (auto simp: vs_ok_def versions_ok_def Version_Ref_def)
  ultimately show "vs_ok (Version_Ref vs v) (add_mset v VR) R" by (simp add: vs_ok_def)
  show "keeps vs (Version_Ref vs v)" "metas (Version_Ref vs v) = metas vs" "others (Version_Ref vs v) = others vs"
    "current (Version_Ref vs v) = current vs"
    by (auto simp: keeps_def keeps_files_def Version_Ref_def others_def)
qed


lemma file_unref_versions: "file_unref (vs\<lparr>versions := X\<rparr>) f = (file_unref vs f)\<lparr>versions := X\<rparr>"
  by (simp add: file_unref_def Let_def)

lemma foldl_unref_versions: "foldl file_unref (vs\<lparr>versions := X\<rparr>) fs = (foldl file_unref vs fs)\<lparr>versions := X\<rparr>"
  by (induction fs arbitrary: vs) (simp_all add: file_unref_versions)

lemma file_unref_commute:
  "file_unref (vs\<lparr>next_version := n\<rparr>) f = (file_unref vs f)\<lparr>next_version := n\<rparr>"
  "file_unref (vs\<lparr>version_list := l\<rparr>) f = (file_unref vs f)\<lparr>version_list := l\<rparr>"
  by (simp_all add: file_unref_def Let_def)

lemma foldl_unref_commute:
  "foldl file_unref (vs\<lparr>next_version := n\<rparr>) fs = (foldl file_unref vs fs)\<lparr>next_version := n\<rparr>"
  "foldl file_unref (vs\<lparr>version_list := l\<rparr>) fs = (foldl file_unref vs fs)\<lparr>version_list := l\<rparr>"
  by (induction fs arbitrary: vs) (simp_all add: file_unref_commute)

text \<open>A version without references leaves the store with its references to files.\<close>

lemma delete_version_eq:
  "delete_version vs v = foldl file_unref (vs\<lparr>versions := (versions vs)(v := None), version_list := remove1 v (version_list vs)\<rparr>)
     (concat (v_files (the_version vs v)))"
  by (simp add: delete_version_def Let_def foldl_unref_versions foldl_unref_commute)

lemma file_refs_remove:
  assumes "finite (dom (versions vs))" "v \<in> dom (versions vs)"
  shows "file_refs vs = mset (concat (v_files (the_version vs v))) + file_refs (vs\<lparr>versions := (versions vs)(v := None)\<rparr>)"
proof -
  have "file_refs (vs\<lparr>versions := (versions vs)(v := None)\<rparr>) = (\<Sum>u\<in>dom (versions vs) - {v}. mset (concat (v_files (the_version vs u))))"
    unfolding file_refs_def by (rule sum.cong) auto
  then show ?thesis using sum.remove [OF assms, of "\<lambda>u. mset (concat (v_files (the_version vs u)))"] unfolding file_refs_def by simp
qed

lemma Version_Unref_delete:
  assumes ok: "vs_ok vs VR R" and v: "count VR v = 1"
  shows "vs_ok (Version_Unref vs v) (VR - {#v#}) R" "keeps vs (Version_Unref vs v)"
    "others (Version_Unref vs v) = others vs" "current (Version_Unref vs v) = current vs"
    "dom (metas (Version_Unref vs v)) \<subseteq> dom (metas vs)"
proof -
  let ?vs = "vs\<lparr>versions := (versions vs)(v := None), version_list := remove1 v (version_list vs)\<rparr>"
  let ?fs = "concat (v_files (the_version vs v))"
  have vin: "v \<in># VR" using v by (simp flip: count_greater_zero_iff)
  have S: "set_mset (VR - {#v#}) = set_mset VR - {v}" using v by (auto simp: set_eq_iff simp flip: count_greater_zero_iff)
  have vok: "versions_ok vs VR" and mok: "metas_ok vs R" using ok by (simp_all add: vs_ok_def)
  have dom: "v \<in> dom (versions vs)" "finite (dom (versions vs))" "v_refs (the_version vs v) = 1" using vok vin v by (auto simp: versions_ok_def)
  have U: "Version_Unref vs v = foldl file_unref ?vs ?fs"
    using dom(3) by (simp add: Version_Unref_def delete_version_eq Let_def)
  have T: "file_refs ?vs + (R + mset ?fs) = file_refs vs + R" using file_refs_remove [OF dom(2,1)] by (simp add: file_refs_def add_ac)
  have "metas_ok ?vs (R + mset ?fs)" using mok unfolding metas_ok_def T by simp
  note F = foldl_unref_ok [OF this, of ?fs]
  have "metas_ok (Version_Unref vs v) R" using F by (simp add: U)
  moreover have "versions_ok (Version_Unref vs v) (VR - {#v#})"
  proof -
    have o: "others (Version_Unref vs v) = others ?vs" by (simp add: U)
    then have "next_version (Version_Unref vs v) = next_version vs" by (simp add: others_def)
    then show ?thesis using vok S unfolding versions_ok_def by (auto simp: U)
  qed
  ultimately show "vs_ok (Version_Unref vs v) (VR - {#v#}) R" by (simp add: vs_ok_def)
  show "keeps vs (Version_Unref vs v)" using F unfolding U keeps_def by (auto simp: keeps_files_def)
  have "others ?vs = others vs" by (simp add: others_def)
  then show "others (Version_Unref vs v) = others vs" "current (Version_Unref vs v) = current vs"
    "dom (metas (Version_Unref vs v)) \<subseteq> dom (metas vs)" using F by (simp_all add: U)
qed

lemma Version_Unref_ok:
  assumes "vs_ok vs VR R" "v \<in># VR"
  shows "vs_ok (Version_Unref vs v) (VR - {#v#}) R" "keeps vs (Version_Unref vs v)"
    "others (Version_Unref vs v) = others vs" "current (Version_Unref vs v) = current vs"
    "dom (metas (Version_Unref vs v)) \<subseteq> dom (metas vs)"
proof -
  have "vs_ok (Version_Unref vs v) (VR - {#v#}) R \<and> keeps vs (Version_Unref vs v) \<and>
    others (Version_Unref vs v) = others vs \<and> current (Version_Unref vs v) = current vs \<and>
    dom (metas (Version_Unref vs v)) \<subseteq> dom (metas vs)"
  proof (cases "count VR v = 1")
    case True
    then show ?thesis using Version_Unref_delete [OF assms(1) True] by simp
  next
    case False
    then have c: "1 < count VR v" using assms(2) count_greater_zero_iff [of VR v] by linarith
    then have S: "set_mset (VR - {#v#}) = set_mset VR" by (auto simp: set_eq_iff simp flip: count_greater_zero_iff)
    have vok: "versions_ok vs VR" and mok: "metas_ok vs R" using assms(1) by (simp_all add: vs_ok_def)
    have "v \<in> dom (versions vs)" "v_refs (the_version vs v) = int (count VR v)" using vok assms(2) by (simp_all add: versions_ok_def)
    then obtain ver where ver: "versions vs v = Some ver" "v_refs ver = int (count VR v)" by auto
    let ?vs = "vs\<lparr>versions := (versions vs)(v \<mapsto> ver\<lparr>v_refs := v_refs ver - 1\<rparr>)\<rparr>"
    have U: "Version_Unref vs v = ?vs" using ver c by (simp add: Version_Unref_def Let_def)
    have "file_refs ?vs = file_refs vs" by (rule file_refs_version [OF ver(1)]) simp
    then have "metas_ok ?vs R" using mok by (simp add: metas_ok_def)
    moreover have "versions_ok ?vs (VR - {#v#})"
    proof -
      have "dom (versions ?vs) = dom (versions vs)" using ver(1) by auto
      moreover have "v_refs ver - 1 = int (count VR v - 1)" using ver(2) c by (simp add: of_nat_diff)
      ultimately show ?thesis using vok ver(1) c unfolding versions_ok_def S by auto
    qed
    ultimately show ?thesis unfolding U using ver(1) by (auto simp: vs_ok_def keeps_def keeps_files_def others_def)
  qed
  then show "vs_ok (Version_Unref vs v) (VR - {#v#}) R" "keeps vs (Version_Unref vs v)"
    "others (Version_Unref vs v) = others vs" "current (Version_Unref vs v) = current vs"
    "dom (metas (Version_Unref vs v)) \<subseteq> dom (metas vs)" by blast+
qed


text \<open>A new version takes over references that were counted apart before.\<close>

definition add_version :: "VersionSet \<Rightarrow> Version \<Rightarrow> VersionSet" where
  "add_version vs v =
     (let a = next_version vs
      in vs\<lparr>versions := (versions vs)(a \<mapsto> v\<lparr>v_refs := v_refs v + 1\<rparr>), next_version := a + 1, current := Some a,
            version_list := version_list vs @ [a]\<rparr>)"

lemma add_version_ok:
  assumes ok: "vs_ok vs VR (R + mset (concat (v_files v)))" and v: "v_refs v = 0" "length (v_files v) = kNumLevels"
  shows "vs_ok (add_version vs v) (add_mset (next_version vs) VR) R" "keeps vs (add_version vs v)"
    "metas (add_version vs v) = metas vs" "current (add_version vs v) = Some (next_version vs)"
    "v_files (the_version (add_version vs v) (next_version vs)) = v_files v"
proof -
  let ?a = "next_version vs" and ?vs = "add_version vs v"
  have vok: "versions_ok vs VR" and mok: "metas_ok vs (R + mset (concat (v_files v)))" using ok by (simp_all add: vs_ok_def)
  have fresh: "?a \<notin># VR" "?a \<notin> dom (versions vs)" using vok by (auto simp: versions_ok_def)
  have fin: "finite (dom (versions vs))" using vok by (simp add: versions_ok_def)
  have d: "dom (versions ?vs) = insert ?a (dom (versions vs))" by (auto simp: add_version_def Let_def)
  have "(\<Sum>u\<in>dom (versions vs). mset (concat (v_files (the_version ?vs u)))) = file_refs vs"
    unfolding file_refs_def using fresh(2) by (intro sum.cong) (auto simp: add_version_def Let_def)
  then have T: "file_refs ?vs + R = file_refs vs + (R + mset (concat (v_files v)))"
    using fin fresh(2) unfolding file_refs_def [of ?vs] d by (simp add: add_version_def Let_def add_ac)
  have m: "metas ?vs = metas vs" "next_meta ?vs = next_meta vs" by (simp_all add: add_version_def Let_def)
  have "metas_ok ?vs R" using mok unfolding metas_ok_def T m .
  moreover have "versions_ok ?vs (add_mset ?a VR)"
    using vok fresh v unfolding versions_ok_def d
    by (auto simp: add_version_def Let_def not_in_iff less_SucI)
  ultimately show "vs_ok ?vs (add_mset ?a VR) R" by (simp add: vs_ok_def)
  show "keeps vs ?vs" using fresh(2) by (auto simp: keeps_def keeps_files_def add_version_def Let_def)
  show "metas ?vs = metas vs" "current ?vs = Some ?a" "v_files (the_version ?vs ?a) = v_files v"
    by (simp_all add: add_version_def Let_def)
qed

text \<open>Dropping the reference to the old current version does not see the new one.\<close>

lemma Version_Unref_add:
  assumes "c \<noteq> a"
  shows "Version_Unref (vs\<lparr>versions := (versions vs)(a \<mapsto> v), next_version := n\<rparr>) c =
    (let vs' = Version_Unref vs c in vs'\<lparr>versions := (versions vs')(a \<mapsto> v), next_version := n\<rparr>)"
  using assms
  by (auto simp: Version_Unref_def delete_version_eq Let_def foldl_unref_versions foldl_unref_commute fun_upd_twist)

lemma AppendVersion_eq:
  assumes "case current vs of None \<Rightarrow> True | Some c \<Rightarrow> c \<noteq> next_version vs \<and> next_version (Version_Unref vs c) = next_version vs"
  shows "AppendVersion vs v = add_version (case current vs of None \<Rightarrow> vs | Some c \<Rightarrow> Version_Unref vs c) v"
proof (cases "current vs")
  case (Some c)
  then have c: "c \<noteq> next_version vs" "next_version (Version_Unref vs c) = next_version vs" using assms by simp_all
  show ?thesis using c Some
    by (simp add: AppendVersion_def add_version_def Version_Unref_add [OF c(1)] Version_Ref_def Let_def)
qed (simp add: AppendVersion_def add_version_def Version_Ref_def Let_def)

lemma AppendVersion_ok:
  assumes ok: "vs_ok vs VR (R + mset (concat (v_files v)))" and v: "v_refs v = 0" "length (v_files v) = kNumLevels"
    and c: "current vs = Some c" "c \<in># VR"
  shows "vs_ok (AppendVersion vs v) (add_mset (next_version vs) (VR - {#c#})) R" "keeps vs (AppendVersion vs v)"
    "current (AppendVersion vs v) = Some (next_version vs)" "v_files (the_version (AppendVersion vs v) (next_version vs)) = v_files v"
    "others (AppendVersion vs v) = others (vs\<lparr>next_version := next_version vs + 1\<rparr>)" "dom (metas (AppendVersion vs v)) \<subseteq> dom (metas vs)"
proof -
  let ?u = "Version_Unref vs c"
  note U = Version_Unref_ok [OF ok c(2)]
  have nv: "next_version ?u = next_version vs" "c \<noteq> next_version vs"
    using U(3) ok c(2) by (auto simp: others_def vs_ok_def versions_ok_def)
  have eq: "AppendVersion vs v = add_version ?u v" using AppendVersion_eq [of vs v] nv c by simp
  note A = add_version_ok [OF U(1) v]
  show "vs_ok (AppendVersion vs v) (add_mset (next_version vs) (VR - {#c#})) R" using A(1) nv(1) by (simp add: eq)
  show "current (AppendVersion vs v) = Some (next_version vs)" "v_files (the_version (AppendVersion vs v) (next_version vs)) = v_files v"
    using A(4,5) nv(1) by (simp_all add: eq)
  show "others (AppendVersion vs v) = others (vs\<lparr>next_version := next_version vs + 1\<rparr>)"
    using U(3) unfolding eq by (simp add: others_def add_version_def Let_def)
  have fr: "next_version vs \<notin> dom (versions vs)" using ok by (auto simp: vs_ok_def versions_ok_def)
  show "keeps vs (AppendVersion vs v)"
    using U(2) fr nv(1) unfolding eq by (auto simp: keeps_def keeps_files_def add_version_def Let_def)
  show "dom (metas (AppendVersion vs v)) \<subseteq> dom (metas vs)" using U(5) unfolding eq by (simp add: add_version_def Let_def)
qed

end
