(* ===== verification/Version_Builder.thy ===== *)
theory Version_Builder
  imports Version_Refs
begin

text \<open>
  What applying edits does to the files of a version: each level is a set of files, known by number,
  size and bounds, and an edit removes the files it deletes and then adds its own.
\<close>

type_synonym FileInfo = "uint64 \<times> uint64 \<times> bytes \<times> bytes"

definition info_less :: "Comparator \<Rightarrow> FileInfo \<Rightarrow> FileInfo \<Rightarrow> bool" where
  "info_less user i j =
     (let r = InternalKey_Compare user (fst (snd (snd i))) (fst (snd (snd j)))
      in if r \<noteq> 0 then r < 0 else fst i < fst j)"

lemma BySmallestKey_info: "BySmallestKey user f g = info_less user (file_info f) (file_info g)"
  by (simp add: BySmallestKey_def info_less_def file_info_def)

abbreviation info_at :: "VersionSet \<Rightarrow> nat \<Rightarrow> FileInfo" where
  "info_at vs a \<equiv> file_info (the_meta vs a)"

definition info_valid :: "FileInfo \<Rightarrow> bool" where
  "info_valid i \<longleftrightarrow> valid_ikey (fst (snd (snd i)))"

subsection \<open>The order of files\<close>

context ikey_order
begin

lemma info_less_asym: "info_valid i \<Longrightarrow> info_valid j \<Longrightarrow> info_less user i j \<Longrightarrow> \<not> info_less user j i"
  using ikey.compare_le_flip [of "fst (snd (snd i))" "fst (snd (snd j))"] ikey.compare_eq_flip [of "fst (snd (snd i))" "fst (snd (snd j))"]
  by (auto simp: info_less_def info_valid_def Let_def split: if_splits)

lemma info_less_total: "info_valid i \<Longrightarrow> info_valid j \<Longrightarrow> fst i \<noteq> fst j \<Longrightarrow> info_less user i j \<or> info_less user j i"
  using ikey.compare_le_flip [of "fst (snd (snd i))" "fst (snd (snd j))"] ikey.compare_eq_flip [of "fst (snd (snd i))" "fst (snd (snd j))"]
  by (auto simp: info_less_def info_valid_def Let_def)

lemma info_less_trans:
  assumes "info_valid i" "info_valid j" "info_valid k" "info_less user i j" "info_less user j k"
  shows "info_less user i k"
proof -
  let ?a = "fst (snd (snd i))" and ?b = "fst (snd (snd j))" and ?c = "fst (snd (snd k))"
  have v: "valid_ikey ?a" "valid_ikey ?b" "valid_ikey ?c" using assms(1-3) by (simp_all add: info_valid_def)
  have le: "InternalKey_Compare user ?a ?b \<le> 0" "InternalKey_Compare user ?b ?c \<le> 0"
    using assms(4,5) by (auto simp: info_less_def Let_def split: if_splits)
  show ?thesis
  proof (cases "InternalKey_Compare user ?a ?b = 0 \<and> InternalKey_Compare user ?b ?c = 0")
    case True
    then have "InternalKey_Compare user ?a ?c \<le> 0" "InternalKey_Compare user ?c ?a \<le> 0"
      using ikey.compare_trans [OF v] ikey.compare_trans [OF v(3,2,1)] ikey.compare_eq_flip [OF v(1,2)] ikey.compare_eq_flip [OF v(2,3)]
      by simp_all
    then have "InternalKey_Compare user ?a ?c = 0" using ikey.compare_le_flip [OF v(1,3)] ikey.compare_le_flip [OF v(3,1)] by auto
    then show ?thesis using assms(4,5) True by (auto simp: info_less_def Let_def)
  next
    case False
    then have "InternalKey_Compare user ?a ?c < 0"
      using le ikey.compare_less_le_trans [OF v] ikey.compare_le_less_trans [OF v] by force
    then show ?thesis by (simp add: info_less_def)
  qed
qed


lemma sorted_infos_unique:
  assumes "sorted_wrt (info_less user) xs" "sorted_wrt (info_less user) ys" "set xs = set ys" "\<forall>i \<in> set xs. info_valid i"
  shows "xs = ys"
  using assms
proof (induction xs arbitrary: ys)
  case (Cons x xs)
  then obtain y ys' where ys: "ys = y # ys'" by (cases ys) auto
  have v: "info_valid x" "info_valid y" using Cons.prems(3,4) ys by auto
  have xy: "x = y"
  proof (rule ccontr)
    assume "x \<noteq> y"
    moreover have "y \<in> set (x # xs)" "x \<in> set (y # ys')" using Cons.prems(3) ys by auto
    ultimately have "y \<in> set xs" "x \<in> set ys'" by auto
    then have "info_less user x y" "info_less user y x" using Cons.prems(1,2) ys by auto
    then show False using info_less_asym v by blast
  qed
  have "x \<notin> set xs" "x \<notin> set ys'" using Cons.prems(1,2) ys xy info_less_asym [OF v(1,1)] by auto
  then have "set xs = set ys'" using Cons.prems(3) ys xy by (metis insert_ident list.simps(15))
  then show ?case using Cons.IH [of ys'] Cons.prems ys xy by simp
qed simp

text \<open>Files are addresses here; \<open>k\<close> gives what is known of them.\<close>

abbreviation before :: "('a \<Rightarrow> FileInfo) \<Rightarrow> 'a \<Rightarrow> 'a \<Rightarrow> bool" where
  "before k x y \<equiv> info_less user (k x) (k y)"

lemma fileset_insert_sorted:
  assumes "sorted_wrt (before k) fs" "\<forall>x \<in> insert f (set fs). info_valid (k x)" "fst (k f) \<notin> fst ` k ` set fs"
  shows "sorted_wrt (before k) (fileset_insert (before k) f fs) \<and> mset (fileset_insert (before k) f fs) = add_mset f (mset fs)"
  using assms
proof (induction fs)
  case (Cons g gs)
  have tot: "before k f g \<or> before k g f" using info_less_total [of "k f" "k g"] Cons.prems(2,3) by auto
  show ?case
  proof (cases "before k f g")
    case True
    then have "\<forall>x \<in> set gs. before k f x" using Cons.prems(1,2) info_less_trans [of "k f" "k g"] by (metis insertCI list.simps(15) sorted_wrt.simps(2))
    then show ?thesis using True Cons.prems(1) by simp
  next
    case False
    then have gf: "before k g f" using tot by blast
    have IH: "sorted_wrt (before k) (fileset_insert (before k) f gs)" "mset (fileset_insert (before k) f gs) = add_mset f (mset gs)"
      using Cons.IH Cons.prems by auto
    have "set (fileset_insert (before k) f gs) = insert f (set gs)" using IH(2) by (metis set_mset_add_mset_insert set_mset_mset)
    then show ?thesis using False gf IH Cons.prems(1) by simp
  qed
qed simp

lemma sorted_around:
  assumes "sorted_wrt (before k) t" "sorted_wrt (before k) m" "\<forall>x \<in> set t. before k x a" "\<forall>x \<in> set m. before k a x"
    and "\<forall>x \<in> insert a (set t \<union> set m). info_valid (k x)"
  shows "sorted_wrt (before k) (t @ a # m)"
proof -
  have "before k x y" if "x \<in> set t" "y \<in> set m" for x y
    using info_less_trans [of "k x" "k a" "k y"] that assms(3-5) by simp
  then show ?thesis using assms(1-4) by (simp add: sorted_wrt_append)
qed

lemma dropWhile_after:
  assumes "sorted_wrt (before k) base" "\<forall>x \<in> set base. info_valid (k x)" "info_valid (k a)" "x \<in> set (dropWhile (\<lambda>x. \<not> before k a x) base)"
  shows "before k a x"
  using assms
proof (induction base)
  case (Cons b base)
  show ?case
  proof (cases "before k a b")
    case True
    then have "x = b \<or> before k b x" "info_valid (k b)" "info_valid (k x)" using Cons.prems by auto
    then show ?thesis using True info_less_trans [OF Cons.prems(3), of "k b" "k x"] by blast
  qed (use Cons in simp)
qed simp

lemma merge_files_sorted:
  assumes "sorted_wrt (before k) base" "sorted_wrt (before k) added" "\<forall>x \<in> set base \<union> set added. info_valid (k x)"
    and "fst ` k ` set base \<inter> fst ` k ` set added = {}"
  shows "sorted_wrt (before k) (merge_files (before k) base added) \<and> mset (merge_files (before k) base added) = mset base + mset added"
  using assms
proof (induction added arbitrary: base)
  case (Cons a as)
  let ?t = "takeWhile (\<lambda>x. \<not> before k a x) base" and ?d = "dropWhile (\<lambda>x. \<not> before k a x) base"
  let ?m = "merge_files (before k) ?d as"
  have base: "base = ?t @ ?d" by simp
  have "sorted_wrt (before k) (?t @ ?d)" using Cons.prems(1) by (simp only: takeWhile_dropWhile_id)
  then have sd: "sorted_wrt (before k) ?t" "sorted_wrt (before k) ?d" "\<forall>x \<in> set ?t. \<forall>y \<in> set ?d. before k x y"
    unfolding sorted_wrt_append by blast+
  have sub: "set ?t \<subseteq> set base" "set ?d \<subseteq> set base" by (auto dest: set_takeWhileD set_dropWhileD)
  have "sorted_wrt (before k) ?m \<and> mset ?m = mset ?d + mset as"
  proof (rule Cons.IH [OF sd(2)])
    show "\<forall>x \<in> set ?d \<union> set as. info_valid (k x)" using Cons.prems(3) sub(2) unfolding list.set by blast
    have "fst ` k ` set ?d \<subseteq> fst ` k ` set base" using sub(2) by (intro image_mono)
    moreover have "fst ` k ` set as \<subseteq> fst ` k ` set (a # as)" by auto
    ultimately show "fst ` k ` set ?d \<inter> fst ` k ` set as = {}" using Cons.prems(4) by blast
    show "sorted_wrt (before k) as" using Cons.prems(2) by simp
  qed
  then have m: "sorted_wrt (before k) ?m" "mset ?m = mset ?d + mset as" by blast+
  have "set ?m = set (?d @ as)" by (rule mset_eq_setD) (simp add: m(2))
  then have sm: "set ?m = set ?d \<union> set as" by simp
  have va: "info_valid (k a)" "\<forall>x \<in> set base. info_valid (k x)" "\<forall>x \<in> set as. info_valid (k x)" using Cons.prems(3) by simp_all
  have ta: "before k x a" if x: "x \<in> set ?t" for x
  proof -
    have nb: "\<not> before k a x" "x \<in> set base" using set_takeWhileD [OF x] by simp_all
    moreover have "fst (k x) \<in> fst ` k ` set base" "fst (k a) \<notin> fst ` k ` set base" using Cons.prems(4) nb(2) by simp_all
    then have "fst (k x) \<noteq> fst (k a)" by metis
    ultimately show ?thesis using info_less_total [of "k x" "k a"] va by auto
  qed
  have "sorted_wrt (before k) (?t @ a # ?m)"
  proof (rule sorted_around [OF sd(1) m(1)])
    show "\<forall>x \<in> set ?t. before k x a" using ta by blast
    have "\<forall>x \<in> set as. before k a x" using Cons.prems(2) by simp
    then show "\<forall>x \<in> set ?m. before k a x" unfolding sm using dropWhile_after [OF Cons.prems(1) va(2,1)] by blast
    show "\<forall>x \<in> insert a (set ?t \<union> set ?m). info_valid (k x)" unfolding sm using va sub by blast
  qed
  moreover have "mset ?t + mset ?d = mset base" by (simp only: mset_append [symmetric] takeWhile_dropWhile_id)
  then have "mset (?t @ a # ?m) = mset base + mset (a # as)" using m(2) by (simp add: add.assoc [symmetric])
  ultimately show ?case by simp
qed simp

end


subsection \<open>The state of a builder\<close>

definition num :: "FileInfo \<Rightarrow> uint64" where "num = fst"

text \<open>What is added to each level and which numbers are deleted from it.\<close>

definition builder_rep ::
  "VersionSet \<Rightarrow> VersionBuilder \<Rightarrow> (nat \<Rightarrow> FileInfo set) \<Rightarrow> (nat \<Rightarrow> uint64 set) \<Rightarrow> bool" where
  "builder_rep vs b X D \<longleftrightarrow> length (b_levels b) = kNumLevels \<and>
     (\<forall>l < kNumLevels. let L = b_levels b ! l in
        sorted_wrt (\<lambda>x y. info_less (vs_user vs) (info_at vs x) (info_at vs y)) (added_files L) \<and>
        set (added_files L) \<subseteq> dom (metas vs) \<and> info_at vs ` set (added_files L) = X l \<and>
        deleted_numbers L = D l \<and> (\<forall>i \<in> X l. info_valid i))"

definition builder_refs :: "VersionBuilder \<Rightarrow> nat multiset" where
  "builder_refs b = mset (concat (map added_files (b_levels b)))"

definition adds :: "VersionEdit \<Rightarrow> nat \<Rightarrow> FileInfo set" where
  "adds e l = {file_info f |f. (l, f) \<in> set (new_files e)}"

definition dels :: "VersionEdit \<Rightarrow> nat \<Rightarrow> uint64 set" where
  "dels e l = {n. (l, n) \<in> set (deleted_files e)}"

lemma builder_rep_deletion:
  assumes "builder_rep vs b X D" "fst d < kNumLevels"
  shows "builder_rep vs (apply_deletion b d) X (D(fst d := insert (snd d) (D (fst d))))" "builder_refs (apply_deletion b d) = builder_refs b"
    "b_base (apply_deletion b d) = b_base b"
proof -
  obtain l n where d: "d = (l, n)" by fastforce
  have len: "l < length (b_levels b)" using assms by (simp add: builder_rep_def d)
  show "builder_rep vs (apply_deletion b d) X (D(fst d := insert (snd d) (D (fst d))))" "b_base (apply_deletion b d) = b_base b"
    using assms by (auto simp: builder_rep_def apply_deletion_def d Let_def nth_list_update)
  have "map added_files (b_levels (apply_deletion b d)) = map added_files (b_levels b)"
    using len by (intro nth_equalityI) (auto simp: apply_deletion_def d Let_def nth_list_update)
  then show "builder_refs (apply_deletion b d) = builder_refs b" by (simp add: builder_refs_def)
qed

lemma builder_rep_deletions:
  assumes "builder_rep vs b X D" "\<forall>d \<in> set ds. fst d < kNumLevels"
  shows "builder_rep vs (foldl apply_deletion b ds) X (\<lambda>l. D l \<union> {n. (l, n) \<in> set ds}) \<and>
    builder_refs (foldl apply_deletion b ds) = builder_refs b \<and> b_base (foldl apply_deletion b ds) = b_base b"
  using assms
proof (induction ds arbitrary: b D)
  case (Cons d ds)
  note dl = builder_rep_deletion [OF Cons.prems(1), of d]
  have "fst d < kNumLevels" using Cons.prems(2) by simp
  moreover have "(\<lambda>l. (D(fst d := insert (snd d) (D (fst d)))) l \<union> {n. (l, n) \<in> set ds}) = (\<lambda>l. D l \<union> {n. (l, n) \<in> set (d # ds)})"
    by (cases d) (auto simp: fun_eq_iff)
  ultimately show ?case using Cons.IH [OF dl(1)] dl(2,3) Cons.prems(2) by simp
qed simp


text \<open>A new file of the builder: its address is not in use, and the builder has the only reference.\<close>

definition add_meta :: "VersionSet \<Rightarrow> FileMetaData \<Rightarrow> VersionSet" where
  "add_meta vs f = vs\<lparr>metas := (metas vs)(next_meta vs \<mapsto> f), next_meta := next_meta vs + 1\<rparr>"

lemma add_meta_ok:
  assumes "vs_ok vs VR R" "fm_refs f = 1"
  shows "vs_ok (add_meta vs f) VR (add_mset (next_meta vs) R)" "next_meta vs \<notin> dom (metas vs)"
    "\<forall>x \<in> dom (metas vs). info_at (add_meta vs f) x = info_at vs x"
    "dom (metas (add_meta vs f)) = insert (next_meta vs) (dom (metas vs))"
proof -
  let ?a = "next_meta vs" and ?T = "file_refs vs + R"
  have mok: "metas_ok vs R" and vok: "versions_ok vs VR" using assms(1) by (simp_all add: vs_ok_def)
  show fresh: "?a \<notin> dom (metas vs)" using mok by (auto simp: metas_ok_def)
  then have a: "?a \<notin># ?T" using mok by (simp add: metas_ok_def)
  have fr: "file_refs (add_meta vs f) = file_refs vs" by (simp add: file_refs_def add_meta_def)
  have "metas_ok (add_meta vs f) (add_mset ?a R)"
    unfolding metas_ok_def fr using mok a assms(2)
    by (auto simp: metas_ok_def add_meta_def not_in_iff less_SucI)
  moreover have "versions_ok (add_meta vs f) VR" using vok by (simp add: versions_ok_def add_meta_def)
  ultimately show "vs_ok (add_meta vs f) VR (add_mset ?a R)" by (simp add: vs_ok_def)
  show "\<forall>x \<in> dom (metas vs). info_at (add_meta vs f) x = info_at vs x" using fresh by (auto simp: add_meta_def)
  show "dom (metas (add_meta vs f)) = insert ?a (dom (metas vs))" by (auto simp: add_meta_def)
qed

lemma apply_addition_eq:
  "apply_addition (vs, b) (l, f) =
     (let f' = f\<lparr>fm_refs := 1, allowed_seeks := seeks_allowed f\<rparr>; vs' = add_meta vs f'; L = b_levels b ! l
      in (vs', b\<lparr>b_levels := (b_levels b)[l := L\<lparr>deleted_numbers := deleted_numbers L - {fm_number f},
            added_files := fileset_insert (\<lambda>x y. info_less (vs_user vs) (info_at vs' x) (info_at vs' y)) (next_meta vs) (added_files L)\<rparr>]\<rparr>))"
proof -
  have "seeks_allowed (f\<lparr>fm_refs := 1\<rparr>) = seeks_allowed f" by (simp add: seeks_allowed_def)
  then show ?thesis by (simp only: apply_addition_def add_meta_def Let_def BySmallestKey_info prod.case) simp
qed

context ikey_order
begin

lemma builder_rep_addition:
  assumes "vs_user vs = user" "vs_ok vs VR (R + builder_refs b)" "builder_rep vs b X D" "l < kNumLevels"
    and f: "info_valid (file_info f)" "fm_number f \<notin> num ` X l" and r: "apply_addition (vs, b) (l, f) = (vs', b')"
  shows "vs_ok vs' VR (R + builder_refs b')" "builder_rep vs' b' (X(l := insert (file_info f) (X l))) (D(l := D l - {fm_number f}))"
    "b_base b' = b_base b" "\<exists>m. vs' = add_meta vs m" "\<forall>x \<in> dom (metas vs). info_at vs' x = info_at vs x" "dom (metas vs) \<subseteq> dom (metas vs')"
proof -
  define f' where "f' = f\<lparr>fm_refs := 1, allowed_seeks := seeks_allowed f\<rparr>"
  have vs': "vs' = add_meta vs f'" and b'0: "b' = b\<lparr>b_levels := (b_levels b)[l := (b_levels b ! l)\<lparr>deleted_numbers := deleted_numbers (b_levels b ! l) - {fm_number f},
      added_files := fileset_insert (before (info_at vs')) (next_meta vs) (added_files (b_levels b ! l))\<rparr>]\<rparr>"
    using r assms(1) by (auto simp: apply_addition_eq Let_def f'_def)
  let ?a = "next_meta vs" and ?L = "b_levels b ! l"
  have L: "sorted_wrt (before (info_at vs)) (added_files ?L)" "set (added_files ?L) \<subseteq> dom (metas vs)"
    "info_at vs ` set (added_files ?L) = X l" "deleted_numbers ?L = D l" "\<forall>i \<in> X l. info_valid i" "l < length (b_levels b)"
    using assms(1,3,4) by (simp_all add: builder_rep_def Let_def)
  note m = add_meta_ok [OF assms(2), of f']
  have m: "vs_ok vs' VR (add_mset ?a (R + builder_refs b))" "?a \<notin> dom (metas vs)"
    "\<forall>x \<in> dom (metas vs). info_at vs' x = info_at vs x" "dom (metas vs') = insert ?a (dom (metas vs))"
    using add_meta_ok [OF assms(2), of f'] by (simp_all add: vs' f'_def)
  have ia: "info_at vs' ?a = file_info f" by (simp add: vs' add_meta_def f'_def file_info_def)
  have same: "info_at vs' ` set (added_files (b_levels b ! k)) = info_at vs ` set (added_files (b_levels b ! k))"
    "sorted_wrt (before (info_at vs')) (added_files (b_levels b ! k))" "set (added_files (b_levels b ! k)) \<subseteq> dom (metas vs')"
    if k: "k < kNumLevels" for k
  proof -
    have s: "set (added_files (b_levels b ! k)) \<subseteq> dom (metas vs)" "sorted_wrt (before (info_at vs)) (added_files (b_levels b ! k))"
      using assms(1,3) k by (simp_all add: builder_rep_def Let_def)
    show "info_at vs' ` set (added_files (b_levels b ! k)) = info_at vs ` set (added_files (b_levels b ! k))"
      using m(3) s(1) by (intro image_cong) auto
    show "sorted_wrt (before (info_at vs')) (added_files (b_levels b ! k))"
      by (rule sorted_wrt_mono_rel [OF _ s(2)]) (metis m(3) s(1) subsetD)
    show "set (added_files (b_levels b ! k)) \<subseteq> dom (metas vs')" using s(1) m(4) by blast
  qed
  let ?fs = "fileset_insert (before (info_at vs')) ?a (added_files ?L)"
  have X: "info_at vs' ` set (added_files ?L) = X l" using same(1) [OF assms(4)] L(3) by simp
  have "sorted_wrt (before (info_at vs')) ?fs \<and> mset ?fs = add_mset ?a (mset (added_files ?L))"
  proof (rule fileset_insert_sorted [OF same(2) [OF assms(4)]])
    show "\<forall>x \<in> insert ?a (set (added_files ?L)). info_valid (info_at vs' x)" using f(1) ia L(5) X by auto
    show "fst (info_at vs' ?a) \<notin> fst ` info_at vs' ` set (added_files ?L)" unfolding X ia using f(2) by (simp add: num_def file_info_def)
  qed
  then have fs: "sorted_wrt (before (info_at vs')) ?fs" "mset ?fs = add_mset ?a (mset (added_files ?L))" by blast+
  then have sfs: "set ?fs = insert ?a (set (added_files ?L))" using mset_eq_setD [of ?fs "?a # added_files ?L"] by simp
  have "builder_refs b' = add_mset ?a (builder_refs b)"
  proof -
    have "mset (concat ((map added_files (b_levels b))[l := ?fs])) + mset (added_files ?L) = builder_refs b + mset ?fs"
      using mset_concat_update [of l "map added_files (b_levels b)" ?fs] L(6) by (simp add: builder_refs_def)
    then show ?thesis using fs(2) by (simp add: b'0 builder_refs_def map_update)
  qed
  then show "vs_ok vs' VR (R + builder_refs b')" using m(1) by simp
  show "b_base b' = b_base b" "\<exists>m. vs' = add_meta vs m" "\<forall>x \<in> dom (metas vs). info_at vs' x = info_at vs x" "dom (metas vs) \<subseteq> dom (metas vs')"
    using m(3,4) vs' by (auto simp: b'0)
  have u: "vs_user vs' = user" using assms(1) by (simp add: vs' add_meta_def)
  show "builder_rep vs' b' (X(l := insert (file_info f) (X l))) (D(l := D l - {fm_number f}))"
    unfolding builder_rep_def Let_def u
  proof (intro conjI allI impI)
    show "length (b_levels b') = kNumLevels" using assms(3) by (simp add: b'0 builder_rep_def)
    fix k assume k: "k < kNumLevels"
    have K: "info_at vs ` set (added_files (b_levels b ! k)) = X k" "deleted_numbers (b_levels b ! k) = D k" "\<forall>i \<in> X k. info_valid i"
      using assms(3) k by (simp_all add: builder_rep_def Let_def)
    have at: "b_levels b' ! k = (if k = l then ?L\<lparr>deleted_numbers := deleted_numbers ?L - {fm_number f}, added_files := ?fs\<rparr> else b_levels b ! k)"
      using L(6) by (simp add: b'0 nth_list_update)
    show "sorted_wrt (before (info_at vs')) (added_files (b_levels b' ! k))" using fs(1) same(2) [OF k] by (simp add: at)
    show "set (added_files (b_levels b' ! k)) \<subseteq> dom (metas vs')" using sfs same(3) [OF k] same(3) [OF assms(4)] m(4) by (simp add: at)
    show "info_at vs' ` set (added_files (b_levels b' ! k)) = (X(l := insert (file_info f) (X l))) k"
      using sfs same(1) [OF k] K(1) X ia by (simp add: at)
    show "deleted_numbers (b_levels b' ! k) = (D(l := D l - {fm_number f})) k" using L(4) K(2) by (simp add: at)
    show "\<forall>i \<in> (X(l := insert (file_info f) (X l))) k. info_valid i" using K(3) f(1) by simp
  qed
qed

end

text \<open>Files whose numbers are new in their levels.\<close>

fun fresh_files :: "(nat \<Rightarrow> FileInfo set) \<Rightarrow> (nat \<times> FileMetaData) list \<Rightarrow> bool" where
  "fresh_files X [] = True"
| "fresh_files X ((l, f) # ps) \<longleftrightarrow> l < kNumLevels \<and> info_valid (file_info f) \<and> fm_number f \<notin> num ` X l \<and>
     fresh_files (X(l := insert (file_info f) (X l))) ps"

definition edit_fresh :: "(nat \<Rightarrow> FileInfo set) \<Rightarrow> VersionEdit \<Rightarrow> bool" where
  "edit_fresh X e \<longleftrightarrow> fresh_files X (new_files e) \<and> (\<forall>d \<in> set (deleted_files e). fst d < kNumLevels)"

lemma num_info [simp]: "num (file_info f) = fm_number f"
  by (simp add: num_def file_info_def)

lemma added_Cons:
  "{file_info g |g. (k, g) \<in> set ((l, f) # ps)} =
     (if k = l then insert (file_info f) {file_info g |g. (k, g) \<in> set ps} else {file_info g |g. (k, g) \<in> set ps})"
  by auto

lemma fresh_files_disjoint:
  "fresh_files X ps \<Longrightarrow> num ` X l \<inter> num ` {file_info f |f. (l, f) \<in> set ps} = {}"
proof (induction X ps rule: fresh_files.induct)
  case (2 X k f ps)
  then have IH: "num ` (X(k := insert (file_info f) (X k))) l \<inter> num ` {file_info f |f. (l, f) \<in> set ps} = {}" by (simp del: fun_upd_apply)
  have "num (file_info f) \<notin> num ` X k" using 2(2) by simp
  then show ?case using IH unfolding added_Cons by (auto split: if_splits)
qed simp

context ikey_order
begin

lemma builder_rep_additions:
  assumes "vs_user vs = user" "vs_ok vs VR (R + builder_refs b)" "builder_rep vs b X D" "fresh_files X ps"
    and "foldl apply_addition (vs, b) ps = (vs', b')"
  shows "vs_ok vs' VR (R + builder_refs b') \<and>
    builder_rep vs' b' (\<lambda>l. X l \<union> {file_info f |f. (l, f) \<in> set ps}) (\<lambda>l. D l - num ` {file_info f |f. (l, f) \<in> set ps}) \<and>
    b_base b' = b_base b \<and> (\<forall>x \<in> dom (metas vs). info_at vs' x = info_at vs x) \<and> dom (metas vs) \<subseteq> dom (metas vs') \<and>
    vs' = vs\<lparr>metas := metas vs', next_meta := next_meta vs'\<rparr>"
  using assms
proof (induction ps arbitrary: vs b X D)
  case (Cons p ps)
  obtain l f where p: "p = (l, f)" by fastforce
  obtain vs1 b1 where r1: "apply_addition (vs, b) (l, f) = (vs1, b1)" by fastforce
  have lf: "l < kNumLevels" "info_valid (file_info f)" "fm_number f \<notin> num ` X l" using Cons.prems(4) p by simp_all
  note a = builder_rep_addition [OF Cons.prems(1-3) lf r1]
  let ?X = "X(l := insert (file_info f) (X l))" and ?D = "D(l := D l - {fm_number f})"
  have u: "vs_user vs1 = user" and vs1: "vs1 = vs\<lparr>metas := metas vs1, next_meta := next_meta vs1\<rparr>"
    using a(4) Cons.prems(1) by (auto simp: add_meta_def)
  have "foldl apply_addition (vs1, b1) ps = (vs', b')" "fresh_files ?X ps" using Cons.prems(4,5) p r1 by simp_all
  note IH = Cons.IH [OF u a(1,2) this(2,1)]
  have X: "(\<lambda>k. ?X k \<union> {file_info f |f. (k, f) \<in> set ps}) = (\<lambda>k. X k \<union> {file_info f |f. (k, f) \<in> set (p # ps)})"
    unfolding p added_Cons by (auto simp: fun_eq_iff)
  have D: "(\<lambda>k. ?D k - num ` {file_info f |f. (k, f) \<in> set ps}) = (\<lambda>k. D k - num ` {file_info f |f. (k, f) \<in> set (p # ps)})"
    unfolding p added_Cons by (auto simp: fun_eq_iff)
  have "\<forall>x \<in> dom (metas vs). info_at vs' x = info_at vs x" using IH a(5,6) by (metis subsetD)
  moreover have "dom (metas vs) \<subseteq> dom (metas vs')" using IH a(6) by blast
  moreover have "vs' = vs\<lparr>metas := metas vs', next_meta := next_meta vs'\<rparr>"
  proof -
    have "vs' = vs1\<lparr>metas := metas vs', next_meta := next_meta vs'\<rparr>" using IH by blast
    also have "\<dots> = vs\<lparr>metas := metas vs', next_meta := next_meta vs'\<rparr>" by (subst vs1) simp
    finally show ?thesis .
  qed
  ultimately show ?case using IH a(3) unfolding X D by simp
qed simp

text \<open>Applying an edit to a builder.\<close>

lemma Builder_Apply_rep:
  assumes "vs_user vs = user" "vs_ok vs VR (R + builder_refs b)" "builder_rep vs b X D" "edit_fresh X e"
    and "Builder_Apply vs b e = (vs', b')"
  shows "vs_ok vs' VR (R + builder_refs b')"
    "builder_rep vs' b' (\<lambda>l. X l \<union> adds e l) (\<lambda>l. (D l \<union> dels e l) - num ` adds e l)"
    "b_base b' = b_base b" "\<forall>x \<in> dom (metas vs). info_at vs' x = info_at vs x" "dom (metas vs) \<subseteq> dom (metas vs')"
    "vs' = vs\<lparr>metas := metas vs', next_meta := next_meta vs', compact_pointer := compact_pointer vs'\<rparr>"
    "compact_pointer vs' = foldl (\<lambda>cp (level, key). cp[level := key]) (compact_pointer vs) (compact_pointers e)"
proof -
  define cp where "cp = foldl (\<lambda>cp (level, key). cp[level := key]) (compact_pointer vs) (compact_pointers e)"
  let ?vs = "vs\<lparr>compact_pointer := cp\<rparr>"
  have ok: "vs_ok ?vs VR (R + builder_refs b)" "builder_rep ?vs b X D" "vs_user ?vs = user"
    using assms(1-3) by (simp_all add: vs_ok_def versions_ok_def metas_ok_def file_refs_def builder_rep_def)
  have "\<forall>d \<in> set (deleted_files e). fst d < kNumLevels" "fresh_files X (new_files e)" using assms(4) by (simp_all add: edit_fresh_def)
  note d = builder_rep_deletions [OF ok(2) this(1)] and fr = this(2)
  have "vs_ok ?vs VR (R + builder_refs (foldl apply_deletion b (deleted_files e)))" using ok(1) d by simp
  moreover have "foldl apply_addition (?vs, foldl apply_deletion b (deleted_files e)) (new_files e) = (vs', b')"
    using assms(5) by (simp add: Builder_Apply_def cp_def)
  ultimately have a: "vs_ok vs' VR (R + builder_refs b') \<and>
    builder_rep vs' b' (\<lambda>l. X l \<union> adds e l) (\<lambda>l. (D l \<union> dels e l) - num ` adds e l) \<and>
    b_base b' = b_base b \<and> (\<forall>x \<in> dom (metas ?vs). info_at vs' x = info_at ?vs x) \<and> dom (metas ?vs) \<subseteq> dom (metas vs') \<and>
    vs' = ?vs\<lparr>metas := metas vs', next_meta := next_meta vs'\<rparr>"
    using builder_rep_additions [OF ok(3) _ conjunct1 [OF d] fr] d unfolding adds_def dels_def by simp
  then show "vs_ok vs' VR (R + builder_refs b')" "builder_rep vs' b' (\<lambda>l. X l \<union> adds e l) (\<lambda>l. (D l \<union> dels e l) - num ` adds e l)"
    "b_base b' = b_base b" "\<forall>x \<in> dom (metas vs). info_at vs' x = info_at vs x" "dom (metas vs) \<subseteq> dom (metas vs')" by simp_all
  obtain M N where "vs' = vs\<lparr>compact_pointer := cp, metas := M, next_meta := N\<rparr>" using a by blast
  then show "vs' = vs\<lparr>metas := metas vs', next_meta := next_meta vs', compact_pointer := compact_pointer vs'\<rparr>"
    "compact_pointer vs' = foldl (\<lambda>cp (level, key). cp[level := key]) (compact_pointer vs) (compact_pointers e)"
    by (simp_all add: cp_def)
qed

end

end
