(* ===== verification/Version_Apply.thy ===== *)
theory Version_Apply
  imports Version_Builder
begin

text \<open>The version that a builder saves, and the version that \<open>LogAndApply\<close> makes from an edit.\<close>

subsection \<open>Versions as sets of files\<close>

definition files_rep :: "VersionSet \<Rightarrow> nat list list \<Rightarrow> (nat \<Rightarrow> FileInfo set) \<Rightarrow> bool" where
  "files_rep vs files S \<longleftrightarrow> length files = kNumLevels \<and>
     (\<forall>l < kNumLevels. sorted_wrt (\<lambda>x y. info_less (vs_user vs) (info_at vs x) (info_at vs y)) (files ! l) \<and>
        set (files ! l) \<subseteq> dom (metas vs) \<and> info_at vs ` set (files ! l) = S l \<and> (\<forall>i \<in> S l. info_valid i))"

definition edit_step :: "(nat \<Rightarrow> FileInfo set) \<Rightarrow> VersionEdit \<Rightarrow> nat \<Rightarrow> FileInfo set" where
  "edit_step S e l = {i \<in> S l. num i \<notin> dels e l} \<union> adds e l"

lemma files_rep_keeps:
  assumes "files_rep vs files S" "vs_user vs' = vs_user vs" "\<forall>x \<in> set (concat files). x \<in> dom (metas vs') \<and> info_at vs' x = info_at vs x"
  shows "files_rep vs' files S"
  unfolding files_rep_def
proof (intro conjI allI impI)
  show "length files = kNumLevels" using assms(1) by (simp add: files_rep_def)
  fix l assume l: "l < kNumLevels"
  then have r: "sorted_wrt (\<lambda>x y. info_less (vs_user vs) (info_at vs x) (info_at vs y)) (files ! l)"
    "info_at vs ` set (files ! l) = S l" "\<forall>i \<in> S l. info_valid i" "l < length files"
    using assms(1) by (simp_all add: files_rep_def)
  have x: "\<forall>x \<in> set (files ! l). x \<in> dom (metas vs') \<and> info_at vs' x = info_at vs x"
    using assms(3) nth_mem [OF r(4)] by auto
  show "sorted_wrt (\<lambda>x y. info_less (vs_user vs') (info_at vs' x) (info_at vs' y)) (files ! l)"
    unfolding assms(2) by (rule sorted_wrt_mono_rel [OF _ r(1)]) (use x in simp)
  show "set (files ! l) \<subseteq> dom (metas vs')" using x by blast
  show "info_at vs' ` set (files ! l) = S l" unfolding r(2) [symmetric] using x by (intro image_cong) simp_all
  show "\<forall>i \<in> S l. info_valid i" by (rule r(3))
qed

text \<open>The levels are determined by the sets of their files.\<close>

lemma files_rep_unique:
  assumes "ikey_order user" "vs_user vs = user" "vs_user vs' = user" "files_rep vs files S" "files_rep vs' files' S"
  shows "map (map (info_at vs)) files = map (map (info_at vs')) files'"
proof (rule nth_equalityI)
  show "length (map (map (info_at vs)) files) = length (map (map (info_at vs')) files')" using assms(4,5) by (simp add: files_rep_def)
  fix l assume "l < length (map (map (info_at vs)) files)"
  then have l: "l < kNumLevels" "l < length files" "l < length files'" using assms(4,5) by (simp_all add: files_rep_def)
  have "map (info_at vs) (files ! l) = map (info_at vs') (files' ! l)"
  proof (rule ikey_order.sorted_infos_unique [OF assms(1)])
    show "sorted_wrt (info_less user) (map (info_at vs) (files ! l))" "sorted_wrt (info_less user) (map (info_at vs') (files' ! l))"
      using assms(2-5) l by (simp_all add: files_rep_def sorted_wrt_map)
    have "info_at vs ` set (files ! l) = S l" "info_at vs' ` set (files' ! l) = S l" using assms(4,5) l by (simp_all add: files_rep_def)
    then show "set (map (info_at vs) (files ! l)) = set (map (info_at vs') (files' ! l))" "\<forall>i \<in> set (map (info_at vs) (files ! l)). info_valid i"
      using assms(4) l by (simp_all add: files_rep_def)
  qed
  then show "map (map (info_at vs)) files ! l = map (map (info_at vs')) files' ! l" using l by simp
qed

context ikey_order
begin

lemma level_files_rep:
  assumes "vs_user vs = user" "builder_rep vs b X D" "files_rep vs (v_files (the_version vs (b_base b))) S"
    and "l < kNumLevels" "num ` S l \<inter> num ` X l = {}"
  shows "sorted_wrt (before (info_at vs)) (level_files vs b l)" "set (level_files vs b l) \<subseteq> dom (metas vs)"
    "info_at vs ` set (level_files vs b l) = {i \<in> S l \<union> X l. num i \<notin> D l}"
proof -
  let ?base = "v_files (the_version vs (b_base b)) ! l" and ?added = "added_files (b_levels b ! l)"
  let ?m = "merge_files (before (info_at vs)) ?base ?added"
  have B: "sorted_wrt (before (info_at vs)) ?base" "set ?base \<subseteq> dom (metas vs)" "info_at vs ` set ?base = S l" "\<forall>i \<in> S l. info_valid i"
    using assms(1,3,4) by (simp_all add: files_rep_def)
  have A: "sorted_wrt (before (info_at vs)) ?added" "set ?added \<subseteq> dom (metas vs)" "info_at vs ` set ?added = X l" "\<forall>i \<in> X l. info_valid i"
    "deleted_numbers (b_levels b ! l) = D l"
    using assms(1,2,4) by (simp_all add: builder_rep_def Let_def)
  have "sorted_wrt (before (info_at vs)) ?m \<and> mset ?m = mset ?base + mset ?added"
  proof (rule merge_files_sorted [OF B(1) A(1)])
    show "\<forall>x \<in> set ?base \<union> set ?added. info_valid (info_at vs x)" using A(3,4) B(3,4) by blast
    show "fst ` info_at vs ` set ?base \<inter> fst ` info_at vs ` set ?added = {}" unfolding A(3) B(3) using assms(5) by (simp add: num_def)
  qed
  then have m: "sorted_wrt (before (info_at vs)) ?m" "set ?m = set ?base \<union> set ?added"
    using mset_eq_setD [of ?m "?base @ ?added"] by simp_all
  have f: "level_files vs b l = filter (\<lambda>f. fm_number (the_meta vs f) \<notin> D l) ?m"
    using assms(1) A(5) by (simp add: level_files_def BySmallestKey_info Let_def)
  show "sorted_wrt (before (info_at vs)) (level_files vs b l)" unfolding f using m(1) by (rule sorted_wrt_filter)
  show "set (level_files vs b l) \<subseteq> dom (metas vs)" unfolding f using m(2) A(2) B(2) by auto
  have "info_at vs ` set ?m = S l \<union> X l" unfolding m(2) image_Un A(3) B(3) ..
  moreover have "info_at vs ` {x \<in> set ?m. fm_number (the_meta vs x) \<notin> D l} = {i \<in> info_at vs ` set ?m. num i \<notin> D l}" by auto
  ultimately show "info_at vs ` set (level_files vs b l) = {i \<in> S l \<union> X l. num i \<notin> D l}" unfolding f by simp
qed

lemma SaveTo_rep:
  assumes "vs_user vs = user" "vs_ok vs VR R" "builder_rep vs b X D" "files_rep vs (v_files (the_version vs (b_base b))) S"
    and "\<forall>l < kNumLevels. num ` S l \<inter> num ` X l = {}" "Builder_SaveTo vs b v0 = (vs', v)"
  shows "vs_ok vs' VR (R + mset (concat (v_files v)))" "files_rep vs' (v_files v) (\<lambda>l. {i \<in> S l \<union> X l. num i \<notin> D l})"
    "v = v0\<lparr>v_files := v_files v\<rparr>" "versions vs' = versions vs" "others vs' = others vs" "current vs' = current vs"
    "dom (metas vs') = dom (metas vs)" "\<forall>x \<in> dom (metas vs). info_at vs' x = info_at vs x"
proof -
  let ?files = "map (level_files vs b) [0..<kNumLevels]"
  have eq: "vs' = foldl file_ref vs (concat ?files)" "v = v0\<lparr>v_files := ?files\<rparr>" using assms(6) by (auto simp: Builder_SaveTo_def Let_def)
  note L = level_files_rep [OF assms(1,3,4)]
  have sub: "set (concat ?files) \<subseteq> dom (metas vs)" using L(2) assms(5) by (auto simp only: set_concat set_map set_upt) (use assms(5) in auto)
  have mok: "metas_ok vs R" and vok: "versions_ok vs VR" using assms(2) by (simp_all add: vs_ok_def)
  note F = foldl_ref_ok [OF mok sub]
  show o: "versions vs' = versions vs" "others vs' = others vs" "current vs' = current vs" by (simp_all add: eq(1))
  show d: "dom (metas vs') = dom (metas vs)" using F by (simp add: eq(1))
  show k: "\<forall>x \<in> dom (metas vs). info_at vs' x = info_at vs x"
    using F d unfolding eq(1) keeps_files_def by simp
  show "v = v0\<lparr>v_files := v_files v\<rparr>" by (simp add: eq(2))
  have "version_list vs' = version_list vs" by (simp add: eq(1))
  then have "versions_ok vs' VR" using vok o by (simp add: versions_ok_def others_def)
  then show "vs_ok vs' VR (R + mset (concat (v_files v)))" using F unfolding vs_ok_def by (simp add: eq)
  have "files_rep vs ?files (\<lambda>l. {i \<in> S l \<union> X l. num i \<notin> D l})"
    unfolding files_rep_def assms(1)
  proof (intro conjI allI impI)
    fix l assume l: "l < kNumLevels"
    then have dis: "num ` S l \<inter> num ` X l = {}" using assms(5) by simp
    show "sorted_wrt (before (info_at vs)) (?files ! l)" "set (?files ! l) \<subseteq> dom (metas vs)"
      "info_at vs ` set (?files ! l) = {i \<in> S l \<union> X l. num i \<notin> D l}" using L [OF l dis] l by simp_all
    show "\<forall>i \<in> {i \<in> S l \<union> X l. num i \<notin> D l}. info_valid i" using assms(3,4) l by (auto simp: builder_rep_def files_rep_def Let_def)
  qed simp
  moreover have "vs_user vs' = vs_user vs" using o(2) by (simp add: others_def)
  moreover have "\<forall>x \<in> set (concat ?files). x \<in> dom (metas vs') \<and> info_at vs' x = info_at vs x" using d k sub by blast
  ultimately have "files_rep vs' ?files (\<lambda>l. {i \<in> S l \<union> X l. num i \<notin> D l})" by (rule files_rep_keeps)
  then show "files_rep vs' (v_files v) (\<lambda>l. {i \<in> S l \<union> X l. num i \<notin> D l})" by (simp add: eq(2))
qed

end

text \<open>A builder that has gone leaves the files that versions refer to.\<close>

lemma delete_builder_ok:
  assumes "vs_ok vs VR (R + builder_refs b)" "b_base b \<in># VR"
  shows "vs_ok (delete_builder vs b) (VR - {#b_base b#}) R" "keeps vs (delete_builder vs b)"
    "others (delete_builder vs b) = others vs" "current (delete_builder vs b) = current vs"
    "dom (metas (delete_builder vs b)) \<subseteq> dom (metas vs)"
proof -
  let ?fs = "concat (map added_files (b_levels b))"
  let ?vs = "foldl file_unref vs ?fs"
  have mok: "metas_ok vs (R + builder_refs b)" and vok: "versions_ok vs VR" using assms(1) by (simp_all add: vs_ok_def)
  have "mset ?fs \<subseteq># R + builder_refs b" by (simp add: builder_refs_def)
  note F = foldl_unref_ok [OF mok this]
  have nv: "next_version ?vs = next_version vs" using foldl_unref_fields(4) [of vs ?fs] by (simp add: others_def)
  have "metas_ok ?vs R" using F by (simp add: builder_refs_def)
  moreover have "versions_ok ?vs VR" using vok nv by (simp add: versions_ok_def)
  ultimately have "vs_ok ?vs VR R" by (simp add: vs_ok_def)
  note U = Version_Unref_ok [OF this assms(2)]
  have "keeps_files vs (Version_Unref ?vs (b_base b))"
    using F U(2,5) keeps_files_trans unfolding keeps_def by blast
  then show "keeps vs (delete_builder vs b)" using U(2) by (simp add: keeps_def delete_builder_def)
  show "vs_ok (delete_builder vs b) (VR - {#b_base b#}) R" "others (delete_builder vs b) = others vs"
    "current (delete_builder vs b) = current vs" using U(1,3,4) by (simp_all add: delete_builder_def)
  show "dom (metas (delete_builder vs b)) \<subseteq> dom (metas vs)" using U(5) F unfolding delete_builder_def by blast
qed

lemma keeps_trans:
  assumes "keeps vs1 vs2" "keeps vs2 vs3" "dom (metas vs3) \<subseteq> dom (metas vs2)"
    "dom (versions vs1) \<inter> dom (versions vs3) \<subseteq> dom (versions vs2)"
  shows "keeps vs1 vs3"
  using assms keeps_files_trans unfolding keeps_def by (metis IntI subsetD)

lemma vs_ok_files:
  assumes "vs_ok vs VR R" "v \<in># VR"
  shows "set (concat (v_files (the_version vs v))) \<subseteq> dom (metas vs)" "v \<in> dom (versions vs)"
proof -
  show v: "v \<in> dom (versions vs)" using assms by (simp add: vs_ok_def versions_ok_def)
  have "finite (dom (versions vs))" using assms(1) by (simp add: vs_ok_def versions_ok_def)
  then have "mset (concat (v_files (the_version vs v))) \<subseteq># file_refs vs" using file_refs_remove [OF _ v] by simp
  then have "set_mset (mset (concat (v_files (the_version vs v)))) \<subseteq> set_mset (file_refs vs)" by (rule set_mset_mono)
  then show "set (concat (v_files (the_version vs v))) \<subseteq> dom (metas vs)"
    using assms(1) by (auto simp: vs_ok_def metas_ok_def)
qed

text \<open>The files of a version that stays in the store.\<close>

lemma files_rep_version:
  assumes "files_rep vs (v_files (the_version vs v)) S" "vs_ok vs VR R" "v \<in># VR" "keeps vs vs'" "vs_ok vs' VR' R'" "v \<in># VR'"
    "vs_user vs' = vs_user vs"
  shows "files_rep vs' (v_files (the_version vs' v)) S"
proof -
  have f: "v_files (the_version vs' v) = v_files (the_version vs v)"
    using assms(4) vs_ok_files(2) [OF assms(2,3)] vs_ok_files(2) [OF assms(5,6)] by (simp add: keeps_def)
  have "\<forall>x \<in> set (concat (v_files (the_version vs v))). x \<in> dom (metas vs') \<and> info_at vs' x = info_at vs x"
    using vs_ok_files(1) [OF assms(2,3)] vs_ok_files(1) [OF assms(5,6)] assms(4) unfolding f keeps_def keeps_files_def by blast
  then show ?thesis using files_rep_keeps [OF assms(1,7)] unfolding f by blast
qed

lemma fresh_files_mono:
  "fresh_files X ps \<Longrightarrow> (\<And>l. num ` Y l \<subseteq> num ` X l) \<Longrightarrow> fresh_files Y ps"
proof (induction X ps arbitrary: Y rule: fresh_files.induct)
  case (2 X l f ps)
  have "fresh_files (Y(l := insert (file_info f) (Y l))) ps"
  proof (rule 2(1))
    show "fresh_files (X(l := insert (file_info f) (X l))) ps" using 2(2) by (simp del: fun_upd_apply)
    show "num ` (Y(l := insert (file_info f) (Y l))) k \<subseteq> num ` (X(l := insert (file_info f) (X l))) k" for k
      using 2(3) [of k] by auto
  qed
  moreover have "fm_number f \<notin> num ` Y l" using 2(2) 2(3) [of l] by auto
  ultimately show ?case using 2(2) by simp
qed simp

text \<open>The version that an edit makes of the current one, as \<open>LogAndApply\<close> computes it.\<close>

definition build_version :: "VersionSet \<Rightarrow> VersionEdit \<Rightarrow> VersionSet \<times> Version" where
  "build_version vs e =
     (let (b, vs) = Builder_new vs (the (current vs));
          (vs, b) = Builder_Apply vs b e;
          (vs, v) = Builder_SaveTo vs b Version_new;
          vs = delete_builder vs b
      in (vs, Finalize vs v))"

lemma Finalize_fields [simp]: "v_files (Finalize vs v) = v_files v" "v_refs (Finalize vs v) = v_refs v"
  by (simp_all add: Finalize_def split: prod.split)

context ikey_order
begin

lemma build_version_rep:
  assumes u: "vs_user vs = user" and ok: "vs_ok vs VR {#}" and c: "current vs = Some c" "c \<in># VR"
    and rep: "files_rep vs (v_files (the_version vs c)) S" and fresh: "edit_fresh S e" and b: "build_version vs e = (vs', v)"
  shows "vs_ok vs' VR (mset (concat (v_files v)))" "files_rep vs' (v_files v) (edit_step S e)" "keeps vs vs'"
    "current vs' = Some c" "v_refs v = 0" "length (v_files v) = kNumLevels"
    "others vs' = others (vs\<lparr>next_meta := next_meta vs', compact_pointer := foldl (\<lambda>cp (level, key). cp[level := key]) (compact_pointer vs) (compact_pointers e)\<rparr>)"
proof -
  let ?b0 = "fst (Builder_new vs c)" and ?vs0 = "Version_Ref vs c"
  obtain vs1 b1 where a1: "Builder_Apply ?vs0 ?b0 e = (vs1, b1)" by fastforce
  obtain vs2 w where a2: "Builder_SaveTo vs1 b1 Version_new = (vs2, w)" by fastforce
  have "(delete_builder vs2 b1, Finalize (delete_builder vs2 b1) w) = (vs', v)"
    using b c(1) a1 a2 by (auto simp: build_version_def Builder_new_def Let_def)
  then have eq: "vs' = delete_builder vs2 b1" "v = Finalize vs' w" by auto
  have cd: "c \<in> dom (versions vs)" by (rule vs_ok_files(2) [OF ok c(2)])
  note R = Version_Ref_ok [OF ok cd]
  have b0: "builder_rep ?vs0 ?b0 (\<lambda>_. {}) (\<lambda>_. {})" "builder_refs ?b0 = {#}" "b_base ?b0 = c"
    by (simp_all add: Builder_new_def builder_rep_def builder_refs_def)
  have u0: "vs_user ?vs0 = user" using R(4) u by (simp add: others_def)
  have f0: "edit_fresh (\<lambda>_. {}) e" using fresh fresh_files_mono [of S "new_files e" "\<lambda>_. {}"] by (simp add: edit_fresh_def)
  have ok0: "vs_ok ?vs0 (add_mset c VR) ({#} + builder_refs ?b0)" using R(1) b0(2) by simp
  note A = Builder_Apply_rep [OF u0 ok0 b0(1) f0 a1]
  have o1: "versions vs1 = versions ?vs0" "vs_user vs1 = user" "current vs1 = Some c"
    using u0 R(5) c(1) by (subst A(6), simp)+
  have rep1: "files_rep vs1 (v_files (the_version vs1 (b_base b1))) S"
  proof -
    have f: "v_files (the_version vs1 c) = v_files (the_version vs c)"
      using R(2) o1(1) cd vs_ok_files(2) [OF ok0] by (simp add: keeps_def)
    have "\<forall>x \<in> set (concat (v_files (the_version vs c))). x \<in> dom (metas vs1) \<and> info_at vs1 x = info_at vs x"
      using vs_ok_files(1) [OF ok c(2)] A(4,5) R(3) by (metis subsetD)
    then show ?thesis using files_rep_keeps [OF rep, of vs1] A(3) b0(3) o1(2) u f by simp
  qed
  have dis: "\<forall>l < kNumLevels. num ` S l \<inter> num ` ({} \<union> adds e l) = {}"
    using fresh fresh_files_disjoint by (simp add: edit_fresh_def adds_def)
  note V = SaveTo_rep [OF o1(2) A(1,2) rep1 dis a2]
  have ok2: "vs_ok vs2 (add_mset c VR) (mset (concat (v_files w)) + builder_refs b1)"
    using V(1) by (simp add: add.commute)
  have "b_base b1 \<in># add_mset c VR" using A(3) b0(3) by simp
  note D = delete_builder_ok [OF ok2 this]
  show ok': "vs_ok vs' VR (mset (concat (v_files v)))" using D(1) A(3) b0(3) by (simp add: eq)
  have k2: "keeps vs vs2"
    using R(2) o1(1) V(4) A(4,5) V(7,8) R(3) unfolding keeps_def keeps_files_def by (metis subsetD)
  have "dom (versions vs') \<subseteq> dom (versions vs2)"
    using ok' ok2 by (auto simp: vs_ok_def versions_ok_def)
  then show kk: "keeps vs vs'" using keeps_trans [OF k2, of vs'] D(2,5) by (auto simp: eq)
  show "current vs' = Some c" using D(4) V(6) o1(3) by (simp add: eq)
  have "v_refs w = 0" using V(3) by (metis Version.select_convs(1) Version.surjective Version.update_convs(2) Version_new_def)
  then show "v_refs v = 0" by (simp add: eq(2))
  have o2: "others vs2 = others vs1" by (rule V(5))
  have "vs_user vs' = vs_user vs2" using D(3) by (simp add: eq others_def)
  moreover have "\<forall>x \<in> set (concat (v_files w)). x \<in> dom (metas vs') \<and> info_at vs' x = info_at vs2 x"
  proof
    fix x assume "x \<in> set (concat (v_files w))"
    then have "x \<in> dom (metas vs')" using ok' by (auto simp: vs_ok_def metas_ok_def eq(2))
    then show "x \<in> dom (metas vs') \<and> info_at vs' x = info_at vs2 x"
      using D(2,5) by (auto simp: eq(1) keeps_def keeps_files_def)
  qed
  ultimately have "files_rep vs' (v_files w) (\<lambda>l. {i \<in> S l \<union> ({} \<union> adds e l). num i \<notin> ({} \<union> dels e l) - num ` adds e l})"
    using files_rep_keeps [OF V(2)] by simp
  moreover have "{i \<in> S l \<union> ({} \<union> adds e l). num i \<notin> ({} \<union> dels e l) - num ` adds e l} = edit_step S e l" for l
    using fresh fresh_files_disjoint [of S "new_files e" l] by (auto simp: edit_step_def edit_fresh_def adds_def)
  ultimately show F: "files_rep vs' (v_files v) (edit_step S e)" by (simp add: eq(2))
  then show "length (v_files v) = kNumLevels" by (simp add: files_rep_def)
  have "others vs1 = others (?vs0\<lparr>next_meta := next_meta vs1, compact_pointer := compact_pointer vs1\<rparr>)"
    by (subst A(6)) (simp add: others_def)
  moreover have "compact_pointer ?vs0 = compact_pointer vs" using R(4) by (simp add: others_def)
  ultimately show "others vs' = others (vs\<lparr>next_meta := next_meta vs', compact_pointer := foldl (\<lambda>cp (level, key). cp[level := key]) (compact_pointer vs) (compact_pointers e)\<rparr>)"
    using D(3) o2 A(7) R(4) by (simp add: eq(1) others_def)
qed

end

subsection \<open>Installing a version\<close>

text \<open>The edit that is logged.\<close>

definition filled_edit :: "VersionSet \<Rightarrow> VersionEdit \<Rightarrow> VersionEdit" where
  "filled_edit vs edit =
     (let edit = (if has_log_number edit then edit else SetLogNumber (vs_log_number vs) edit);
          edit = (if has_prev_log_number edit then edit else SetPrevLogNumber (vs_prev_log_number vs) edit)
      in SetLastSequence (vs_last_sequence vs) (SetNextFile (vs_next_file_number vs) edit))"

lemma filled_edit_files [simp]:
  "new_files (filled_edit vs e) = new_files e" "deleted_files (filled_edit vs e) = deleted_files e"
  "compact_pointers (filled_edit vs e) = compact_pointers e" "edit_fresh S (filled_edit vs e) = edit_fresh S e"
  "edit_step S (filled_edit vs e) = edit_step S e"
  by (simp_all add: filled_edit_def Let_def edit_fresh_def edit_step_def dels_def adds_def SetLogNumber_def SetPrevLogNumber_def
      SetLastSequence_def SetNextFile_def fun_eq_iff)

text \<open>Writing to the descriptor log changes nothing but its file.\<close>

definition log_step :: "'e EnvOps \<Rightarrow> VersionSet \<Rightarrow> 'e \<Rightarrow> VersionEdit \<Rightarrow> Status \<times> VersionSet \<times> 'e" where
  "log_step ops vs env edit =
     (let fresh = (descriptor vs = None);
          (s, vs, env) = (if fresh then new_descriptor ops vs env else (OK, vs, env));
          (s, vs, env) = (if ok s then log_edit ops vs env edit else (s, vs, env));
          (s, env) = (if ok s \<and> fresh then SetCurrentFile ops env (vs_dbname vs) (manifest_file_number vs) else (s, env))
      in (s, vs, env))"

lemma new_descriptor_frame: "new_descriptor ops vs env = (s, vs', env') \<Longrightarrow> vs' = vs\<lparr>descriptor := descriptor vs'\<rparr>"
  by (auto simp: new_descriptor_def Let_def split: prod.splits option.splits if_splits)

lemma log_edit_frame: "log_edit ops vs env edit = (s, vs', env') \<Longrightarrow> vs' = vs\<lparr>descriptor := descriptor vs'\<rparr>"
  by (auto simp: log_edit_def Let_def split: prod.splits)

lemma log_step_frame:
  assumes "log_step ops vs env edit = (s, vs', env')"
  shows "vs' = vs\<lparr>descriptor := descriptor vs'\<rparr>"
proof -
  obtain s1 vs1 env1 where r1: "(if descriptor vs = None then new_descriptor ops vs env else (OK, vs, env)) = (s1, vs1, env1)"
    by (metis prod_cases3)
  obtain s2 vs2 env2 where r2: "(if ok s1 then log_edit ops vs1 env1 edit else (s1, vs1, env1)) = (s2, vs2, env2)"
    by (metis prod_cases3)
  have "vs1 = vs\<lparr>descriptor := descriptor vs1\<rparr>" using r1 new_descriptor_frame by (cases "descriptor vs = None") auto
  moreover have "vs2 = vs1\<lparr>descriptor := descriptor vs2\<rparr>" using r2 log_edit_frame by (cases "ok s1") auto
  moreover have "vs' = vs2" using assms r1 r2 by (auto simp: log_step_def Let_def split: prod.splits if_splits)
  ultimately show ?thesis by (metis VersionSet.surjective VersionSet.update_convs(8))
qed

lemma LogAndApply_eq:
  "LogAndApply ops vs env e =
     (let e = filled_edit vs e; (vs, v) = build_version vs e; fresh = (descriptor vs = None);
          manifest = DescriptorFileName (vs_dbname vs) (manifest_file_number vs);
          (s, vs, env) = log_step ops vs env e
      in if ok s then
           (s, (AppendVersion vs v)\<lparr>vs_log_number := log_number e, vs_prev_log_number := prev_log_number e\<rparr>, env, e)
         else
           (let vs = foldl file_unref vs (concat (v_files v))
            in if fresh then
                 (let env = (case descriptor vs of None \<Rightarrow> env | Some d \<Rightarrow> env_delete_file ops env (fst d))
                  in (s, vs\<lparr>descriptor := None\<rparr>, snd (env_DeleteFile ops env manifest), e))
               else (s, vs, env, e)))"
proof -
  define e1 where "e1 = filled_edit vs e"
  obtain b vs1 where r1: "Builder_new vs (the (current vs)) = (b, vs1)" by fastforce
  obtain vs2 b2 where r2: "Builder_Apply vs1 b e1 = (vs2, b2)" by fastforce
  obtain vs3 v where r3: "Builder_SaveTo vs2 b2 Version_new = (vs3, v)" by fastforce
  define vs4 where "vs4 = delete_builder vs3 b2"
  have b: "build_version vs e1 = (vs4, Finalize vs4 v)" by (simp add: build_version_def r1 r2 r3 vs4_def Let_def)
  obtain s5 vs5 env5 where r5: "(if descriptor vs4 = None then new_descriptor ops vs4 env else (OK, vs4, env)) = (s5, vs5, env5)"
    by (metis prod_cases3)
  obtain s6 vs6 env6 where r6: "(if ok s5 then log_edit ops vs5 env5 e1 else (s5, vs5, env5)) = (s6, vs6, env6)" by (metis prod_cases3)
  obtain s7 env7 where r7: "(if ok s6 \<and> descriptor vs4 = None then SetCurrentFile ops env6 (vs_dbname vs6) (manifest_file_number vs6)
      else (s6, env6)) = (s7, env7)" by fastforce
  have l: "log_step ops vs4 env e1 = (s7, vs6, env7)" unfolding log_step_def Let_def r5 prod.case r6 r7 ..
  show ?thesis
    unfolding LogAndApply_def Let_def filled_edit_def [unfolded Let_def, symmetric] e1_def [symmetric] r1 r2 r3 b l prod.case vs4_def [symmetric] r5 r6 r7 ..
qed

text \<open>Fields that reference counts do not depend on.\<close>

lemma vs_ok_fields [simp]:
  "vs_ok (vs\<lparr>descriptor := d\<rparr>) VR R = vs_ok vs VR R" "vs_ok (vs\<lparr>vs_log_number := n\<rparr>) VR R = vs_ok vs VR R"
  "vs_ok (vs\<lparr>vs_prev_log_number := n\<rparr>) VR R = vs_ok vs VR R"
  by (simp_all add: vs_ok_def versions_ok_def metas_ok_def file_refs_def)

lemma files_rep_fields [simp]:
  "files_rep (vs\<lparr>descriptor := d\<rparr>) files S = files_rep vs files S" "files_rep (vs\<lparr>vs_log_number := n\<rparr>) files S = files_rep vs files S"
  "files_rep (vs\<lparr>vs_prev_log_number := n\<rparr>) files S = files_rep vs files S"
  by (simp_all add: files_rep_def)

lemma number_fields [simp]:
  "vs_ok (vs\<lparr>vs_next_file_number := n\<rparr>) VR R = vs_ok vs VR R" "vs_ok (vs\<lparr>manifest_file_number := n\<rparr>) VR R = vs_ok vs VR R"
  "vs_ok (vs\<lparr>vs_last_sequence := q\<rparr>) VR R = vs_ok vs VR R"
  "files_rep (vs\<lparr>vs_next_file_number := n\<rparr>) files S = files_rep vs files S"
  "files_rep (vs\<lparr>manifest_file_number := n\<rparr>) files S = files_rep vs files S"
  "files_rep (vs\<lparr>vs_last_sequence := q\<rparr>) files S = files_rep vs files S"
  "builder_rep (vs\<lparr>vs_next_file_number := n\<rparr>) b X D = builder_rep vs b X D"
  by (simp_all add: vs_ok_def versions_ok_def metas_ok_def file_refs_def files_rep_def builder_rep_def)

lemma keeps_fields [simp]:
  "keeps vs (vs'\<lparr>descriptor := d\<rparr>) = keeps vs vs'" "keeps vs (vs'\<lparr>vs_log_number := n\<rparr>) = keeps vs vs'"
  "keeps vs (vs'\<lparr>vs_prev_log_number := n\<rparr>) = keeps vs vs'"
  by (simp_all add: keeps_def keeps_files_def)

text \<open>A new version set has one version, without files.\<close>

lemma VersionSet_new_ok:
  "vs_ok (VersionSet_new dbname user) {#0#} {#}" "current (VersionSet_new dbname user) = Some 0"
  "files_rep (VersionSet_new dbname user) (v_files (the_version (VersionSet_new dbname user) 0)) (\<lambda>_. {})"
  "vs_user (VersionSet_new dbname user) = user"
  by (simp_all add: VersionSet_new_def AppendVersion_def Version_new_def Version_Ref_def vs_ok_def versions_ok_def metas_ok_def file_refs_def
      files_rep_def Let_def)

lemma LogAndApply_result:
  assumes ord: "ikey_order (vs_user vs)" and okv: "vs_ok vs VR {#}" and c: "current vs = Some c" "c \<in># VR"
    and rep: "files_rep vs (v_files (the_version vs c)) S" and fresh: "edit_fresh S e"
    and r: "LogAndApply ops vs env e = (s, vs', env', e')"
  shows "ok s \<Longrightarrow> vs_ok vs' (add_mset (next_version vs) (VR - {#c#})) {#} \<and> current vs' = Some (next_version vs) \<and>
      files_rep vs' (v_files (the_version vs' (next_version vs))) (edit_step S e)"
    "\<not> ok s \<Longrightarrow> vs_ok vs' VR {#} \<and> current vs' = Some c" "keeps vs vs'" "vs_user vs' = vs_user vs"
proof -
  define e1 where "e1 = filled_edit vs e"
  obtain vs1 v where b: "build_version vs e1 = (vs1, v)" by fastforce
  obtain s2 vs2 env2 where l: "log_step ops vs1 env e1 = (s2, vs2, env2)" by (metis prod_cases3)
  have fr: "edit_fresh S e1" using fresh by (simp add: e1_def)
  note B = ikey_order.build_version_rep [OF ord refl okv c rep fr b]
  obtain d where vs2: "vs2 = vs1\<lparr>descriptor := d\<rparr>" using log_step_frame [OF l] by blast
  have ok2: "vs_ok vs2 VR ({#} + mset (concat (v_files v)))" and rep2: "files_rep vs2 (v_files v) (edit_step S e)" and k2: "keeps vs vs2"
    using B(1-3) by (simp_all add: vs2 e1_def)
  have c2: "current vs2 = Some c" and nv: "next_version vs2 = next_version vs" and u: "vs_user vs2 = vs_user vs"
    using B(4,7) by (simp_all add: vs2 others_def)
  have res: "(if ok s2 then (s2, (AppendVersion vs2 v)\<lparr>vs_log_number := log_number e1, vs_prev_log_number := prev_log_number e1\<rparr>)
      else (s2, let vs3 = foldl file_unref vs2 (concat (v_files v)) in if descriptor vs1 = None then vs3\<lparr>descriptor := None\<rparr> else vs3)) = (s, vs')"
    using r by (auto simp: LogAndApply_eq e1_def [symmetric] b l Let_def split: if_splits)
  have "(ok s \<longrightarrow> vs_ok vs' (add_mset (next_version vs) (VR - {#c#})) {#} \<and> current vs' = Some (next_version vs) \<and>
      files_rep vs' (v_files (the_version vs' (next_version vs))) (edit_step S e)) \<and>
    (\<not> ok s \<longrightarrow> vs_ok vs' VR {#} \<and> current vs' = Some c) \<and> keeps vs vs' \<and> vs_user vs' = vs_user vs"
  proof (cases "ok s2")
    case True
    then have s: "s = s2" "vs' = (AppendVersion vs2 v)\<lparr>vs_log_number := log_number e1, vs_prev_log_number := prev_log_number e1\<rparr>"
      using res by auto
    note A = AppendVersion_ok [OF ok2 B(5,6) c2 c(2)]
    let ?vs = "AppendVersion vs2 v"
    have "\<forall>x \<in> set (concat (v_files v)). x \<in> dom (metas ?vs) \<and> info_at ?vs x = info_at vs2 x"
    proof
      fix x assume x: "x \<in> set (concat (v_files v))"
      have "x \<in> dom (metas ?vs)" using vs_ok_files(1) [OF A(1), of "next_version vs2"] x A(4) by auto
      then show "x \<in> dom (metas ?vs) \<and> info_at ?vs x = info_at vs2 x" using A(2,6) by (auto simp: keeps_def keeps_files_def)
    qed
    moreover have "vs_user ?vs = vs_user vs2" using A(5) by (simp add: others_def)
    ultimately have "files_rep ?vs (v_files v) (edit_step S e)" using files_rep_keeps [OF rep2] by blast
    moreover have "keeps vs ?vs"
      by (rule keeps_trans [OF k2 A(2,6)]) (use okv ok2 in \<open>auto simp: vs_ok_def versions_ok_def\<close>)
    ultimately show ?thesis using A(1,3,4) True u \<open>vs_user ?vs = vs_user vs2\<close> by (simp add: s nv)
  next
    case False
    let ?vs = "foldl file_unref vs2 (concat (v_files v))"
    have s: "s = s2" "vs' = ?vs\<lparr>descriptor := None\<rparr> \<or> vs' = ?vs" using res False by (auto simp: Let_def split: if_splits)
    have mok: "metas_ok vs2 (mset (concat (v_files v)))" and vok: "versions_ok vs2 VR" using ok2 by (simp_all add: vs_ok_def)
    note F = foldl_unref_ok [OF mok subset_mset.order_refl]
    have o: "others ?vs = others vs2" by simp
    have "vs_ok ?vs VR {#}" using F vok o by (simp add: vs_ok_def versions_ok_def others_def)
    moreover have "keeps vs ?vs"
      by (rule keeps_trans [OF k2]) (use F okv ok2 in \<open>auto simp: keeps_def\<close>)
    moreover have "vs_user ?vs = vs_user vs" using o u by (simp add: others_def)
    ultimately show ?thesis using s False c2 by auto
  qed
  then show "ok s \<Longrightarrow> vs_ok vs' (add_mset (next_version vs) (VR - {#c#})) {#} \<and> current vs' = Some (next_version vs) \<and>
      files_rep vs' (v_files (the_version vs' (next_version vs))) (edit_step S e)"
    "\<not> ok s \<Longrightarrow> vs_ok vs' VR {#} \<and> current vs' = Some c" "keeps vs vs'" "vs_user vs' = vs_user vs" by blast+
qed

end
