(* ===== verification/Recovery.thy ===== *)
theory Recovery
  imports Version_Apply
begin

text \<open>
  What \<open>LogAndApply\<close> writes to the descriptor log, \<open>Recover\<close> reads: the
  recovered version has the files that the current version had.
\<close>

subsection \<open>A file that is open for writing\<close>

definition opened_file :: "MemEnv \<Rightarrow> nat \<Rightarrow> string \<Rightarrow> bool" where
  "opened_file env a fname \<longleftrightarrow> env_inv env \<and> a \<in> set (handles env) \<and> (\<forall>g. map_of (file_map env) g = Some a \<longleftrightarrow> g = fname)"

lemma count_one:
  "distinct (map fst m) \<Longrightarrow> (\<And>g. map_of m g = Some a \<longleftrightarrow> g = n) \<Longrightarrow> count_list (map snd m) a = 1"
proof (induction m)
  case (Cons p m)
  obtain k b where p: "p = (k, b)" by fastforce
  have k: "map_of m k = None" using Cons.prems(1) p by (simp add: map_of_eq_None_iff)
  show ?case
  proof (cases "b = a")
    case True
    then have kn: "k = n" using Cons.prems(2) [of k] p by simp
    have "map_of m g \<noteq> Some a" for g using Cons.prems(2) [of g] p k kn by (cases "g = k") auto
    moreover have "map_of m g = Some a" if "(g, a) \<in> set m" for g using map_of_is_SomeI [OF _ that] Cons.prems(1) by simp
    ultimately have "a \<notin> set (map snd m)" by auto
    then show ?thesis using True p by (simp add: count_notin)
  next
    case False
    have "map_of m g = Some a \<longleftrightarrow> g = n" for g using Cons.prems(2) [of g] p False k by (cases "g = k") auto
    then show ?thesis using Cons p False by simp
  qed
next
  case Nil
  then show ?case using Nil(2) [of n] by simp
qed

lemma opened_count: "opened_file env a fname \<Longrightarrow> map_of (file_map env) fname = Some a \<and> count_list (map snd (file_map env)) a = 1"
  using count_one [of "file_map env" a fname] by (simp add: opened_file_def env_inv_def strict_sorted_iff)

lemma opened_handle_on: "opened_file env a fname \<Longrightarrow> file_bytes env fname = Some c \<Longrightarrow> handle_on (file_bytes env) (handles env) a fname (env, a)"
  using opened_count [of env a fname] unfolding handle_on_def opened_file_def by (simp add: fun_upd_idem) (metis fun_upd_triv)

lemma handle_on_opened: "handle_on B H a fname (env, a) \<Longrightarrow> opened_file env a fname"
  using count_map_snd_one [of "file_map env" a] map_of_SomeD [of "file_map env"] unfolding handle_on_def opened_file_def Let_def prod.case
  by metis

lemma opened_next: "opened_file env a fname \<Longrightarrow> a < next_addr env"
proof -
  assume o: "opened_file env a fname"
  then obtain f where "heap env a = Some f" using handle_alive [of env a] by (auto simp: opened_file_def)
  moreover have "cell_ok env a" using o by (simp add: opened_file_def env_inv_def)
  ultimately show ?thesis by (simp add: cell_ok_def)
qed

text \<open>Opening, closing, deleting and renaming other files leaves it open.\<close>

lemma opened_NewWritableFile:
  assumes "opened_file env a fname" "g \<noteq> fname" "NewWritableFile env g = (s, h, env')"
  shows "opened_file env' a fname" "h \<noteq> Some a"
proof -
  define e where "e = (if map_of (file_map env) g \<noteq> None then DeleteFileInternal env g else env)"
  have e: "next_addr e = next_addr env" "handles e = handles env" "map_of (file_map e) = (map_of (file_map env))(g := None)"
    by (auto simp: e_def DeleteFileInternal_def heap_Unref_def Let_def split: option.splits)
  have "handles env' = next_addr e # handles e" "map_of (file_map env') = (map_of (file_map e))(g \<mapsto> next_addr e)" "h = Some (next_addr e)"
    using assms(3) unfolding NewWritableFile_def Let_def e_def [symmetric] by (auto simp: heap_Ref_def)
  then show "opened_file env' a fname" "h \<noteq> Some a"
    using assms(1,2) opened_next [OF assms(1)] NewWritableFile_inv [OF _ assms(3)] e by (auto simp: opened_file_def)
qed

lemma opened_AppendHandle:
  assumes "opened_file env a fname" "AppendHandle env b data = (s, env')"
  shows "opened_file env' a fname"
proof -
  have "handles env' = handles env" "file_map env' = file_map env"
    using assms(2) by (auto simp: AppendHandle_def split: option.splits prod.splits)
  then show ?thesis using assms(1) AppendHandle_inv [OF _ assms(2)] by (simp add: opened_file_def)
qed

lemma opened_CloseHandle:
  assumes "opened_file env a fname" "b \<noteq> a" "b \<in> set (handles env)"
  shows "opened_file (CloseHandle env b) a fname"
  using assms CloseHandle_inv [of env b] by (auto simp: opened_file_def CloseHandle_def heap_Unref_def)

lemma opened_RenameFile:
  assumes "opened_file env a fname" "src \<noteq> fname" "target \<noteq> fname" "RenameFile env src target = (s, env')"
  shows "opened_file env' a fname"
proof -
  have "env_inv env'" using RenameFile_inv [OF _ assms(4)] assms(1) by (simp add: opened_file_def)
  moreover have "handles env' = handles env"
    using assms(4) by (auto simp: RenameFile_def DeleteFileInternal_def heap_Unref_def Let_def split: option.splits)
  moreover have "map_of (file_map env') h = Some a \<longleftrightarrow> h = fname" for h
  proof (cases "map_of (file_map env) src")
    case None
    then show ?thesis using assms(1,4) by (simp add: RenameFile_def opened_file_def)
  next
    case (Some b)
    have m: "map_of (file_map env) h = Some a \<longleftrightarrow> h = fname" and "b \<noteq> a" using assms(1,2) Some by (auto simp: opened_file_def)
    have "map_of (file_map env') h = (if h = src then None else if h = target then (if src = target then None else Some b) else map_of (file_map env) h)"
      using assms(4) Some by (auto simp: RenameFile_def Let_def)
    then show ?thesis using m \<open>b \<noteq> a\<close> assms(2,3) by auto
  qed
  ultimately show ?thesis using assms(1) by (simp add: opened_file_def)
qed

lemma opened_WriteStringToFile:
  assumes "opened_file env a fname" "g \<noteq> fname" "WriteStringToFile MemEnvOps env data g = (OK, env')"
  shows "opened_file env' a fname"
proof -
  have inv: "env_inv env" using assms(1) by (simp add: opened_file_def)
  obtain e1 b where e1: "NewWritableFile env g = (OK, Some b, e1)" "b \<in> set (handles e1)" using NewWritableFile_ok [OF inv] by blast
  note o1 = opened_NewWritableFile [OF assms(1,2) e1(1)]
  obtain s e2 where e2: "AppendHandle e1 b data = (s, e2)" by fastforce
  have h: "handles e2 = handles e1" using e2 by (auto simp: AppendHandle_def split: option.splits prod.splits)
  have "s = OK" using e2 by (auto simp: AppendHandle_def FileState_Append_def split: option.splits prod.splits)
  then have "env' = CloseHandle e2 b" using assms(3) e1(1) e2 by (simp add: WriteStringToFile_def EnvFileOps_def Let_def ok_def)
  then show ?thesis using opened_CloseHandle [OF opened_AppendHandle [OF o1(1) e2]] o1(2) e1(2) h by simp
qed

text \<open>The names of the files of a database.\<close>

lemma database_names:
  "TempFileName db n \<noteq> CurrentFileName db" "DescriptorFileName db m \<noteq> CurrentFileName db" "DescriptorFileName db m \<noteq> TempFileName db n"
proof -
  obtain c s where "decimal6 n = c # s" "is_digit c" using decimal6_hd by blast
  then show "TempFileName db n \<noteq> CurrentFileName db" "DescriptorFileName db m \<noteq> TempFileName db n"
    by (auto simp: TempFileName_def MakeFileName_def CurrentFileName_def DescriptorFileName_def is_digit_def)
  show "DescriptorFileName db m \<noteq> CurrentFileName db" by (simp add: CurrentFileName_def DescriptorFileName_def)
qed

lemma SetCurrentFile_opened:
  assumes "opened_file env a fname" "fname \<noteq> TempFileName db n" "fname \<noteq> CurrentFileName db"
  shows "\<exists>env'. SetCurrentFile MemEnvOps env db n = (OK, env') \<and> opened_file env' a fname \<and>
    file_bytes env' = (file_bytes env)(CurrentFileName db \<mapsto> string_bytes (''MANIFEST-'' @ decimal6 n @ [CHR 0x0A]), TempFileName db n := None)"
proof -
  let ?tmp = "TempFileName db n"
  define c where "c = string_bytes (''MANIFEST-'' @ decimal6 n @ [CHR 0x0A])"
  have drop: "string_bytes (drop (length db + 1) (DescriptorFileName db n) @ [CHR 0x0A]) = c"
    by (simp add: DescriptorFileName_def c_def)
  have inv: "env_inv env" using assms(1) by (simp add: opened_file_def)
  obtain e1 where e1: "WriteStringToFile MemEnvOps env c ?tmp = (OK, e1)" "env_inv e1" "file_bytes e1 = (file_bytes env)(?tmp := Some c)"
    using WriteStringToFile_ok [OF inv] by blast
  then obtain e2 where e2: "RenameFile e1 ?tmp (CurrentFileName db) = (OK, e2)"
    "file_bytes e2 = (file_bytes e1)(CurrentFileName db := Some c, ?tmp := None)"
    using RenameFile_ok [OF e1(2) _ database_names(1), of db n c] by auto
  have "opened_file e1 a fname" by (rule opened_WriteStringToFile [OF assms(1) _ e1(1)]) (use assms(2) in simp)
  then have "opened_file e2 a fname" by (rule opened_RenameFile [OF _ _ _ e2(1)]) (use assms(2,3) in simp_all)
  moreover have "SetCurrentFile MemEnvOps env db n = (OK, e2)"
    using e1(1) e2(1) drop by (simp add: SetCurrentFile_def Let_def ok_def)
  moreover have "(file_bytes env)(?tmp := Some c, CurrentFileName db := Some c, ?tmp := None) = (file_bytes env)(CurrentFileName db \<mapsto> c, ?tmp := None)"
    using database_names(1) [of db n] by (auto simp: fun_eq_iff)
  ultimately show ?thesis using e1(3) e2(2) unfolding c_def [symmetric] by simp
qed

subsection \<open>The descriptor log\<close>

fun log_end :: "nat \<Rightarrow> bytes list \<Rightarrow> nat" where
  "log_end off [] = off"
| "log_end off (d # ds) = log_end (snd (log_bytes True d off)) ds"

lemma log_file_snoc:
  "log_file off (ds @ [d]) = log_file off ds @ fst (log_bytes True d (log_end off ds))"
  "log_end off (ds @ [d]) = snd (log_bytes True d (log_end off ds))"
  by (induction ds arbitrary: off) simp_all

abbreviation descriptor_name :: "VersionSet \<Rightarrow> string" where
  "descriptor_name vs \<equiv> DescriptorFileName (vs_dbname vs) (manifest_file_number vs)"

text \<open>The descriptor log is open and holds these records.\<close>

definition manifest :: "VersionSet \<Rightarrow> MemEnv \<Rightarrow> bytes list \<Rightarrow> bool" where
  "manifest vs env recs \<longleftrightarrow> (\<exists>a off crc. descriptor vs = Some (a, off, crc) \<and> opened_file env a (descriptor_name vs) \<and>
     type_crc_ok (open_writer env (a, off, crc)) \<and> off = log_end 0 recs \<and> off \<le> kBlockSize \<and>
     file_bytes env (descriptor_name vs) = Some (log_file 0 recs))"

lemma AddRecord_opened:
  assumes "opened_file env a fname" "file_bytes env fname = Some (log_file 0 recs)" "dest w = (env, a)" "type_crc_ok w"
    "block_offset w = log_end 0 recs" "block_offset w \<le> kBlockSize"
  shows "\<exists>w' env'. AddRecord EnvFileOps w r = (OK, w') \<and> dest w' = (env', a) \<and> opened_file env' a fname \<and> type_crc_ok w' \<and>
    block_offset w' = log_end 0 (recs @ [r]) \<and> block_offset w' \<le> kBlockSize \<and>
    file_bytes env' = (file_bytes env)(fname \<mapsto> log_file 0 (recs @ [r]))"
proof -
  let ?B = "file_bytes env" and ?H = "handles env"
  let ?writing = "writable_file.writing (handle_on ?B ?H a fname)"
  have wf: "writable_file EnvFileOps (handle_content fname) (handle_on ?B ?H a fname)" by (rule env_file.writable_file_axioms)
  have h: "handle_on ?B ?H a fname (env, a)" by (rule opened_handle_on [OF assms(1,2)])
  then have "?writing w" using assms(3,4,6) by (simp add: writable_file.writing_def [OF wf])
  from writable_file.AddRecord_loop_appends [OF wf this, of True r]
  obtain w' where w': "AddRecord EnvFileOps w r = (OK, w')" "?writing w'"
    "handle_content fname (dest w') = handle_content fname (dest w) @ fst (log_bytes True r (block_offset w))"
    "block_offset w' = snd (log_bytes True r (block_offset w))" by (auto simp: AddRecord_def)
  have h': "handle_on ?B ?H a fname (dest w')" using w'(2) by (simp add: writable_file.writing_def [OF wf])
  then obtain env' c where env': "dest w' = (env', a)" "file_bytes env' = ?B(fname \<mapsto> c)" by (auto simp: handle_on_def)
  have "c = log_file 0 (recs @ [r])" using w'(3) assms(2,3,5) env' by (simp add: handle_content_def log_file_snoc)
  then show ?thesis
    using w' h' env' assms(5) handle_on_opened [of ?B ?H a fname env'] by (auto simp: writable_file.writing_def [OF wf] log_file_snoc)
qed

lemma manifest_log_edit:
  assumes "manifest vs env recs"
  shows "\<exists>d env'. log_edit MemEnvOps vs env e = (OK, vs\<lparr>descriptor := Some d\<rparr>, env') \<and>
    manifest (vs\<lparr>descriptor := Some d\<rparr>) env' (recs @ [VersionEdit_EncodeTo e []]) \<and>
    file_bytes env' = (file_bytes env)(descriptor_name vs \<mapsto> log_file 0 (recs @ [VersionEdit_EncodeTo e []]))"
proof -
  let ?r = "VersionEdit_EncodeTo e []"
  obtain a off crc where d: "descriptor vs = Some (a, off, crc)" "opened_file env a (descriptor_name vs)"
    "type_crc_ok (open_writer env (a, off, crc))" "off = log_end 0 recs" "off \<le> kBlockSize"
    "file_bytes env (descriptor_name vs) = Some (log_file 0 recs)" using assms by (auto simp: manifest_def)
  from AddRecord_opened [OF d(2,6) _ d(3), of ?r]
  obtain w' env' where w': "AddRecord EnvFileOps (open_writer env (a, off, crc)) ?r = (OK, w')" "dest w' = (env', a)"
    "opened_file env' a (descriptor_name vs)" "type_crc_ok w'" "block_offset w' = log_end 0 (recs @ [?r])" "block_offset w' \<le> kBlockSize"
    "file_bytes env' = (file_bytes env)(descriptor_name vs \<mapsto> log_file 0 (recs @ [?r]))"
    using d(4,5) by (auto simp: open_writer_def)
  let ?d = "(a, block_offset w', type_crc w')"
  have "log_edit MemEnvOps vs env e = (OK, vs\<lparr>descriptor := Some ?d\<rparr>, env')"
    using w'(1,2) d(1) by (simp add: log_edit_def close_writer_def EnvFileOps_def Let_def ok_def)
  moreover have "manifest (vs\<lparr>descriptor := Some ?d\<rparr>) env' (recs @ [?r])"
    using w' by (simp add: manifest_def type_crc_ok_def open_writer_def)
  ultimately show ?thesis using w'(7) by blast
qed

lemma manifest_new_descriptor:
  assumes "env_inv env"
  shows "\<exists>d env'. new_descriptor MemEnvOps vs env = (OK, vs\<lparr>descriptor := Some d\<rparr>, env') \<and>
    manifest (vs\<lparr>descriptor := Some d\<rparr>) env' [VersionEdit_EncodeTo (snapshot_edit vs) []] \<and>
    file_bytes env' = (file_bytes env)(descriptor_name vs \<mapsto> log_file 0 [VersionEdit_EncodeTo (snapshot_edit vs) []])"
proof -
  let ?r = "VersionEdit_EncodeTo (snapshot_edit vs) []" and ?f = "descriptor_name vs"
  obtain s x e1 where n0: "NewWritableFile env ?f = (s, x, e1)" by (metis prod_cases3)
  then obtain a where n: "NewWritableFile env ?f = (OK, Some a, e1)" "handle_on (file_bytes env) (a # handles env) a ?f (e1, a)"
    "handle_content ?f (e1, a) = []" using NewWritableFile_handle [OF assms n0] by blast
  obtain c where c: "file_bytes e1 = (file_bytes env)(?f \<mapsto> c)" using n(2) by (auto simp: handle_on_def)
  then have f1: "file_bytes e1 ?f = Some (log_file 0 [])" using n(3) by (simp add: handle_content_def)
  have o: "opened_file e1 a ?f" by (rule handle_on_opened [OF n(2)])
  have nw: "dest (Writer_new (e1, a)) = (e1, a)" "type_crc_ok (Writer_new (e1, a))" "block_offset (Writer_new (e1, a)) = log_end 0 []"
    "block_offset (Writer_new (e1, a)) \<le> kBlockSize" by (simp_all add: Writer_new_def type_crc_ok_def)
  from AddRecord_opened [OF o f1 nw, of ?r]
  obtain w' env' where w': "AddRecord EnvFileOps (Writer_new (e1, a)) ?r = (OK, w')" "dest w' = (env', a)"
    "opened_file env' a ?f" "type_crc_ok w'" "block_offset w' = log_end 0 [?r]" "block_offset w' \<le> kBlockSize"
    "file_bytes env' = (file_bytes e1)(?f \<mapsto> log_file 0 [?r])"
    unfolding append_Nil by blast
  let ?d = "(a, block_offset w', type_crc w')"
  have "new_descriptor MemEnvOps vs env = (OK, vs\<lparr>descriptor := Some ?d\<rparr>, env')"
    using w'(1,2) n(1) by (simp add: new_descriptor_def WriteSnapshot_def close_writer_def Let_def)
  moreover have "manifest (vs\<lparr>descriptor := Some ?d\<rparr>) env' [?r]"
    using w' by (simp add: manifest_def type_crc_ok_def open_writer_def del: log_end.simps log_file.simps(2))
  ultimately show ?thesis using w'(7) c by (metis fun_upd_upd)
qed

text \<open>The log of all edits, which \<open>CURRENT\<close> names.\<close>

definition encoded :: "VersionEdit \<Rightarrow> bytes" where
  "encoded e = VersionEdit_EncodeTo e []"

definition described :: "VersionSet \<Rightarrow> MemEnv \<Rightarrow> VersionEdit list \<Rightarrow> bool" where
  "described vs env es \<longleftrightarrow> manifest vs env (map encoded es) \<and>
     file_bytes env (CurrentFileName (vs_dbname vs)) = Some (string_bytes (''MANIFEST-'' @ decimal6 (manifest_file_number vs) @ [CHR 0x0A]))"

lemma manifest_cong:
  "manifest vs env recs \<Longrightarrow> descriptor vs' = descriptor vs \<Longrightarrow> vs_dbname vs' = vs_dbname vs \<Longrightarrow>
   manifest_file_number vs' = manifest_file_number vs \<Longrightarrow> manifest vs' env recs"
  by (simp add: manifest_def)

lemma described_cong:
  "described vs env es \<Longrightarrow> descriptor vs' = descriptor vs \<Longrightarrow> vs_dbname vs' = vs_dbname vs \<Longrightarrow>
   manifest_file_number vs' = manifest_file_number vs \<Longrightarrow> described vs' env es"
  by (simp add: manifest_def described_def)

lemma manifest_current:
  assumes "manifest vs env recs"
  shows "\<exists>env'. SetCurrentFile MemEnvOps env (vs_dbname vs) (manifest_file_number vs) = (OK, env') \<and> manifest vs env' recs \<and>
    file_bytes env' (CurrentFileName (vs_dbname vs)) = Some (string_bytes (''MANIFEST-'' @ decimal6 (manifest_file_number vs) @ [CHR 0x0A]))"
proof -
  let ?db = "vs_dbname vs" and ?n = "manifest_file_number vs"
  define c where "c = string_bytes (''MANIFEST-'' @ decimal6 ?n @ [CHR 0x0A])"
  obtain a off crc where d: "descriptor vs = Some (a, off, crc)" "opened_file env a (descriptor_name vs)"
    "type_crc_ok (open_writer env (a, off, crc))" "off = log_end 0 recs" "off \<le> kBlockSize"
    "file_bytes env (descriptor_name vs) = Some (log_file 0 recs)" using assms by (auto simp: manifest_def)
  obtain env' where e: "SetCurrentFile MemEnvOps env ?db ?n = (OK, env')" "opened_file env' a (descriptor_name vs)"
    "file_bytes env' = (file_bytes env)(CurrentFileName ?db \<mapsto> c, TempFileName ?db ?n := None)"
    using SetCurrentFile_opened [OF d(2) database_names(3,2)] unfolding c_def by blast
  have "file_bytes env' (CurrentFileName ?db) = Some c" "file_bytes env' (descriptor_name vs) = file_bytes env (descriptor_name vs)"
    using e(3) database_names(1) [of ?db ?n] not_sym [OF database_names(1) [of ?db ?n]] database_names(2) [of ?db ?n] database_names(3) [of ?db ?n ?n]
    by simp_all
  then show ?thesis using d e(1,2) unfolding c_def [symmetric] by (auto simp: manifest_def type_crc_ok_def open_writer_def)
qed

lemma described_log_step:
  assumes "env_inv env" "descriptor vs = None \<Longrightarrow> es = [snapshot_edit vs]" "descriptor vs \<noteq> None \<Longrightarrow> described vs env es"
  shows "\<exists>d env'. log_step MemEnvOps vs env e = (OK, vs\<lparr>descriptor := Some d\<rparr>, env') \<and> described (vs\<lparr>descriptor := Some d\<rparr>) env' (es @ [e])"
proof (cases "descriptor vs = None")
  case True
  obtain d1 env1 where r1: "new_descriptor MemEnvOps vs env = (OK, vs\<lparr>descriptor := Some d1\<rparr>, env1)"
    "manifest (vs\<lparr>descriptor := Some d1\<rparr>) env1 (map encoded es)"
    using manifest_new_descriptor [OF assms(1), of vs] assms(2) True by (auto simp: encoded_def)
  obtain d2 env2 where r2: "log_edit MemEnvOps (vs\<lparr>descriptor := Some d1\<rparr>) env1 e = (OK, vs\<lparr>descriptor := Some d2\<rparr>, env2)"
    "manifest (vs\<lparr>descriptor := Some d2\<rparr>) env2 (map encoded (es @ [e]))"
    using manifest_log_edit [OF r1(2), of e] by (auto simp: encoded_def)
  obtain env3 where r3: "SetCurrentFile MemEnvOps env2 (vs_dbname vs) (manifest_file_number vs) = (OK, env3)"
    "described (vs\<lparr>descriptor := Some d2\<rparr>) env3 (es @ [e])"
    using manifest_current [OF r2(2)] unfolding described_def by auto
  have "log_step MemEnvOps vs env e = (OK, vs\<lparr>descriptor := Some d2\<rparr>, env3)" using True r1(1) r2(1) r3(1) by (simp add: log_step_def Let_def ok_def)
  then show ?thesis using r3(2) by blast
next
  case False
  then have d: "described vs env es" using assms(3) by blast
  then have "manifest vs env (map encoded es)" by (simp add: described_def)
  from manifest_log_edit [OF this, of e]
  obtain d2 env2 where r2: "log_edit MemEnvOps vs env e = (OK, vs\<lparr>descriptor := Some d2\<rparr>, env2)"
    "manifest (vs\<lparr>descriptor := Some d2\<rparr>) env2 (map encoded (es @ [e]))"
    "file_bytes env2 = (file_bytes env)(descriptor_name vs \<mapsto> log_file 0 (map encoded (es @ [e])))" by (auto simp: encoded_def)
  have "described (vs\<lparr>descriptor := Some d2\<rparr>) env2 (es @ [e])"
    using d r2(2,3) database_names(2) [of "vs_dbname vs", symmetric] by (simp add: described_def)
  moreover have "log_step MemEnvOps vs env e = (OK, vs\<lparr>descriptor := Some d2\<rparr>, env2)" using False r2(1) by (cases "descriptor vs") (simp_all add: log_step_def Let_def ok_def)
  ultimately show ?thesis by blast
qed

subsection \<open>Reading the log\<close>

text \<open>The edits of the log, in their order: no edit adds a file under a number that its level has had before.\<close>

fun edits_ok :: "bytes \<Rightarrow> (nat \<Rightarrow> FileInfo set) \<Rightarrow> VersionEdit list \<Rightarrow> bool" where
  "edits_ok name X [] = True"
| "edits_ok name X (e # es) \<longleftrightarrow> edit_wf e \<and> (has_comparator e \<longrightarrow> ve_comparator e = name) \<and> edit_fresh X e \<and>
     edits_ok name (\<lambda>l. X l \<union> adds e l) es"

definition note_edit :: "VersionEdit \<Rightarrow> Recovered \<Rightarrow> Recovered" where
  "note_edit e st = st\<lparr>rc_status := OK,
     rc_log_number := (if has_log_number e then Some (log_number e) else rc_log_number st),
     rc_prev_log_number := (if has_prev_log_number e then Some (prev_log_number e) else rc_prev_log_number st),
     rc_next_file := (if has_next_file_number e then Some (next_file_number e) else rc_next_file st),
     rc_last_sequence := (if has_last_sequence e then Some (last_sequence e) else rc_last_sequence st)\<rparr>"

lemma note_edit_ok [simp]: "rc_status (note_edit e st) = OK"
  by (simp add: note_edit_def)

fun apply_edits :: "VersionSet \<Rightarrow> VersionBuilder \<Rightarrow> VersionEdit list \<Rightarrow> VersionSet \<times> VersionBuilder" where
  "apply_edits vs b [] = (vs, b)"
| "apply_edits vs b (e # es) = (case Builder_Apply vs b e of (vs, b) \<Rightarrow> apply_edits vs b es)"

lemma recover_record_edit:
  assumes "edit_wf e" "has_comparator e \<longrightarrow> ve_comparator e = string_bytes (Name (vs_user vs))" "Builder_Apply vs b e = (vs', b')"
  shows "recover_record vs b st (encoded e) = (vs', b', note_edit e st)"
proof -
  have "VersionEdit_DecodeFrom VersionEdit_new (encoded e) = (OK, e)"
    unfolding encoded_def edit_decodes [OF assms(1)] by (simp add: VersionEdit_new_def VersionEdit_Clear_def)
  then show ?thesis using assms(2,3) by (cases "has_comparator e") (simp_all add: recover_record_def note_edit_def Let_def ok_def)
qed

lemma Builder_Apply_user: "Builder_Apply vs b e = (vs', b') \<Longrightarrow> vs_user vs' = vs_user vs"
proof -
  have "vs_user (fst (foldl apply_addition (vs, b) ps)) = vs_user vs" for vs b ps
    by (induction ps arbitrary: vs b) (auto simp: apply_addition_def Let_def split: prod.splits)
  then have "vs_user (fst (Builder_Apply vs b e)) = vs_user vs" by (simp add: Builder_Apply_def Let_def)
  then show "Builder_Apply vs b e = (vs', b') \<Longrightarrow> vs_user vs' = vs_user vs" by simp
qed

context sequential_file
begin

lemma recover_loop_reads:
  assumes "reader_at C (length X) r" "C = X @ log_file off (map encoded es)" "off \<le> kBlockSize"
    "off mod kBlockSize = length X mod kBlockSize" "reports r = []" "edits_ok (string_bytes (Name (vs_user vs))) Y es"
    "apply_edits vs b es = (vs', b')" "ok (rc_status st)"
  shows "recover_loop ops r vs b st = Some (vs', b', fold note_edit es st)"
  using assms
proof (induction es arbitrary: X r off Y vs b st)
  case Nil
  then have "reader_at C (length C) r" by simp
  then obtain r' where "ReadRecord ops r = Some (None, r')" "reports r' = []"
    using read_end [of C r] reader_at_initial [OF Nil(1)] ReadRecord_loop.simps [of ops False 0 "[]" r] Nil(5)
    by (auto simp: kEof_def quiet_def)
  then show ?case using Nil(7) by (subst recover_loop.simps) (simp add: note_reports_def)
next
  case (Cons e es)
  let ?d = "encoded e"
  let ?X = "X @ fst (log_bytes True ?d off)"
  obtain r' where r': "ReadRecord_loop ops False 0 [] r = Some (Some ?d, r')"
    "reader_at C (length ?X) r'" "reports r' = reports r"
    using read_record [OF Cons(2) _ Cons(4,5), of True ?d "log_file (snd (log_bytes True ?d off)) (map encoded es)" "[]" 0]
      Cons(3) by (auto simp: after_record_def)
  have off: "snd (log_bytes True ?d off) \<le> kBlockSize"
    "snd (log_bytes True ?d off) mod kBlockSize = length ?X mod kBlockSize"
    using log_bytes_offset [OF Cons(4), of True ?d] Cons(5) by (simp_all, metis mod_add_left_eq)
  obtain vs1 b1 where a: "Builder_Apply vs b e = (vs1, b1)" by fastforce
  have eo: "edits_ok (string_bytes (Name (vs_user vs1))) (\<lambda>l. Y l \<union> adds e l) es" and ap: "apply_edits vs1 b1 es = (vs', b')"
    using Cons.prems(6,7) a Builder_Apply_user [OF a] by simp_all
  have rr: "recover_record vs b st ?d = (vs1, b1, note_edit e st)" for st
    using recover_record_edit [OF _ _ a] Cons.prems(6) by simp
  have "recover_loop ops r' vs1 b1 (note_edit e st) = Some (vs', b', fold note_edit es (note_edit e st))"
    using Cons(1) [OF r'(2) _ off _ eo ap] Cons.prems(2,5) r'(3) by simp
  then show ?case
    using rr r' reader_at_initial [OF Cons(2)] Cons.prems(5,8) by (subst recover_loop.simps) (simp add: note_reports_def)
qed

end

lemma MarkFileNumberUsed_frame: "\<exists>k. MarkFileNumberUsed vs p = vs\<lparr>vs_next_file_number := k\<rparr>"
  by (cases "vs_next_file_number vs \<le> p") (auto simp: MarkFileNumberUsed_def intro: exI [of _ "vs_next_file_number vs"])

text \<open>A builder to which all edits are applied adds what the edits leave.\<close>

context ikey_order
begin

lemma apply_edits_rep:
  assumes "vs_user vs = user" "vs_ok vs VR (R + builder_refs b)" "builder_rep vs b X D" "edits_ok name X es"
    and "apply_edits vs b es = (vs', b')" "\<forall>l. {i \<in> X l. num i \<notin> D l} = S l"
  shows "\<exists>X' D'. vs_user vs' = user \<and> vs_ok vs' VR (R + builder_refs b') \<and> builder_rep vs' b' X' D' \<and> b_base b' = b_base b \<and>
    (\<forall>l. {i \<in> X' l. num i \<notin> D' l} = foldl edit_step S es l) \<and> versions vs' = versions vs \<and> current vs' = current vs"
  using assms
proof (induction es arbitrary: vs b X D S)
  case (Cons e es)
  obtain vs1 b1 where a: "Builder_Apply vs b e = (vs1, b1)" by fastforce
  have fr: "edit_fresh X e" using Cons.prems(4) by simp
  note A = Builder_Apply_rep [OF Cons.prems(1-3) fr a]
  have f: "vs_user vs1 = user" "versions vs1 = versions vs" "current vs1 = current vs" using Cons.prems(1) by (subst A(6), simp)+
  have "edits_ok name (\<lambda>l. X l \<union> adds e l) es" "apply_edits vs1 b1 es = (vs', b')" using Cons.prems(4,5) a by simp_all
  note IH = Cons.IH [OF f(1) A(1,2) this]
  have "{i \<in> X l \<union> adds e l. num i \<notin> (D l \<union> dels e l) - num ` adds e l} = edit_step S e l" for l
  proof -
    have "num ` X l \<inter> num ` adds e l = {}" using fr fresh_files_disjoint by (simp add: edit_fresh_def adds_def)
    moreover have "edit_step S e l = {i \<in> X l. num i \<notin> D l \<and> num i \<notin> dels e l} \<union> adds e l"
      unfolding edit_step_def Cons.prems(6) [rule_format, of l, symmetric] by auto
    ultimately show ?thesis by auto
  qed
  then show ?case using IH [of "edit_step S e"] A(3) f(2,3) by simp
qed auto

lemma recover_install_rep:
  assumes u: "vs_user vs = user" and okv: "vs_ok vs VR (builder_refs b)" and rep: "builder_rep vs b X D"
    and base: "current vs = Some (b_base b)" "b_base b \<in># VR - {#b_base b#}" "v_files (the_version vs (b_base b)) = replicate kNumLevels []"
    and st: "rc_status st = OK" "rc_next_file st = Some n" "rc_log_number st = Some m" "rc_last_sequence st = Some q"
    and r: "recover_install vs b st = (s, vs')"
  shows "s = OK" "vs_ok (delete_builder vs' b) (add_mset (next_version vs) (VR - {#b_base b#} - {#b_base b#})) {#}"
    "current (delete_builder vs' b) = Some (next_version vs)"
    "files_rep (delete_builder vs' b) (v_files (the_version (delete_builder vs' b) (next_version vs))) (\<lambda>l. {i \<in> X l. num i \<notin> D l})"
    "vs_user (delete_builder vs' b) = user" "manifest_file_number (delete_builder vs' b) = n" "vs_next_file_number (delete_builder vs' b) = n + 1"
    "vs_last_sequence (delete_builder vs' b) = q" "vs_log_number (delete_builder vs' b) = m"
    "vs_prev_log_number (delete_builder vs' b) = (case rc_prev_log_number st of None \<Rightarrow> 0 | Some p \<Rightarrow> p)"
proof -
  let ?base = "b_base b" and ?prev = "case rc_prev_log_number st of None \<Rightarrow> 0 | Some p \<Rightarrow> p"
  obtain k where k: "MarkFileNumberUsed (MarkFileNumberUsed vs ?prev) m = vs\<lparr>vs_next_file_number := k\<rparr>"
  proof -
    obtain j where "MarkFileNumberUsed vs ?prev = vs\<lparr>vs_next_file_number := j\<rparr>" using MarkFileNumberUsed_frame by blast
    then show ?thesis using that MarkFileNumberUsed_frame [of "vs\<lparr>vs_next_file_number := j\<rparr>" m] by auto
  qed
  define vs1 where "vs1 = vs\<lparr>vs_next_file_number := k\<rparr>"
  obtain vs2 v where sv: "Builder_SaveTo vs1 b Version_new = (vs2, v)" by fastforce
  define vs3 where "vs3 = AppendVersion vs2 (Finalize vs2 v)"
  have res: "s = OK" "vs' = vs3\<lparr>manifest_file_number := n, vs_next_file_number := n + 1, vs_last_sequence := q, vs_log_number := m, vs_prev_log_number := ?prev\<rparr>"
    using r st by (auto simp: recover_install_def ok_def Let_def k vs1_def [symmetric] sv vs3_def)
  then show "s = OK" by simp
  have e: "files_rep vs1 (v_files (the_version vs1 ?base)) (\<lambda>_. {})" using base(3) by (simp add: files_rep_def vs1_def)
  have u1: "vs_user vs1 = user" "vs_ok vs1 VR (builder_refs b)" "builder_rep vs1 b X D" using u okv rep by (simp_all add: vs1_def)
  note V = SaveTo_rep [OF u1 e _ sv]
  have dis: "\<forall>l < kNumLevels. num ` {} \<inter> num ` X l = {}" by simp
  have ok2: "vs_ok vs2 VR (builder_refs b + mset (concat (v_files (Finalize vs2 v))))" using V(1) dis by simp
  have f2: "files_rep vs2 (v_files v) (\<lambda>l. {i \<in> X l. num i \<notin> D l})" using V(2) dis by simp
  have o2: "others vs2 = others vs1" "current vs2 = current vs1" using V(5,6) dis by simp_all
  have v: "v_refs (Finalize vs2 v) = 0" "length (v_files (Finalize vs2 v)) = kNumLevels"
    using sv by (auto simp: Builder_SaveTo_def Version_new_def Let_def)
  have c2: "current vs2 = Some ?base" "?base \<in># VR" using o2 base(1,2) by (auto simp: vs1_def dest: in_diffD)
  have nv: "next_version vs2 = next_version vs" using o2(1) by (simp add: others_def vs1_def)
  note A = AppendVersion_ok [OF ok2 v c2, folded vs3_def, unfolded nv]
  have ok3: "vs_ok vs' (add_mset (next_version vs) (VR - {#?base#})) ({#} + builder_refs b)" using A(1) by (simp add: res(2))
  have f3: "files_rep vs' (v_files (the_version vs' (next_version vs))) (\<lambda>l. {i \<in> X l. num i \<notin> D l})"
  proof -
    have sub: "set (concat (v_files v)) \<subseteq> dom (metas vs3)" using vs_ok_files(1) [OF A(1), of "next_version vs"] A(4) by simp
    have "\<forall>x \<in> set (concat (v_files v)). x \<in> dom (metas vs3) \<and> info_at vs3 x = info_at vs2 x"
      using sub A(2,6) by (auto simp: keeps_def keeps_files_def)
    moreover have "vs_user vs3 = vs_user vs2" using A(5) by (simp add: others_def)
    ultimately have "files_rep vs3 (v_files v) (\<lambda>l. {i \<in> X l. num i \<notin> D l})" using files_rep_keeps [OF f2] by blast
    then show ?thesis using A(4) by (simp add: res(2))
  qed
  have base3: "?base \<in># add_mset (next_version vs) (VR - {#?base#})" using base(2) by simp
  note W = delete_builder_ok [OF ok3 base3]
  have ne: "?base \<noteq> next_version vs" using okv c2(2) by (auto simp: vs_ok_def versions_ok_def)
  show w: "vs_ok (delete_builder vs' b) (add_mset (next_version vs) (VR - {#?base#} - {#?base#})) {#}"
    using W(1) base(2) ne by (simp add: diff_add_mset_swap)
  show "current (delete_builder vs' b) = Some (next_version vs)" using W(4) A(3) by (simp add: res(2))
  have uu: "vs_user vs' = user" using A(5) o2(1) u by (simp add: others_def res(2) vs1_def)
  show "vs_user (delete_builder vs' b) = user" "manifest_file_number (delete_builder vs' b) = n"
    "vs_next_file_number (delete_builder vs' b) = n + 1" "vs_last_sequence (delete_builder vs' b) = q" "vs_log_number (delete_builder vs' b) = m"
    "vs_prev_log_number (delete_builder vs' b) = ?prev" using W(3) uu by (simp_all add: others_def res(2))
  show "files_rep (delete_builder vs' b) (v_files (the_version (delete_builder vs' b) (next_version vs))) (\<lambda>l. {i \<in> X l. num i \<notin> D l})"
    by (rule files_rep_version [OF f3 ok3 _ W(2) w]) (use W(3) in \<open>simp_all add: others_def\<close>)
qed

end

lemma bytes_string_bytes [simp]: "bytes_string (string_bytes s) = s"
proof -
  have "unat (of_nat (of_char c) :: byte) = of_char c" for c :: char
    using nat_of_char_less_256 by (simp add: unat_of_nat)
  then show ?thesis by (induction s) (simp_all add: bytes_string_def string_bytes_def)
qed

lemma fold_note_edit_last:
  assumes "has_log_number e" "has_prev_log_number e" "has_next_file_number e" "has_last_sequence e"
  shows "fold note_edit (es @ [e]) st =
    \<lparr>rc_status = OK, rc_log_number = Some (log_number e), rc_prev_log_number = Some (prev_log_number e),
     rc_next_file = Some (next_file_number e), rc_last_sequence = Some (last_sequence e)\<rparr>"
  using assms by (simp add: note_edit_def)

text \<open>The numbers of a version set that recovery restores.\<close>

definition complete_edit :: "VersionEdit \<Rightarrow> bool" where
  "complete_edit e \<longleftrightarrow> has_log_number e \<and> has_prev_log_number e \<and> has_next_file_number e \<and> has_last_sequence e"

lemma Recover_described:
  assumes ord: "ikey_order (vs_user vs)" and inv: "env_inv env" and d: "described vs env (es @ [e])"
    and eo: "edits_ok (string_bytes (Name (vs_user vs))) (\<lambda>_. {}) (es @ [e])" and c: "complete_edit e"
  shows "\<exists>vr env'. VersionSet_Recover (VersionSet_new (vs_dbname vs) (vs_user vs)) env = Some (OK, vr, env') \<and>
    files_rep vr (current_files vr) (foldl edit_step (\<lambda>_. {}) (es @ [e])) \<and> vs_user vr = vs_user vs \<and>
    vs_next_file_number vr = next_file_number e + 1 \<and> manifest_file_number vr = next_file_number e \<and>
    vs_last_sequence vr = last_sequence e \<and> vs_log_number vr = log_number e \<and> vs_prev_log_number vr = prev_log_number e"
proof -
  let ?user = "vs_user vs" and ?db = "vs_dbname vs" and ?recs = "map encoded (es @ [e])"
  let ?n = "VersionSet_new ?db ?user"
  define name where "name = ''MANIFEST-'' @ decimal6 (manifest_file_number vs)"
  have cur: "file_bytes env (CurrentFileName ?db) = Some (string_bytes (name @ [CHR 0x0A]))" and m: "manifest vs env ?recs"
    using d by (simp_all add: described_def name_def)
  obtain env1 where r1: "ReadFileToString env (CurrentFileName ?db) = Some (OK, string_bytes (name @ [CHR 0x0A]), env1)"
    "env_inv env1" "file_bytes env1 = file_bytes env" using ReadFileToString_ok [OF inv cur] by blast
  have sb: "string_bytes (name @ [CHR 0x0A]) = string_bytes name @ [10]" by (simp add: string_bytes_def)
  have nm: "?db @ ''/'' @ name = descriptor_name vs" by (simp add: name_def DescriptorFileName_def)
  have "file_bytes env1 (descriptor_name vs) = Some (log_file 0 ?recs)" using m r1(3) by (auto simp: manifest_def)
  then obtain a f where a: "map_of (file_map env1) (descriptor_name vs) = Some a" "heap env1 a = Some f" "file_content f = log_file 0 ?recs"
    by (auto simp: file_bytes_def split: option.splits)
  define env2 where "env2 = heap_Ref a (env1\<lparr>handles := a # handles env1\<rparr>)"
  have r2: "NewReadableFile env1 (descriptor_name vs) = (OK, Some a, env2)" using a by (simp add: NewReadableFile_def env2_def)
  have h2: "heap env2 a = Some (FileState_Ref f)" using a by (simp add: heap_Ref_def env2_def)
  have wf: "seq_wf (FileState_Ref f, 0)" using env_invD(3) [OF NewReadableFile_inv [OF r1(2) r2] h2] by (simp add: seq_wf_def)
  have rem: "seq_remaining (FileState_Ref f, 0) = log_file 0 ?recs" using a(3) by (simp add: seq_remaining_def FileState_Ref_def)
  note new = VersionSet_new_ok [of ?db ?user]
  let ?vs0 = "Version_Ref ?n 0"
  define b where "b = fst (Builder_new ?n 0)"
  have "0 \<in> dom (versions ?n)" using new(1) by (simp add: vs_ok_def versions_ok_def)
  note R = Version_Ref_ok [OF new(1) this]
  have b: "Builder_new ?n 0 = (b, ?vs0)" "builder_rep ?vs0 b (\<lambda>_. {}) (\<lambda>_. {})" "builder_refs b = {#}" "b_base b = 0"
    by (simp_all add: b_def Builder_new_def builder_rep_def builder_refs_def)
  have u0: "vs_user ?vs0 = ?user" using R(4) new(4) by (simp add: others_def)
  obtain vs1 b1 where ap: "apply_edits ?vs0 b (es @ [e]) = (vs1, b1)" by fastforce
  have ok0: "vs_ok ?vs0 {#0, 0#} ({#} + builder_refs b)" using R(1) b(3) by simp
  obtain X D where A: "vs_user vs1 = ?user" "vs_ok vs1 {#0, 0#} ({#} + builder_refs b1)" "builder_rep vs1 b1 X D" "b_base b1 = 0"
    "\<forall>l. {i \<in> X l. num i \<notin> D l} = foldl edit_step (\<lambda>_. {}) (es @ [e]) l" "versions vs1 = versions ?vs0" "current vs1 = current ?vs0"
    using ikey_order.apply_edits_rep [OF ord u0 ok0 b(2) eo ap, of "\<lambda>_. {}"] b(4) by auto
  let ?init = "\<lparr>rc_status = OK, rc_log_number = None, rc_prev_log_number = None, rc_next_file = None, rc_last_sequence = None\<rparr>"
  let ?st = "\<lparr>rc_status = OK, rc_log_number = Some (log_number e), rc_prev_log_number = Some (prev_log_number e),
     rc_next_file = Some (next_file_number e), rc_last_sequence = Some (last_sequence e)\<rparr>"
  have loop: "recover_loop SequentialFileOps (Reader_new (FileState_Ref f, 0) True True 0) ?vs0 b ?init = Some (vs1, b1, ?st)"
    using mem_seq.recover_loop_reads [of "log_file 0 ?recs" "[]" "Reader_new (FileState_Ref f, 0) True True 0" 0 "es @ [e]" ?vs0 "\<lambda>_. {}" b vs1 b1 ?init]
      mem_seq.reader_new [OF wf, of True True] rem eo u0 ap fold_note_edit_last [of e es ?init] c
    by (simp add: Reader_new_def complete_edit_def)
  obtain s vs2 where ins: "recover_install vs1 b1 ?st = (s, vs2)" by fastforce
  have base: "current vs1 = Some (b_base b1)" "b_base b1 \<in># {#0, 0#} - {#b_base b1#}" "v_files (the_version vs1 (b_base b1)) = replicate kNumLevels []"
    using A(4,6,7) R(5) new(2) by (simp_all add: VersionSet_new_def AppendVersion_def Version_Ref_def Version_new_def Let_def)
  have okb: "vs_ok vs1 {#0, 0#} (builder_refs b1)" using A(2) by simp
  have stf: "rc_status ?st = OK" "rc_next_file ?st = Some (next_file_number e)" "rc_log_number ?st = Some (log_number e)"
    "rc_last_sequence ?st = Some (last_sequence e)" by simp_all
  note I = ikey_order.recover_install_rep [OF ord A(1) okb A(3) base stf ins]
  have db: "vs_dbname ?n = ?db" by (simp add: VersionSet_new_def AppendVersion_def Version_Ref_def Let_def)
  let ?vr = "delete_builder vs2 b1"
  have "VersionSet_Recover ?n env = Some (OK, ?vr, CloseHandle env2 a)"
    using r1(1) r2 h2 loop ins I(1) b(1) new(2) sb nm db by (simp add: VersionSet_Recover_def Let_def ok_def)
  moreover have "(\<lambda>l. {i \<in> X l. num i \<notin> D l}) = foldl edit_step (\<lambda>_. {}) (es @ [e])" using A(5) by blast
  ultimately show ?thesis using I(3-10) by simp
qed

subsection \<open>The snapshot\<close>

text \<open>The edit that a fresh descriptor log starts with adds the files of the current version.\<close>

definition small_keys :: "FileInfo \<Rightarrow> bool" where
  "small_keys i \<longleftrightarrow> length (fst (snd (snd i))) < 2 ^ 32 \<and> length (snd (snd (snd i))) < 2 ^ 32"

definition logged_file :: "FileMetaData \<Rightarrow> FileMetaData" where
  "logged_file f = FileMetaData_new\<lparr>fm_number := fm_number f, file_size := file_size f, smallest := smallest f, largest := largest f\<rparr>"

lemma logged_file_info [simp]: "file_info (logged_file f) = file_info f" "fm_number (logged_file f) = fm_number f"
  by (simp_all add: logged_file_def file_info_def)

lemma foldl_AddFile:
  "foldl (\<lambda>e (level, f). AddFile level (fm_number f) (file_size f) (smallest f) (largest f) e) e ps =
     e\<lparr>new_files := new_files e @ map (\<lambda>(level, f). (level, logged_file f)) ps\<rparr>"
  by (induction ps arbitrary: e) (auto simp: AddFile_def logged_file_def)

lemma foldl_SetCompactPointer:
  "foldl (\<lambda>e level. if cp ! level \<noteq> [] then SetCompactPointer level (cp ! level) e else e) e ls =
     e\<lparr>compact_pointers := compact_pointers e @ map (\<lambda>l. (l, cp ! l)) (filter (\<lambda>l. cp ! l \<noteq> []) ls)\<rparr>"
  by (induction ls arbitrary: e) (auto simp: SetCompactPointer_def)

definition snapshot_files :: "VersionSet \<Rightarrow> (nat \<times> FileMetaData) list" where
  "snapshot_files vs = concat (map (\<lambda>level. map (\<lambda>a. (level, logged_file (the_meta vs a))) (current_files vs ! level)) [0..<kNumLevels])"

lemma snapshot_edit_fields:
  "new_files (snapshot_edit vs) = snapshot_files vs" "deleted_files (snapshot_edit vs) = []"
  "ve_comparator (snapshot_edit vs) = string_bytes (Name (vs_user vs))" "has_comparator (snapshot_edit vs)"
  "compact_pointers (snapshot_edit vs) = map (\<lambda>l. (l, compact_pointer vs ! l)) (filter (\<lambda>l. compact_pointer vs ! l \<noteq> []) [0..<kNumLevels])"
  "\<not> has_log_number (snapshot_edit vs)" "\<not> has_prev_log_number (snapshot_edit vs)" "\<not> has_next_file_number (snapshot_edit vs)"
  "\<not> has_last_sequence (snapshot_edit vs)" "log_number (snapshot_edit vs) = 0" "prev_log_number (snapshot_edit vs) = 0"
  "next_file_number (snapshot_edit vs) = 0" "last_sequence (snapshot_edit vs) = 0"
  unfolding snapshot_edit_def Let_def foldl_SetCompactPointer foldl_AddFile
  by (simp_all add: SetComparatorName_def VersionEdit_new_def VersionEdit_Clear_def snapshot_files_def map_concat comp_def)

lemma snapshot_adds: "l < kNumLevels \<Longrightarrow> adds (snapshot_edit vs) l = info_at vs ` set (current_files vs ! l)"
  "kNumLevels \<le> l \<Longrightarrow> adds (snapshot_edit vs) l = {}"
  by (auto simp: adds_def snapshot_edit_fields snapshot_files_def image_iff) (metis logged_file_info(1))+

lemma fresh_files_distinct:
  assumes "\<forall>p \<in> set ps. fst p < kNumLevels \<and> info_valid (file_info (snd p))" "distinct (map (\<lambda>p. (fst p, fm_number (snd p))) ps)"
    and "\<forall>p \<in> set ps. fm_number (snd p) \<notin> num ` X (fst p)"
  shows "fresh_files X ps"
  using assms
proof (induction ps arbitrary: X)
  case (Cons p ps)
  obtain l f where p: "p = (l, f)" by fastforce
  have "fresh_files (X(l := insert (file_info f) (X l))) ps"
  proof (rule Cons.IH)
    show "\<forall>q \<in> set ps. fm_number (snd q) \<notin> num ` (X(l := insert (file_info f) (X l))) (fst q)"
      using Cons.prems(2,3) p by (auto simp: rev_image_eqI)
  qed (use Cons.prems in simp_all)
  then show ?case using Cons.prems p by simp
qed simp

lemma distinct_levels:
  "\<forall>l \<in> set ls. distinct (map (h l) (xs l)) \<Longrightarrow> distinct ls \<Longrightarrow> distinct (concat (map (\<lambda>l. map (\<lambda>x. (l, h l x)) (xs l)) ls))"
proof (induction ls)
  case (Cons l ls)
  have "distinct (map (\<lambda>x. (l, h l x)) (xs l))" using Cons.prems(1) by (auto simp: distinct_map inj_on_def)
  then show ?case using Cons by auto
qed simp

context ikey_order
begin

lemma numbers_distinct:
  assumes "sorted_wrt (before f) xs" "\<forall>x \<in> set xs. info_valid (f x)" "inj_on num (f ` set xs)"
  shows "distinct (map (\<lambda>x. num (f x)) xs)"
  using assms
proof (induction xs)
  case (Cons x xs)
  have "num (f x) \<noteq> num (f y)" if y: "y \<in> set xs" for y
  proof
    assume "num (f x) = num (f y)"
    then have "f x = f y" using Cons.prems(3) y by (simp add: inj_on_def)
    moreover have "info_less user (f x) (f y)" using Cons.prems(1) y by simp
    ultimately show False using info_less_asym [of "f x" "f x"] Cons.prems(2) by simp
  qed
  then show ?case using Cons by (auto simp: inj_on_def)
qed simp

end

lemma snapshot_edit_ok:
  assumes ord: "ikey_order (vs_user vs)" and rep: "files_rep vs (current_files vs) S"
    and S: "\<forall>l < kNumLevels. inj_on num (S l) \<and> (\<forall>i \<in> S l. small_keys i)"
    and cp: "\<forall>l < kNumLevels. length (compact_pointer vs ! l) < 2 ^ 32" and name: "length (Name (vs_user vs)) < 2 ^ 32"
  shows "edit_wf (snapshot_edit vs)" "edit_fresh (\<lambda>_. {}) (snapshot_edit vs)" "\<forall>l < kNumLevels. adds (snapshot_edit vs) l = S l"
proof -
  let ?files = "current_files vs"
  have r: "info_at vs ` set (?files ! l) = S l" "sorted_wrt (\<lambda>x y. info_less (vs_user vs) (info_at vs x) (info_at vs y)) (?files ! l)"
    "\<forall>i \<in> S l. info_valid i" if "l < kNumLevels" for l using rep that by (simp_all add: files_rep_def)
  show "\<forall>l < kNumLevels. adds (snapshot_edit vs) l = S l" using snapshot_adds(1) r(1) by simp
  have mem: "fst p < kNumLevels \<and> file_info (snd p) \<in> S (fst p) \<and> fm_refs (snd p) = 0 \<and> allowed_seeks (snd p) = 2 ^ 30"
    if "p \<in> set (snapshot_files vs)" for p
  proof -
    obtain l a where p: "l < kNumLevels" "a \<in> set (?files ! l)" "p = (l, logged_file (the_meta vs a))"
      using \<open>p \<in> set (snapshot_files vs)\<close> by (auto simp: snapshot_files_def)
    then have "info_at vs a \<in> S l" using r(1) [OF p(1)] by blast
    then show ?thesis using p by (simp add: logged_file_info(1)) (simp add: logged_file_def FileMetaData_new_def)
  qed
  have dn: "distinct (map (\<lambda>a. fm_number (the_meta vs a)) (?files ! l))" if "l < kNumLevels" for l
    using ikey_order.numbers_distinct [OF ord r(2) [OF that]] r(1,3) [OF that] S that by auto
  have "map (\<lambda>p. (fst p, fm_number (snd p))) (snapshot_files vs) =
      concat (map (\<lambda>l. map (\<lambda>a. (l, fm_number (the_meta vs a))) (?files ! l)) [0..<kNumLevels])"
    by (simp add: snapshot_files_def map_concat comp_def)
  then have "distinct (map (\<lambda>p. (fst p, fm_number (snd p))) (snapshot_files vs))"
    using distinct_levels [of "[0..<kNumLevels]" "\<lambda>_ a. fm_number (the_meta vs a)" "\<lambda>l. ?files ! l"] dn by simp
  then have "fresh_files (\<lambda>_. {}) (snapshot_files vs)" using mem r(3) by (intro fresh_files_distinct) auto
  then show "edit_fresh (\<lambda>_. {}) (snapshot_edit vs)" by (simp add: edit_fresh_def snapshot_edit_fields)
  have "new_file_wf p" if "p \<in> set (snapshot_files vs)" for p
  proof -
    have "small_keys (file_info (snd p))" using mem [OF that] S by blast
    then show ?thesis using mem [OF that] by (simp add: new_file_wf_def small_keys_def file_info_def)
  qed
  then show "edit_wf (snapshot_edit vs)" using cp name by (simp add: edit_wf_def snapshot_edit_fields string_bytes_def) 
qed

subsection \<open>Recovering what was applied\<close>

text \<open>
  What the descriptor log says: there is none yet, or its edits lead to the files \<open>S\<close>, and
  the files that they ever added are \<open>X\<close>.
\<close>

definition logged :: "VersionSet \<Rightarrow> MemEnv \<Rightarrow> (nat \<Rightarrow> FileInfo set) \<Rightarrow> (nat \<Rightarrow> FileInfo set) \<Rightarrow> bool" where
  "logged vs env S X \<longleftrightarrow>
     (if descriptor vs = None then X = S \<and> (\<forall>l < kNumLevels. inj_on num (S l) \<and> (\<forall>i \<in> S l. small_keys i))
      else \<exists>es. described vs env es \<and> edits_ok (string_bytes (Name (vs_user vs))) (\<lambda>_. {}) es \<and>
        (\<forall>l < kNumLevels. foldl edit_step (\<lambda>_. {}) es l = S l \<and> (\<Union>e \<in> set es. adds e l) = X l))"

lemma edits_ok_snoc:
  "edits_ok name Y (es @ [e]) \<longleftrightarrow> edits_ok name Y es \<and> edit_wf e \<and> (has_comparator e \<longrightarrow> ve_comparator e = name) \<and>
     edit_fresh (\<lambda>l. Y l \<union> (\<Union>e \<in> set es. adds e l)) e"
  by (induction es arbitrary: Y) (auto simp: Un_assoc)

lemma edit_fresh_mono:
  assumes "edit_fresh X e" "\<forall>l < kNumLevels. num ` Y l \<subseteq> num ` X l"
  shows "edit_fresh Y e"
proof -
  have "fresh_files X ps \<Longrightarrow> \<forall>l < kNumLevels. num ` Y l \<subseteq> num ` X l \<Longrightarrow> fresh_files Y ps" for ps
  proof (induction X ps arbitrary: Y rule: fresh_files.induct)
    case (2 X l f ps)
    have "fresh_files (Y(l := insert (file_info f) (Y l))) ps"
    proof (rule 2(1))
      show "fresh_files (X(l := insert (file_info f) (X l))) ps" using 2(2) by (simp del: fun_upd_apply)
      show "\<forall>k < kNumLevels. num ` (Y(l := insert (file_info f) (Y l))) k \<subseteq> num ` (X(l := insert (file_info f) (X l))) k"
        using 2(3) by auto
    qed
    moreover have "fm_number f \<notin> num ` Y l" using 2(2,3) by auto
    ultimately show ?case using 2(2) by simp
  qed simp
  then show ?thesis using assms by (simp add: edit_fresh_def)
qed

lemma foldl_edit_step_subset: "foldl edit_step Y es l \<subseteq> Y l \<union> (\<Union>e \<in> set es. adds e l)"
proof (induction es arbitrary: Y)
  case (Cons e es)
  then show ?case using Cons [of "edit_step Y e"] by (auto simp: edit_step_def)
qed simp

lemma files_rep_levels: "files_rep vs files S \<Longrightarrow> \<forall>l < kNumLevels. T l = S l \<Longrightarrow> files_rep vs files T"
  by (simp add: files_rep_def)

lemma filled_edit_wf:
  assumes "edit_wf e"
  shows "edit_wf (filled_edit vs e)" "complete_edit (filled_edit vs e)" "has_comparator (filled_edit vs e) = has_comparator e"
    "ve_comparator (filled_edit vs e) = ve_comparator e" "next_file_number (filled_edit vs e) = vs_next_file_number vs"
    "last_sequence (filled_edit vs e) = vs_last_sequence vs" "adds (filled_edit vs e) = adds e"
  using assms by (auto simp: filled_edit_def complete_edit_def edit_wf_def Let_def SetLogNumber_def SetPrevLogNumber_def SetLastSequence_def
      SetNextFile_def adds_def fun_eq_iff)

lemma compact_pointer_update_length:
  "\<forall>p \<in> set ps. length (snd p) < n \<Longrightarrow> \<forall>l < length cp. length (cp ! l) < n \<Longrightarrow>
   \<forall>l < length cp. length (foldl (\<lambda>cp (level, key). cp[level := key]) cp ps ! l) < n"
proof (induction ps arbitrary: cp)
  case (Cons p ps)
  obtain level key where p: "p = (level, key)" by fastforce
  have "\<forall>l < length (cp[level := key]). length (cp[level := key] ! l) < n" using Cons.prems p
    by (simp) (metis nth_list_update_eq nth_list_update_neq)
  then show ?case using Cons.IH [of "cp[level := key]"] Cons.prems(1) p by simp
qed simp


lemma logged_fresh:
  assumes "logged vs env S X" "edit_fresh X e"
  shows "edit_fresh S e"
proof -
  have "\<forall>l < kNumLevels. S l \<subseteq> X l"
  proof (cases "descriptor vs = None")
    case False
    then obtain es where "\<forall>l < kNumLevels. foldl edit_step (\<lambda>_. {}) es l = S l \<and> (\<Union>e \<in> set es. adds e l) = X l"
      using assms(1) unfolding logged_def by auto
    then show ?thesis using foldl_edit_step_subset [of "\<lambda>_. {}" es] by (metis Un_empty_left)
  qed (use assms(1) in \<open>simp add: logged_def\<close>)
  then show ?thesis using edit_fresh_mono [OF assms(2)] by blast
qed

text \<open>The edits that the log has before an edit is added: the snapshot if the log is new.\<close>

lemma logged_edits:
  assumes ord: "ikey_order (vs_user vs)" and rep: "files_rep vs (current_files vs) S" and log: "logged vs env S X"
    and cp: "\<forall>l < kNumLevels. length (compact_pointer vs ! l) < 2 ^ 32" and name: "length (Name (vs_user vs)) < 2 ^ 32"
  obtains es where "descriptor vs = None \<Longrightarrow> es = [snapshot_edit vs]" "descriptor vs \<noteq> None \<Longrightarrow> described vs env es"
    "edits_ok (string_bytes (Name (vs_user vs))) (\<lambda>_. {}) es" "\<forall>l < kNumLevels. foldl edit_step (\<lambda>_. {}) es l = S l"
    "\<forall>l < kNumLevels. (\<Union>e \<in> set es. adds e l) = X l"
proof (cases "descriptor vs = None")
  case True
  then have S: "\<forall>l < kNumLevels. inj_on num (S l) \<and> (\<forall>i \<in> S l. small_keys i)" "X = S" using log by (simp_all add: logged_def)
  note sn = snapshot_edit_ok [OF ord rep S(1) cp name]
  show ?thesis
    by (rule that [of "[snapshot_edit vs]"]) (use True S(2) sn snapshot_edit_fields [of vs] in \<open>simp_all add: edit_step_def\<close>)
next
  case False
  then show ?thesis using log that by (auto simp: logged_def)
qed

lemma LogAndApply_logs:
  assumes ord: "ikey_order (vs_user vs)" and okv: "vs_ok vs VR {#}" and c: "current vs = Some c" "c \<in># VR"
    and rep: "files_rep vs (v_files (the_version vs c)) S" and inv: "env_inv env" and log: "logged vs env S X"
    and e: "edit_wf e" "\<not> has_comparator e" "edit_fresh X e"
    and cp: "length (compact_pointer vs) = kNumLevels" "\<forall>l < kNumLevels. length (compact_pointer vs ! l) < 2 ^ 32"
    and name: "length (Name (vs_user vs)) < 2 ^ 32"
  shows "\<exists>vs' env' es. LogAndApply MemEnvOps vs env e = (OK, vs', env', filled_edit vs e) \<and> described vs' env' (es @ [filled_edit vs e]) \<and>
    edits_ok (string_bytes (Name (vs_user vs))) (\<lambda>_. {}) (es @ [filled_edit vs e]) \<and>
    (\<forall>l < kNumLevels. foldl edit_step (\<lambda>_. {}) (es @ [filled_edit vs e]) l = edit_step S e l \<and> (\<Union>e \<in> set es. adds e l) = X l) \<and>
    vs_log_number vs' = log_number (filled_edit vs e) \<and> vs_prev_log_number vs' = prev_log_number (filled_edit vs e) \<and>
    vs_last_sequence vs' = vs_last_sequence vs \<and> vs_next_file_number vs' = vs_next_file_number vs \<and> vs_dbname vs' = vs_dbname vs"
proof -
  define e1 where "e1 = filled_edit vs e"
  obtain vs1 v where b: "build_version vs e1 = (vs1, v)" by fastforce
  have fr: "edit_fresh S e1" using logged_fresh [OF log e(3)] by (simp add: e1_def)
  note B = ikey_order.build_version_rep [OF ord refl okv c rep fr b]
  have f: "vs_user vs1 = vs_user vs" "descriptor vs1 = descriptor vs" "vs_dbname vs1 = vs_dbname vs" "manifest_file_number vs1 = manifest_file_number vs"
    "vs_last_sequence vs1 = vs_last_sequence vs" "vs_next_file_number vs1 = vs_next_file_number vs"
    "compact_pointer vs1 = foldl (\<lambda>cp (level, key). cp[level := key]) (compact_pointer vs) (compact_pointers e)"
    using B(7) by (simp_all add: others_def e1_def)
  have rep1: "files_rep vs1 (current_files vs1) S"
    using files_rep_version [OF rep okv c(2) B(3,1) c(2) f(1)] B(4) by simp
  have log1: "logged vs1 env S X"
    using log described_cong [of vs env _ vs1] f(1-4) unfolding logged_def by metis
  have cp1: "\<forall>l < kNumLevels. length (compact_pointer vs1 ! l) < 2 ^ 32"
    unfolding f(7) using compact_pointer_update_length [of "compact_pointers e" "2 ^ 32" "compact_pointer vs"] cp e(1) by (simp add: edit_wf_def)
  obtain es where es: "descriptor vs1 = None \<Longrightarrow> es = [snapshot_edit vs1]" "descriptor vs1 \<noteq> None \<Longrightarrow> described vs1 env es"
    "edits_ok (string_bytes (Name (vs_user vs))) (\<lambda>_. {}) es" "\<forall>l < kNumLevels. foldl edit_step (\<lambda>_. {}) es l = S l"
    "\<forall>l < kNumLevels. (\<Union>e \<in> set es. adds e l) = X l"
    using logged_edits [OF _ rep1 log1 cp1] ord name unfolding f(1) by blast
  obtain d env' where l: "log_step MemEnvOps vs1 env e1 = (OK, vs1\<lparr>descriptor := Some d\<rparr>, env')" "described (vs1\<lparr>descriptor := Some d\<rparr>) env' (es @ [e1])"
    using described_log_step [OF inv es(1,2)] by blast
  define vs2 where "vs2 = vs1\<lparr>descriptor := Some d\<rparr>"
  define vs' where "vs' = (AppendVersion vs2 v)\<lparr>vs_log_number := log_number e1, vs_prev_log_number := prev_log_number e1\<rparr>"
  have r: "LogAndApply MemEnvOps vs env e = (OK, vs', env', e1)"
    unfolding LogAndApply_eq Let_def e1_def [symmetric] b prod.case l(1) by (simp add: ok_def vs'_def vs2_def)
  have ok2: "vs_ok vs2 VR ({#} + mset (concat (v_files v)))" "current vs2 = Some c" using B(1,4) by (simp_all add: vs2_def)
  note A = AppendVersion_ok [OF ok2(1) B(5,6) ok2(2) c(2)]
  have f': "descriptor vs' = descriptor vs2" "vs_dbname vs' = vs_dbname vs" "manifest_file_number vs' = manifest_file_number vs2"
    "vs_last_sequence vs' = vs_last_sequence vs" "vs_next_file_number vs' = vs_next_file_number vs"
    using A(5) f by (simp_all add: vs'_def others_def vs2_def)
  have "described vs' env' (es @ [e1])"
    by (rule described_cong [OF l(2)]) (use f f' in \<open>simp_all add: vs2_def\<close>)
  moreover have "edits_ok (string_bytes (Name (vs_user vs))) (\<lambda>_. {}) (es @ [e1])"
    using es(3,5) filled_edit_wf [OF e(1), of vs] e(2,3) edit_fresh_mono [of X e "\<lambda>l. {} \<union> (\<Union>e \<in> set es. adds e l)"]
    by (simp add: edits_ok_snoc e1_def [symmetric]) (simp add: e1_def)
  moreover have "\<forall>l < kNumLevels. foldl edit_step (\<lambda>_. {}) (es @ [e1]) l = edit_step S e l"
    using es(4) by (simp add: e1_def) (simp add: edit_step_def)
  moreover have "vs_log_number vs' = log_number e1" "vs_prev_log_number vs' = prev_log_number e1" by (simp_all add: vs'_def)
  ultimately show ?thesis using r f'(2,4,5) es(5) unfolding e1_def [symmetric]
    by (intro exI [of _ vs'] exI [of _ env'] exI [of _ es]) blast
qed


text \<open>C4: In the environment in memory, an edit that is applied to a version set, whose descriptor log is new or holds
  the edits so far, is logged without error, and the log then holds it; a version set that recovers from the files that are left has a
  current version with the same files in the same order in every level, the same log numbers and the same last
  sequence number, provided that keys are shorter than 4 GB, that levels are in range and that no number is used
  twice in a level.\<close>

theorem LogAndApply_recovers:
  assumes "ikey_order (vs_user vs)" "vs_ok vs VR {#}" "current vs = Some c" "c \<in># VR"
    and "files_rep vs (v_files (the_version vs c)) S" "env_inv env" "logged vs env S X"
    and "edit_wf e" "\<not> has_comparator e" "edit_fresh X e"
    and "length (compact_pointer vs) = kNumLevels" "\<forall>l < kNumLevels. length (compact_pointer vs ! l) < 2 ^ 32"
    and "length (Name (vs_user vs)) < 2 ^ 32"
  shows "\<exists>vs' env' e' vr env''. LogAndApply MemEnvOps vs env e = (OK, vs', env', e') \<and> logged vs' env' (edit_step S e) (\<lambda>l. X l \<union> adds e l) \<and>
    VersionSet_Recover (VersionSet_new (vs_dbname vs) (vs_user vs)) env' = Some (OK, vr, env'') \<and>
    map (map (info_at vr)) (current_files vr) = map (map (info_at vs')) (current_files vs') \<and>
    vs_log_number vr = vs_log_number vs' \<and> vs_prev_log_number vr = vs_prev_log_number vs' \<and>
    vs_last_sequence vr = vs_last_sequence vs' \<and> manifest_file_number vr = vs_next_file_number vs'"
proof -
  let ?e = "filled_edit vs e"
  obtain vs' env' es where L: "LogAndApply MemEnvOps vs env e = (OK, vs', env', ?e)" "described vs' env' (es @ [?e])"
    "edits_ok (string_bytes (Name (vs_user vs))) (\<lambda>_. {}) (es @ [?e])"
    "\<forall>l < kNumLevels. foldl edit_step (\<lambda>_. {}) (es @ [?e]) l = edit_step S e l \<and> (\<Union>e \<in> set es. adds e l) = X l"
    "vs_log_number vs' = log_number ?e" "vs_prev_log_number vs' = prev_log_number ?e"
    "vs_last_sequence vs' = vs_last_sequence vs" "vs_next_file_number vs' = vs_next_file_number vs" "vs_dbname vs' = vs_dbname vs"
    using LogAndApply_logs [OF assms] by auto
  note F = filled_edit_wf [OF assms(8), of vs]
  note A = LogAndApply_result [OF assms(1-5) logged_fresh [OF assms(7,10)] L(1)]
  have u: "vs_user vs' = vs_user vs" by (rule A(4))
  have "vs_ok vs' (add_mset (next_version vs) (VR - {#c#})) {#}" and rep': "files_rep vs' (current_files vs') (edit_step S e)"
    using A(1) by (simp_all add: ok_def)
  have inv': "env_inv env'" using L(2) by (auto simp: described_def manifest_def opened_file_def)
  obtain vr env'' where R: "VersionSet_Recover (VersionSet_new (vs_dbname vs) (vs_user vs)) env' = Some (OK, vr, env'')"
    "files_rep vr (current_files vr) (foldl edit_step (\<lambda>_. {}) (es @ [?e]))" "vs_user vr = vs_user vs" "manifest_file_number vr = vs_next_file_number vs"
    "vs_last_sequence vr = vs_last_sequence vs" "vs_log_number vr = log_number ?e" "vs_prev_log_number vr = prev_log_number ?e"
    using Recover_described [of vs' env' es ?e] assms(1) inv' L(2,3,9) F(2,5,6) u by auto
  have "files_rep vr (current_files vr) (edit_step S e)" using files_rep_levels [OF R(2)] L(4) by simp
  then have "map (map (info_at vr)) (current_files vr) = map (map (info_at vs')) (current_files vs')"
    using files_rep_unique [OF assms(1) R(3) u _ rep'] by blast
  moreover have "logged vs' env' (edit_step S e) (\<lambda>l. X l \<union> adds e l)"
  proof -
    have "descriptor vs' \<noteq> None" using L(2) by (auto simp: described_def manifest_def)
    moreover have "\<forall>l < kNumLevels. (\<Union>e \<in> set (es @ [?e]). adds e l) = X l \<union> adds e l" using L(4) F(7) by auto
    ultimately show ?thesis using L(2,3) L(4) [THEN spec, THEN mp, THEN conjunct1] unfolding logged_def u
      by (simp only: if_False) blast
  qed
  ultimately show ?thesis using L(1,5-8) R(1,4-7) by auto
qed

definition first_edit :: VersionEdit where
  "first_edit = AddFile 1 7 100 (InternalKey [1] 5 kTypeValue) (InternalKey [2] 4 kTypeValue) VersionEdit_new"

theorem LogAndApply_recovers_witness:
  "\<exists>vs env e vr env'. LogAndApply MemEnvOps (VersionSet_new ''/db'' BytewiseComparator) NewMemEnv first_edit = (OK, vs, env, e) \<and>
    VersionSet_Recover (VersionSet_new ''/db'' BytewiseComparator) env = Some (OK, vr, env') \<and>
    map (map (info_at vr)) (current_files vr) = map (map (info_at vs)) (current_files vs)"
proof -
  let ?vs = "VersionSet_new ''/db'' BytewiseComparator"
  note new = VersionSet_new_ok [of "''/db''" BytewiseComparator]
  have "built_edit first_edit" unfolding first_edit_def by (intro built_edit.intros) (simp_all add: kNumLevels_def InternalKey_eq)
  then have "edit_wf first_edit" by (rule built_edit_wf)
  moreover have "edit_fresh (\<lambda>_. {}) first_edit" "\<not> has_comparator first_edit"
    by (simp_all add: first_edit_def edit_fresh_def AddFile_def VersionEdit_new_def VersionEdit_Clear_def kNumLevels_def info_valid_def file_info_def)
  moreover have "logged ?vs NewMemEnv (\<lambda>_. {}) (\<lambda>_. {})" "length (compact_pointer ?vs) = kNumLevels"
    "\<forall>l < kNumLevels. length (compact_pointer ?vs ! l) < 2 ^ 32" "vs_dbname ?vs = ''/db''"
    by (simp_all add: logged_def VersionSet_new_def AppendVersion_def Version_Ref_def Let_def)
  moreover have "length (Name BytewiseComparator) < 2 ^ 32" by (simp add: BytewiseComparator_def)
  ultimately show ?thesis
    using LogAndApply_recovers [of ?vs "{#0#}" 0 "\<lambda>_. {}" NewMemEnv "\<lambda>_. {}" first_edit] new bytewise_ikey.ikey_order_axioms env_inv_new by auto
qed

end
