(* ===== verification/Version_Steps.thy ===== *)
theory Version_Steps
  imports Version_Apply
begin

text \<open>
  Sequences of operations on a version set whose clients, such as iterators, reads and compactions,
  hold references to versions.
\<close>

text \<open>\<open>H\<close> are the references that clients hold.  An edit is applied in any state of the environment, so each of the
  operations on the descriptor log may succeed or fail, whatever happened before.\<close>

inductive vs_reachable :: "'e EnvOps \<Rightarrow> string \<Rightarrow> Comparator \<Rightarrow> VersionSet \<Rightarrow> nat multiset \<Rightarrow> bool" for ops dbname user where
  new: "vs_reachable ops dbname user (VersionSet_new dbname user) {#}"
| log_and_apply: "vs_reachable ops dbname user vs H \<Longrightarrow> files_rep vs (current_files vs) S \<Longrightarrow> edit_fresh S e \<Longrightarrow>
    LogAndApply ops vs env e = (s, vs', env', e') \<Longrightarrow> vs_reachable ops dbname user vs' H"
| ref: "vs_reachable ops dbname user vs H \<Longrightarrow> current vs = Some c \<Longrightarrow> vs_reachable ops dbname user (Version_Ref vs c) (add_mset c H)"
| unref: "vs_reachable ops dbname user vs H \<Longrightarrow> v \<in># H \<Longrightarrow> vs_reachable ops dbname user (Version_Unref vs v) (H - {#v#})"
| update_stats: "vs_reachable ops dbname user vs H \<Longrightarrow> v \<in># H \<Longrightarrow> f \<in> set (v_files (the_version vs v) ! l) \<Longrightarrow> l < kNumLevels \<Longrightarrow>
    UpdateStats vs v (Some (f, l)) = (b, vs') \<Longrightarrow> vs_reachable ops dbname user vs' H"
| new_file_number: "vs_reachable ops dbname user vs H \<Longrightarrow> NewFileNumber vs = (n, vs') \<Longrightarrow> vs_reachable ops dbname user vs' H"
| set_last_sequence: "vs_reachable ops dbname user vs H \<Longrightarrow> vs_reachable ops dbname user (VersionSet_SetLastSequence vs q) H"

text \<open>References are counted exactly, and the files of every version that is left are in order.\<close>

definition all_rep :: "VersionSet \<Rightarrow> nat multiset \<Rightarrow> bool" where
  "all_rep vs VR \<longleftrightarrow> vs_ok vs VR {#} \<and> (\<forall>v \<in># VR. \<exists>S. files_rep vs (v_files (the_version vs v)) S)"

lemma all_rep_fields [simp]:
  "all_rep (vs\<lparr>vs_next_file_number := n\<rparr>) VR = all_rep vs VR" "all_rep (vs\<lparr>vs_last_sequence := q\<rparr>) VR = all_rep vs VR"
proof -
  have "files_rep (vs\<lparr>vs_next_file_number := n\<rparr>) = files_rep vs" "files_rep (vs\<lparr>vs_last_sequence := q\<rparr>) = files_rep vs"
    by (simp_all add: fun_eq_iff)
  then show "all_rep (vs\<lparr>vs_next_file_number := n\<rparr>) VR = all_rep vs VR" "all_rep (vs\<lparr>vs_last_sequence := q\<rparr>) VR = all_rep vs VR"
    by (simp_all add: all_rep_def)
qed

lemma all_rep_step:
  assumes "all_rep vs VR" "vs_ok vs' VR' {#}" "keeps vs vs'" "vs_user vs' = vs_user vs"
    "\<forall>v \<in># VR'. v \<in># VR \<or> (\<exists>S. files_rep vs' (v_files (the_version vs' v)) S)"
  shows "all_rep vs' VR'"
  unfolding all_rep_def
proof (intro conjI ballI)
  show "vs_ok vs' VR' {#}" by (rule assms(2))
  fix v assume v: "v \<in># VR'"
  show "\<exists>S. files_rep vs' (v_files (the_version vs' v)) S"
  proof (cases "v \<in># VR")
    case True
    then obtain S where "files_rep vs (v_files (the_version vs v)) S" using assms(1) by (auto simp: all_rep_def)
    then show ?thesis using files_rep_version [OF _ _ True assms(3,2) v assms(4)] assms(1) by (auto simp: all_rep_def)
  qed (use assms(5) v in blast)
qed

lemma UpdateStats_ok:
  assumes "vs_ok vs VR R" "v \<in># VR" "f \<in> dom (metas vs)" "UpdateStats vs v (Some (f, l)) = (b, vs')"
  shows "vs_ok vs' VR R" "keeps vs vs'" "others vs' = others vs" "current vs' = current vs" "dom (metas vs') = dom (metas vs)"
proof -
  obtain m where m: "metas vs f = Some m" using assms(3) by blast
  have vok: "versions_ok vs VR" and mok: "metas_ok vs R" using assms(1) by (simp_all add: vs_ok_def)
  obtain ver where ver: "versions vs v = Some ver" using vs_ok_files(2) [OF assms(1,2)] by blast
  let ?m = "m\<lparr>allowed_seeks := allowed_seeks m - 1\<rparr>"
  let ?vs = "vs\<lparr>metas := (metas vs)(f \<mapsto> ?m)\<rparr>"
  let ?w = "?vs\<lparr>versions := (versions ?vs)(v \<mapsto> ver\<lparr>file_to_compact := Some (f, l)\<rparr>)\<rparr>"
  have cases: "vs' = ?vs \<or> vs' = ?w"
    using assms(4) m ver by (auto simp: UpdateStats_def Let_def split: if_splits)
  have dm: "dom (metas ?vs) = dom (metas vs)" using m by auto
  have "fm_refs (the_meta ?vs x) = fm_refs (the_meta vs x)" for x using m by simp
  then have "metas_ok ?vs R" using mok unfolding metas_ok_def dm file_refs_metas by simp
  moreover have "versions_ok ?vs VR" using vok by (simp add: versions_ok_def)
  ultimately have k: "vs_ok ?vs VR R" by (simp add: vs_ok_def)
  have fr: "file_refs ?w = file_refs ?vs" by (rule file_refs_version [of ?vs v ver]) (simp_all add: ver)
  have "metas_ok ?w R" using \<open>metas_ok ?vs R\<close> fr by (simp add: metas_ok_def)
  moreover have "versions_ok ?w VR"
  proof -
    have "dom (versions ?w) = dom (versions vs)" using ver by auto
    then show ?thesis using vok ver unfolding versions_ok_def by auto
  qed
  ultimately have "vs_ok ?w VR R" by (simp add: vs_ok_def)
  with k cases show "vs_ok vs' VR R" by blast
  show "others vs' = others vs" "current vs' = current vs" "dom (metas vs') = dom (metas vs)" using cases dm by (auto simp: others_def)
  have "file_info (the_meta vs' x) = file_info (the_meta vs x)" "v_files (the_version vs' u) = v_files (the_version vs u)" for x u
    using cases m ver by (auto simp: file_info_def)
  then show "keeps vs vs'" by (simp add: keeps_def keeps_files_def)
qed

lemma reachable_inv:
  assumes "vs_reachable ops dbname user vs H" "ikey_order user"
  shows "vs_user vs = user \<and> (\<exists>c. current vs = Some c \<and> all_rep vs (add_mset c H))"
  using assms
proof (induction rule: vs_reachable.induct)
  case new
  then show ?case using VersionSet_new_ok [of dbname user] by (auto simp: all_rep_def)
next
  case (log_and_apply vs H S e env s vs' env' e')
  then obtain c where c: "vs_user vs = user" "current vs = Some c" "all_rep vs (add_mset c H)" by blast
  have k: "vs_ok vs (add_mset c H) {#}" using c(3) by (simp add: all_rep_def)
  have rep: "files_rep vs (v_files (the_version vs c)) S" using log_and_apply.hyps(2) c(2) by simp
  have cin: "c \<in># add_mset c H" by simp
  have ord: "ikey_order (vs_user vs)" using c(1) log_and_apply.prems by simp
  note L = LogAndApply_result [OF ord k c(2) cin rep log_and_apply.hyps(3,4)]
  show ?case
  proof (cases "ok s")
    case True
    then have v: "vs_ok vs' (add_mset (next_version vs) H) {#}" "current vs' = Some (next_version vs)"
      "files_rep vs' (v_files (the_version vs' (next_version vs))) (edit_step S e)" using L(1) by simp_all
    have "all_rep vs' (add_mset (next_version vs) H)"
      by (rule all_rep_step [OF c(3) v(1) L(3,4)]) (use v(3) in auto)
    then show ?thesis using v(2) L(4) c(1) by blast
  next
    case False
    then have v: "vs_ok vs' (add_mset c H) {#}" "current vs' = Some c" using L(2) by simp_all
    have "all_rep vs' (add_mset c H)" by (rule all_rep_step [OF c(3) v(1) L(3,4)]) blast
    then show ?thesis using v(2) L(4) c(1) by blast
  qed
next
  case (ref vs H c)
  then have c: "vs_user vs = user" "all_rep vs (add_mset c H)" by auto
  have k: "vs_ok vs (add_mset c H) {#}" using c(2) by (simp add: all_rep_def)
  have "versions vs c \<noteq> None" using vs_ok_files(2) [OF k, of c] by auto
  note R = Version_Ref_ok [OF k vs_ok_files(2) [OF k, of c]]
  have u: "vs_user (Version_Ref vs c) = vs_user vs" using R(4) by (simp add: others_def)
  have "all_rep (Version_Ref vs c) (add_mset c (add_mset c H))"
    by (rule all_rep_step [OF c(2) R(1,2) u]) simp_all
  then show ?case using R(5) ref.hyps(2) u c(1) by simp
next
  case (unref vs H v)
  then obtain c where c: "vs_user vs = user" "current vs = Some c" "all_rep vs (add_mset c H)" by blast
  have k: "vs_ok vs (add_mset c H) {#}" using c(3) by (simp add: all_rep_def)
  have vin: "v \<in># add_mset c H" using unref.hyps(2) by simp
  note U = Version_Unref_ok [OF k vin]
  have eq: "add_mset c H - {#v#} = add_mset c (H - {#v#})" using unref.hyps(2) by simp
  have u: "vs_user (Version_Unref vs v) = vs_user vs" using U(3) by (simp add: others_def)
  have "all_rep (Version_Unref vs v) (add_mset c (H - {#v#}))"
    by (rule all_rep_step [OF c(3) U(1) [unfolded eq] U(2) u]) (auto dest: in_diffD)
  then show ?case using U(4) c(1,2) u by simp
next
  case (update_stats vs H v f l b vs')
  then obtain c where c: "vs_user vs = user" "current vs = Some c" "all_rep vs (add_mset c H)" by blast
  have k: "vs_ok vs (add_mset c H) {#}" using c(3) by (simp add: all_rep_def)
  have vin: "v \<in># add_mset c H" using update_stats.hyps(2) by simp
  have "length (v_files (the_version vs v)) = kNumLevels" using k vin by (auto simp: vs_ok_def versions_ok_def)
  then have "v_files (the_version vs v) ! l \<in> set (v_files (the_version vs v))" using update_stats.hyps(4) by simp
  then have "f \<in> set (concat (v_files (the_version vs v)))" using update_stats.hyps(3) by auto
  then have f: "f \<in> dom (metas vs)" using vs_ok_files(1) [OF k vin] by blast
  note U = UpdateStats_ok [OF k vin f update_stats.hyps(5)]
  have u: "vs_user vs' = vs_user vs" using U(3) by (simp add: others_def)
  have "all_rep vs' (add_mset c H)" by (rule all_rep_step [OF c(3) U(1,2) u]) blast
  then show ?case using U(4) c(1,2) u by simp
next
  case (new_file_number vs H n vs')
  then show ?case by (auto simp: NewFileNumber_def)
next
  case (set_last_sequence vs H q)
  then show ?case by (auto simp: VersionSet_SetLastSequence_def)
qed



text \<open>C5: Edits are applied one after another, each with files that have valid keys and, within a level, numbers that the
  current version does not use, and any operation of the environment, such as making, appending to or renaming a
  file, may fail in between, so that the version of an edit is installed or given up; clients take and drop references
  to versions between the edits.  The version set then keeps exactly the current version and those that a client
  holds; the files of each of them, and no others, are in the store, each with as many references as there are
  versions with it, and each is among the files that \<open>AddLiveFiles\<close> lists; every level of every one of these
  versions, also of those that only clients hold, is in order of the smallest keys.\<close>

theorem versions_live:
  assumes "vs_reachable ops dbname user vs H" "ikey_order user"
  shows "\<exists>c. current vs = Some c \<and> set (version_list vs) = insert c (set_mset H) \<and> dom (versions vs) = insert c (set_mset H) \<and>
    dom (metas vs) = (\<Union>v \<in> dom (versions vs). set (concat (v_files (the_version vs v)))) \<and>
    (\<forall>v \<in> dom (versions vs). \<forall>f \<in> set (concat (v_files (the_version vs v))). \<exists>m. metas vs f = Some m \<and>
       fm_refs m = int (count (\<Sum>v \<in> dom (versions vs). mset (concat (v_files (the_version vs v)))) f) \<and> fm_number m \<in> AddLiveFiles vs) \<and>
    (\<forall>v \<in> dom (versions vs). \<forall>l < kNumLevels.
       sorted_wrt (\<lambda>x y. BySmallestKey user (the_meta vs x) (the_meta vs y)) (v_files (the_version vs v) ! l))"
proof -
  obtain c where c: "vs_user vs = user" "current vs = Some c" "all_rep vs (add_mset c H)" using reachable_inv [OF assms] by blast
  have k: "vs_ok vs (add_mset c H) {#}" using c(3) by (simp add: all_rep_def)
  have d: "dom (versions vs) = insert c (set_mset H)" "set (version_list vs) = dom (versions vs)"
    using k by (simp_all add: vs_ok_def versions_ok_def)
  have dm: "dom (metas vs) = (\<Union>v \<in> dom (versions vs). set (concat (v_files (the_version vs v))))"
  proof -
    have "finite (dom (versions vs))" using d(1) by simp
    moreover have "dom (metas vs) = set_mset (file_refs vs)" using k by (simp add: vs_ok_def metas_ok_def)
    ultimately show ?thesis by (simp add: file_refs_def set_mset_sum)
  qed
  have "\<exists>m. metas vs f = Some m \<and> fm_refs m = int (count (\<Sum>v \<in> dom (versions vs). mset (concat (v_files (the_version vs v)))) f) \<and>
      fm_number m \<in> AddLiveFiles vs" if v: "v \<in> dom (versions vs)" and f: "f \<in> set (concat (v_files (the_version vs v)))" for v f
  proof -
    have fm: "f \<in> dom (metas vs)" using dm v f by blast
    then obtain m where m: "metas vs f = Some m" by blast
    have "fm_refs (the_meta vs f) = int (count (file_refs vs) f)" using k fm by (simp add: vs_ok_def metas_ok_def)
    moreover have "fm_number m \<in> AddLiveFiles vs"
    proof -
      have "fm_number (the_meta vs f) \<in> set (map (\<lambda>f. fm_number (the_meta vs f)) (concat (v_files (the_version vs v))))" using f by simp
      moreover have "v \<in> set (version_list vs)" using v d(2) by simp
      ultimately show ?thesis using m unfolding AddLiveFiles_def by force
    qed
    ultimately show ?thesis using m by (simp add: file_refs_def)
  qed
  moreover have "sorted_wrt (\<lambda>x y. BySmallestKey user (the_meta vs x) (the_meta vs y)) (v_files (the_version vs v) ! l)"
    if "v \<in> dom (versions vs)" "l < kNumLevels" for v l
  proof -
    have "v \<in># add_mset c H" using that(1) d(1) by simp
    then obtain S where "files_rep vs (v_files (the_version vs v)) S" using c(3) unfolding all_rep_def by blast
    then show ?thesis using c(1) that(2) by (simp add: files_rep_def BySmallestKey_info)
  qed
  ultimately show ?thesis using c(2) d dm by (intro exI [of _ c] conjI ballI allI impI) simp_all
qed

text \<open>A device that holds one log and may be full.\<close>

definition DeviceOps :: "(bytes \<times> bool) EnvOps" where
  "DeviceOps =
     \<lparr>env_NewWritableFile = (\<lambda>e fname. if snd e then (IOError fname ''No space left on device'', None, e) else (OK, Some 0, e)),
      env_DeleteFile = (\<lambda>e fname. (OK, e)), env_RenameFile = (\<lambda>e src target. (OK, e)),
      env_file = \<lparr>wf_Append = (\<lambda>w data. if snd (fst w) then (IOError ''log'' ''No space left on device'', w)
                     else (OK, ((fst (fst w) @ data, snd (fst w)), snd w))),
                  wf_Flush = (\<lambda>w. (OK, w)), wf_Sync = (\<lambda>w. (OK, w)), wf_Close = (\<lambda>w. (OK, w))\<rparr>,
      env_delete_file = (\<lambda>e a. e)\<rparr>"

interpretation device: writable_file "env_file DeviceOps" "\<lambda>w. fst (fst w)" "\<lambda>w. \<not> snd (fst w)"
  by unfold_locales (auto simp: DeviceOps_def)

lemma device_full:
  assumes "descriptor vs = None"
  shows "\<not> ok (fst (log_step DeviceOps vs (b, True) e))"
  using assms by (simp add: log_step_def new_descriptor_def DeviceOps_def IOError_def mk_status_def Let_def ok_def)

lemma device_logs:
  assumes "descriptor vs = None"
  shows "ok (fst (log_step DeviceOps vs (b, False) e))"
proof -
  let ?r = "VersionEdit_EncodeTo (snapshot_edit vs) []" and ?r' = "VersionEdit_EncodeTo e []"
  from device.AddRecord_loop_appends [of "Writer_new ((b, False), 0)" True ?r]
  obtain w where w: "AddRecord (env_file DeviceOps) (Writer_new ((b, False), 0)) ?r = (OK, w)" "device.writing w"
    using device.writing_new [of "((b, False), 0)"] by (auto simp: AddRecord_def)
  let ?d = "(snd (dest w), block_offset w, type_crc w)"
  have ow: "open_writer (fst (dest w)) ?d = w" by (simp add: open_writer_def)
  from device.AddRecord_loop_appends [OF w(2), of True ?r']
  obtain w' where w': "AddRecord (env_file DeviceOps) w ?r' = (OK, w')" "device.writing w'" by (auto simp: AddRecord_def)
  have full: "\<not> snd (fst (dest w'))" using w'(2) by (simp add: device.writing_def)
  have "new_descriptor DeviceOps vs (b, False) = (OK, vs\<lparr>descriptor := Some ?d\<rparr>, fst (dest w))"
    using w(1) by (simp add: new_descriptor_def WriteSnapshot_def close_writer_def DeviceOps_def ok_def Let_def)
  moreover have "log_edit DeviceOps (vs\<lparr>descriptor := Some ?d\<rparr>) (fst (dest w)) e =
      (OK, vs\<lparr>descriptor := Some (snd (dest w'), block_offset w', type_crc w')\<rparr>, fst (dest w'))"
    using w'(1) ow by (simp add: log_edit_def close_writer_def ok_def Let_def) (simp add: DeviceOps_def)
  moreover obtain s env where "SetCurrentFile DeviceOps (fst (dest w')) (vs_dbname vs) (manifest_file_number vs) = (s, env)" by (rule prod.exhaust)
  moreover have "ok (fst (SetCurrentFile DeviceOps (fst (dest w')) (vs_dbname vs) (manifest_file_number vs)))"
    using full by (simp add: SetCurrentFile_def WriteStringToFile_def DeviceOps_def ok_def Let_def)
  ultimately show ?thesis using assms by (simp add: log_step_def ok_def Let_def)
qed

text \<open>An edit that cannot be logged and then is, while a client holds the first version.\<close>

definition one_file_edit :: VersionEdit where
  "one_file_edit = AddFile 1 7 100 (InternalKey [1] 5 kTypeValue) (InternalKey [2] 4 kTypeValue) VersionEdit_new"

lemma one_file_edit_fresh: "edit_fresh (\<lambda>_. {}) one_file_edit" "edit_step (\<lambda>_. {}) one_file_edit 1 \<noteq> {}"
  by (simp_all add: one_file_edit_def edit_fresh_def edit_step_def adds_def AddFile_def VersionEdit_new_def VersionEdit_Clear_def kNumLevels_def
      info_valid_def file_info_def)

lemma LogAndApply_status:
  assumes "build_version vs (filled_edit vs e) = (vs1, v)" "LogAndApply ops vs env e = (s, vs', env', e')"
  shows "s = fst (log_step ops vs1 env (filled_edit vs e))" "\<not> ok s \<Longrightarrow> descriptor vs1 = None \<Longrightarrow> descriptor vs' = None"
    "\<not> ok s \<Longrightarrow> next_version vs' = next_version vs1"
proof -
  obtain s2 vs2 env2 where l: "log_step ops vs1 env (filled_edit vs e) = (s2, vs2, env2)" by (metis prod_cases3)
  have n: "next_version (foldl file_unref vs2 fs) = next_version vs1" for fs
  proof -
    have "others (foldl file_unref vs2 fs) = others vs2" by simp
    moreover obtain d where "vs2 = vs1\<lparr>descriptor := d\<rparr>" using log_step_frame [OF l] by blast
    ultimately show ?thesis by (simp add: others_def)
  qed
  show "s = fst (log_step ops vs1 env (filled_edit vs e))" "\<not> ok s \<Longrightarrow> descriptor vs1 = None \<Longrightarrow> descriptor vs' = None"
    "\<not> ok s \<Longrightarrow> next_version vs' = next_version vs1"
    using assms n by (auto simp: LogAndApply_eq Let_def l split: if_splits)
qed

lemma build_version_descriptor:
  assumes "ikey_order (vs_user vs)" "vs_ok vs VR {#}" "current vs = Some c" "c \<in># VR" "files_rep vs (v_files (the_version vs c)) S" "edit_fresh S e"
    "build_version vs (filled_edit vs e) = (vs1, v)"
  shows "descriptor vs1 = descriptor vs \<and> next_version vs1 = next_version vs"
  using ikey_order.build_version_rep(7) [OF assms(1) refl assms(2-5) _ assms(7)] assms(6) by (simp add: others_def)

lemma device_run:
  obtains s vs1 env1 e1 vs2 env2 e2 where
    "LogAndApply DeviceOps (Version_Ref (VersionSet_new ''/db'' BytewiseComparator) 0) ([], True) one_file_edit = (s, vs1, env1, e1)" "\<not> ok s"
    "LogAndApply DeviceOps vs1 ([], False) one_file_edit = (OK, vs2, env2, e2)"
    "vs_reachable DeviceOps ''/db'' BytewiseComparator vs1 {#0#}" "vs_reachable DeviceOps ''/db'' BytewiseComparator vs2 {#0#}"
    "files_rep vs1 (current_files vs1) (\<lambda>_. {})" "current vs2 = Some 1" "dom (metas vs2) \<noteq> {}"
proof -
  let ?R = "vs_reachable DeviceOps ''/db'' BytewiseComparator" and ?n = "VersionSet_new ''/db'' BytewiseComparator"
  note new = VersionSet_new_ok [of "''/db''" BytewiseComparator]
  let ?v = "Version_Ref ?n 0"
  have r0: "?R ?v {#0#}" by (rule vs_reachable.ref [OF vs_reachable.new new(2)])
  note ref = Version_Ref_ok [OF new(1) vs_ok_files(2) [OF new(1), of 0]]
  have ok0: "vs_ok ?v {#0, 0#} {#}" using ref(1) by simp
  have c0: "current ?v = Some 0" "vs_user ?v = BytewiseComparator" using ref(4,5) new(2,4) by (simp_all add: others_def)
  have rep0: "files_rep ?v (v_files (the_version ?v 0)) (\<lambda>_. {})"
    by (rule files_rep_version [OF new(3,1) _ ref(2) ok0]) (use c0(2) new(4) in simp_all)
  have d0: "descriptor ?v = None" "next_version ?v = 1" by (simp_all add: VersionSet_new_def AppendVersion_def Version_Ref_def Let_def)
  have ord: "ikey_order (vs_user ?v)" using c0(2) bytewise_ikey.ikey_order_axioms by simp
  obtain s vs1 env1 e1 where l1: "LogAndApply DeviceOps ?v ([], True) one_file_edit = (s, vs1, env1, e1)" by (metis prod_cases4)
  obtain vb v where b: "build_version ?v (filled_edit ?v one_file_edit) = (vb, v)" by (rule prod.exhaust)
  have db: "descriptor vb = None" "next_version vb = 1"
    using build_version_descriptor [OF ord ok0 c0(1) _ rep0 one_file_edit_fresh(1) b] d0 by simp_all
  have fail: "\<not> ok s" "descriptor vs1 = None" "next_version vs1 = 1"
    using LogAndApply_status [OF b l1] device_full [OF db(1)] db by simp_all
  note L = LogAndApply_result [OF ord ok0 c0(1) _ rep0 one_file_edit_fresh(1) l1]
  have s1: "vs_ok vs1 {#0, 0#} {#}" "current vs1 = Some 0" "keeps ?v vs1" "vs_user vs1 = vs_user ?v" using L fail(1) by auto
  have rep1: "files_rep vs1 (v_files (the_version vs1 0)) (\<lambda>_. {})"
    by (rule files_rep_version [OF rep0 ok0 _ s1(3,1) _ s1(4)]) simp_all
  have r1: "?R vs1 {#0#}" by (rule vs_reachable.log_and_apply [OF r0 _ one_file_edit_fresh(1) l1]) (use rep0 c0(1) in simp)
  obtain s2 vs2 env2 e2 where l2: "LogAndApply DeviceOps vs1 ([], False) one_file_edit = (s2, vs2, env2, e2)" by (metis prod_cases4)
  have ord1: "ikey_order (vs_user vs1)" using ord s1(4) by simp
  obtain vb1 v1 where b1: "build_version vs1 (filled_edit vs1 one_file_edit) = (vb1, v1)" by (rule prod.exhaust)
  have "descriptor vb1 = None"
    using build_version_descriptor [OF ord1 s1(1,2) _ rep1 one_file_edit_fresh(1) b1] fail(2) by simp
  then have ok2: "ok s2" using LogAndApply_status(1) [OF b1 l2] device_logs by simp
  note L2 = LogAndApply_result [OF ord1 s1(1,2) _ rep1 one_file_edit_fresh(1) l2]
  have r2: "?R vs2 {#0#}" by (rule vs_reachable.log_and_apply [OF r1 _ one_file_edit_fresh(1) l2]) (use rep1 s1(2) in simp)
  have c2: "current vs2 = Some (next_version vs1)" "files_rep vs2 (v_files (the_version vs2 (next_version vs1))) (edit_step (\<lambda>_. {}) one_file_edit)"
    using L2(1) ok2 by simp_all
  have "dom (metas vs2) \<noteq> {}"
    using c2(2) one_file_edit_fresh(2) unfolding files_rep_def by (auto simp: kNumLevels_def dest: spec [of _ 1])
  moreover have "files_rep vs1 (current_files vs1) (\<lambda>_. {})" using rep1 s1(2) by simp
  ultimately show ?thesis using that [OF l1 fail(1) _ r1 r2] l2 ok2 c2(1) fail(3) by (simp add: ok_def)
qed

theorem versions_live_witness:
  "\<exists>s vs1 env1 e1 vs2 env2 e2. LogAndApply DeviceOps (Version_Ref (VersionSet_new ''/db'' BytewiseComparator) 0) ([], True) one_file_edit = (s, vs1, env1, e1) \<and>
     \<not> ok s \<and> LogAndApply DeviceOps vs1 ([], False) one_file_edit = (OK, vs2, env2, e2) \<and>
     set (version_list vs2) = {0, 1} \<and> dom (metas vs2) \<noteq> {}"
proof -
  obtain s vs1 env1 e1 vs2 env2 e2 where r:
    "LogAndApply DeviceOps (Version_Ref (VersionSet_new ''/db'' BytewiseComparator) 0) ([], True) one_file_edit = (s, vs1, env1, e1)" "\<not> ok s"
    "LogAndApply DeviceOps vs1 ([], False) one_file_edit = (OK, vs2, env2, e2)"
    "vs_reachable DeviceOps ''/db'' BytewiseComparator vs2 {#0#}" "current vs2 = Some 1" "dom (metas vs2) \<noteq> {}"
    by (rule device_run)
  have "set (version_list vs2) = {0, 1}"
    using versions_live [OF r(4) bytewise_ikey.ikey_order_axioms] r(5) by auto
  then show ?thesis using r by blast
qed



end
