(* ===== verification/Compaction.thy ===== *)
theory Compaction
  imports Version_Apply
begin

text \<open>
  Compactions, \<open>db/version_set.cc\<close>: the choice of their input files, the state that a running
  compaction keeps, and the rule of \<open>db/db_impl.cc\<close> by which entries are dropped. Addresses of files are
  those of the store of the version set.
\<close>

subsection \<open>Ranges of files\<close>

definition GetOverlappingInputs :: "VersionSet \<Rightarrow> nat \<Rightarrow> bytes \<Rightarrow> bytes \<Rightarrow> nat list" where
  "GetOverlappingInputs vs level begin_key end_key =
     (let user_begin = ExtractUserKey begin_key; user_end = ExtractUserKey end_key
      in filter (\<lambda>a. let f = the_meta vs a in
           \<not> (Compare (vs_user vs) (ExtractUserKey (largest f)) user_begin < 0 \<or>
              Compare (vs_user vs) (ExtractUserKey (smallest f)) user_end > 0))
         (current_files vs ! level))"

fun extend_range :: "Comparator \<Rightarrow> bytes \<times> bytes \<Rightarrow> FileMetaData \<Rightarrow> bytes \<times> bytes" where
  "extend_range user (small, large) f =
     (if InternalKey_Compare user (smallest f) small < 0 then smallest f else small,
      if InternalKey_Compare user (largest f) large > 0 then largest f else large)"

definition GetRange :: "VersionSet \<Rightarrow> nat list \<Rightarrow> bytes \<times> bytes" where
  "GetRange vs inputs =
     (case map (the_meta vs) inputs of
        [] \<Rightarrow> ([], [])
      | f # fs \<Rightarrow> foldl (extend_range (vs_user vs)) (smallest f, largest f) fs)"

definition GetRange2 :: "VersionSet \<Rightarrow> nat list \<Rightarrow> nat list \<Rightarrow> bytes \<times> bytes" where
  "GetRange2 vs inputs1 inputs2 = GetRange vs (inputs1 @ inputs2)"

definition MaxNextLevelOverlappingBytes :: "VersionSet \<Rightarrow> int" where
  "MaxNextLevelOverlappingBytes vs =
     foldl (\<lambda>result (level, a).
         let f = the_meta vs a; sum = TotalFileSize (map (the_meta vs) (GetOverlappingInputs vs (level + 1) (smallest f) (largest f)))
         in if sum > result then sum else result)
       0 (concat (map (\<lambda>level. map (Pair level) (current_files vs ! level)) [1..<kNumLevels - 1]))"

subsection \<open>Compactions\<close>

record Compaction =
  c_level :: nat
  max_output_file_size :: uint64
  input_version :: "nat option"
  c_edit :: VersionEdit
  inputs0 :: "nat list"
  inputs1 :: "nat list"
  grandparents :: "nat list"
  grandparent_index :: nat
  seen_key :: bool
  overlapped_bytes :: uint64
  level_ptrs :: "nat list"

definition Compaction_new :: "nat \<Rightarrow> Compaction" where
  "Compaction_new level =
     \<lparr>c_level = level, max_output_file_size = MaxFileSizeForLevel level, input_version = None, c_edit = VersionEdit_new,
      inputs0 = [], inputs1 = [], grandparents = [], grandparent_index = 0, seen_key = False, overlapped_bytes = 0,
      level_ptrs = replicate kNumLevels 0\<rparr>"

text \<open>The inputs from the next level, and more inputs from this level if that takes no more from the next one.\<close>

definition SetupOtherInputs :: "VersionSet \<Rightarrow> Compaction \<Rightarrow> VersionSet \<times> Compaction" where
  "SetupOtherInputs vs c =
     (let level = c_level c;
          (small, large) = GetRange vs (inputs0 c);
          c = c\<lparr>inputs1 := GetOverlappingInputs vs (level + 1) small large\<rparr>;
          (all_start, all_limit) = GetRange2 vs (inputs0 c) (inputs1 c);
          expanded0 = GetOverlappingInputs vs level all_start all_limit;
          (new_start, new_limit) = GetRange vs expanded0;
          expanded1 = GetOverlappingInputs vs (level + 1) new_start new_limit;
          expand = (inputs1 c \<noteq> [] \<and> length expanded0 > length (inputs0 c) \<and> length expanded1 = length (inputs1 c));
          large = (if expand then new_limit else large);
          c = (if expand then c\<lparr>inputs0 := expanded0, inputs1 := expanded1\<rparr> else c);
          (all_start, all_limit) = (if expand then GetRange2 vs (inputs0 c) (inputs1 c) else (all_start, all_limit));
          c = (if level + 2 < kNumLevels then c\<lparr>grandparents := GetOverlappingInputs vs (level + 2) all_start all_limit\<rparr> else c)
      in (vs\<lparr>compact_pointer := (compact_pointer vs)[level := large]\<rparr>, c\<lparr>c_edit := SetCompactPointer level large (c_edit c)\<rparr>))"

text \<open>The compaction refers to the version that it was chosen from.\<close>

definition use_current :: "VersionSet \<Rightarrow> Compaction \<Rightarrow> VersionSet \<times> Compaction" where
  "use_current vs c = (let v = the (current vs) in (Version_Ref vs v, c\<lparr>input_version := Some v\<rparr>))"

text \<open>The first file after the place where the last compaction of the level ended, or the first file of all.\<close>

definition next_to_compact :: "VersionSet \<Rightarrow> nat \<Rightarrow> nat" where
  "next_to_compact vs level =
     (let files = current_files vs ! level
      in case find (\<lambda>a. compact_pointer vs ! level = [] \<or>
             InternalKey_Compare (vs_user vs) (largest (the_meta vs a)) (compact_pointer vs ! level) > 0) files of
           None \<Rightarrow> files ! 0
         | Some a \<Rightarrow> a)"

definition PickCompaction :: "VersionSet \<Rightarrow> VersionSet \<times> Compaction option" where
  "PickCompaction vs =
     (let v = the_version vs (the (current vs));
          chosen = (if compaction_score v \<ge> 1 then
                      (let level = nat (compaction_level v) in Some (level, next_to_compact vs level))
                    else (case file_to_compact v of None \<Rightarrow> None | Some (f, level) \<Rightarrow> Some (level, f)))
      in case chosen of
           None \<Rightarrow> (vs, None)
         | Some (level, f) \<Rightarrow>
             (let c = (Compaction_new level)\<lparr>inputs0 := [f]\<rparr>;
                  (vs, c) = use_current vs c;
                  c = (if level = 0 then
                         (let (small, large) = GetRange vs (inputs0 c) in c\<lparr>inputs0 := GetOverlappingInputs vs 0 small large\<rparr>)
                       else c);
                  (vs, c) = SetupOtherInputs vs c
              in (vs, Some c)))"

definition CompactRange :: "VersionSet \<Rightarrow> nat \<Rightarrow> bytes \<Rightarrow> bytes \<Rightarrow> VersionSet \<times> Compaction option" where
  "CompactRange vs level begin_key end_key =
     (let inputs = GetOverlappingInputs vs level begin_key end_key
      in if inputs = [] then (vs, None)
         else
           (let (vs, c) = use_current vs (Compaction_new level);
                (vs, c) = SetupOtherInputs vs (c\<lparr>inputs0 := inputs\<rparr>)
            in (vs, Some c)))"

definition IsTrivialMove :: "VersionSet \<Rightarrow> Compaction \<Rightarrow> bool" where
  "IsTrivialMove vs c \<longleftrightarrow> length (inputs0 c) = 1 \<and> length (inputs1 c) = 0 \<and>
     TotalFileSize (map (the_meta vs) (grandparents c)) \<le> kMaxGrandParentOverlapBytes"

definition AddInputDeletions :: "VersionSet \<Rightarrow> Compaction \<Rightarrow> VersionEdit \<Rightarrow> VersionEdit" where
  "AddInputDeletions vs c edit =
     foldl (\<lambda>e (level, a). VersionEdit_DeleteFile level (fm_number (the_meta vs a)) e) edit
       (map (Pair (c_level c)) (inputs0 c) @ map (Pair (c_level c + 1)) (inputs1 c))"

text \<open>Advancing in a level to the first file that does not end before the key, and whether this file contains it.\<close>

function advance_ptr :: "Comparator \<Rightarrow> FileMetaData list \<Rightarrow> bytes \<Rightarrow> nat \<Rightarrow> bool \<times> nat" where
  "advance_ptr user files ukey i =
     (if i < length files then
        (if Compare user ukey (ExtractUserKey (largest (files ! i))) \<le> 0
         then (Compare user ukey (ExtractUserKey (smallest (files ! i))) \<ge> 0, i)
         else advance_ptr user files ukey (i + 1))
      else (False, i))"
  by pat_completeness auto
termination by (relation "measure (\<lambda>(user, files, ukey, i). length files - i)") auto

declare advance_ptr.simps [simp del]

fun base_level_from :: "VersionSet \<Rightarrow> nat list list \<Rightarrow> bytes \<Rightarrow> nat list \<Rightarrow> Compaction \<Rightarrow> bool \<times> Compaction" where
  "base_level_from vs files ukey [] c = (True, c)"
| "base_level_from vs files ukey (lvl # lvls) c =
     (let (inside, i) = advance_ptr (vs_user vs) (map (the_meta vs) (files ! lvl)) ukey (level_ptrs c ! lvl);
          c = c\<lparr>level_ptrs := (level_ptrs c)[lvl := i]\<rparr>
      in if inside then (False, c) else base_level_from vs files ukey lvls c)"

definition IsBaseLevelForKey :: "VersionSet \<Rightarrow> Compaction \<Rightarrow> bytes \<Rightarrow> bool \<times> Compaction" where
  "IsBaseLevelForKey vs c ukey =
     base_level_from vs (v_files (the_version vs (the (input_version c)))) ukey [c_level c + 2..<kNumLevels] c"

function skip_grandparents :: "VersionSet \<Rightarrow> Compaction \<Rightarrow> bytes \<Rightarrow> Compaction" where
  "skip_grandparents vs c key =
     (if grandparent_index c < length (grandparents c) \<and>
         InternalKey_Compare (vs_user vs) key (largest (the_meta vs (grandparents c ! grandparent_index c))) > 0
      then skip_grandparents vs
             (c\<lparr>overlapped_bytes := (if seen_key c then overlapped_bytes c + file_size (the_meta vs (grandparents c ! grandparent_index c))
                                     else overlapped_bytes c),
                grandparent_index := grandparent_index c + 1\<rparr>) key
      else c)"
  by pat_completeness auto
termination by (relation "measure (\<lambda>(vs, c, key). length (grandparents c) - grandparent_index c)") auto

declare skip_grandparents.simps [simp del]

definition ShouldStopBefore :: "VersionSet \<Rightarrow> Compaction \<Rightarrow> bytes \<Rightarrow> bool \<times> Compaction" where
  "ShouldStopBefore vs c key =
     (let c = (skip_grandparents vs c key)\<lparr>seen_key := True\<rparr>
      in if sint (overlapped_bytes c) > kMaxGrandParentOverlapBytes then (True, c\<lparr>overlapped_bytes := 0\<rparr>) else (False, c))"

definition ReleaseInputs :: "VersionSet \<Rightarrow> Compaction \<Rightarrow> VersionSet \<times> Compaction" where
  "ReleaseInputs vs c =
     (case input_version c of None \<Rightarrow> (vs, c) | Some v \<Rightarrow> (Version_Unref vs v, c\<lparr>input_version := None\<rparr>))"

definition Compaction_destroy :: "VersionSet \<Rightarrow> Compaction \<Rightarrow> VersionSet" where
  "Compaction_destroy vs c = (case input_version c of None \<Rightarrow> vs | Some v \<Rightarrow> Version_Unref vs v)"

text \<open>What a compaction takes does not depend on who refers to the version.\<close>

lemma GetRange_Ref: "GetRange (Version_Ref vs v) inputs = GetRange vs inputs"
  by (simp add: GetRange_def Version_Ref_def split: list.split)

lemma GetOverlappingInputs_Ref: "GetOverlappingInputs (Version_Ref vs v) level b e = GetOverlappingInputs vs level b e"
  by (simp add: GetOverlappingInputs_def Version_Ref_def)

lemma SetupOtherInputs_Ref: "snd (SetupOtherInputs (Version_Ref vs v) c) = snd (SetupOtherInputs vs c)"
  by (simp add: SetupOtherInputs_def GetRange2_def GetRange_Ref GetOverlappingInputs_Ref Let_def case_prod_beta)

subsection \<open>Inputs of a compaction\<close>

definition keys_valid :: "FileMetaData \<Rightarrow> bool" where
  "keys_valid f \<longleftrightarrow> valid_ikey (smallest f) \<and> valid_ikey (largest f)"

text \<open>Files overlap a range of keys when they share a user key with it.\<close>

definition overlaps :: "Comparator \<Rightarrow> bytes \<Rightarrow> bytes \<Rightarrow> FileMetaData \<Rightarrow> bool" where
  "overlaps user small large f \<longleftrightarrow> \<not> (Compare user (ExtractUserKey (largest f)) (ExtractUserKey small) < 0 \<or>
     Compare user (ExtractUserKey (smallest f)) (ExtractUserKey large) > 0)"

lemma GetOverlappingInputs_set:
  "set (GetOverlappingInputs vs level b e) = {a \<in> set (current_files vs ! level). overlaps (vs_user vs) b e (the_meta vs a)}"
  by (auto simp: GetOverlappingInputs_def overlaps_def Let_def)

context ikey_order
begin

lemma after_not_le: "Compare user a b < 0 \<Longrightarrow> \<not> Compare user b a \<le> 0"
  using user.compare_flip [of a b] by simp

lemma user_key_le: "InternalKey_Compare user a b \<le> 0 \<Longrightarrow> Compare user (ExtractUserKey a) (ExtractUserKey b) \<le> 0"
  by (auto simp: InternalKey_Compare_def Let_def split: if_splits)

text \<open>A range starts and ends at keys of its files, and covers them.\<close>

definition range_of :: "FileMetaData set \<Rightarrow> bytes \<times> bytes \<Rightarrow> bool" where
  "range_of F r \<longleftrightarrow> fst r \<in> smallest ` F \<and> snd r \<in> largest ` F \<and>
     (\<forall>f \<in> F. InternalKey_Compare user (fst r) (smallest f) \<le> 0 \<and> InternalKey_Compare user (largest f) (snd r) \<le> 0)"

lemma range_of_insert:
  assumes "range_of F r" "\<forall>g \<in> F. keys_valid g" "keys_valid f"
  shows "range_of (insert f F) (extend_range user r f)"
proof -
  obtain s l where r: "r = (s, l)" by fastforce
  have v: "valid_ikey s" "valid_ikey l" using assms(1,2) r by (auto simp: range_of_def keys_valid_def)
  have fv: "valid_ikey (smallest f)" "valid_ikey (largest f)" using assms(3) by (simp_all add: keys_valid_def)
  let ?s = "if InternalKey_Compare user (smallest f) s < 0 then smallest f else s"
  let ?l = "if InternalKey_Compare user (largest f) l > 0 then largest f else l"
  have s1: "InternalKey_Compare user ?s s \<le> 0" "InternalKey_Compare user ?s (smallest f) \<le> 0" "valid_ikey ?s"
    using v fv ikey.compare_refl ikey.compare_le_flip [OF fv(1) v(1)] ikey.compare_le_flip [OF v(1) fv(1)] by (auto simp: not_less)
  have l1: "InternalKey_Compare user l ?l \<le> 0" "InternalKey_Compare user (largest f) ?l \<le> 0" "valid_ikey ?l"
    using v fv ikey.compare_refl ikey.compare_le_flip [OF fv(2) v(2)] ikey.compare_le_flip [OF v(2) fv(2)] by (auto simp: not_less)
  have "InternalKey_Compare user ?s (smallest g) \<le> 0 \<and> InternalKey_Compare user (largest g) ?l \<le> 0" if "g \<in> F" for g
  proof -
    have g: "valid_ikey (smallest g)" "valid_ikey (largest g)" "InternalKey_Compare user s (smallest g) \<le> 0" "InternalKey_Compare user (largest g) l \<le> 0"
      using assms(1,2) that r by (auto simp: range_of_def keys_valid_def)
    show ?thesis using ikey.compare_trans [OF s1(3) v(1) g(1) s1(1) g(3)] ikey.compare_trans [OF g(2) v(2) l1(3) g(4) l1(1)] by blast
  qed
  then show ?thesis using assms(1) s1(2) l1(2) unfolding range_of_def r extend_range.simps fst_conv snd_conv by auto
qed

lemma foldl_extend_range:
  "range_of F r \<Longrightarrow> \<forall>f \<in> F \<union> set fs. keys_valid f \<Longrightarrow> range_of (F \<union> set fs) (foldl (extend_range user) r fs)"
proof (induction fs arbitrary: F r)
  case (Cons f fs)
  have "range_of (insert f F) (extend_range user r f)" using range_of_insert Cons.prems by simp
  then show ?case using Cons.IH [of "insert f F"] Cons.prems(2) by simp
qed simp

lemma GetRange_ok:
  assumes "vs_user vs = user" "inputs \<noteq> []" "\<forall>a \<in> set inputs. keys_valid (the_meta vs a)"
  shows "range_of (the_meta vs ` set inputs) (GetRange vs inputs)"
proof -
  obtain a as where i: "inputs = a # as" using assms(2) by (cases inputs) auto
  have "range_of {the_meta vs a} (smallest (the_meta vs a), largest (the_meta vs a))"
    using ikey.compare_refl assms(3) i by (simp add: range_of_def keys_valid_def)
  then show ?thesis using foldl_extend_range [of "{the_meta vs a}" _ "map (the_meta vs) as"] assms(1,3) i by (simp add: GetRange_def)
qed

end

text \<open>Files of a level one after the other, by their internal keys: the entries for one user key may be split over two files.\<close>

definition disjoint_files :: "Comparator \<Rightarrow> FileMetaData list \<Rightarrow> bool" where
  "disjoint_files user files \<longleftrightarrow> sorted_wrt (\<lambda>f g. InternalKey_Compare user (largest f) (smallest g) < 0) files"

definition file_bounds :: "Comparator \<Rightarrow> FileMetaData \<Rightarrow> bool" where
  "file_bounds user f \<longleftrightarrow> keys_valid f \<and> InternalKey_Compare user (smallest f) (largest f) \<le> 0"

text \<open>A file that ends before a range of internal keys or starts after it.\<close>

definition beside :: "Comparator \<Rightarrow> bytes \<times> bytes \<Rightarrow> FileMetaData \<Rightarrow> bool" where
  "beside user r f \<longleftrightarrow> InternalKey_Compare user (largest f) (fst r) < 0 \<or> InternalKey_Compare user (snd r) (smallest f) < 0"

context ikey_order
begin

lemma user_less_ikey: "Compare user (ExtractUserKey a) (ExtractUserKey b) < 0 \<Longrightarrow> InternalKey_Compare user a b < 0"
  by (simp add: InternalKey_Compare_def Let_def)

lemma file_bounds_user: "file_bounds user f \<Longrightarrow> Compare user (ExtractUserKey (smallest f)) (ExtractUserKey (largest f)) \<le> 0"
  by (simp add: file_bounds_def user_key_le)

lemma in_own_range:
  assumes "range_of F r" "f \<in> F" "file_bounds user f"
  shows "overlaps user (fst r) (snd r) f"
proof -
  have u: "Compare user (ExtractUserKey (fst r)) (ExtractUserKey (smallest f)) \<le> 0" "Compare user (ExtractUserKey (largest f)) (ExtractUserKey (snd r)) \<le> 0"
    using assms user_key_le by (auto simp: range_of_def)
  have "Compare user (ExtractUserKey (fst r)) (ExtractUserKey (largest f)) \<le> 0" "Compare user (ExtractUserKey (smallest f)) (ExtractUserKey (snd r)) \<le> 0"
    using u file_bounds_user [OF assms(3)] by (blast intro: user.compare_trans)+
  then show ?thesis using after_not_le unfolding overlaps_def by force
qed

lemma disjoint_files_cases:
  assumes "disjoint_files user files" "f \<in> set files" "g \<in> set files" "f \<noteq> g"
  shows "InternalKey_Compare user (largest f) (smallest g) < 0 \<or> InternalKey_Compare user (largest g) (smallest f) < 0"
proof -
  obtain i j where ij: "i < length files" "f = files ! i" "j < length files" "g = files ! j"
    using assms(2,3) by (auto simp: in_set_conv_nth)
  then have "i \<noteq> j" using assms(4) by auto
  then consider "i < j" | "j < i" by linarith
  then show ?thesis using assms(1) ij unfolding disjoint_files_def sorted_wrt_iff_nth_less by cases simp_all
qed

text \<open>A file that ends before a range of user keys ends before all files that overlap the range, and likewise behind it.\<close>

lemma before_overlapping:
  assumes "disjoint_files user files" "f \<in> set files" "g \<in> set files" "file_bounds user f"
    and "Compare user (ExtractUserKey (largest f)) (ExtractUserKey small) < 0" "overlaps user small large g"
  shows "InternalKey_Compare user (largest f) (smallest g) < 0"
proof -
  have lg: "Compare user (ExtractUserKey small) (ExtractUserKey (largest g)) \<le> 0"
    using assms(6) user.compare_le_flip [of "ExtractUserKey small" "ExtractUserKey (largest g)"] by (simp add: overlaps_def)
  have far: "Compare user (ExtractUserKey (largest f)) (ExtractUserKey (largest g)) < 0" by (rule user.compare_less_le_trans [OF TrueI TrueI TrueI assms(5) lg])
  have "\<not> InternalKey_Compare user (largest g) (smallest f) < 0"
  proof
    assume "InternalKey_Compare user (largest g) (smallest f) < 0"
    then have "Compare user (ExtractUserKey (largest g)) (ExtractUserKey (smallest f)) \<le> 0" by (intro user_key_le) simp
    then have "Compare user (ExtractUserKey (largest g)) (ExtractUserKey (largest f)) \<le> 0"
      using file_bounds_user [OF assms(4)] by (blast intro: user.compare_trans)
    then show False using after_not_le [OF far] by simp
  qed
  moreover have "f \<noteq> g" using assms(5,6) by (auto simp: overlaps_def)
  ultimately show ?thesis using disjoint_files_cases [OF assms(1-3)] by blast
qed

lemma after_overlapping:
  assumes "disjoint_files user files" "f \<in> set files" "g \<in> set files" "file_bounds user f"
    and "Compare user (ExtractUserKey large) (ExtractUserKey (smallest f)) < 0" "overlaps user small large g"
  shows "InternalKey_Compare user (largest g) (smallest f) < 0"
proof -
  have sg: "Compare user (ExtractUserKey (smallest g)) (ExtractUserKey large) \<le> 0" using assms(6) by (simp add: overlaps_def)
  have far: "Compare user (ExtractUserKey (smallest g)) (ExtractUserKey (smallest f)) < 0" by (rule user.compare_le_less_trans [OF TrueI TrueI TrueI sg assms(5)])
  have "\<not> InternalKey_Compare user (largest f) (smallest g) < 0"
  proof
    assume "InternalKey_Compare user (largest f) (smallest g) < 0"
    then have "Compare user (ExtractUserKey (largest f)) (ExtractUserKey (smallest g)) \<le> 0" by (intro user_key_le) simp
    then have "Compare user (ExtractUserKey (smallest f)) (ExtractUserKey (smallest g)) \<le> 0"
      using file_bounds_user [OF assms(4)] by (blast intro: user.compare_trans)
    then show False using after_not_le [OF far] by simp
  qed
  moreover have "f \<noteq> g" using after_not_le [OF assms(5)] sg by auto
  ultimately show ?thesis using disjoint_files_cases [OF assms(1-3)] by blast
qed

text \<open>A file that shares no user key with a range is beside the range with all files that overlap it.\<close>

lemma beside_range:
  assumes r: "range_of F r" and dis: "disjoint_files user files" and G: "\<forall>g \<in> set files. file_bounds user g"
    and f: "f \<in> set files" "\<not> overlaps user (fst r) (snd r) f"
    and R: "range_of (F \<union> {g \<in> set files. overlaps user (fst r) (snd r) g}) R"
  shows "beside user R f"
proof (cases "Compare user (ExtractUserKey (largest f)) (ExtractUserKey (fst r)) < 0")
  case True
  have "InternalKey_Compare user (largest f) (smallest g) < 0" if g: "g \<in> F \<union> {g \<in> set files. overlaps user (fst r) (snd r) g}" for g
  proof (cases "g \<in> F")
    case False
    then show ?thesis using before_overlapping [OF dis f(1) _ _ True] g G f(1) by blast
  next
    case isF: True
    then have "Compare user (ExtractUserKey (fst r)) (ExtractUserKey (smallest g)) \<le> 0" using r user_key_le by (auto simp: range_of_def)
    then show ?thesis by (intro user_less_ikey user.compare_less_le_trans [OF TrueI TrueI TrueI True])
  qed
  then show ?thesis using R by (auto simp: range_of_def beside_def)
next
  case False
  then have gt: "Compare user (ExtractUserKey (snd r)) (ExtractUserKey (smallest f)) < 0"
    using f(2) user.compare_flip [of "ExtractUserKey (snd r)" "ExtractUserKey (smallest f)"] by (auto simp: overlaps_def)
  have "InternalKey_Compare user (largest g) (smallest f) < 0" if g: "g \<in> F \<union> {g \<in> set files. overlaps user (fst r) (snd r) g}" for g
  proof (cases "g \<in> F")
    case False
    then show ?thesis using after_overlapping [OF dis f(1) _ _ gt] g G f(1) by blast
  next
    case isF: True
    then have "Compare user (ExtractUserKey (largest g)) (ExtractUserKey (snd r)) \<le> 0" using r user_key_le by (auto simp: range_of_def)
    then show ?thesis by (intro user_less_ikey user.compare_le_less_trans [OF TrueI TrueI TrueI _ gt])
  qed
  then show ?thesis using R by (auto simp: range_of_def beside_def)
qed

end

text \<open>C10: However the inputs of a compaction are chosen from a level, the inputs from the next level are taken so that
  no other file of the next level shares a user key with the inputs from the first level, and every other file of
  the next level ends before the range of all inputs or starts behind it, in the order of internal keys: the outputs,
  which are within this range, cannot overlap it. This needs of the next level only what installing a version checks,
  that its files follow one another by internal keys, so that the entries for a user key may be split over two files,
  one of which is taken and the other is not. No file that was chosen is lost when the inputs from the first level
  are extended. The bounds of every file are keys that can be parsed, in order.\<close>

theorem compaction_inputs_closed:
  assumes "ikey_order (vs_user vs)" "inputs0 c \<noteq> []" "set (inputs0 c) \<subseteq> set (current_files vs ! c_level c)"
    and "\<forall>a \<in> set (current_files vs ! c_level c). file_bounds (vs_user vs) (the_meta vs a)"
    and "\<forall>a \<in> set (current_files vs ! (c_level c + 1)). file_bounds (vs_user vs) (the_meta vs a)"
    and "disjoint_files (vs_user vs) (map (the_meta vs) (current_files vs ! (c_level c + 1)))"
    and "SetupOtherInputs vs c = (vs', c')"
  shows "set (inputs0 c) \<subseteq> set (inputs0 c') \<and> set (inputs0 c') \<subseteq> set (current_files vs ! c_level c) \<and>
    set (inputs1 c') \<subseteq> set (current_files vs ! (c_level c + 1)) \<and>
    (\<forall>a \<in> set (current_files vs ! (c_level c + 1)). a \<notin> set (inputs1 c') \<longrightarrow>
       \<not> overlaps (vs_user vs) (fst (GetRange vs (inputs0 c'))) (snd (GetRange vs (inputs0 c'))) (the_meta vs a) \<and>
       beside (vs_user vs) (GetRange2 vs (inputs0 c') (inputs1 c')) (the_meta vs a))"
proof -
  let ?user = "vs_user vs" and ?l = "c_level c" and ?m = "the_meta vs"
  let ?L = "current_files vs ! ?l" and ?N = "current_files vs ! (?l + 1)"
  define in1 where "in1 = GetOverlappingInputs vs (?l + 1) (fst (GetRange vs (inputs0 c))) (snd (GetRange vs (inputs0 c)))"
  define R where "R = GetRange2 vs (inputs0 c) in1"
  define ex0 where "ex0 = GetOverlappingInputs vs ?l (fst R) (snd R)"
  define ex1 where "ex1 = GetOverlappingInputs vs (?l + 1) (fst (GetRange vs ex0)) (snd (GetRange vs ex0))"
  have io: "inputs0 c' = inputs0 c \<and> inputs1 c' = in1 \<or> inputs0 c' = ex0 \<and> inputs1 c' = ex1"
    using assms(7) by (auto simp: SetupOtherInputs_def Let_def case_prod_beta in1_def R_def ex0_def ex1_def split: if_splits)
  have in1: "set in1 \<subseteq> set ?N" by (auto simp: in1_def GetOverlappingInputs_set)
  have kv: "keys_valid (?m a)" if "a \<in> set ?L \<union> set ?N" for a using that assms(4,5) by (auto simp: file_bounds_def)
  have "ikey_order.range_of ?user (?m ` set (inputs0 c @ in1)) R"
    unfolding R_def GetRange2_def by (rule ikey_order.GetRange_ok [OF assms(1) refl]) (use assms(2,3) in1 kv in auto)
  then have "overlaps ?user (fst R) (snd R) (?m a)" if "a \<in> set (inputs0 c)" for a
    using ikey_order.in_own_range [OF assms(1)] that assms(3,4) by auto
  then have sub: "set (inputs0 c) \<subseteq> set ex0" using assms(3) by (auto simp: ex0_def GetOverlappingInputs_set)
  have ex0: "set ex0 \<subseteq> set ?L" by (auto simp: ex0_def GetOverlappingInputs_set)
  have s0: "set (inputs0 c) \<subseteq> set (inputs0 c')" "set (inputs0 c') \<subseteq> set ?L" "inputs0 c' \<noteq> []" using io sub ex0 assms(2,3) by auto
  define r where "r = GetRange vs (inputs0 c')"
  have i1: "inputs1 c' = GetOverlappingInputs vs (?l + 1) (fst r) (snd r)" using io by (auto simp: r_def in1_def ex1_def)
  have i1s: "set (inputs1 c') = {a \<in> set ?N. overlaps ?user (fst r) (snd r) (?m a)}" by (simp add: i1 GetOverlappingInputs_set)
  have rr: "ikey_order.range_of ?user (?m ` set (inputs0 c')) r"
    unfolding r_def by (rule ikey_order.GetRange_ok [OF assms(1) refl s0(3)]) (use s0(2) kv in auto)
  let ?G = "GetRange2 vs (inputs0 c') (inputs1 c')"
  have "ikey_order.range_of ?user (?m ` set (inputs0 c' @ inputs1 c')) ?G"
    unfolding GetRange2_def by (rule ikey_order.GetRange_ok [OF assms(1) refl]) (use s0(2,3) i1s kv in auto)
  moreover have "?m ` set (inputs0 c' @ inputs1 c') = ?m ` set (inputs0 c') \<union> {g \<in> set (map ?m ?N). overlaps ?user (fst r) (snd r) g}"
    using i1s by auto
  ultimately have rR: "ikey_order.range_of ?user (?m ` set (inputs0 c') \<union> {g \<in> set (map ?m ?N). overlaps ?user (fst r) (snd r) g}) ?G"
    by simp
  have "\<not> overlaps ?user (fst r) (snd r) (?m a) \<and> beside ?user ?G (?m a)" if a: "a \<in> set ?N" "a \<notin> set (inputs1 c')" for a
  proof -
    have no: "\<not> overlaps ?user (fst r) (snd r) (?m a)" using a i1s by blast
    then show ?thesis using ikey_order.beside_range [OF assms(1) rr assms(6) _ _ no rR] a(1) assms(5) by auto
  qed
  then show ?thesis using s0 i1s unfolding r_def by blast
qed

text \<open>
  Three files of level zero and three of level one; the entries for the user key 5 are split over the last two.
\<close>

definition split_meta :: "uint64 \<Rightarrow> byte \<Rightarrow> SequenceNumber \<Rightarrow> byte \<Rightarrow> SequenceNumber \<Rightarrow> FileMetaData" where
  "split_meta n k q l q' = FileMetaData_new\<lparr>fm_refs := 1, fm_number := n, file_size := 100, smallest := InternalKey [k] q kTypeValue,
     largest := InternalKey [l] q' kTypeValue\<rparr>"

definition split_set :: VersionSet where
  "split_set = (VersionSet_new ''/db'' BytewiseComparator)
     \<lparr>metas := [0 \<mapsto> split_meta 8 1 6 2 7, 1 \<mapsto> split_meta 9 2 8 3 9, 2 \<mapsto> split_meta 7 3 4 4 5,
        3 \<mapsto> split_meta 1 1 2 1 2, 4 \<mapsto> split_meta 2 2 2 5 3, 5 \<mapsto> split_meta 3 5 2 9 1],
      versions := [0 \<mapsto> Version_new\<lparr>v_refs := 1, v_files := [[0, 1, 2], [3, 4, 5], [], [], [], [], []]\<rparr>]\<rparr>"

lemma split_set_fields:
  "vs_user split_set = BytewiseComparator" "current_files split_set = [[0, 1, 2], [3, 4, 5], [], [], [], [], []]"
  "the_meta split_set 0 = split_meta 8 1 6 2 7" "the_meta split_set (Suc 0) = split_meta 9 2 8 3 9" "the_meta split_set 2 = split_meta 7 3 4 4 5"
  "the_meta split_set 3 = split_meta 1 1 2 1 2" "the_meta split_set 4 = split_meta 2 2 2 5 3" "the_meta split_set 5 = split_meta 3 5 2 9 1"
  by (simp_all add: split_set_def VersionSet_new_def AppendVersion_def Version_Ref_def Let_def)

lemma split_meta_fields [simp]:
  "smallest (split_meta n k q l q') = InternalKey [k] q kTypeValue" "largest (split_meta n k q l q') = InternalKey [l] q' kTypeValue"
  by (simp_all add: split_meta_def FileMetaData_new_def)

lemma split_order: "PackSequenceAndType 2 kTypeValue < PackSequenceAndType 6 kTypeValue" "\<not> PackSequenceAndType 6 kTypeValue < PackSequenceAndType 2 kTypeValue"
  "PackSequenceAndType 2 kTypeValue < PackSequenceAndType 3 kTypeValue"
  by code_simp+

lemma split_ranges:
  "GetRange split_set [0, Suc 0] = (InternalKey [1] 6 kTypeValue, InternalKey [3] 9 kTypeValue)"
  "GetRange split_set [0, Suc 0, 3, 4] = (InternalKey [1] 6 kTypeValue, InternalKey [5] 3 kTypeValue)"
  "GetRange split_set [0, Suc 0, 2] = (InternalKey [1] 6 kTypeValue, InternalKey [4] 5 kTypeValue)"
  "GetRange split_set [0, Suc 0, 2, 3, 4] = (InternalKey [1] 6 kTypeValue, InternalKey [5] 3 kTypeValue)"
  using split_order by (simp_all add: GetRange_def split_set_fields InternalKey_Compare_def Let_def)

lemma split_overlapping:
  "GetOverlappingInputs split_set (Suc 0) (InternalKey [1] 6 kTypeValue) (InternalKey [3] 9 kTypeValue) = [3, 4]"
  "GetOverlappingInputs split_set 0 (InternalKey [1] 6 kTypeValue) (InternalKey [5] 3 kTypeValue) = [0, Suc 0, 2]"
  "GetOverlappingInputs split_set (Suc 0) (InternalKey [1] 6 kTypeValue) (InternalKey [4] 5 kTypeValue) = [3, 4]"
  by (simp_all add: GetOverlappingInputs_def split_set_fields Let_def)

lemma split_inputs:
  "inputs0 c = [0, Suc 0] \<Longrightarrow> c_level c = 0 \<Longrightarrow>
    inputs0 (snd (SetupOtherInputs split_set c)) = [0, Suc 0, 2] \<and> inputs1 (snd (SetupOtherInputs split_set c)) = [3, 4]"
  by (simp add: SetupOtherInputs_def GetRange2_def split_ranges split_overlapping Let_def)

theorem compaction_inputs_closed_witness:
  "\<exists>vs c. SetupOtherInputs split_set ((Compaction_new 0)\<lparr>inputs0 := [0, 1]\<rparr>) = (vs, c) \<and> inputs0 c = [0, 1, 2] \<and> inputs1 c = [3, 4] \<and>
     current_files split_set ! 1 = [3, 4, 5] \<and> ExtractUserKey (smallest (the_meta split_set 5)) = ExtractUserKey (largest (the_meta split_set 4)) \<and>
     beside BytewiseComparator (GetRange2 split_set (inputs0 c) (inputs1 c)) (the_meta split_set 5)"
proof -
  let ?c = "(Compaction_new 0)\<lparr>inputs0 := [0, Suc 0]\<rparr>"
  obtain vs c where c: "SetupOtherInputs split_set ?c = (vs, c)" by fastforce
  have i: "inputs0 c = [0, Suc 0, 2]" "inputs1 c = [3, 4]" using split_inputs [of ?c] c by (simp_all add: Compaction_new_def)
  have "beside BytewiseComparator (GetRange2 split_set (inputs0 c) (inputs1 c)) (the_meta split_set 5)"
    using compaction_inputs_closed [OF _ _ _ _ _ _ c] bytewise_ikey.ikey_order_axioms i split_order
    by (simp add: Compaction_new_def split_set_fields file_bounds_def keys_valid_def disjoint_files_def InternalKey_Compare_def)
  then show ?thesis using c i by (simp add: split_set_fields)
qed

subsection \<open>Dropping entries\<close>

text \<open>What \<open>DBImpl::DoCompactionWork\<close> keeps of the entries it has seen, and whether it drops the next one.\<close>

record DropState =
  current_user_key :: "bytes option"
  last_sequence_for_key :: SequenceNumber

definition DropState_new :: DropState where
  "DropState_new = \<lparr>current_user_key = None, last_sequence_for_key = kMaxSequenceNumber\<rparr>"

definition drop_entry :: "VersionSet \<Rightarrow> SequenceNumber \<Rightarrow> bytes \<Rightarrow> DropState \<Rightarrow> Compaction \<Rightarrow> bool \<times> DropState \<times> Compaction" where
  "drop_entry vs smallest_snapshot key st c =
     (case ParseInternalKey key of
        None \<Rightarrow> (False, DropState_new, c)
      | Some parsed \<Rightarrow>
          (let st = (if current_user_key st = None \<or> Compare (vs_user vs) (user_key parsed) (the (current_user_key st)) \<noteq> 0
                     then \<lparr>current_user_key = Some (user_key parsed), last_sequence_for_key = kMaxSequenceNumber\<rparr> else st);
               (dropped, c) = (if last_sequence_for_key st \<le> smallest_snapshot then (True, c)
                            else if vtype parsed = kTypeDeletion \<and> sequence parsed \<le> smallest_snapshot then IsBaseLevelForKey vs c (user_key parsed)
                            else (False, c))
           in (dropped, st\<lparr>last_sequence_for_key := sequence parsed\<rparr>, c)))"

text \<open>The entries that are left.\<close>

fun kept_entries :: "VersionSet \<Rightarrow> SequenceNumber \<Rightarrow> DropState \<Rightarrow> Compaction \<Rightarrow> (bytes \<times> bytes) list \<Rightarrow> (bytes \<times> bytes) list" where
  "kept_entries vs snap st c [] = []"
| "kept_entries vs snap st c (e # es) =
     (case drop_entry vs snap (fst e) st c of
        (dropped, st, c) \<Rightarrow> (if dropped then [] else [e]) @ kept_entries vs snap st c es)"

subsection \<open>Whether a key is in a deeper level\<close>

definition in_range :: "Comparator \<Rightarrow> bytes \<Rightarrow> FileMetaData \<Rightarrow> bool" where
  "in_range user ukey f \<longleftrightarrow> Compare user (ExtractUserKey (smallest f)) ukey \<le> 0 \<and> Compare user ukey (ExtractUserKey (largest f)) \<le> 0"

text \<open>The files before a position end before a key.\<close>

definition passed :: "Comparator \<Rightarrow> FileMetaData list \<Rightarrow> nat \<Rightarrow> bytes \<Rightarrow> bool" where
  "passed user files i ukey \<longleftrightarrow> (\<forall>j < i. j < length files \<longrightarrow> Compare user (ExtractUserKey (largest (files ! j))) ukey < 0)"

text \<open>Files of a level one after the other, by their user keys.\<close>

definition user_level_ok :: "Comparator \<Rightarrow> FileMetaData list \<Rightarrow> bool" where
  "user_level_ok user files \<longleftrightarrow> sorted_wrt (\<lambda>f g. Compare user (ExtractUserKey (largest f)) (ExtractUserKey (smallest g)) \<le> 0) files \<and>
     (\<forall>f \<in> set files. Compare user (ExtractUserKey (smallest f)) (ExtractUserKey (largest f)) \<le> 0)"

context ikey_order
begin

lemma advance_ptr_ok:
  assumes "passed user files i ukey" "user_level_ok user files" "advance_ptr user files ukey i = (inside, j)"
  shows "(inside \<longleftrightarrow> (\<exists>f \<in> set files. in_range user ukey f)) \<and> passed user files j ukey"
  using assms
proof (induction "length files - i" arbitrary: i)
  case 0
  then have "inside = False" "j = i" by (simp_all add: advance_ptr.simps [of user files ukey i])
  moreover have "\<not> in_range user ukey f" if "f \<in> set files" for f
  proof -
    obtain k where "k < length files" "f = files ! k" using \<open>f \<in> set files\<close> by (auto simp: in_set_conv_nth)
    then have "Compare user (ExtractUserKey (largest f)) ukey < 0" using 0 by (simp add: passed_def)
    then show ?thesis using after_not_le unfolding in_range_def by blast
  qed
  ultimately show ?case using 0 by blast
next
  case (Suc n)
  then have i: "i < length files" by simp
  show ?case
  proof (cases "Compare user ukey (ExtractUserKey (largest (files ! i))) \<le> 0")
    case True
    then have r: "inside \<longleftrightarrow> Compare user ukey (ExtractUserKey (smallest (files ! i))) \<ge> 0" "j = i"
      using Suc.prems(3) i by (auto simp: advance_ptr.simps [of user files ukey i])
    have "in_range user ukey (files ! i)" if "f \<in> set files" "in_range user ukey f" for f
    proof -
      obtain k where k: "k < length files" "f = files ! k" using \<open>f \<in> set files\<close> by (auto simp: in_set_conv_nth)
      have f: "Compare user (ExtractUserKey (smallest f)) ukey \<le> 0" "Compare user ukey (ExtractUserKey (largest f)) \<le> 0"
        using \<open>in_range user ukey f\<close> by (simp_all add: in_range_def)
      consider "k < i" | "k = i" | "i < k" by linarith
      then show ?thesis
      proof cases
        case 1
        then have "Compare user (ExtractUserKey (largest f)) ukey < 0" using Suc.prems(1) k by (simp add: passed_def)
        then show ?thesis using f(2) after_not_le by blast
      next
        case 2
        then show ?thesis using \<open>in_range user ukey f\<close> k by simp
      next
        case 3
        then have "Compare user (ExtractUserKey (largest (files ! i))) (ExtractUserKey (smallest f)) \<le> 0"
          "Compare user (ExtractUserKey (smallest (files ! i))) (ExtractUserKey (largest (files ! i))) \<le> 0"
          using Suc.prems(2) k i by (auto simp: user_level_ok_def sorted_wrt_iff_nth_less)
        then have "Compare user (ExtractUserKey (smallest (files ! i))) ukey \<le> 0" using f(1) by (blast intro: user.compare_trans)
        then show ?thesis using True by (simp add: in_range_def)
      qed
    qed
    moreover have "in_range user ukey (files ! i) \<longleftrightarrow> inside"
      using True r(1) user.compare_le_flip [of "ExtractUserKey (smallest (files ! i))" ukey] by (simp add: in_range_def)
    ultimately show ?thesis using Suc.prems(1) r(2) nth_mem [OF i] by blast
  next
    case False
    then have "Compare user (ExtractUserKey (largest (files ! i))) ukey < 0"
      using user.compare_le_flip [of ukey "ExtractUserKey (largest (files ! i))"] by simp
    then have "passed user files (i + 1) ukey" using Suc.prems(1) by (auto simp: passed_def less_Suc_eq)
    moreover have "advance_ptr user files ukey (i + 1) = (inside, j)" using False i Suc.prems(3) by (simp add: advance_ptr.simps [of user files ukey i])
    ultimately show ?thesis using Suc.hyps(1) [of "i + 1"] Suc.hyps(2) Suc.prems(2) by simp
  qed
qed

lemma passed_mono: "passed user files i k \<Longrightarrow> Compare user k k' \<le> 0 \<Longrightarrow> passed user files i k'"
  unfolding passed_def by (blast intro: user.compare_less_le_trans)

lemma base_level_from_ok:
  assumes "vs_user vs = user" "distinct lvls"
    and "\<forall>lvl \<in> set lvls. lvl < length (level_ptrs c) \<and> user_level_ok user (map (the_meta vs) (files ! lvl)) \<and>
      passed user (map (the_meta vs) (files ! lvl)) (level_ptrs c ! lvl) k"
    and "base_level_from vs files k lvls c = (b, c')"
  shows "(b \<longleftrightarrow> (\<forall>lvl \<in> set lvls. \<forall>a \<in> set (files ! lvl). \<not> in_range user k (the_meta vs a))) \<and>
    c' = c\<lparr>level_ptrs := level_ptrs c'\<rparr> \<and> length (level_ptrs c') = length (level_ptrs c) \<and>
    (\<forall>lvl. level_ptrs c' ! lvl = level_ptrs c ! lvl \<or> passed user (map (the_meta vs) (files ! lvl)) (level_ptrs c' ! lvl) k)"
  using assms(2-4)
proof (induction lvls arbitrary: c)
  case (Cons lvl lvls)
  let ?fs = "map (the_meta vs) (files ! lvl)"
  obtain inside i where a: "advance_ptr user ?fs k (level_ptrs c ! lvl) = (inside, i)" by fastforce
  let ?c = "c\<lparr>level_ptrs := (level_ptrs c)[lvl := i]\<rparr>"
  have l: "lvl < length (level_ptrs c)" using Cons.prems(2) by simp
  have A: "inside \<longleftrightarrow> (\<exists>f \<in> set ?fs. in_range user k f)" "passed user ?fs i k"
    using advance_ptr_ok [OF _ _ a] Cons.prems(2) by simp_all
  show ?case
  proof (cases inside)
    case True
    then have "b = False" "c' = ?c" using Cons.prems(3) a assms(1) by simp_all
    moreover have "\<exists>a \<in> set (files ! lvl). in_range user k (the_meta vs a)" using True A(1) by simp
    ultimately show ?thesis using A(2) l by (auto simp: nth_list_update)
  next
    case False
    then have r: "base_level_from vs files k lvls ?c = (b, c')" using Cons.prems(3) a assms(1) by simp
    have ptr: "level_ptrs ?c ! m = (if m = lvl then i else level_ptrs c ! m)" for m using l by (cases "m = lvl") simp_all
    have "\<forall>m \<in> set lvls. m < length (level_ptrs ?c) \<and> user_level_ok user (map (the_meta vs) (files ! m)) \<and>
        passed user (map (the_meta vs) (files ! m)) (level_ptrs ?c ! m) k"
      unfolding ptr using Cons.prems(1,2) by auto
    from Cons.IH [OF _ this r] have IH: "b \<longleftrightarrow> (\<forall>lvl \<in> set lvls. \<forall>a \<in> set (files ! lvl). \<not> in_range user k (the_meta vs a))"
      "c' = ?c\<lparr>level_ptrs := level_ptrs c'\<rparr>" "length (level_ptrs c') = length (level_ptrs ?c)"
      "\<forall>m. level_ptrs c' ! m = level_ptrs ?c ! m \<or> passed user (map (the_meta vs) (files ! m)) (level_ptrs c' ! m) k"
      using Cons.prems(1) by auto
    have "\<forall>a \<in> set (files ! lvl). \<not> in_range user k (the_meta vs a)" using False A(1) by simp
    moreover have "\<forall>m. level_ptrs c' ! m = level_ptrs c ! m \<or> passed user (map (the_meta vs) (files ! m)) (level_ptrs c' ! m) k"
    proof
      fix m show "level_ptrs c' ! m = level_ptrs c ! m \<or> passed user (map (the_meta vs) (files ! m)) (level_ptrs c' ! m) k"
        using IH(4) [rule_format, of m] A(2) unfolding ptr by (cases "m = lvl") auto
    qed
    moreover have "c' = c\<lparr>level_ptrs := level_ptrs c'\<rparr>" by (subst IH(2)) simp
    ultimately show ?thesis using IH(1,3) by simp
  qed
qed simp

end

text \<open>The files of the levels below the output of a compaction, and what a running compaction knows of them.\<close>

definition deeper_levels :: "Compaction \<Rightarrow> nat list" where
  "deeper_levels c = [c_level c + 2..<kNumLevels]"

abbreviation input_files :: "VersionSet \<Rightarrow> Compaction \<Rightarrow> nat list list" where
  "input_files vs c \<equiv> v_files (the_version vs (the (input_version c)))"

definition deeper_ok :: "VersionSet \<Rightarrow> Compaction \<Rightarrow> bool" where
  "deeper_ok vs c \<longleftrightarrow> length (level_ptrs c) = kNumLevels \<and>
     (\<forall>lvl \<in> set (deeper_levels c). user_level_ok (vs_user vs) (map (the_meta vs) (input_files vs c ! lvl)))"

definition ptrs_ok :: "VersionSet \<Rightarrow> Compaction \<Rightarrow> bytes \<Rightarrow> bool" where
  "ptrs_ok vs c k \<longleftrightarrow> (\<forall>lvl \<in> set (deeper_levels c). passed (vs_user vs) (map (the_meta vs) (input_files vs c ! lvl)) (level_ptrs c ! lvl) k)"

definition base_key :: "VersionSet \<Rightarrow> Compaction \<Rightarrow> bytes \<Rightarrow> bool" where
  "base_key vs c k \<longleftrightarrow> (\<forall>lvl \<in> set (deeper_levels c). \<forall>a \<in> set (input_files vs c ! lvl). \<not> in_range (vs_user vs) k (the_meta vs a))"

lemma IsBaseLevelForKey_ok:
  assumes "ikey_order (vs_user vs)" "deeper_ok vs c" "ptrs_ok vs c k" "IsBaseLevelForKey vs c k = (b, c')"
  shows "b \<longleftrightarrow> base_key vs c k" "c' = c\<lparr>level_ptrs := level_ptrs c'\<rparr>" "deeper_ok vs c'"
    "ptrs_ok vs c k' \<Longrightarrow> Compare (vs_user vs) k k' \<le> 0 \<Longrightarrow> ptrs_ok vs c' k'"
proof -
  have pre: "\<forall>lvl \<in> set (deeper_levels c). lvl < length (level_ptrs c) \<and> user_level_ok (vs_user vs) (map (the_meta vs) (input_files vs c ! lvl)) \<and>
      passed (vs_user vs) (map (the_meta vs) (input_files vs c ! lvl)) (level_ptrs c ! lvl) k"
    using assms(2,3) by (auto simp: deeper_ok_def ptrs_ok_def deeper_levels_def)
  have run: "base_level_from vs (input_files vs c) k (deeper_levels c) c = (b, c')" using assms(4) by (simp add: IsBaseLevelForKey_def deeper_levels_def)
  have "distinct (deeper_levels c)" by (simp add: deeper_levels_def)
  note B = ikey_order.base_level_from_ok [OF assms(1) refl this pre run]
  show "b \<longleftrightarrow> base_key vs c k" using B by (simp add: base_key_def)
  show c': "c' = c\<lparr>level_ptrs := level_ptrs c'\<rparr>" using B by blast
  have same: "c_level c' = c_level c" "input_version c' = input_version c" by (subst c', simp)+
  show "deeper_ok vs c'" using assms(2) B same by (simp add: deeper_ok_def deeper_levels_def)
  show "ptrs_ok vs c' k'" if "ptrs_ok vs c k'" "Compare (vs_user vs) k k' \<le> 0"
    unfolding ptrs_ok_def same deeper_levels_def
  proof
    fix lvl assume l: "lvl \<in> set [c_level c + 2..<kNumLevels]"
    show "passed (vs_user vs) (map (the_meta vs) (input_files vs c ! lvl)) (level_ptrs c' ! lvl) k'"
    proof (cases "level_ptrs c' ! lvl = level_ptrs c ! lvl")
      case True
      then show ?thesis using that(1) l by (simp add: ptrs_ok_def deeper_levels_def)
    next
      case False
      then show ?thesis using B ikey_order.passed_mono [OF assms(1) _ that(2)] by blast
    qed
  qed
qed

subsection \<open>Reads do not see what is dropped\<close>

text \<open>Entries in order, with one entry for a user key and a sequence number.\<close>

definition compacted_entries :: "Comparator \<Rightarrow> (bytes \<times> bytes) list \<Rightarrow> bool" where
  "compacted_entries user E \<longleftrightarrow> ordered_entries user E \<and>
     (\<forall>i j. i < j \<and> j < length E \<and> uk E i = uk E j \<longrightarrow> key_seq (fst (E ! i)) \<noteq> key_seq (fst (E ! j)))"

text \<open>An entry that a newer one hides from all snapshots, or a deletion with nothing below it.\<close>

definition hidden :: "(bytes \<times> bytes) list \<Rightarrow> SequenceNumber \<Rightarrow> bytes \<times> bytes \<Rightarrow> bool" where
  "hidden E snap e \<longleftrightarrow> (\<exists>p \<in> set E. ExtractUserKey (fst p) = ExtractUserKey (fst e) \<and> key_seq (fst e) < key_seq (fst p) \<and> key_seq (fst p) \<le> snap)"

definition obsolete :: "VersionSet \<Rightarrow> Compaction \<Rightarrow> SequenceNumber \<Rightarrow> bytes \<times> bytes \<Rightarrow> bool" where
  "obsolete vs c snap e \<longleftrightarrow> key_type (fst e) = kTypeDeletion \<and> key_seq (fst e) \<le> snap \<and> base_key vs c (ExtractUserKey (fst e))"

context strict_ikey_order
begin

lemma newer_strict:
  assumes "compacted_entries user E" "i < j" "j < length E" "uk E i = uk E j"
  shows "key_seq (fst (E ! j)) < key_seq (fst (E ! i))"
proof -
  have "key_seq (fst (E ! j)) \<le> key_seq (fst (E ! i))"
    using newer_before [of E i j] assms Compare_0 by (simp add: compacted_entries_def)
  moreover have "key_seq (fst (E ! i)) \<noteq> key_seq (fst (E ! j))" using assms by (simp add: compacted_entries_def)
  ultimately show ?thesis by simp
qed

text \<open>Only the entry just before can be the newest one that hides an entry.\<close>

lemma hidden_before:
  assumes E: "compacted_entries user E" and n: "n < length E"
  shows "hidden E snap (E ! n) \<longleftrightarrow> 0 < n \<and> uk E (n - 1) = uk E n \<and> key_seq (fst (E ! (n - 1))) \<le> snap"
proof
  assume "hidden E snap (E ! n)"
  then obtain i where i: "i < length E" "uk E i = uk E n" "key_seq (fst (E ! n)) < key_seq (fst (E ! i))" "key_seq (fst (E ! i)) \<le> snap"
    by (auto simp: hidden_def in_set_conv_nth)
  have "i < n"
  proof (rule ccontr)
    assume "\<not> i < n"
    then have "n < i" using i(3) by (metis nat_neq_iff order_less_irrefl)
    then show False using newer_strict [OF E _ i(1)] i(2,3) by force
  qed
  moreover have ord: "ordered_entries user E" using E by (simp add: compacted_entries_def)
  moreover have same: "uk E (n - 1) = uk E n"
  proof -
    have "Compare user (uk E i) (uk E (n - 1)) \<le> 0" "Compare user (uk E (n - 1)) (uk E n) \<le> 0"
      using uk_mono [OF ord, of i "n - 1"] uk_mono [OF ord, of "n - 1" n] \<open>i < n\<close> n by simp_all
    then show ?thesis using i(2) user.compare_le_flip [of "uk E n" "uk E (n - 1)"] Compare_0 by simp
  qed
  moreover have "key_seq (fst (E ! (n - 1))) \<le> key_seq (fst (E ! i))"
  proof (cases "i = n - 1")
    case False
    then have "i < n - 1" using \<open>i < n\<close> by simp
    then have "key_seq (fst (E ! (n - 1))) < key_seq (fst (E ! i))" by (rule newer_strict [OF E]) (use n i(2) same in simp_all)
    then show ?thesis by simp
  qed simp
  ultimately show "0 < n \<and> uk E (n - 1) = uk E n \<and> key_seq (fst (E ! (n - 1))) \<le> snap" using i(4) by auto
next
  assume h: "0 < n \<and> uk E (n - 1) = uk E n \<and> key_seq (fst (E ! (n - 1))) \<le> snap"
  then have "key_seq (fst (E ! n)) < key_seq (fst (E ! (n - 1)))" using newer_strict [OF E, of "n - 1" n] n by simp
  moreover have "E ! (n - 1) \<in> set E" using n by simp
  ultimately show "hidden E snap (E ! n)" using h unfolding hidden_def by blast
qed

text \<open>What the loop remembers after some entries.\<close>

definition drop_state :: "(bytes \<times> bytes) list \<Rightarrow> nat \<Rightarrow> DropState \<Rightarrow> bool" where
  "drop_state E n st \<longleftrightarrow>
     (if n = 0 then current_user_key st = None else current_user_key st = Some (uk E (n - 1)) \<and> last_sequence_for_key st = key_seq (fst (E ! (n - 1))))"

lemma drop_entry_ok:
  assumes u: "vs_user vs = user" and E: "compacted_entries user E" and n: "n < length E" and st: "drop_state E n st" and snap: "snap < kMaxSequenceNumber"
    and c: "deeper_ok vs c" "ptrs_ok vs c (uk E n)" and r: "drop_entry vs snap (fst (E ! n)) st c = (d, st', c')"
  shows "d \<longleftrightarrow> hidden E snap (E ! n) \<or> obsolete vs c snap (E ! n)" "drop_state E (Suc n) st'" "deeper_ok vs c'"
    "c' = c\<lparr>level_ptrs := level_ptrs c'\<rparr>" "ptrs_ok vs c k' \<Longrightarrow> Compare user (uk E n) k' \<le> 0 \<Longrightarrow> ptrs_ok vs c' k'"
proof -
  have "ParseInternalKey (fst (E ! n)) \<noteq> None" using E n by (simp add: compacted_entries_def ordered_entries_def)
  then have p: "ParseInternalKey (fst (E ! n)) = Some \<lparr>user_key = uk E n, sequence = key_seq (fst (E ! n)), vtype = key_type (fst (E ! n))\<rparr>"
    by (rule ParseInternalKey_ok)
  define st1 where "st1 = (if current_user_key st = None \<or> Compare user (uk E n) (the (current_user_key st)) \<noteq> 0
    then \<lparr>current_user_key = Some (uk E n), last_sequence_for_key = kMaxSequenceNumber\<rparr> else st)"
  have hid: "last_sequence_for_key st1 \<le> snap \<longleftrightarrow> hidden E snap (E ! n)"
    using hidden_before [OF E n] st snap Compare_0 by (auto simp: st1_def drop_state_def split: if_splits)
  have key: "current_user_key st1 = Some (uk E n)" using st Compare_0 by (auto simp: st1_def drop_state_def split: if_splits)
  obtain b c1 where base: "IsBaseLevelForKey vs c (uk E n) = (b, c1)" by fastforce
  have ord: "ikey_order (vs_user vs)" unfolding u by (rule ikey_order_axioms)
  note B = IsBaseLevelForKey_ok [OF ord c base]
  have res: "(d, st', c') = (let (d, c) = (if last_sequence_for_key st1 \<le> snap then (True, c)
      else if key_type (fst (E ! n)) = kTypeDeletion \<and> key_seq (fst (E ! n)) \<le> snap then (b, c1) else (False, c))
    in (d, st1\<lparr>last_sequence_for_key := key_seq (fst (E ! n))\<rparr>, c))"
    using r unfolding drop_entry_def p option.case Let_def u ParsedInternalKey.select_convs st1_def [symmetric] base by simp
  then show "d \<longleftrightarrow> hidden E snap (E ! n) \<or> obsolete vs c snap (E ! n)"
    using hid B(1) by (auto simp: obsolete_def split: if_splits)
  show "drop_state E (Suc n) st'" using res key by (auto simp: drop_state_def split: if_splits)
  have cc: "c' = c \<or> c' = c1" using res by (auto split: if_splits)
  show "deeper_ok vs c'" using cc c(1) B(3) by blast
  show "c' = c\<lparr>level_ptrs := level_ptrs c'\<rparr>" using cc B(2) by (elim disjE) simp_all
  show "ptrs_ok vs c' k'" if "ptrs_ok vs c k'" "Compare user (uk E n) k' \<le> 0" using cc that B(4) u by blast
qed

lemma kept_entries_from:
  assumes "vs_user vs = user" "compacted_entries user E" "snap < kMaxSequenceNumber" "n \<le> length E"
    and "drop_state E n st" "deeper_ok vs c" "\<forall>i. n \<le> i \<and> i < length E \<longrightarrow> ptrs_ok vs c (uk E i)"
  shows "kept_entries vs snap st c (drop n E) = filter (\<lambda>e. \<not> (hidden E snap e \<or> obsolete vs c snap e)) (drop n E)"
  using assms(4-7)
proof (induction "length E - n" arbitrary: n st c)
  case (Suc m)
  then have n: "n < length E" by simp
  obtain d st' c' where r: "drop_entry vs snap (fst (E ! n)) st c = (d, st', c')" by (metis prod_cases3)
  have ptr: "ptrs_ok vs c (uk E n)" using Suc.prems(4) n by simp
  note D = drop_entry_ok [OF assms(1,2) n Suc.prems(2) assms(3) Suc.prems(3) ptr r]
  have same: "obsolete vs c' snap = obsolete vs c snap"
    unfolding obsolete_def base_key_def deeper_levels_def by (subst D(4), simp)+
  have ord: "ordered_entries user E" using assms(2) by (simp add: compacted_entries_def)
  have "\<forall>i. Suc n \<le> i \<and> i < length E \<longrightarrow> ptrs_ok vs c' (uk E i)"
    using D(5) Suc.prems(4) uk_mono [OF ord, of n] by (meson Suc_leD)
  then have "kept_entries vs snap st' c' (drop (Suc n) E) = filter (\<lambda>e. \<not> (hidden E snap e \<or> obsolete vs c snap e)) (drop (Suc n) E)"
    using Suc.hyps(1) [of "Suc n" st' c'] Suc.hyps(2) D(2,3) n same by simp
  moreover have "drop n E = E ! n # drop (Suc n) E" using n by (rule Cons_nth_drop_Suc [symmetric])
  ultimately show ?case using r D(1) by simp
qed simp

text \<open>From the beginning.\<close>

lemma kept_entries_eq:
  assumes "vs_user vs = user" "compacted_entries user E" "snap < kMaxSequenceNumber" "deeper_ok vs c" "level_ptrs c = replicate kNumLevels 0"
  shows "kept_entries vs snap DropState_new c E = filter (\<lambda>e. \<not> (hidden E snap e \<or> obsolete vs c snap e)) E"
proof -
  have "ptrs_ok vs c k" for k using assms(5) by (simp add: ptrs_ok_def passed_def deeper_levels_def)
  then show ?thesis
    using kept_entries_from [OF assms(1-3) _ _ assms(4), of 0 DropState_new] by (simp add: drop_state_def DropState_new_def)
qed

lemma file_in_range:
  assumes "file_ok user f kvs" "e \<in> set kvs"
  shows "in_range user (ExtractUserKey (fst e)) f"
proof -
  have ord: "ordered_entries user kvs" and ne: "kvs \<noteq> []" and b: "smallest f = fst (kvs ! 0)" "largest f = fst (kvs ! (length kvs - 1))"
    using assms(1) by (simp_all add: file_ok_def hd_conv_nth last_conv_nth)
  obtain i where i: "i < length kvs" "e = kvs ! i" using assms(2) by (auto simp: in_set_conv_nth)
  have "Compare user (uk kvs 0) (uk kvs i) \<le> 0" "Compare user (uk kvs i) (uk kvs (length kvs - 1)) \<le> 0"
    by (rule uk_mono [OF ord]; use i(1) in simp)+
  then show ?thesis by (simp add: in_range_def b i(2))
qed

end

text \<open>The entries of the files below the output of a compaction, and what a read says.\<close>

definition deeper_entries :: "VersionSet \<Rightarrow> Compaction \<Rightarrow> (nat \<Rightarrow> (bytes \<times> bytes) list) \<Rightarrow> (bytes \<times> bytes) set" where
  "deeper_entries vs c tbl = (\<Union>lvl \<in> set (deeper_levels c). entries tbl (input_files vs c ! lvl))"

definition read_answer :: "(Status + bytes) option \<Rightarrow> Status + bytes" where
  "read_answer r = (case r of None \<Rightarrow> Inl (NotFound [] []) | Some a \<Rightarrow> a)"

text \<open>No entry elsewhere is older than a deletion among the inputs that may be dropped.\<close>

definition newer_than_deletions :: "(bytes \<times> bytes) set \<Rightarrow> SequenceNumber \<Rightarrow> (bytes \<times> bytes) set \<Rightarrow> bool" where
  "newer_than_deletions N snap E \<longleftrightarrow> (\<forall>n \<in> N. \<forall>e \<in> E. key_type (fst e) = kTypeDeletion \<longrightarrow> key_seq (fst e) \<le> snap \<longrightarrow>
     ExtractUserKey (fst n) = ExtractUserKey (fst e) \<longrightarrow> key_seq (fst e) < key_seq (fst n))"

text \<open>C9: A compaction drops entries that a newer entry hides and deletions with nothing below them, in one pass over
  its input in order. Provided that no entry \<open>N\<close> outside the inputs and outside the levels below the outputs is older
  than a deletion of its user key among the inputs that all snapshots see, reads do not see what is dropped: at any
  snapshot that is not older than the oldest one in use, the newest visible entry among \<open>N\<close>, those the compaction
  keeps and those of the levels below it gives the answer that all entries gave before. Inputs are in order, with one
  entry for a user key and a sequence number, the levels below have files in order of their user keys, where two files may share one, each with
  entries within its bounds, and the comparator orders keys totally. The condition on \<open>N\<close> holds for all that is
  newer than the inputs; it can fail for a file of level zero that is left there although it overlaps an input.\<close>

theorem compaction_keeps_reads:
  assumes "strict_ikey_order (vs_user vs)" "compacted_entries (vs_user vs) E" "snap < kMaxSequenceNumber"
    and "deeper_ok vs c" "level_ptrs c = replicate kNumLevels 0"
    and "\<forall>lvl \<in> set (deeper_levels c). \<forall>a \<in> set (input_files vs c ! lvl). file_ok (vs_user vs) (the_meta vs a) (tbl a)"
    and "newer_than_deletions N snap (set E)" "snap \<le> s" "lookup_in (N \<union> set E \<union> deeper_entries vs c tbl) k s r"
  shows "\<exists>r'. lookup_in (N \<union> set (kept_entries vs snap DropState_new c E) \<union> deeper_entries vs c tbl) k s r' \<and>
    read_answer r' = read_answer r"
proof -
  let ?O = "deeper_entries vs c tbl" and ?K = "kept_entries vs snap DropState_new c E"
  have K: "set ?K = {e \<in> set E. \<not> hidden E snap e \<and> \<not> obsolete vs c snap e}"
    using strict_ikey_order.kept_entries_eq [OF assms(1) refl assms(2-5)] by auto
  have base: "ExtractUserKey (fst o') \<noteq> ExtractUserKey (fst e)" if "obsolete vs c snap e" "o' \<in> ?O" for e o'
  proof
    assume eq: "ExtractUserKey (fst o') = ExtractUserKey (fst e)"
    obtain lvl a where a: "lvl \<in> set (deeper_levels c)" "a \<in> set (input_files vs c ! lvl)" "o' \<in> set (tbl a)"
      using \<open>o' \<in> ?O\<close> unfolding deeper_entries_def entries_def by blast
    have "in_range (vs_user vs) (ExtractUserKey (fst o')) (the_meta vs a)"
      by (rule strict_ikey_order.file_in_range [OF assms(1) _ a(3)]) (use assms(6) a in blast)
    then show False using \<open>obsolete vs c snap e\<close> a(1,2) unfolding eq obsolete_def base_key_def by blast
  qed
  show ?thesis
  proof (cases r)
    case None
    then have "lookup_in (N \<union> set ?K \<union> ?O) k s None" using assms(9) K by (auto simp: lookup_in_def)
    then show ?thesis using None by blast
  next
    case (Some a)
    then obtain e where e: "newest_visible (N \<union> set E \<union> ?O) k s e" "a = entry_answer e" using assms(9) unfolding lookup_in_def Some option.case by blast
    show ?thesis
    proof (cases "e \<in> N \<union> set ?K \<union> ?O")
      case True
      then have "newest_visible (N \<union> set ?K \<union> ?O) k s e" using e(1) unfolding newest_visible_def K by blast
      then show ?thesis using lookup_in_SomeI e(2) Some by metis
    next
      case False
      then have eE: "e \<in> set E" and drop: "hidden E snap e \<or> obsolete vs c snap e" using e(1) unfolding newest_visible_def K by blast+
      have vis: "ExtractUserKey (fst e) = k" "key_seq (fst e) \<le> s"
        "\<And>e'. e' \<in> N \<union> set E \<union> ?O \<Longrightarrow> entry_visible k s e' \<Longrightarrow> key_seq (fst e') \<le> key_seq (fst e)"
        using e(1) unfolding newest_visible_def entry_visible_def by blast+
      have "\<not> hidden E snap e"
      proof
        assume "hidden E snap e"
        then obtain p where p: "p \<in> set E" "ExtractUserKey (fst p) = k" "key_seq (fst e) < key_seq (fst p)" "key_seq (fst p) \<le> snap"
          using vis(1) by (auto simp: hidden_def)
        then have "entry_visible k s p" using assms(8) by (simp add: entry_visible_def)
        then show False using vis(3) [of p] p(1,3) by simp
      qed
      then have ob: "obsolete vs c snap e" using drop by blast
      have "\<not> entry_visible k s e'" if e': "e' \<in> N \<union> set ?K \<union> ?O" for e'
      proof
        assume v: "entry_visible k s e'"
        have "e' \<in> N \<union> set E \<union> ?O" using e' K by blast
        then have le: "key_seq (fst e') \<le> key_seq (fst e)" using v by (rule vis(3))
        have uke: "ExtractUserKey (fst e') = ExtractUserKey (fst e)" using v vis(1) by (simp add: entry_visible_def)
        have "e' \<notin> ?O" using base [OF ob] uke by blast
        moreover have "e' \<notin> N"
        proof
          assume "e' \<in> N"
          then have "key_seq (fst e) < key_seq (fst e')" using assms(7) eE uke ob unfolding newer_than_deletions_def obsolete_def by blast
          then show False using le by simp
        qed
        ultimately have kept: "e' \<in> set E" "\<not> hidden E snap e'" "e' \<noteq> e" using e' K ob by auto
        moreover have "key_seq (fst e') \<noteq> key_seq (fst e)"
        proof
          assume eq: "key_seq (fst e') = key_seq (fst e)"
          obtain i j where "i < length E" "e' = E ! i" "j < length E" "e = E ! j" using kept(1) eE by (metis in_set_conv_nth)
          then show False using assms(2) kept(3) uke eq unfolding compacted_entries_def by (metis nat_neq_iff)
        qed
        ultimately have "hidden E snap e'" using le eE uke ob unfolding hidden_def obsolete_def by force
        then show False using kept(2) by simp
      qed
      then have "lookup_in (N \<union> set ?K \<union> ?O) k s None" by (simp add: lookup_in_def)
      moreover have "a = Inl (NotFound [] [])" using ob e(2) by (simp add: obsolete_def entry_answer_def)
      ultimately show ?thesis using Some by (auto simp: read_answer_def intro!: exI [of _ None])
    qed
  qed
qed

text \<open>Two deletions and the value that one hides; a file of level three has a value for the other. A newer value is elsewhere.\<close>

definition drop_set :: VersionSet where
  "drop_set = (VersionSet_new ''/db'' BytewiseComparator)
     \<lparr>metas := [0 \<mapsto> split_meta 4 2 1 2 1], versions := [0 \<mapsto> Version_new\<lparr>v_refs := 1, v_files := [[], [], [], [0], [], [], []]\<rparr>]\<rparr>"

definition drop_compaction :: Compaction where
  "drop_compaction = (Compaction_new 0)\<lparr>input_version := Some 0\<rparr>"

definition drop_input :: "(bytes \<times> bytes) list" where
  "drop_input = [(InternalKey [1] 8 kTypeDeletion, []), (InternalKey [1] 5 kTypeValue, [7]), (InternalKey [2] 6 kTypeDeletion, [])]"

definition drop_deeper :: "nat \<Rightarrow> (bytes \<times> bytes) list" where
  "drop_deeper a = [(InternalKey [2] 1 kTypeValue, [4])]"

definition drop_newer :: "(bytes \<times> bytes) set" where
  "drop_newer = {(InternalKey [1] 12 kTypeValue, [3])}"

lemma drop_input_ok: "compacted_entries BytewiseComparator drop_input"
proof -
  have "InternalKey_Compare BytewiseComparator (InternalKey [1] 8 kTypeDeletion) (InternalKey [1] 5 kTypeValue) < 0"
    by (rule bytewise_ikey.newer_first) (simp_all add: kMaxSequenceNumber_def)
  moreover have "InternalKey_Compare BytewiseComparator (InternalKey [1] s t) (InternalKey [2] 6 kTypeDeletion) < 0" for s t
    by (simp add: InternalKey_Compare_def)
  ultimately have "ordered_entries BytewiseComparator drop_input"
    by (simp add: drop_input_def ordered_entries_def sorted_pairs_def ParseInternalKey_InternalKey kMaxSequenceNumber_def)
  then show ?thesis
    by (auto simp: compacted_entries_def drop_input_def less_Suc_eq nth_Cons' key_parts_InternalKey kMaxSequenceNumber_def)
qed

lemma drop_files:
  "vs_user drop_set = BytewiseComparator" "input_files drop_set drop_compaction = [[], [], [], [0], [], [], []]" "the_meta drop_set 0 = split_meta 4 2 1 2 1"
  "deeper_levels drop_compaction = [2, 3, 4, 5, 6]" "level_ptrs drop_compaction = replicate kNumLevels 0"
  by (simp_all add: drop_set_def drop_compaction_def VersionSet_new_def AppendVersion_def Version_Ref_def Let_def Compaction_new_def deeper_levels_def
      kNumLevels_def upt_rec)

lemma drop_deeper_ok: "deeper_ok drop_set drop_compaction" "file_ok BytewiseComparator (split_meta 4 2 1 2 1) (drop_deeper a)"
  "deeper_entries drop_set drop_compaction drop_deeper = {(InternalKey [2] 1 kTypeValue, [4])}"
  by (simp_all add: deeper_ok_def drop_files user_level_ok_def file_ok_def ordered_entries_def sorted_pairs_def drop_deeper_def deeper_entries_def entries_def
      ParseInternalKey_InternalKey kMaxSequenceNumber_def)

lemma drop_newest:
  assumes "k = [1] \<or> k = [2]"
  shows "lookup_in (drop_newer \<union> set drop_input \<union> deeper_entries drop_set drop_compaction drop_deeper) k 10 (Some (Inl (NotFound [] [])))"
proof -
  let ?e = "if k = [1] then (InternalKey [1] 8 kTypeDeletion, []) else (InternalKey [2] 6 kTypeDeletion, [])"
  have "newest_visible (drop_newer \<union> set drop_input \<union> deeper_entries drop_set drop_compaction drop_deeper) k 10 ?e"
    using assms by (auto simp: drop_deeper_ok drop_newer_def drop_input_def newest_visible_def entry_visible_def key_parts_InternalKey kMaxSequenceNumber_def)
  moreover have "entry_answer ?e = Inl (NotFound [] [])" by (simp add: entry_answer_def key_parts_InternalKey)
  ultimately show ?thesis using lookup_in_SomeI by metis
qed

theorem compaction_keeps_reads_witness:
  "\<exists>r r'. lookup_in (drop_newer \<union> set (kept_entries drop_set 9 DropState_new drop_compaction drop_input) \<union>
      deeper_entries drop_set drop_compaction drop_deeper) [1] 10 r \<and> read_answer r = Inl (NotFound [] []) \<and>
    lookup_in (drop_newer \<union> set (kept_entries drop_set 9 DropState_new drop_compaction drop_input) \<union>
      deeper_entries drop_set drop_compaction drop_deeper) [2] 10 r' \<and> read_answer r' = Inl (NotFound [] [])"
proof -
  have new: "newer_than_deletions drop_newer 9 (set drop_input)"
    by (simp add: newer_than_deletions_def drop_newer_def drop_input_def key_parts_InternalKey kMaxSequenceNumber_def)
  have "\<exists>r. lookup_in (drop_newer \<union> set (kept_entries drop_set 9 DropState_new drop_compaction drop_input) \<union>
      deeper_entries drop_set drop_compaction drop_deeper) k 10 r \<and> read_answer r = read_answer (Some (Inl (NotFound [] [])))"
    if "k = [1] \<or> k = [2]" for k
    by (intro compaction_keeps_reads [OF _ _ _ drop_deeper_ok(1) drop_files(5)])
      (use drop_newest [OF that] new in \<open>simp_all add: drop_files drop_deeper_ok drop_input_ok bytewise_strict.strict_ikey_order_axioms kMaxSequenceNumber_def\<close>)
  from this [of "[1]"] this [of "[2]"] show ?thesis by (auto simp: read_answer_def)
qed

end
