(* ===== verification/Spec2Isabelle.thy ===== *)
theory Spec2Isabelle
  imports Write_Batch Recovery Version_Steps Compaction
begin

text \<open>
  \<^bold>\<open>LevelDB, a key-value store: its formats, data structures and versions.\<close>

  LevelDB keeps pairs of byte strings in order. A write is a batch (\<open>db/write_batch.cc\<close>) that is
  appended to a log (\<open>db/log_writer.cc\<close>) and inserted into a memtable (\<open>db/memtable.cc\<close>), which is
  a skip list (\<open>db/skiplist.h\<close>) of internal keys (\<open>db/dbformat.cc\<close>): a user key, a sequence
  number and whether the entry is a value or a deletion. A full memtable is written to a table file
  (\<open>db/builder.cc\<close>, \<open>table/table_builder.cc\<close>) made of blocks (\<open>table/block_builder.cc\<close>). The
  table files are arranged in seven levels; a version (\<open>db/version_set.cc\<close>) says which files are in which level, and
  edits (\<open>db/version_edit.cc\<close>) that lead from one version to the next are appended to a
  descriptor log, from which the current version is recovered. A read searches the memtables and then
  the files of a version through a cache of open tables (\<open>db/table_cache.cc\<close>, \<open>util/cache.cc\<close>);
  an iterator merges all of them (\<open>table/merger.cc\<close>, \<open>table/two_level_iterator.cc\<close>) and shows the
  newest entry of each user key that a snapshot sees (\<open>db/db_iter.cc\<close>). File names below are those under
  \<open>src/leveldb_src\<close>.

  \<^bold>\<open>How the code is modelled.\<close> A class is a record, an enumeration or a set of subclasses is a
  datatype, a method is a function from the state to the result and the new state, with its early
  returns and errors as branches. A \<open>Status\<close> is a datatype with a constructor for each code. Integers of 8, 32 and 64
  bits that are stored, encoded or computed with are words with their wrap-around. Lengths, indices and counts that memory
  bounds are numbers without wrap-around, also where the source keeps them in 32 bits: positions in a block, the length
  that \<open>Slice::compare\<close> compares, the size of the hash table of the cache, reference counts and allowed seeks. A
  string or slice of bytes is a list of 8-bit words, a file name a list of characters. Objects that are shared
  and counted (skip list nodes, in-memory files, cache handles, versions, file
  metadata) live in explicit stores from addresses to records, so that aliasing and the moment
  of deletion are visible. A virtual interface (\<open>Comparator\<close>, \<open>Iterator\<close>, the file classes, \<open>Env\<close> for writing) is a record of functions over
  a state type, and its contract is a locale: \<open>key_order\<close> and \<open>comparator\<close> (theory \<open>Comparators\<close>),
  \<open>sequential_file\<close>, \<open>writable_file\<close> and \<open>random_access_file\<close> (\<open>Files\<close>), \<open>iterator\<close>
  (\<open>Iterators\<close>), \<open>ikey_order\<close> and \<open>prefix_comparator\<close> (\<open>Dbformat\<close>), \<open>two_level\<close>, \<open>table_writer\<close>, \<open>db_iterator\<close>,
  \<open>strict_ikey_order\<close> and \<open>table_store\<close> (\<open>Version\<close>). Each is interpreted on the model: the bytewise comparator, the
  files of the in-memory environment, the iterators of blocks, tables, levels and merged iterators, the
  table cache.

  Loops that end are recursive functions with a termination proof. Loops over a file or an iterator that the model
  cannot bound are partial functions into \<open>option\<close>, where \<open>None\<close> stands for a loop that does not
  end; the theorems prove that a result is returned. Fuel occurs only in \<open>ReadRecords\<close>, which iterates
  \<open>ReadRecord\<close> for the statements: one more than the number of records is enough.

  \<^bold>\<open>The theories.\<close>

  \<^item> \<open>Prelude\<close>: types of bytes and words and the lemmas on lists and words that all theories share.
  \<^item> \<open>Coding\<close> (\<open>util/coding.cc\<close>): fixed and variable length integers; they are read back.
  \<^item> \<open>Crc32c\<close> (\<open>util/crc32c.cc\<close>): the table-driven checksum computes the polynomial one bit by bit.
  \<^item> \<open>Util\<close> (\<open>util/hash.cc\<close>, \<open>util/random.h\<close>, \<open>util/status.cc\<close>): hash, random numbers, statuses.
  \<^item> \<open>Comparators\<close> (\<open>util/comparator.cc\<close>), \<open>Dbformat\<close> (\<open>db/dbformat.cc\<close>): orders of user and
    internal keys and their separators; these divide the keys for user comparators that treat a key in front of more
    bytes as a lower bound, since the source hands them the whole internal key.
  \<^item> \<open>Files\<close>, \<open>Memenv\<close> (\<open>helpers/memenv/memenv.cc\<close>): files in memory and the environment with its reference
    counts; invariant, survival of open files. \<open>EnvOps\<close> are the operations of any environment that writes files and may fail.
  \<^item> \<open>Log\<close>, \<open>Log_Roundtrip\<close> (\<open>db/log_writer.cc\<close>, \<open>db/log_reader.cc\<close>): records are read back, a log that
    was cut off yields its complete records, the reader terminates on any bytes.
  \<^item> \<open>Skiplist\<close>, \<open>Skiplist_Race\<close> (\<open>db/skiplist.h\<close>): the list holds the inserted keys; a search
    that runs between the stores of an insertion still completes.
  \<^item> \<open>Memtable\<close>, \<open>Write_Batch\<close> (\<open>db/memtable.cc\<close>, \<open>db/write_batch.cc\<close>): a batch that was applied is read back.
  \<^item> \<open>Iterators\<close> (\<open>table/iterator.cc\<close>), \<open>Block\<close> (\<open>table/block.cc\<close>, \<open>table/block_builder.cc\<close>), \<open>Merger\<close>
    (\<open>table/merger.cc\<close>), \<open>Two_Level\<close> (\<open>table/two_level_iterator.cc\<close>): each iterator behaves as a
    cursor in a sorted list of pairs.
  \<^item> \<open>Table_Format\<close>, \<open>Table\<close>, \<open>Table_Roundtrip\<close>, \<open>Table_Bytes\<close> (\<open>table/format.cc\<close>, \<open>table/table.cc\<close>,
    \<open>table/table_builder.cc\<close>): a table that was built is opened and iterates over its pairs.
  \<^item> \<open>Logging\<close>, \<open>Filename\<close> (\<open>util/logging.cc\<close>, \<open>db/filename.cc\<close>, \<open>util/env.cc\<close>): names are parsed back, and
    the CURRENT file is replaced as a whole.
  \<^item> \<open>Version_Edit\<close> (\<open>db/version_edit.cc\<close>): edits are decoded from their encoding.
  \<^item> \<open>DB_Iter\<close> (\<open>db/db_iter.cc\<close>): the iterator over user keys at a snapshot.
  \<^item> \<open>Cache\<close>, \<open>Cache_Values\<close> (\<open>util/cache.cc\<close>): the sharded cache is a map that forgets the oldest
    entries; every value is live or was given to its deleter once.
  \<^item> \<open>Version\<close> (\<open>db/version_set.cc\<close>, reading): the search of the files of a version finds the newest
    entry a snapshot sees.
  \<^item> \<open>Table_Cache\<close> (\<open>db/table_cache.cc\<close>), \<open>Builder\<close> (\<open>db/builder.cc\<close>): open tables and their
    release; a table that was built can be read through the cache.
  \<^item> \<open>Version_Set\<close> (\<open>db/version_set.cc\<close>): the state and operations of the set of versions, the
    builder, the descriptor log and recovery. \<open>Version_Refs\<close> has the invariant of the reference counts,
    \<open>Version_Builder\<close> what a builder holds, \<open>Version_Apply\<close> that \<open>LogAndApply\<close> makes of a version what the
    edit says, \<open>Version_Steps\<close> the invariant over sequences of operations with clients that hold
    versions, and that applying an edit is all or nothing, \<open>Recovery\<close> that recovery restores what was logged. Invariant and edits are over any environment, so each step of logging may
    fail; recovery is proved for the environment in memory.
  \<^item> \<open>Compaction\<close> (\<open>db/version_set.cc\<close>, and the rule of \<open>DBImpl::DoCompactionWork\<close> by which entries are dropped): the inputs
    of a compaction are closed in the next level; the entries that are dropped change no read at a snapshot that is in use,
    provided that no entry elsewhere is older than a deletion that is dropped.

  \<^bold>\<open>Not modelled.\<close> The control flow of \<open>db/db_impl.cc\<close> with its background thread and its use of the mutex, so the outputs of a
  compaction are the list of its kept entries and not yet files; \<open>MakeInputIterator\<close> and \<open>ApproximateOffsetOf\<close> of \<open>db/version_set.cc\<close>; snapshots, repair and the C interface. The POSIX and Windows environments, atomic
  pointers, locks and threads are system interfaces; the theorem on concurrent searches states the
  interleaving it considers. The arena hands out raw memory. Compression is a parameter
  \<open>Snappy\<close> with the hypothesis \<open>snappy_ok\<close>, that uncompressing gives back what was compressed. Messages to the
  information log and assertions are left out. Scores of levels are exact rational numbers instead
  of floating-point numbers.
\<close>

end
